(* ===== verification/Prelude.thy ===== *)
theory Prelude
  imports Main "HOL-Library.Word"
begin

text \<open>
  What every component of the kernel model shares: the machine integers of \<open>types.h\<close>,
  the constants of \<open>param.h\<close>, the address arithmetic of \<open>mmu.h\<close> and \<open>memlayout.h\<close>, the
  result type of kernel code (a value, or the reason why control does not come back), its
  sequencing combinator with a rule for postconditions, table scans, and byte-addressed
  memory with little-endian 32-bit loads and stores.
\<close>

unbundle bit_operations_syntax

named_theorems post_intros
named_theorems word_mem

section \<open>Machine integers\<close>

type_synonym uchar = "8 word"
type_synonym ushort = "16 word"
type_synonym uint = "32 word"

section \<open>Constants of param.h, memlayout.h and mmu.h\<close>

abbreviation (input) NPROC :: nat where "NPROC \<equiv> 64"
abbreviation (input) KSTACKSIZE :: uint where "KSTACKSIZE \<equiv> 4096"
abbreviation (input) NCPU :: nat where "NCPU \<equiv> 8"
abbreviation (input) NOFILE :: nat where "NOFILE \<equiv> 16"
abbreviation (input) NFILE :: nat where "NFILE \<equiv> 100"
abbreviation (input) NINODE :: nat where "NINODE \<equiv> 50"
abbreviation (input) NDEV :: int where "NDEV \<equiv> 10"
abbreviation (input) ROOTDEV :: uint where "ROOTDEV \<equiv> 1"
abbreviation (input) MAXARG :: nat where "MAXARG \<equiv> 32"
abbreviation (input) MAXOPBLOCKS :: nat where "MAXOPBLOCKS \<equiv> 10"
abbreviation (input) LOGSIZE :: nat where "LOGSIZE \<equiv> 30"
abbreviation (input) NBUF :: nat where "NBUF \<equiv> 30"

abbreviation (input) PROT_READ :: uint where "PROT_READ \<equiv> 1"
abbreviation (input) PROT_WRITE :: uint where "PROT_WRITE \<equiv> 2"
abbreviation (input) MAP_ANONYMOUS :: uint where "MAP_ANONYMOUS \<equiv> 1"
abbreviation (input) MAP_POPULATE :: uint where "MAP_POPULATE \<equiv> 2"
abbreviation (input) MMAPBASE :: uint where "MMAPBASE \<equiv> 0x40000000"

abbreviation (input) EXTMEM :: uint where "EXTMEM \<equiv> 0x100000"
abbreviation (input) PHYSTOP :: uint where "PHYSTOP \<equiv> 0xE000000"
abbreviation (input) DEVSPACE :: uint where "DEVSPACE \<equiv> 0xFE000000"
abbreviation (input) KERNBASE :: uint where "KERNBASE \<equiv> 0x80000000"
abbreviation (input) KERNLINK :: uint where "KERNLINK \<equiv> 0x80100000"

abbreviation (input) PGSIZE :: uint where "PGSIZE \<equiv> 4096"
abbreviation (input) NPDENTRIES :: nat where "NPDENTRIES \<equiv> 1024"
abbreviation (input) PTE_P :: uint where "PTE_P \<equiv> 1"
abbreviation (input) PTE_W :: uint where "PTE_W \<equiv> 2"
abbreviation (input) PTE_U :: uint where "PTE_U \<equiv> 4"

definition V2P :: "uint \<Rightarrow> uint" where
  "V2P a = a - KERNBASE"

definition P2V :: "uint \<Rightarrow> uint" where
  "P2V a = a + KERNBASE"

definition PDX :: "uint \<Rightarrow> uint" where
  "PDX va = drop_bit 22 va AND 0x3FF"

definition PTX :: "uint \<Rightarrow> uint" where
  "PTX va = drop_bit 12 va AND 0x3FF"

definition PGADDR :: "uint \<Rightarrow> uint \<Rightarrow> uint \<Rightarrow> uint" where
  "PGADDR d t off = push_bit 22 d OR push_bit 12 t OR off"

definition PGROUNDUP :: "uint \<Rightarrow> uint" where
  "PGROUNDUP sz = (sz + PGSIZE - 1) AND NOT (PGSIZE - 1)"

definition PGROUNDDOWN :: "uint \<Rightarrow> uint" where
  "PGROUNDDOWN a = a AND NOT (PGSIZE - 1)"

definition PTE_ADDR :: "uint \<Rightarrow> uint" where
  "PTE_ADDR pte = pte AND NOT 0xFFF"

definition PTE_FLAGS :: "uint \<Rightarrow> uint" where
  "PTE_FLAGS pte = pte AND 0xFFF"

lemma V2P_P2V [simp]: "V2P (P2V a) = a"
  by (simp add: V2P_def P2V_def)

lemma P2V_V2P [simp]: "P2V (V2P a) = a"
  by (simp add: V2P_def P2V_def)

subsection \<open>Page alignment\<close>

text \<open>The masks of \<open>mmu.h\<close> read as arithmetic on the unsigned value.\<close>

lemma and_minus_4096: "a AND - 4096 = push_bit 12 (drop_bit 12 a)" for a :: uint
proof -
  have "(- 4096 :: uint) = NOT (mask 12)" by (simp add: mask_eq_exp_minus_1)
  moreover have "a AND NOT (mask 12) = push_bit 12 (drop_bit 12 a)"
    by (rule bit_word_eqI)
      (auto simp: bit_and_iff bit_not_iff bit_mask_iff bit_push_bit_iff bit_drop_bit_eq not_less)
  ultimately show ?thesis by (simp only:)
qed

lemma unat_and_minus_4096: "unat (a AND - 4096) = unat a - unat a mod 4096" for a :: uint
proof -
  have d: "unat (drop_bit 12 a) = unat a div 4096"
    by (simp add: drop_bit_eq_div unat_div)
  have "unat a div 4096 * 4096 \<le> unat a" by simp
  moreover have "unat a < 2 ^ 32" using unsigned_less [of a] by simp
  ultimately have "unat a div 4096 * 4096 < 2 ^ 32" by linarith
  then have "unat (push_bit 12 (drop_bit 12 a)) = unat a div 4096 * 4096"
    using d by (simp add: push_bit_eq_mult unat_word_ariths)
  then show ?thesis
    using and_minus_4096 [of a] by (simp add: minus_mod_eq_div_mult)
qed

lemma and_4095: "a AND 4095 = a mod 4096" for a :: uint
proof -
  have "a AND mask 12 = take_bit 12 a"
    by (simp add: take_bit_eq_mask)
  then show ?thesis
    by (simp add: mask_eq_exp_minus_1 take_bit_eq_mod)
qed

lemma mod_0_ex: "n mod d = 0 \<Longrightarrow> \<exists>k. n = d * k" for n d :: nat
  by auto

lemma unat_inject: "unat a = unat b \<Longrightarrow> a = b" for a b :: "'a :: len word"
  by (simp add: word_unat_eq_iff)

lemma unat_lt_2_32: "unat (a :: uint) < 4294967296"
  using unsigned_less [of a] by simp

lemma unat_mod_numeral [simp]:
  "unat ((a :: uint) mod 4096) = unat a mod 4096"
  "unat (a mod 512) = unat a mod 512"
  "unat (a mod 4) = unat a mod 4"
  by (simp_all add: unat_mod)

lemma mod_eq_0_unat:
  "(a :: uint) mod 4096 = 0 \<longleftrightarrow> unat a mod 4096 = 0"
  "a mod 4 = 0 \<longleftrightarrow> unat a mod 4 = 0"
  by (simp_all add: unat_mod flip: unat_eq_0)

definition pg_aligned :: "uint \<Rightarrow> bool" where
  "pg_aligned a \<longleftrightarrow> unat a mod 4096 = 0"

lemma unat_PGROUNDDOWN: "unat (PGROUNDDOWN a) = unat a - unat a mod 4096"
  by (simp add: PGROUNDDOWN_def unat_and_minus_4096)

lemma PTE_ADDR_eq_PGROUNDDOWN: "PTE_ADDR a = PGROUNDDOWN a"
  by (simp add: PGROUNDDOWN_def PTE_ADDR_def)

lemma pg_aligned_PGROUNDDOWN [simp]: "pg_aligned (PGROUNDDOWN a)"
  by (simp add: pg_aligned_def unat_PGROUNDDOWN minus_mod_eq_div_mult)

lemma PGROUNDDOWN_aligned [simp]: "pg_aligned a \<Longrightarrow> PGROUNDDOWN a = a"
  by (rule unat_inject) (simp add: unat_PGROUNDDOWN pg_aligned_def)

lemma PGROUNDUP_eq_PGROUNDDOWN: "PGROUNDUP sz = PGROUNDDOWN (sz + 4095)"
  by (simp add: PGROUNDUP_def PGROUNDDOWN_def add.commute [of 4095])

lemma pg_aligned_PGROUNDUP: "pg_aligned (PGROUNDUP sz)"
  by (simp add: PGROUNDUP_eq_PGROUNDDOWN pg_aligned_PGROUNDDOWN)

lemma unat_PGROUNDUP:
  assumes "unat sz + 4095 < 4294967296"
  shows "unat (PGROUNDUP sz) = (unat sz + 4095) div 4096 * 4096"
proof -
  have "unat (sz + 4095) = unat sz + 4095"
    using assms by (simp add: unat_word_ariths)
  then show ?thesis
    by (simp add: PGROUNDUP_def unat_and_minus_4096 minus_mod_eq_div_mult add.commute [of 4095])
qed

lemma unat_diff_word:
  "unat (x - a) = (if unat a \<le> unat x then unat x - unat a else unat x + 4294967296 - unat a)"
  for x a :: uint
  using unat_sub_if_size [of x a] unfolding word_size by simp

lemma in_page_iff:
  assumes "pg_aligned a"
  shows "unat (x - a) < 4096 \<longleftrightarrow> PGROUNDDOWN x = a"
proof
  assume lt: "unat (x - a) < 4096"
  obtain k where k: "unat a = 4096 * k"
    using assms unfolding pg_aligned_def by (blast dest: mod_0_ex)
  have "k < 1048576" using k unat_lt_2_32 [of a] by simp
  then have le: "4096 * k \<le> unat x" "unat x - 4096 * k < 4096"
    using lt by (auto simp: unat_diff_word k split: if_splits)
  then have "unat x div 4096 = k"
    by (intro div_nat_eqI) simp_all
  then have "unat x - unat x mod 4096 = unat a"
    by (simp add: minus_mod_eq_div_mult k)
  then show "PGROUNDDOWN x = a"
    by (intro unat_inject) (simp add: unat_PGROUNDDOWN)
next
  assume "PGROUNDDOWN x = a"
  then have "unat a = unat x - unat x mod 4096"
    using unat_PGROUNDDOWN by metis
  moreover have "unat x mod 4096 < 4096" by simp
  ultimately show "unat (x - a) < 4096"
    by (simp add: unat_diff_word)
qed

section \<open>Results of kernel code\<close>

text \<open>
  Kernel code returns, or control does not come back to the caller: \<open>panic()\<close> halts the
  machine, a \<open>NULL\<close> or wild pointer is dereferenced, a loop never ends, or \<open>sched()\<close>
  switches to the scheduler in the state that \<^verbatim>\<open>Swtch\<close> carries. \<open>Inr\<close> holds the normal
  result; \<open>seq\<close> runs the rest of a function only after a normal result.
\<close>

datatype 's stop = Panic string | Fault string | Diverge | Swtch 's

fun seq :: "'e + 'a \<Rightarrow> ('a \<Rightarrow> 'e + 'b) \<Rightarrow> 'e + 'b" where
  "seq (Inl e) f = Inl e"
| "seq (Inr x) f = f x"

definition post :: "('a \<Rightarrow> bool) \<Rightarrow> 'e + 'a \<Rightarrow> bool" where
  "post Q r \<longleftrightarrow> (\<forall>x. r = Inr x \<longrightarrow> Q x)"

lemma seq_cong [fundef_cong]:
  "m = m' \<Longrightarrow> (\<And>x. m' = Inr x \<Longrightarrow> f x = g x) \<Longrightarrow> seq m f = seq m' g"
  by (cases m') auto

lemma seq_eq_Inr_iff: "seq m f = Inr y \<longleftrightarrow> (\<exists>x. m = Inr x \<and> f x = Inr y)"
  by (cases m) auto

lemma seq_eq_Inl_iff: "seq m f = Inl e \<longleftrightarrow> m = Inl e \<or> (\<exists>x. m = Inr x \<and> f x = Inl e)"
  by (cases m) auto

lemma seq_assoc: "seq (seq m f) g = seq m (\<lambda>x. seq (f x) g)"
  by (cases m) auto

lemma post_Inr [simp]: "post Q (Inr x) = Q x"
  by (simp add: post_def)

lemma post_Inl [simp]: "post Q (Inl e)"
  by (simp add: post_def)

lemma post_seq [simp]: "post Q (seq m f) = post (\<lambda>x. post Q (f x)) m"
  by (cases m) auto

lemma post_mono: "post P m \<Longrightarrow> (\<And>x. P x \<Longrightarrow> Q x) \<Longrightarrow> post Q m"
  by (simp add: post_def)

lemma postI: "(\<And>x. m = Inr x \<Longrightarrow> Q x) \<Longrightarrow> post Q m"
  by (simp add: post_def)

lemma postD: "post Q m \<Longrightarrow> m = Inr x \<Longrightarrow> Q x"
  by (simp add: post_def)

lemma post_conj: "post (\<lambda>x. P x \<and> Q x) m \<longleftrightarrow> post P m \<and> post Q m"
  by (auto simp: post_def)

text \<open>Running an operation \<open>n\<close> times and collecting what it returns.\<close>

fun times :: "nat \<Rightarrow> ('s \<Rightarrow> 'e + ('a \<times> 's)) \<Rightarrow> 's \<Rightarrow> 'e + ('a list \<times> 's)" where
  "times 0 f s = Inr ([], s)"
| "times (Suc n) f s = seq (f s) (\<lambda>(x, s). seq (times n f s) (\<lambda>(xs, s). Inr (x # xs, s)))"

section \<open>Scanning a table\<close>

text \<open>
  The kernel's tables are fixed arrays searched front to back for the first entry that
  satisfies a test; \<open>scan\<close> gives its index.
\<close>

fun scan :: "('a \<Rightarrow> bool) \<Rightarrow> 'a list \<Rightarrow> nat option" where
  "scan P [] = None"
| "scan P (x # xs) = (if P x then Some 0 else map_option Suc (scan P xs))"

lemma scan_None_iff: "scan P xs = None \<longleftrightarrow> (\<forall>x \<in> set xs. \<not> P x)"
  by (induction xs) auto

lemma scan_Some_iff:
  "scan P xs = Some i \<longleftrightarrow> i < length xs \<and> P (xs ! i) \<and> (\<forall>j < i. \<not> P (xs ! j))"
proof (induction xs arbitrary: i)
  case Nil
  then show ?case by simp
next
  case (Cons x xs)
  show ?case
    by (cases i) (auto simp: Cons.IH less_Suc_eq_0_disj nth_Cons')
qed

lemma scan_SomeD: "scan P xs = Some i \<Longrightarrow> i < length xs \<and> P (xs ! i)"
  by (simp add: scan_Some_iff)

section \<open>Byte-addressed memory\<close>

type_synonym memory = "uint \<Rightarrow> uchar"

definition ld32 :: "memory \<Rightarrow> uint \<Rightarrow> uint" where
  "ld32 m a = ucast (m a) OR push_bit 8 (ucast (m (a + 1))) OR
     push_bit 16 (ucast (m (a + 2))) OR push_bit 24 (ucast (m (a + 3)))"

definition st32 :: "uint \<Rightarrow> uint \<Rightarrow> memory \<Rightarrow> memory" where
  "st32 a v m = m(a := ucast v, a + 1 := ucast (drop_bit 8 v),
     a + 2 := ucast (drop_bit 16 v), a + 3 := ucast (drop_bit 24 v))"

lemma bytes_of_word:
  "ucast (ucast v :: uchar) OR push_bit 8 (ucast (ucast (drop_bit 8 v) :: uchar)) OR
   push_bit 16 (ucast (ucast (drop_bit 16 v) :: uchar)) OR
   push_bit 24 (ucast (ucast (drop_bit 24 v) :: uchar)) = v" (is "?b = v") for v :: uint
proof (rule bit_word_eqI)
  fix n
  assume "n < LENGTH(32)"
  then consider "n < 8" | "8 \<le> n \<and> n < 16" | "16 \<le> n \<and> n < 24" | "24 \<le> n \<and> n < 32"
    by force
  then show "bit ?b n = bit v n"
    by cases (auto simp: bit_simps)
qed

lemma ld32_st32 [simp]: "ld32 (st32 a v m) a = v"
  using bytes_of_word [of v] by (simp add: ld32_def st32_def)

lemma ld32_st32_apart:
  assumes "4 \<le> unat (b - a)" and "4 \<le> unat (a - b)"
  shows "ld32 (st32 a v m) b = ld32 m b"
proof -
  have "b + i \<noteq> a + j" if "i \<in> {0, 1, 2, 3}" and "j \<in> {0, 1, 2, 3}" for i j :: uint
  proof
    assume "b + i = a + j"
    then have "b - a = j - i" "a - b = i - j" by (simp_all add: algebra_simps)
    with that assms show False by (auto simp: unat_word_ariths)
  qed
  note ne = this this [of 0, simplified] this [of _ 0, simplified] this [of 0 0, simplified]
  show ?thesis by (simp add: ld32_def st32_def ne)
qed

lemma ld32_st32_other [simp]:
  assumes "unat a mod 4 = 0" and "unat b mod 4 = 0" and "a \<noteq> b"
  shows "ld32 (st32 a v m) b = ld32 m b"
proof (rule ld32_st32_apart)
  obtain j k where jk: "unat a = 4 * j" "unat b = 4 * k"
    using assms(1,2) by (auto dest!: mod_0_ex)
  have "j \<noteq> k" using jk assms(3) unat_inject by metis
  moreover have "j < 1073741824" "k < 1073741824"
    using jk unat_lt_2_32 [of a] unat_lt_2_32 [of b] by simp_all
  ultimately show "4 \<le> unat (b - a)" "4 \<le> unat (a - b)"
    by (auto simp: unat_diff_word jk)
qed

lemma unat_add_small:
  assumes "unat a mod 4 = 0" and "k < 4"
  shows "unat (a + of_nat k :: uint) = unat a + k"
proof -
  obtain j where "unat a = 4 * j" using assms(1) by (blast dest: mod_0_ex)
  with assms(2) unat_lt_2_32 [of a] have "unat a + k < 4294967296" by simp
  moreover have "unat (of_nat k :: uint) = k" using assms(2) by (simp add: unat_of_nat)
  ultimately show ?thesis by (simp add: unat_word_ariths)
qed

lemma PGROUNDDOWN_add_small:
  assumes "unat a mod 4 = 0" and "k < 4"
  shows "PGROUNDDOWN (a + of_nat k) = PGROUNDDOWN a"
proof (rule unat_inject)
  obtain j where j: "unat a = 4 * j" using assms(1) by (blast dest: mod_0_ex)
  have "(4 * j + k) div 4096 = (4 * j + k) div 4 div 1024"
    by (simp add: div_mult2_eq [symmetric])
  also have "\<dots> = 4 * j div 4096"
    using assms(2) by (simp add: div_mult2_eq [of "4 * j" 4 1024, symmetric])
  finally have "(unat a + k) - (unat a + k) mod 4096 = unat a - unat a mod 4096"
    by (simp add: minus_mod_eq_div_mult j)
  then show "unat (PGROUNDDOWN (a + of_nat k)) = unat (PGROUNDDOWN a)"
    using assms by (simp add: unat_PGROUNDDOWN unat_add_small del: unat_of_nat)
qed

lemmas PGROUNDDOWN_add_bytes =
  PGROUNDDOWN_add_small [where k = 1, simplified]
  PGROUNDDOWN_add_small [where k = 2, simplified]
  PGROUNDDOWN_add_small [where k = 3, simplified]

lemma ld32_cong_page:
  assumes "unat b mod 4 = 0" and "\<And>x. PGROUNDDOWN x = PGROUNDDOWN b \<Longrightarrow> m x = m' x"
  shows "ld32 m b = ld32 m' b"
  using assms(1) by (simp add: ld32_def assms(2) PGROUNDDOWN_add_bytes)

lemma st32_other_page:
  assumes "unat a mod 4 = 0" and "PGROUNDDOWN x \<noteq> PGROUNDDOWN a"
  shows "st32 a v m x = m x"
  using assms(2) PGROUNDDOWN_add_bytes [OF assms(1)] by (auto simp: st32_def)

text \<open>
  Copies between kernel memory and an object that is not part of it (a local array, a disk
  block): \<open>peek\<close> reads bytes out, \<open>poke\<close> writes a list of bytes.
\<close>

definition peek :: "memory \<Rightarrow> uint \<Rightarrow> nat \<Rightarrow> uchar list" where
  "peek m a n = map (\<lambda>i. m (a + of_nat i)) [0..<n]"

definition poke :: "uint \<Rightarrow> uchar list \<Rightarrow> memory \<Rightarrow> memory" where
  "poke a bs m = (\<lambda>x. if unat (x - a) < length bs then bs ! unat (x - a) else m x)"

lemma length_peek [simp]: "length (peek m a n) = n"
  by (simp add: peek_def)

lemma peek_nth [simp]: "i < n \<Longrightarrow> peek m a n ! i = m (a + of_nat i)"
  by (simp add: peek_def)

lemma poke_Nil [simp]: "poke a [] m = m"
  by (simp add: poke_def)

lemma peek_poke [simp]:
  assumes "length bs \<le> 2 ^ 32"
  shows "peek (poke a bs m) a (length bs) = bs"
proof (rule nth_equalityI)
  fix i
  assume "i < length (peek (poke a bs m) a (length bs))"
  then have "i < length bs" "i < 2 ^ 32" using assms by auto
  then show "peek (poke a bs m) a (length bs) ! i = bs ! i"
    by (simp add: poke_def unat_of_nat)
qed simp

end
