(* ===== verification/Cstring.thy ===== *)
theory Cstring
  imports Prelude
begin

text \<open>
  \<open>string.c\<close>: filling, moving and comparing memory, and the bounded string routines.
  Routines that only read take their pointer as a view \<open>nat \<Rightarrow> uchar\<close> (the byte at each
  offset); routines that write an array take it as a list of bytes; \<open>memset\<close> and \<open>memmove\<close>
  act on the kernel's byte-addressed memory. Every loop is the loop of the source, one
  byte per step.
\<close>

section \<open>Filling and moving memory\<close>

text \<open>The x86 string stores behind \<open>memset\<close> (\<open>x86.h\<close>): \<open>cnt\<close> bytes, or \<open>cnt\<close> words.\<close>

definition stosb :: "uint \<Rightarrow> uchar \<Rightarrow> nat \<Rightarrow> memory \<Rightarrow> memory" where
  "stosb addr d cnt m = (\<lambda>x. if unat (x - addr) < cnt then d else m x)"

definition stosl :: "uint \<Rightarrow> uint \<Rightarrow> nat \<Rightarrow> memory \<Rightarrow> memory" where
  "stosl addr d cnt m =
     (\<lambda>x. if unat (x - addr) < 4 * cnt
          then ucast (drop_bit (8 * (unat (x - addr) mod 4)) d) else m x)"

definition memset :: "uint \<Rightarrow> uint \<Rightarrow> uint \<Rightarrow> memory \<Rightarrow> memory" where
  "memset dst c n m =
     (if dst mod 4 = 0 \<and> n mod 4 = 0 then
        let c = c AND 0xFF
        in stosl dst (push_bit 24 c OR push_bit 16 c OR push_bit 8 c OR c) (unat n div 4) m
      else stosb dst (ucast c) (unat n) m)"

fun copy_up :: "nat \<Rightarrow> uint \<Rightarrow> uint \<Rightarrow> memory \<Rightarrow> memory" where
  "copy_up 0 d s m = m"
| "copy_up (Suc n) d s m = copy_up n (d + 1) (s + 1) (m(d := m s))"

fun copy_down :: "nat \<Rightarrow> uint \<Rightarrow> uint \<Rightarrow> memory \<Rightarrow> memory" where
  "copy_down 0 d s m = m"
| "copy_down (Suc n) d s m = copy_down n (d - 1) (s - 1) (m(d - 1 := m (s - 1)))"

definition memmove :: "uint \<Rightarrow> uint \<Rightarrow> uint \<Rightarrow> memory \<Rightarrow> memory" where
  "memmove dst src n m =
     (if src < dst \<and> src + n > dst then copy_down (unat n) (dst + n) (src + n) m
      else copy_up (unat n) dst src m)"

definition memcpy :: "uint \<Rightarrow> uint \<Rightarrow> uint \<Rightarrow> memory \<Rightarrow> memory" where
  "memcpy dst src n m = memmove dst src n m"

section \<open>Comparing\<close>

fun memcmp_from :: "(nat \<Rightarrow> uchar) \<Rightarrow> (nat \<Rightarrow> uchar) \<Rightarrow> nat \<Rightarrow> nat \<Rightarrow> int" where
  "memcmp_from s1 s2 i 0 = 0"
| "memcmp_from s1 s2 i (Suc n) =
     (if s1 i \<noteq> s2 i then int (unat (s1 i)) - int (unat (s2 i))
      else memcmp_from s1 s2 (Suc i) n)"

definition memcmp :: "(nat \<Rightarrow> uchar) \<Rightarrow> (nat \<Rightarrow> uchar) \<Rightarrow> uint \<Rightarrow> int" where
  "memcmp v1 v2 n = memcmp_from v1 v2 0 (unat n)"

fun strncmp_from :: "(nat \<Rightarrow> uchar) \<Rightarrow> (nat \<Rightarrow> uchar) \<Rightarrow> nat \<Rightarrow> nat \<Rightarrow> int" where
  "strncmp_from p q i 0 = 0"
| "strncmp_from p q i (Suc n) =
     (if p i \<noteq> 0 \<and> p i = q i then strncmp_from p q (Suc i) n
      else int (unat (p i)) - int (unat (q i)))"

definition strncmp :: "(nat \<Rightarrow> uchar) \<Rightarrow> (nat \<Rightarrow> uchar) \<Rightarrow> uint \<Rightarrow> int" where
  "strncmp p q n = strncmp_from p q 0 (unat n)"

section \<open>Copying strings\<close>

fun strncpy_copy :: "uchar list \<Rightarrow> (nat \<Rightarrow> uchar) \<Rightarrow> nat \<Rightarrow> nat \<Rightarrow> uchar list \<times> nat \<times> nat" where
  "strncpy_copy s t i 0 = (s, i, 0)"
| "strncpy_copy s t i (Suc n) =
     (if t i \<noteq> 0 then strncpy_copy (s[i := t i]) t (Suc i) n else (s[i := t i], Suc i, n))"

fun strncpy_pad :: "uchar list \<Rightarrow> nat \<Rightarrow> nat \<Rightarrow> uchar list" where
  "strncpy_pad s i 0 = s"
| "strncpy_pad s i (Suc n) = strncpy_pad (s[i := 0]) (Suc i) n"

definition strncpy :: "uchar list \<Rightarrow> (nat \<Rightarrow> uchar) \<Rightarrow> int \<Rightarrow> uchar list" where
  "strncpy s t n = (case strncpy_copy s t 0 (nat n) of (s', i, k) \<Rightarrow> strncpy_pad s' i k)"

fun safestrcpy_copy :: "uchar list \<Rightarrow> (nat \<Rightarrow> uchar) \<Rightarrow> nat \<Rightarrow> nat \<Rightarrow> uchar list \<times> nat" where
  "safestrcpy_copy s t i 0 = (s, i)"
| "safestrcpy_copy s t i (Suc n) =
     (if t i \<noteq> 0 then safestrcpy_copy (s[i := t i]) t (Suc i) n else (s[i := t i], Suc i))"

definition safestrcpy :: "uchar list \<Rightarrow> (nat \<Rightarrow> uchar) \<Rightarrow> int \<Rightarrow> uchar list" where
  "safestrcpy s t n =
     (if n \<le> 0 then s
      else case safestrcpy_copy s t 0 (nat n - 1) of (s', i) \<Rightarrow> s'[i := 0])"

partial_function (option) strlen_from :: "(nat \<Rightarrow> uchar) \<Rightarrow> nat \<Rightarrow> nat option" where
  "strlen_from s n = (if s n \<noteq> 0 then strlen_from s (Suc n) else Some n)"

definition strlen :: "(nat \<Rightarrow> uchar) \<Rightarrow> nat option" where
  "strlen s = strlen_from s 0"

section \<open>What the routines compute\<close>

text \<open>
  Both branches of \<open>memset\<close> store the low byte of \<open>c\<close> into each of the \<open>n\<close> bytes: the
  word-sized store is an optimisation.
\<close>

lemma low_byte: "(c :: uint) AND 0xFF = take_bit 8 c"
  by (simp add: take_bit_eq_mask mask_eq_exp_minus_1)

lemma byte_pattern:
  fixes c :: uint
  assumes "k < 4"
  shows "ucast (drop_bit (8 * k) (push_bit 24 (take_bit 8 c) OR push_bit 16 (take_bit 8 c) OR
           push_bit 8 (take_bit 8 c) OR take_bit 8 c)) = (ucast c :: uchar)"
proof -
  consider "k = 0" | "k = 1" | "k = 2" | "k = 3" using assms by linarith
  then show ?thesis
    by cases (rule bit_word_eqI, auto simp: bit_simps)+
qed

lemma memset_apply:
  "memset dst c n m x = (if unat (x - dst) < unat n then ucast c else m x)"
proof (cases "dst mod 4 = 0 \<and> n mod 4 = 0")
  case True
  then have "unat n mod 4 = 0" by (simp add: mod_eq_0_unat)
  then have "4 * (unat n div 4) = unat n" by auto
  with True show ?thesis
    using byte_pattern [of "unat (x - dst) mod 4" c]
    by (simp add: memset_def Let_def stosl_def low_byte)
next
  case False
  then show ?thesis by (auto simp: memset_def stosb_def)
qed

lemma in_range_Suc:
  fixes x d :: uint
  assumes "unat d + Suc n \<le> 2 ^ 32" and "0 < n"
  shows "unat (x - d) < Suc n \<longleftrightarrow> x = d \<or> unat (x - (d + 1)) < n"
proof -
  have "unat (d + 1) = unat d + 1"
    using assms by (simp add: unat_word_ariths)
  then show ?thesis
    using assms unat_lt_2_32 [of x] unat_inject [of x d]
    by (auto simp: unat_diff_word split: if_splits)
qed

lemma unat_add_no_wrap: "unat s + unat k < 2 ^ 32 \<Longrightarrow> unat (s + k) = unat s + unat k"
  for s k :: uint
  by (simp add: unat_word_ariths)

lemma copy_up_apply:
  "unat d + n \<le> 2 ^ 32 \<Longrightarrow> unat s + n \<le> 2 ^ 32 \<Longrightarrow>
   unat d \<le> unat s \<or> unat s + n \<le> unat d \<Longrightarrow>
   copy_up n d s m x = (if unat (x - d) < n then m (s + (x - d)) else m x)"
proof (induction n arbitrary: d s m)
  case 0
  then show ?case by simp
next
  case (Suc n)
  show ?case
  proof (cases "0 < n")
    case False
    then show ?thesis by (auto simp: unat_eq_0)
  next
    case True
    then have u: "unat (d + 1) = unat d + 1" "unat (s + 1) = unat s + 1"
      using Suc.prems(1,2) by (simp_all add: unat_word_ariths)
    have IH: "copy_up n (d + 1) (s + 1) (m(d := m s)) x =
        (if unat (x - (d + 1)) < n then (m(d := m s)) (s + 1 + (x - (d + 1)))
         else (m(d := m s)) x)"
      using Suc.prems u by (intro Suc.IH) auto
    have keep: "s = d" if k: "unat (x - d) < Suc n" and e: "s + (x - d) = d"
    proof -
      have "unat d = unat s + unat (x - d)"
        using k Suc.prems(2) unat_add_no_wrap [of s "x - d"] by (simp add: e)
      with Suc.prems(3) k show ?thesis by (auto intro: unat_inject)
    qed
    have "s + 1 + (x - (d + 1)) = s + (x - d)" by simp
    then show ?thesis
      using IH keep in_range_Suc [OF Suc.prems(1) True, of x] by auto
  qed
qed

lemma in_range_Suc_down:
  fixes x d :: uint
  assumes "Suc n \<le> unat d"
  shows "unat (x - (d - of_nat (Suc n))) < Suc n \<longleftrightarrow>
         x = d - 1 \<or> unat (x - (d - 1 - of_nat n)) < n"
proof -
  have lt: "Suc n < 2 ^ 32" using assms unat_lt_2_32 [of d] by simp
  have e: "d - of_nat (Suc n) = d - 1 - of_nat n" by simp
  have "unat (d - 1 - of_nat n) = unat d - 1 - n"
    using assms lt by (simp add: unat_diff_word unat_of_nat)
  then show ?thesis
    unfolding e using assms lt unat_lt_2_32 [of x] unat_lt_2_32 [of d] unat_inject [of x "d - 1"]
    by (auto simp: unat_diff_word split: if_splits)
qed

lemma copy_down_apply:
  "n \<le> unat d \<Longrightarrow> n \<le> unat s \<Longrightarrow> unat s \<le> unat d \<Longrightarrow>
   copy_down n d s m x =
     (if unat (x - (d - of_nat n)) < n then m (x - d + s) else m x)"
proof (induction n arbitrary: d s m)
  case 0
  then show ?case by simp
next
  case (Suc n)
  have u: "unat (d - 1) = unat d - 1" "unat (s - 1) = unat s - 1"
    using Suc.prems by (simp_all add: unat_diff_word)
  have IH: "copy_down n (d - 1) (s - 1) (m(d - 1 := m (s - 1))) x =
      (if unat (x - (d - 1 - of_nat n)) < n
       then (m(d - 1 := m (s - 1))) (x - (d - 1) + (s - 1)) else (m(d - 1 := m (s - 1))) x)"
    using Suc.prems u by (intro Suc.IH) auto
  have "x - (d - 1) + (s - 1) = x - d + s" by simp
  moreover have "x - d + s \<noteq> d - 1" if k: "unat (x - (d - 1 - of_nat n)) < n"
  proof
    assume e: "x - d + s = d - 1"
    have "n < 2 ^ 32" using Suc.prems(1) unat_lt_2_32 [of d] by simp
    then have "unat (d - 1 - of_nat n) = unat d - 1 - n"
      using Suc.prems(1) u by (simp add: unat_diff_word unat_of_nat)
    with k have x: "unat d - 1 - n \<le> unat x" "unat x < unat d - 1"
      using Suc.prems(1) unat_lt_2_32 [of x] unat_lt_2_32 [of d]
      by (auto simp: unat_diff_word split: if_splits)
    have eq: "s - (d - x) = d - 1" using e by (simp add: algebra_simps)
    have "unat (d - x) = unat d - unat x" using x by (simp add: unat_diff_word)
    then have "unat (s - (d - x)) = unat s - (unat d - unat x)"
      using x Suc.prems by (simp add: unat_diff_word)
    then show False unfolding eq using x u Suc.prems by auto
  qed
  ultimately show ?case
    using IH in_range_Suc_down [OF Suc.prems(1), of x] by (auto simp: algebra_simps)
qed

lemma memmove_apply:
  assumes "unat dst + unat n < 2 ^ 32" and "unat src + unat n < 2 ^ 32"
  shows "memmove dst src n m x = (if unat (x - dst) < unat n then m (src + (x - dst)) else m x)"
proof -
  have e: "unat (src + n) = unat src + unat n"
    using assms(2) by (rule unat_add_no_wrap)
  show ?thesis
  proof (cases "src < dst \<and> src + n > dst")
    case True
    then have lt: "unat src < unat dst" "unat dst < unat src + unat n"
      by (simp_all add: word_less_nat_alt e)
    have d: "unat (dst + n) = unat dst + unat n" using assms(1) by (rule unat_add_no_wrap)
    have "copy_down (unat n) (dst + n) (src + n) m x =
        (if unat (x - (dst + n - of_nat (unat n))) < unat n
         then m (x - (dst + n) + (src + n)) else m x)"
      using lt by (intro copy_down_apply) (simp_all add: d e)
    with True show ?thesis by (simp add: memmove_def algebra_simps)
  next
    case False
    then have "unat dst \<le> unat src \<or> unat src + unat n \<le> unat dst"
      by (auto simp: word_less_nat_alt e not_less)
    with assms False show ?thesis
      unfolding memmove_def by (simp only: if_False) (intro copy_up_apply; simp)
  qed
qed

section \<open>Comparison and string copies\<close>

lemma byte_diff_eq_0: "int (unat a) - int (unat b) = 0 \<longleftrightarrow> a = b" for a b :: uchar
proof
  assume "int (unat a) - int (unat b) = 0"
  then have "unat a = unat b" by linarith
  then show "a = b" by (rule unat_inject)
qed simp

lemma memcmp_from_eq_0:
  "memcmp_from s1 s2 i n = 0 \<longleftrightarrow> (\<forall>j < n. s1 (i + j) = s2 (i + j))"
proof (induction n arbitrary: i)
  case 0
  then show ?case by simp
next
  case (Suc n)
  show ?case
    unfolding All_less_Suc2 memcmp_from.simps
    using Suc.IH [of "Suc i"] byte_diff_eq_0 [of "s1 i" "s2 i"] by auto
qed

lemma strncmp_from_eq_0:
  "strncmp_from p q i n = 0 \<longleftrightarrow>
     (\<forall>j < n. (\<forall>k < j. p (i + k) \<noteq> 0) \<longrightarrow> p (i + j) = q (i + j))"
proof (induction n arbitrary: i)
  case 0
  then show ?case by simp
next
  case (Suc n)
  have "(\<forall>j < n. (\<forall>k < Suc j. p (i + k) \<noteq> 0) \<longrightarrow> p (i + Suc j) = q (i + Suc j)) \<longleftrightarrow>
        (p i \<noteq> 0 \<longrightarrow> (\<forall>j < n. (\<forall>k < j. p (Suc i + k) \<noteq> 0) \<longrightarrow> p (Suc i + j) = q (Suc i + j)))"
    unfolding All_less_Suc2 by auto
  then show ?case
    unfolding All_less_Suc2 [of n] strncmp_from.simps
    using Suc.IH [of "Suc i"] byte_diff_eq_0 [of "p i" "q i"] by (cases "p i = 0") simp_all
qed

lemma length_strncpy_copy: "strncpy_copy s t i n = (s', j, k) \<Longrightarrow> length s' = length s"
  by (induction s t i n arbitrary: s' j k rule: strncpy_copy.induct) (auto split: if_splits)

lemma length_strncpy_pad [simp]: "length (strncpy_pad s i n) = length s"
  by (induction s i n rule: strncpy_pad.induct) auto

lemma length_strncpy [simp]: "length (strncpy s t n) = length s"
  by (auto simp: strncpy_def split: prod.splits dest: length_strncpy_copy)

lemma strncpy_pad_nth:
  "i + n \<le> length s \<Longrightarrow> j < length s \<Longrightarrow>
   strncpy_pad s i n ! j = (if i \<le> j \<and> j < i + n then 0 else s ! j)"
  by (induction s i n rule: strncpy_pad.induct) (auto simp: nth_list_update)

lemma strncpy_from_nth:
  "i + n \<le> length s \<Longrightarrow> j < length s \<Longrightarrow>
   (case strncpy_copy s t i n of (s', l, k) \<Rightarrow> strncpy_pad s' l k) ! j =
     (if i \<le> j \<and> j < i + n then (if \<forall>l. i \<le> l \<and> l < j \<longrightarrow> t l \<noteq> 0 then t j else 0) else s ! j)"
proof (induction n arbitrary: i s)
  case 0
  then show ?case by auto
next
  case (Suc n)
  show ?case
  proof (cases "t i = 0")
    case True
    then show ?thesis
      using Suc.prems by (auto simp: strncpy_pad_nth nth_list_update)
  next
    case False
    have all: "(\<forall>l. i \<le> l \<and> l < j \<longrightarrow> t l \<noteq> 0) \<longleftrightarrow> (\<forall>l. Suc i \<le> l \<and> l < j \<longrightarrow> t l \<noteq> 0)"
      using False by (metis Suc_leD Suc_leI le_neq_implies_less)
    have "(case strncpy_copy (s[i := t i]) t (Suc i) n of (s', l, k) \<Rightarrow> strncpy_pad s' l k) ! j =
      (if Suc i \<le> j \<and> j < Suc i + n
       then (if \<forall>l. Suc i \<le> l \<and> l < j \<longrightarrow> t l \<noteq> 0 then t j else 0) else s[i := t i] ! j)"
      using Suc.prems by (intro Suc.IH) auto
    then show ?thesis
      using False Suc.prems unfolding all by (auto simp: nth_list_update)
  qed
qed

lemma strncpy_nth:
  assumes "nat n \<le> length s" and "j < length s"
  shows "strncpy s t n ! j =
    (if j < nat n then (if \<forall>l < j. t l \<noteq> 0 then t j else 0) else s ! j)"
  using strncpy_from_nth [of 0 "nat n" s j t] assms by (simp add: strncpy_def)

lemma safestrcpy_copy_spec:
  "safestrcpy_copy s t i n = (s', e) \<Longrightarrow> i + n < length s \<Longrightarrow>
   length s' = length s \<and> i \<le> e \<and> e \<le> i + n \<and>
   (\<forall>j < length s. s' ! j = (if i \<le> j \<and> j < e then t j else s ! j)) \<and>
   (\<forall>j. i \<le> j \<and> Suc j < e \<longrightarrow> t j \<noteq> 0) \<and>
   (e < i + n \<longrightarrow> i < e \<and> t (e - 1) = 0)"
proof (induction n arbitrary: i s s' e)
  case 0
  then show ?case by auto
next
  case (Suc n)
  show ?case
  proof (cases "t i = 0")
    case True
    with Suc.prems have "s' = s[i := 0]" "e = Suc i" by auto
    with True Suc.prems(2) show ?thesis by (auto simp: nth_list_update)
  next
    case False
    with Suc.prems have "safestrcpy_copy (s[i := t i]) t (Suc i) n = (s', e)" by simp
    from Suc.IH [OF this] Suc.prems(2) False show ?thesis
      by (auto simp: nth_list_update) (metis Suc_leI le_neq_implies_less)+
  qed
qed

lemma strlen_from_step:
  "s n = 0 \<Longrightarrow> strlen_from s n = Some n"
  "s n \<noteq> 0 \<Longrightarrow> strlen_from s n = strlen_from s (Suc n)"
  by (subst strlen_from.simps, simp)+

lemma strlen_from_terminates:
  "s (i + k) = 0 \<Longrightarrow> (\<forall>j < k. s (i + j) \<noteq> 0) \<Longrightarrow> strlen_from s i = Some (i + k)"
proof (induction k arbitrary: i)
  case 0
  then show ?case by (simp add: strlen_from_step)
next
  case (Suc k)
  have "strlen_from s (Suc i) = Some (Suc i + k)"
    using Suc.prems by (intro Suc.IH) auto
  moreover have "s i \<noteq> 0" using Suc.prems(2) by (metis add_0_right zero_less_Suc)
  ultimately show ?case by (simp add: strlen_from_step(2))
qed

section \<open>Properties\<close>

text \<open>
  C32: \<open>memmove\<close> copies the \<open>n\<close> bytes at \<open>src\<close> as they were before the call to \<open>dst\<close> and
  changes nothing else, also when the two regions overlap in either direction.
\<close>

theorem memmove_correct:
  assumes "unat dst + unat n < 2 ^ 32" and "unat src + unat n < 2 ^ 32"
  shows "memmove dst src n m x = (if unat (x - dst) < unat n then m (src + (x - dst)) else m x)"
  using assms by (rule memmove_apply)

theorem memmove_correct_witness:
  "memmove 12 10 4 (\<lambda>a. ucast a) 15 = 13 \<and> memmove 10 12 4 (\<lambda>a. ucast a) 10 = 12 \<and>
   memmove 12 10 4 (\<lambda>a. ucast a) 16 = 16"
  using memmove_correct [of 12 4 10 "\<lambda>a. ucast a" 15] memmove_correct [of 10 4 12 "\<lambda>a. ucast a" 10]
    memmove_correct [of 12 4 10 "\<lambda>a. ucast a" 16] by simp

text \<open>
  C38: \<open>safestrcpy\<close> into a buffer of at least \<open>n > 0\<close> bytes leaves a NUL-terminated string
  there: some \<open>e < n\<close> is NUL, the bytes before it are a prefix of \<open>t\<close> without a NUL, the copy
  stops early only at the NUL of \<open>t\<close>, and the bytes from \<open>n\<close> on are untouched.
\<close>

theorem safestrcpy_terminated:
  assumes "0 < n" and "nat n \<le> length s"
  shows "\<exists>e < nat n. safestrcpy s t n ! e = 0 \<and>
     (\<forall>j < e. safestrcpy s t n ! j = t j \<and> t j \<noteq> 0) \<and>
     (e < nat n - 1 \<longrightarrow> t e = 0) \<and>
     length (safestrcpy s t n) = length s \<and>
     (\<forall>j < length s. nat n \<le> j \<longrightarrow> safestrcpy s t n ! j = s ! j)"
proof -
  obtain s' i where c: "safestrcpy_copy s t 0 (nat n - 1) = (s', i)" by (cases "safestrcpy_copy s t 0 (nat n - 1)")
  have "0 + (nat n - 1) < length s" using assms by simp
  note spec = safestrcpy_copy_spec [OF c this]
  have r: "safestrcpy s t n = s'[i := 0]" using assms(1) c by (simp add: safestrcpy_def)
  have len: "length s' = length s" and i: "i \<le> nat n - 1"
    and s': "\<And>j. j < length s \<Longrightarrow> s' ! j = (if j < i then t j else s ! j)"
    and nz: "\<And>j. Suc j < i \<Longrightarrow> t j \<noteq> 0" and stop: "i < nat n - 1 \<Longrightarrow> 0 < i \<and> t (i - 1) = 0"
    using spec by auto
  define e where "e = (if 0 < i \<and> t (i - 1) = 0 then i - 1 else i)"
  have e: "e < nat n" "e \<le> i" using i assms(1) by (auto simp: e_def)
  have "t j \<noteq> 0" if "j < e" for j
    using that nz [of j] by (cases "Suc j = i") (auto simp: e_def split: if_splits)
  moreover have "s'[i := 0] ! e = 0"
    using i assms len s' [of "i - 1"] by (auto simp: e_def nth_list_update)
  moreover have "s'[i := 0] ! j = t j" if "j < e" for j
    using that e assms s' [of j] by (auto simp: nth_list_update)
  moreover have "t e = 0" if "e < nat n - 1"
    using that stop i by (auto simp: e_def split: if_splits)
  moreover have "s'[i := 0] ! j = s ! j" if "j < length s" "nat n \<le> j" for j
    using that i assms s' [of j] by (auto simp: nth_list_update)
  ultimately show ?thesis
    unfolding r using e(1) len by (intro exI [of _ e]) auto
qed

theorem safestrcpy_terminated_witness:
  "\<exists>e < 4. safestrcpy [9, 9, 9, 9, 9] (\<lambda>i. if i < 6 then 65 else 0) 4 ! e = 0"
  using safestrcpy_terminated [of 4 "[9, 9, 9, 9, 9]" "\<lambda>i. if i < 6 then 65 else 0"] by auto

end
