(* ===== verification/Spinlock.thy ===== *)
theory Spinlock
  imports Prelude
begin

text \<open>
  \<open>spinlock.c\<close> with the per-CPU state of \<open>proc.h\<close> it needs: \<open>pushcli\<close>/\<open>popcli\<close> nesting,
  \<open>holding\<close>, \<open>acquire\<close>, \<open>release\<close>, and \<open>mycpu\<close>, \<open>cpuid\<close>, \<open>myproc\<close> of \<open>proc.c\<close>. The code is
  parameterised by the local APIC id \<open>h\<close> of the CPU that runs it. \<open>spin_step\<close> interleaves
  the CPUs at the granularity of the atomic exchange.

  The last section is the view the other components use: the list of spin locks held by the
  running CPU, with \<open>lock\<close> and \<open>unlock\<close> on it. \<open>acquire_refines_lock\<close> and
  \<open>release_refines_unlock\<close> say that the detailed code implements that view.
\<close>

section \<open>State\<close>

text \<open>The spin locks of the kernel: one per table, per pipe and per sleep lock.\<close>

datatype lockid =
    L_kmem | L_ptable | L_ftable | L_icache | L_bcache | L_log | L_tickslock | L_cons | L_idelock
  | L_pipe uint | L_bufsleep nat | L_inodesleep nat

record spinlock =
  locked :: uint
  lk_name :: string
  lk_cpu :: "nat option"
  pcs :: "uint list"

record cpu =
  apicid :: uchar
  started :: uint
  ncli :: int
  intena :: bool
  cpu_proc :: "nat option"

record machine =
  cpus :: "cpu list"
  if_flag :: "uchar \<Rightarrow> bool"
  lks :: "lockid \<Rightarrow> spinlock"
  stacks :: memory

type_synonym 'a mres = "machine stop + 'a"

definition upd_cpu :: "nat \<Rightarrow> (cpu \<Rightarrow> cpu) \<Rightarrow> machine \<Rightarrow> machine" where
  "upd_cpu c f m = m\<lparr>cpus := (cpus m)[c := f (cpus m ! c)]\<rparr>"

definition upd_lk :: "lockid \<Rightarrow> (spinlock \<Rightarrow> spinlock) \<Rightarrow> machine \<Rightarrow> machine" where
  "upd_lk lk f m = m\<lparr>lks := (lks m)(lk := f (lks m lk))\<rparr>"

section \<open>Interrupt flag and per-CPU state\<close>

definition cli :: "uchar \<Rightarrow> machine \<Rightarrow> machine" where
  "cli h m = m\<lparr>if_flag := (if_flag m)(h := False)\<rparr>"

definition sti :: "uchar \<Rightarrow> machine \<Rightarrow> machine" where
  "sti h m = m\<lparr>if_flag := (if_flag m)(h := True)\<rparr>"

definition mycpu :: "uchar \<Rightarrow> machine \<Rightarrow> nat mres" where
  "mycpu h m =
     (if if_flag m h then Inl (Panic ''mycpu called with interrupts enabled'')
      else case scan (\<lambda>c. apicid c = h) (cpus m) of
        Some i \<Rightarrow> Inr i
      | None \<Rightarrow> Inl (Panic ''unknown apicid''))"

definition cpuid :: "uchar \<Rightarrow> machine \<Rightarrow> nat mres" where
  "cpuid h m = mycpu h m"

definition pushcli :: "uchar \<Rightarrow> machine \<Rightarrow> machine mres" where
  "pushcli h m =
     (let eflags = if_flag m h; m = cli h m
      in seq (mycpu h m) (\<lambda>c.
         let m = (if ncli (cpus m ! c) = 0 then upd_cpu c (\<lambda>k. k\<lparr>intena := eflags\<rparr>) m else m)
         in Inr (upd_cpu c (\<lambda>k. k\<lparr>ncli := ncli k + 1\<rparr>) m)))"

definition popcli :: "uchar \<Rightarrow> machine \<Rightarrow> machine mres" where
  "popcli h m =
     (if if_flag m h then Inl (Panic ''popcli - interruptible'')
      else seq (mycpu h m) (\<lambda>c.
        let m = upd_cpu c (\<lambda>k. k\<lparr>ncli := ncli k - 1\<rparr>) m
        in if ncli (cpus m ! c) < 0 then Inl (Panic ''popcli'')
           else if ncli (cpus m ! c) = 0 \<and> intena (cpus m ! c) then Inr (sti h m) else Inr m))"

definition myproc :: "uchar \<Rightarrow> machine \<Rightarrow> (nat option \<times> machine) mres" where
  "myproc h m =
     seq (pushcli h m) (\<lambda>m.
     seq (mycpu h m) (\<lambda>c.
     let p = cpu_proc (cpus m ! c)
     in seq (popcli h m) (\<lambda>m. Inr (p, m))))"

section \<open>Locks\<close>

definition initlock :: "lockid \<Rightarrow> string \<Rightarrow> machine \<Rightarrow> machine" where
  "initlock lk name m =
     upd_lk lk (\<lambda>l. l\<lparr>lk_name := name, locked := 0, lk_cpu := None\<rparr>) m"

definition holding :: "uchar \<Rightarrow> lockid \<Rightarrow> machine \<Rightarrow> (bool \<times> machine) mres" where
  "holding h lk m =
     seq (pushcli h m) (\<lambda>m.
     seq (mycpu h m) (\<lambda>c.
     let r = (locked (lks m lk) \<noteq> 0 \<and> lk_cpu (lks m lk) = Some c)
     in seq (popcli h m) (\<lambda>m. Inr (r, m))))"

text \<open>The call stack is read off the chain of saved \<open>%ebp\<close> values, ten frames at most.\<close>

fun callerpcs_from :: "nat \<Rightarrow> memory \<Rightarrow> uint \<Rightarrow> uint list" where
  "callerpcs_from 0 m ebp = []"
| "callerpcs_from (Suc n) m ebp =
     (if ebp = 0 \<or> ebp < KERNBASE \<or> ebp = 0xffffffff then replicate (Suc n) 0
      else ld32 m (ebp + 4) # callerpcs_from n m (ld32 m ebp))"

definition getcallerpcs :: "uint \<Rightarrow> memory \<Rightarrow> uint list" where
  "getcallerpcs v m = callerpcs_from 10 m (v - 8)"

text \<open>
  \<open>acquire\<close> in three phases: disable interrupts and check, the atomic exchange that the
  source repeats until it returns 0, and the bookkeeping after it (\<open>fp\<close> is the address of
  the argument on the stack).
\<close>

definition acquire_enter :: "uchar \<Rightarrow> lockid \<Rightarrow> machine \<Rightarrow> machine mres" where
  "acquire_enter h lk m =
     seq (pushcli h m) (\<lambda>m.
     seq (holding h lk m) (\<lambda>(r, m).
     if r then Inl (Panic ''acquire'') else Inr m))"

definition xchg :: "lockid \<Rightarrow> uint \<Rightarrow> machine \<Rightarrow> uint \<times> machine" where
  "xchg lk v m = (locked (lks m lk), upd_lk lk (\<lambda>l. l\<lparr>locked := v\<rparr>) m)"

definition acquire_won :: "uchar \<Rightarrow> uint \<Rightarrow> lockid \<Rightarrow> machine \<Rightarrow> machine mres" where
  "acquire_won h fp lk m =
     seq (mycpu h m) (\<lambda>c.
     Inr (upd_lk lk (\<lambda>l. l\<lparr>lk_cpu := Some c, pcs := getcallerpcs fp (stacks m)\<rparr>) m))"

text \<open>
  The whole of \<open>acquire\<close> run by one CPU while the others stand still: a lock that another
  CPU holds makes the exchange loop spin for ever.
\<close>

definition acquire :: "uchar \<Rightarrow> uint \<Rightarrow> lockid \<Rightarrow> machine \<Rightarrow> machine mres" where
  "acquire h fp lk m =
     seq (acquire_enter h lk m) (\<lambda>m.
     case xchg lk 1 m of (old, m) \<Rightarrow>
       if old \<noteq> 0 then Inl Diverge else acquire_won h fp lk m)"

definition release :: "uchar \<Rightarrow> lockid \<Rightarrow> machine \<Rightarrow> machine mres" where
  "release h lk m =
     seq (holding h lk m) (\<lambda>(r, m).
     if \<not> r then Inl (Panic ''release'')
     else popcli h (upd_lk lk (\<lambda>l. l\<lparr>pcs := (pcs l)[0 := 0], lk_cpu := None, locked := 0\<rparr>) m))"

section \<open>Interleaving the CPUs\<close>

text \<open>
  Each CPU runs kernel code, spins for a lock, or has won the exchange and not yet recorded
  itself as the holder.
\<close>

datatype phase = Run | Spin lockid | Won lockid

type_synonym smp = "machine \<times> (uchar \<Rightarrow> phase)"

inductive spin_step :: "smp \<Rightarrow> smp \<Rightarrow> bool" where
  step_enter: "ph h = Run \<Longrightarrow> acquire_enter h lk m = Inr m' \<Longrightarrow>
     spin_step (m, ph) (m', ph(h := Spin lk))"
| step_spin: "ph h = Spin lk \<Longrightarrow> xchg lk 1 m = (old, m') \<Longrightarrow> old \<noteq> 0 \<Longrightarrow>
     spin_step (m, ph) (m', ph)"
| step_won: "ph h = Spin lk \<Longrightarrow> xchg lk 1 m = (old, m') \<Longrightarrow> old = 0 \<Longrightarrow>
     spin_step (m, ph) (m', ph(h := Won lk))"
| step_record: "ph h = Won lk \<Longrightarrow> acquire_won h fp lk m = Inr m' \<Longrightarrow>
     spin_step (m, ph) (m', ph(h := Run))"
| step_release: "ph h = Run \<Longrightarrow> release h lk m = Inr m' \<Longrightarrow> spin_step (m, ph) (m', ph)"
| step_myproc: "ph h = Run \<Longrightarrow> myproc h m = Inr (p, m') \<Longrightarrow> spin_step (m, ph) (m', ph)"
| step_sti: "ph h = Run \<Longrightarrow> c < length (cpus m) \<Longrightarrow> apicid (cpus m ! c) = h \<Longrightarrow>
     ncli (cpus m ! c) = 0 \<Longrightarrow> spin_step (m, ph) (sti h m, ph)"

inductive spin_reachable :: "smp \<Rightarrow> smp \<Rightarrow> bool" for s0 where
  spin_start: "spin_reachable s0 s0"
| spin_next: "spin_reachable s0 s \<Longrightarrow> spin_step s t \<Longrightarrow> spin_reachable s0 t"

definition in_cs :: "smp \<Rightarrow> uchar \<Rightarrow> lockid \<Rightarrow> bool" where
  "in_cs s h lk \<longleftrightarrow>
     snd s h = Won lk \<or>
     (locked (lks (fst s) lk) \<noteq> 0 \<and>
      (\<exists>c < length (cpus (fst s)). lk_cpu (lks (fst s) lk) = Some c \<and> apicid (cpus (fst s) ! c) = h))"

definition booted :: "smp \<Rightarrow> bool" where
  "booted s \<longleftrightarrow>
     distinct (map apicid (cpus (fst s))) \<and>
     (\<forall>lk. locked (lks (fst s) lk) = 0 \<and> lk_cpu (lks (fst s) lk) = None) \<and>
     (\<forall>h. snd s h = Run) \<and> (\<forall>c \<in> set (cpus (fst s)). ncli c = 0)"

section \<open>What the primitives do when they return\<close>

abbreviation (input) cpu_of :: "uchar \<Rightarrow> machine \<Rightarrow> nat option" where
  "cpu_of h m \<equiv> scan (\<lambda>c. apicid c = h) (cpus m)"

definition pushed :: "bool \<Rightarrow> cpu \<Rightarrow> cpu" where
  "pushed eflags k = k\<lparr>intena := (if ncli k = 0 then eflags else intena k), ncli := ncli k + 1\<rparr>"

lemma cpu_ofD: "cpu_of h m = Some c \<Longrightarrow> c < length (cpus m) \<and> apicid (cpus m ! c) = h"
  by (simp add: scan_Some_iff)

lemma upd_cpu_simps [simp]:
  "lks (upd_cpu c f m) = lks m" "if_flag (upd_cpu c f m) = if_flag m"
  "stacks (upd_cpu c f m) = stacks m" "length (cpus (upd_cpu c f m)) = length (cpus m)"
  "cpus (upd_cpu c f m) = (cpus m)[c := f (cpus m ! c)]"
  by (simp_all add: upd_cpu_def)

lemma upd_lk_simps [simp]:
  "cpus (upd_lk lk f m) = cpus m" "if_flag (upd_lk lk f m) = if_flag m"
  "stacks (upd_lk lk f m) = stacks m" "lks (upd_lk lk f m) = (lks m)(lk := f (lks m lk))"
  by (simp_all add: upd_lk_def)

lemma cli_simps [simp]:
  "cpus (cli h m) = cpus m" "lks (cli h m) = lks m" "stacks (cli h m) = stacks m"
  "if_flag (cli h m) = (if_flag m)(h := False)"
  by (simp_all add: cli_def)

lemma sti_simps [simp]:
  "cpus (sti h m) = cpus m" "lks (sti h m) = lks m" "stacks (sti h m) = stacks m"
  "if_flag (sti h m) = (if_flag m)(h := True)"
  by (simp_all add: sti_def)

lemma mycpu_Inr_iff: "mycpu h m = Inr c \<longleftrightarrow> \<not> if_flag m h \<and> cpu_of h m = Some c"
  by (auto simp: mycpu_def split: option.splits)

lemma scan_list_update_same:
  "i < length xs \<Longrightarrow> P (f (xs ! i)) = P (xs ! i) \<Longrightarrow> scan P (xs[i := f (xs ! i)]) = scan P xs"
  by (induction xs arbitrary: i) (auto split: nat.splits)

lemma pushcli_InrD:
  assumes "pushcli h m = Inr m'"
  obtains c where "cpu_of h m = Some c" and "c < length (cpus m)" and "apicid (cpus m ! c) = h"
    and "cpus m' = (cpus m)[c := pushed (if_flag m h) (cpus m ! c)]"
    and "if_flag m' = (if_flag m)(h := False)" and "lks m' = lks m" and "stacks m' = stacks m"
proof -
  from assms obtain c where c: "cpu_of h m = Some c"
    and m': "m' = upd_cpu c (\<lambda>k. k\<lparr>ncli := ncli k + 1\<rparr>)
      (if ncli (cpus m ! c) = 0 then upd_cpu c (\<lambda>k. k\<lparr>intena := if_flag m h\<rparr>) (cli h m) else cli h m)"
    by (auto simp: pushcli_def Let_def seq_eq_Inr_iff mycpu_Inr_iff)
  from cpu_ofD [OF c] have l: "c < length (cpus m)" "apicid (cpus m ! c) = h" by auto
  show thesis
    by (rule that [OF c l]; cases "ncli (cpus m ! c) = 0") (simp_all add: m' l(1) pushed_def)
qed

lemma pushcli_cpu_of:
  assumes "pushcli h m = Inr m'"
  shows "cpu_of h' m' = cpu_of h' m"
  using assms
  by (rule pushcli_InrD)
    (simp add: pushed_def scan_list_update_same [where f = "pushed (if_flag m h)", unfolded pushed_def])

lemma popcli_InrD:
  assumes "popcli h m = Inr m'"
  obtains c where "cpu_of h m = Some c" and "c < length (cpus m)" and "apicid (cpus m ! c) = h"
    and "\<not> if_flag m h" and "0 < ncli (cpus m ! c)"
    and "cpus m' = (cpus m)[c := (cpus m ! c)\<lparr>ncli := ncli (cpus m ! c) - 1\<rparr>]"
    and "if_flag m' = (if_flag m)(h := ncli (cpus m ! c) = 1 \<and> intena (cpus m ! c))"
    and "lks m' = lks m" and "stacks m' = stacks m"
proof -
  from assms obtain c where c: "cpu_of h m = Some c" "\<not> if_flag m h"
    by (auto simp: popcli_def Let_def seq_eq_Inr_iff mycpu_Inr_iff split: if_splits)
  from cpu_ofD [OF c(1)] have l: "c < length (cpus m)" "apicid (cpus m ! c) = h" by auto
  show thesis
  proof (rule that [OF c(1) l c(2)])
    show "0 < ncli (cpus m ! c)"
      "cpus m' = (cpus m)[c := (cpus m ! c)\<lparr>ncli := ncli (cpus m ! c) - 1\<rparr>]"
      "if_flag m' = (if_flag m)(h := ncli (cpus m ! c) = 1 \<and> intena (cpus m ! c))"
      "lks m' = lks m" "stacks m' = stacks m"
      using assms c l
      by (auto simp: popcli_def mycpu_Inr_iff seq_eq_Inr_iff Let_def fun_eq_iff split: if_splits)
  qed
qed

text \<open>
  \<open>pushcli\<close> followed by \<open>popcli\<close> leaves the nesting depth and the locks alone, and the
  interrupt flag as well unless it was set at a non-zero depth.
\<close>

lemma push_pop:
  assumes "pushcli h m = Inr m1" and "popcli h m2 = Inr m3"
    and "cpus m2 = cpus m1" and "if_flag m2 = if_flag m1" and "stacks m2 = stacks m1"
  obtains c where "cpu_of h m = Some c" and "c < length (cpus m)" and "apicid (cpus m ! c) = h"
    and "0 \<le> ncli (cpus m ! c)"
    and "cpus m3 = (cpus m)[c := (cpus m ! c)\<lparr>intena := if ncli (cpus m ! c) = 0 then if_flag m h
                                                     else intena (cpus m ! c)\<rparr>]"
    and "if_flag m3 = (if_flag m)(h := ncli (cpus m ! c) = 0 \<and> if_flag m h)"
    and "lks m3 = lks m2" and "stacks m3 = stacks m"
proof -
  from assms(1) obtain c where c: "cpu_of h m = Some c" "c < length (cpus m)"
      "apicid (cpus m ! c) = h"
    and m1: "cpus m1 = (cpus m)[c := pushed (if_flag m h) (cpus m ! c)]"
      "if_flag m1 = (if_flag m)(h := False)" "stacks m1 = stacks m"
    by (rule pushcli_InrD)
  have same: "cpu_of h m2 = Some c"
    using c scan_list_update_same [of c "cpus m" "\<lambda>k. apicid k = h" "pushed (if_flag m h)"]
    by (simp add: assms(3) m1 pushed_def)
  from assms(2) show thesis
  proof (rule popcli_InrD)
    fix c'
    assume "cpu_of h m2 = Some c'" and "0 < ncli (cpus m2 ! c')"
      and "cpus m3 = (cpus m2)[c' := (cpus m2 ! c')\<lparr>ncli := ncli (cpus m2 ! c') - 1\<rparr>]"
      and "if_flag m3 = (if_flag m2)(h := ncli (cpus m2 ! c') = 1 \<and> intena (cpus m2 ! c'))"
      and "lks m3 = lks m2" and "stacks m3 = stacks m2"
    with same c m1 assms(3-5) that show thesis
      by (auto simp: pushed_def)
  qed
qed

lemma holding_InrD:
  assumes "holding h lk m = Inr (r, m')"
  obtains c where "cpu_of h m = Some c" and "c < length (cpus m)" and "apicid (cpus m ! c) = h"
    and "0 \<le> ncli (cpus m ! c)"
    and "r \<longleftrightarrow> locked (lks m lk) \<noteq> 0 \<and> lk_cpu (lks m lk) = Some c"
    and "cpus m' = (cpus m)[c := (cpus m ! c)\<lparr>intena := if ncli (cpus m ! c) = 0 then if_flag m h
                                                     else intena (cpus m ! c)\<rparr>]"
    and "if_flag m' = (if_flag m)(h := ncli (cpus m ! c) = 0 \<and> if_flag m h)"
    and "lks m' = lks m" and "stacks m' = stacks m"
proof -
  from assms obtain m1 c1 where m1: "pushcli h m = Inr m1" and c1: "mycpu h m1 = Inr c1"
    and m': "popcli h m1 = Inr m'"
    and r: "r \<longleftrightarrow> locked (lks m1 lk) \<noteq> 0 \<and> lk_cpu (lks m1 lk) = Some c1"
    by (auto simp: holding_def seq_eq_Inr_iff Let_def)
  from m1 have lks: "lks m1 = lks m" by (rule pushcli_InrD) simp
  have c: "cpu_of h m = Some c1"
    using c1 pushcli_cpu_of [OF m1] by (simp add: mycpu_Inr_iff)
  show thesis
  proof (rule push_pop [OF m1 m' refl refl refl])
    fix c
    assume "cpu_of h m = Some c" and facts: "c < length (cpus m)" "apicid (cpus m ! c) = h"
        "0 \<le> ncli (cpus m ! c)"
        "cpus m' = (cpus m)[c := (cpus m ! c)\<lparr>intena := if ncli (cpus m ! c) = 0 then if_flag m h
                                                     else intena (cpus m ! c)\<rparr>]"
        "if_flag m' = (if_flag m)(h := ncli (cpus m ! c) = 0 \<and> if_flag m h)"
        "lks m' = lks m1" "stacks m' = stacks m"
    with c have "c1 = c" by simp
    show thesis
      by (rule that [OF \<open>cpu_of h m = Some c\<close> facts(1-3)])
        (simp_all add: facts(4-7) r lks \<open>c1 = c\<close>)
  qed
qed

lemma acquire_enter_InrD:
  assumes "acquire_enter h lk m = Inr m'"
  obtains c k where "cpu_of h m = Some c" and "c < length (cpus m)" and "apicid (cpus m ! c) = h"
    and "cpus m' = (cpus m)[c := k]" and "apicid k = h" and "ncli k = ncli (cpus m ! c) + 1"
    and "cpu_proc k = cpu_proc (cpus m ! c)"
    and "if_flag m' = (if_flag m)(h := False)" and "lks m' = lks m" and "stacks m' = stacks m"
    and "\<not> (locked (lks m lk) \<noteq> 0 \<and> lk_cpu (lks m lk) = Some c)"
proof -
  from assms obtain m1 where m1: "pushcli h m = Inr m1" and m': "holding h lk m1 = Inr (False, m')"
    by (auto simp: acquire_enter_def seq_eq_Inr_iff split: if_splits)
  from m1 obtain c where c: "cpu_of h m = Some c" "c < length (cpus m)" "apicid (cpus m ! c) = h"
    and m1': "cpus m1 = (cpus m)[c := pushed (if_flag m h) (cpus m ! c)]"
      "if_flag m1 = (if_flag m)(h := False)" "lks m1 = lks m" "stacks m1 = stacks m"
    by (rule pushcli_InrD)
  have same: "cpu_of h m1 = Some c" using c pushcli_cpu_of [OF m1] by simp
  from m' obtain c' where c': "cpu_of h m1 = Some c'"
    and r: "False \<longleftrightarrow> locked (lks m1 lk) \<noteq> 0 \<and> lk_cpu (lks m1 lk) = Some c'"
    and m'': "cpus m' = (cpus m1)[c' := (cpus m1 ! c')\<lparr>intena := if ncli (cpus m1 ! c') = 0
                then if_flag m1 h else intena (cpus m1 ! c')\<rparr>]"
      "if_flag m' = (if_flag m1)(h := ncli (cpus m1 ! c') = 0 \<and> if_flag m1 h)"
      "lks m' = lks m1" "stacks m' = stacks m1"
    by (rule holding_InrD)
  have [simp]: "c' = c" using same c' by simp
  show thesis
    by (rule that [OF c, of "cpus m' ! c"]) (use r c(2) in \<open>simp_all add: m'' m1' pushed_def c(3)\<close>)
qed

lemma release_InrD:
  assumes "release h lk m = Inr m'"
  obtains c k where "cpu_of h m = Some c" and "c < length (cpus m)" and "apicid (cpus m ! c) = h"
    and "cpus m' = (cpus m)[c := k]" and "apicid k = h" and "ncli k = ncli (cpus m ! c) - 1"
    and "cpu_proc k = cpu_proc (cpus m ! c)"
    and "0 < ncli (cpus m ! c)" and "\<forall>h'. h' \<noteq> h \<longrightarrow> if_flag m' h' = if_flag m h'"
    and "0 < ncli k \<longrightarrow> \<not> if_flag m' h"
    and "locked (lks m lk) \<noteq> 0" and "lk_cpu (lks m lk) = Some c"
    and "lks m' = (lks m)(lk := (lks m lk)\<lparr>pcs := (pcs (lks m lk))[0 := 0], lk_cpu := None, locked := 0\<rparr>)"
proof -
  define f where "f = (\<lambda>l :: spinlock. l\<lparr>pcs := (pcs l)[0 := 0], lk_cpu := None, locked := 0\<rparr>)"
  from assms obtain m1 where m1: "holding h lk m = Inr (True, m1)"
    and m': "popcli h (upd_lk lk f m1) = Inr m'"
    by (auto simp: release_def f_def seq_eq_Inr_iff split: if_splits)
  from m1 obtain c where c: "cpu_of h m = Some c" "c < length (cpus m)" "apicid (cpus m ! c) = h"
    and r: "locked (lks m lk) \<noteq> 0" "lk_cpu (lks m lk) = Some c"
    and m1': "cpus m1 = (cpus m)[c := (cpus m ! c)\<lparr>intena := if ncli (cpus m ! c) = 0 then if_flag m h
                                                     else intena (cpus m ! c)\<rparr>]"
      "if_flag m1 = (if_flag m)(h := ncli (cpus m ! c) = 0 \<and> if_flag m h)" "lks m1 = lks m"
    by (rule holding_InrD) simp
  have same: "cpu_of h m1 = Some c"
    using c scan_list_update_same [of c "cpus m" "\<lambda>k. apicid k = h"
        "\<lambda>k. k\<lparr>intena := if ncli k = 0 then if_flag m h else intena k\<rparr>"]
    by (simp add: m1')
  from m' obtain c' where c': "cpu_of h m1 = Some c'"
    and n: "0 < ncli (cpus m1 ! c')"
    and m'': "cpus m' = (cpus m1)[c' := (cpus m1 ! c')\<lparr>ncli := ncli (cpus m1 ! c') - 1\<rparr>]"
      "if_flag m' = (if_flag m1)(h := ncli (cpus m1 ! c') = 1 \<and> intena (cpus m1 ! c'))"
      "lks m' = (lks m1)(lk := f (lks m1 lk))"
    by (rule popcli_InrD) simp
  have [simp]: "c' = c" using same c' by simp
  show thesis
    by (rule that [OF c, of "cpus m' ! c"]) (use n c(2) r in \<open>simp_all add: m'' m1' f_def c(3) split: if_splits\<close>)
qed

lemma myproc_InrD:
  assumes "myproc h m = Inr (p, m')"
  obtains c k where "cpu_of h m = Some c" and "c < length (cpus m)" and "apicid (cpus m ! c) = h"
    and "cpus m' = (cpus m)[c := k]" and "apicid k = h" and "ncli k = ncli (cpus m ! c)"
    and "cpu_proc k = cpu_proc (cpus m ! c)" and "p = cpu_proc (cpus m ! c)"
    and "if_flag m' = (if_flag m)(h := ncli (cpus m ! c) = 0 \<and> if_flag m h)" and "lks m' = lks m"
proof -
  from assms obtain m1 c1 where m1: "pushcli h m = Inr m1" and c1: "mycpu h m1 = Inr c1"
    and m': "popcli h m1 = Inr m'" and p: "p = cpu_proc (cpus m1 ! c1)"
    by (auto simp: myproc_def seq_eq_Inr_iff Let_def)
  have c: "cpu_of h m = Some c1"
    using c1 pushcli_cpu_of [OF m1] by (simp add: mycpu_Inr_iff)
  have "p = cpu_proc (cpus m ! c1)" and lks: "lks m1 = lks m"
    using m1 c by (auto elim!: pushcli_InrD simp: p pushed_def)
  moreover obtain c' where c': "cpu_of h m = Some c'" "c' < length (cpus m)" "apicid (cpus m ! c') = h"
    and m'': "cpus m' = (cpus m)[c' := (cpus m ! c')\<lparr>intena := if ncli (cpus m ! c') = 0
                then if_flag m h else intena (cpus m ! c')\<rparr>]"
      "if_flag m' = (if_flag m)(h := ncli (cpus m ! c') = 0 \<and> if_flag m h)"
      "lks m' = lks m1"
    by (rule push_pop [OF m1 m' refl refl refl])
  moreover from c c'(1) have "c1 = c'" by simp
  ultimately show thesis
    by (intro that [of c' "cpus m' ! c'"]) (simp_all add: lks)
qed

section \<open>Mutual exclusion\<close>

definition spin_inv :: "smp \<Rightarrow> bool" where
  "spin_inv s \<longleftrightarrow>
     distinct (map apicid (cpus (fst s))) \<and>
     (\<forall>lk. locked (lks (fst s) lk) = 0 \<longrightarrow>
        lk_cpu (lks (fst s) lk) = None \<and> (\<forall>h. snd s h \<noteq> Won lk)) \<and>
     (\<forall>lk h. snd s h = Won lk \<longrightarrow>
        lk_cpu (lks (fst s) lk) = None \<and> (\<forall>h'. snd s h' = Won lk \<longrightarrow> h' = h))"

lemma spin_inv_booted: "booted s \<Longrightarrow> spin_inv s"
  by (simp add: booted_def spin_inv_def)

lemma map_apicid_update:
  "c < length xs \<Longrightarrow> apicid k = apicid (xs ! c) \<Longrightarrow> map apicid (xs[c := k]) = map apicid xs"
  by (simp add: map_update list_update_same_conv)

lemma spin_step_inv: "spin_step s t \<Longrightarrow> spin_inv s \<Longrightarrow> spin_inv t"
proof (induction rule: spin_step.induct)
  case (step_enter ph h lk m m')
  from step_enter(2) have "lks m' = lks m" "map apicid (cpus m') = map apicid (cpus m)"
    by (auto elim!: acquire_enter_InrD simp: map_apicid_update)
  with step_enter(3) show ?case unfolding spin_inv_def by auto
next
  case (step_spin ph h lk m old m')
  then show ?case by (auto simp: spin_inv_def xchg_def split: if_splits)
next
  case (step_won ph h lk m old m')
  then show ?case by (auto simp: spin_inv_def xchg_def split: if_splits)
next
  case (step_record ph h lk fp m m')
  then show ?case
    by (auto simp: spin_inv_def acquire_won_def seq_eq_Inr_iff mycpu_Inr_iff split: if_splits)
next
  case (step_release ph h lk m m')
  from step_release(2) show ?case
    by (rule release_InrD) (use step_release(3) in \<open>auto simp: spin_inv_def map_apicid_update\<close>)
next
  case (step_myproc ph h m p m')
  from step_myproc(2) have "lks m' = lks m" "map apicid (cpus m') = map apicid (cpus m)"
    by (auto elim!: myproc_InrD simp: map_apicid_update)
  with step_myproc(3) show ?case unfolding spin_inv_def by auto
next
  case (step_sti ph h c m)
  then show ?case by (simp add: spin_inv_def)
qed

lemma reachable_spin_inv: "spin_reachable s0 s \<Longrightarrow> booted s0 \<Longrightarrow> spin_inv s"
  by (induction rule: spin_reachable.induct) (auto intro: spin_inv_booted spin_step_inv)

lemma spin_inv_exclusive:
  assumes "spin_inv s" and "in_cs s h lk" and "in_cs s h' lk"
  shows "h = h'"
proof -
  have "c = c'" if "c < length (cpus (fst s))" "c' < length (cpus (fst s))"
      "apicid (cpus (fst s) ! c) = apicid (cpus (fst s) ! c')" for c c'
    using assms(1) that unfolding spin_inv_def
    by (metis (mono_tags, lifting) length_map nth_eq_iff_index_eq nth_map)
  then show ?thesis
    using assms unfolding in_cs_def spin_inv_def by (metis option.distinct(1) option.inject)
qed

section \<open>A CPU that holds a lock takes no interrupt\<close>

definition held_of :: "nat \<Rightarrow> machine \<Rightarrow> lockid set" where
  "held_of c m = {lk. lk_cpu (lks m lk) = Some c}"

definition depth_ok :: "smp \<Rightarrow> nat \<Rightarrow> bool" where
  "depth_ok s c \<longleftrightarrow>
     (let m = fst s; k = cpus m ! c in
      finite (held_of c m) \<and>
      int (card (held_of c m)) + (if snd s (apicid k) = Run then 0 else 1) \<le> ncli k \<and>
      (0 < ncli k \<longrightarrow> \<not> if_flag m (apicid k)))"

definition depth_inv :: "smp \<Rightarrow> bool" where
  "depth_inv s \<longleftrightarrow> (\<forall>c < length (cpus (fst s)). depth_ok s c)"

lemma depth_inv_booted: "booted s \<Longrightarrow> depth_inv s"
  by (auto simp: booted_def depth_inv_def depth_ok_def held_of_def Let_def)

lemma distinct_apicid:
  "distinct (map apicid xs) \<Longrightarrow> c < length xs \<Longrightarrow> c' < length xs \<Longrightarrow> c' \<noteq> c \<Longrightarrow>
   apicid (xs ! c') \<noteq> apicid (xs ! c)"
  by (metis length_map nth_eq_iff_index_eq nth_map)

lemma held_of_xchg: "xchg lk v m = (old, m') \<Longrightarrow> held_of c m' = held_of c m \<and> cpus m' = cpus m \<and>
    if_flag m' = if_flag m"
  by (auto simp: xchg_def held_of_def split: if_splits)

lemma depth_inv_one_cpu:
  assumes "depth_inv (m, ph)" and "distinct (map apicid (cpus m))"
    and "c < length (cpus m)" and "cpus m' = (cpus m)[c := k]" and "apicid k = apicid (cpus m ! c)"
    and "\<And>h. h \<noteq> apicid k \<Longrightarrow> if_flag m' h = if_flag m h \<and> ph' h = ph h"
    and "\<And>c'. c' \<noteq> c \<Longrightarrow> held_of c' m' = held_of c' m"
    and "depth_ok (m', ph') c"
  shows "depth_inv (m', ph')"
  unfolding depth_inv_def
proof (intro allI impI)
  fix c'
  assume c': "c' < length (cpus (fst (m', ph')))"
  show "depth_ok (m', ph') c'"
  proof (cases "c' = c")
    case True
    with assms(8) show ?thesis by simp
  next
    case False
    with assms(2-5) c' have ne: "apicid (cpus m ! c') \<noteq> apicid k"
      using distinct_apicid [of "cpus m" c c'] by simp
    from assms(1) c' assms(4) have "depth_ok (m, ph) c'" by (simp add: depth_inv_def)
    with False ne assms(4,6,7) show ?thesis by (simp add: depth_ok_def Let_def)
  qed
qed

lemma spin_step_depth: "spin_step s t \<Longrightarrow> spin_inv s \<Longrightarrow> depth_inv s \<Longrightarrow> depth_inv t"
proof (induction rule: spin_step.induct)
  case (step_enter ph h lk m m')
  from step_enter(2) obtain c k where c: "c < length (cpus m)" "apicid (cpus m ! c) = h"
    and m': "cpus m' = (cpus m)[c := k]" "apicid k = h" "ncli k = ncli (cpus m ! c) + 1"
      "if_flag m' = (if_flag m)(h := False)" "lks m' = lks m"
    by (rule acquire_enter_InrD)
  from step_enter(4) c have "depth_ok (m, ph) c" by (simp add: depth_inv_def)
  then have d: "depth_ok (m', ph(h := Spin lk)) c"
    using c m' step_enter(1) by (simp add: depth_ok_def held_of_def Let_def)
  show ?case
    by (rule depth_inv_one_cpu [OF step_enter(4) _ c(1) m'(1) _ _ _ d])
      (use step_enter(3) in \<open>simp_all add: spin_inv_def held_of_def c m'\<close>)
next
  case (step_spin ph h lk m old m')
  then show ?case
    by (auto simp: depth_inv_def depth_ok_def Let_def held_of_xchg)
next
  case (step_won ph h lk m old m')
  then show ?case
    by (auto simp: depth_inv_def depth_ok_def Let_def held_of_xchg split: if_splits)
next
  case (step_record ph h lk fp m m')
  from step_record(2) obtain c where "cpu_of h m = Some c"
    and m': "m' = upd_lk lk (\<lambda>l. l\<lparr>lk_cpu := Some c, pcs := getcallerpcs fp (stacks m)\<rparr>) m"
    by (auto simp: acquire_won_def seq_eq_Inr_iff mycpu_Inr_iff)
  then have c: "c < length (cpus m)" "apicid (cpus m ! c) = h" by (auto dest: cpu_ofD)
  have free: "lk_cpu (lks m lk) = None" using step_record(1,3) by (auto simp: spin_inv_def)
  then have held: "held_of c m' = insert lk (held_of c m)" "lk \<notin> held_of c m"
    and other: "\<And>c'. c' \<noteq> c \<Longrightarrow> held_of c' m' = held_of c' m"
    by (auto simp: m' held_of_def)
  from step_record(4) c have "depth_ok (m, ph) c" by (simp add: depth_inv_def)
  then have d: "depth_ok (m', ph(h := Run)) c"
    using c held step_record(1) by (simp add: depth_ok_def Let_def m')
  show ?case
    by (rule depth_inv_one_cpu [OF step_record(4) _ c(1) _ _ _ other d, where k = "cpus m ! c"])
      (use step_record(3) in \<open>simp_all add: spin_inv_def c m'\<close>)
next
  case (step_release ph h lk m m')
  from step_release(2) obtain c k where c: "c < length (cpus m)" "apicid (cpus m ! c) = h"
    and m': "cpus m' = (cpus m)[c := k]" "apicid k = h" "ncli k = ncli (cpus m ! c) - 1"
      "\<forall>h'. h' \<noteq> h \<longrightarrow> if_flag m' h' = if_flag m h'" "0 < ncli k \<longrightarrow> \<not> if_flag m' h"
      "lk_cpu (lks m lk) = Some c"
      "lks m' = (lks m)(lk := (lks m lk)\<lparr>pcs := (pcs (lks m lk))[0 := 0], lk_cpu := None, locked := 0\<rparr>)"
    by (rule release_InrD)
  have held: "held_of c m' = held_of c m - {lk}" "lk \<in> held_of c m"
    and other: "\<And>c'. c' \<noteq> c \<Longrightarrow> held_of c' m' = held_of c' m"
    by (auto simp: m' held_of_def)
  from step_release(4) c have d: "depth_ok (m, ph) c" by (simp add: depth_inv_def)
  then have "0 < card (held_of c m)"
    using held by (auto simp: depth_ok_def Let_def card_gt_0_iff)
  then have d': "depth_ok (m', ph) c"
    using d c m' held by (simp add: depth_ok_def Let_def card_Diff_singleton)
  show ?case
    by (rule depth_inv_one_cpu [OF step_release(4) _ c(1) m'(1) _ _ other d'])
      (use step_release(3) in \<open>simp_all add: spin_inv_def c m'(2,4)\<close>)
next
  case (step_myproc ph h m p m')
  from step_myproc(2) obtain c k where c: "c < length (cpus m)" "apicid (cpus m ! c) = h"
    and m': "cpus m' = (cpus m)[c := k]" "apicid k = h" "ncli k = ncli (cpus m ! c)"
      "if_flag m' = (if_flag m)(h := ncli (cpus m ! c) = 0 \<and> if_flag m h)" "lks m' = lks m"
    by (rule myproc_InrD)
  from step_myproc(4) c have "depth_ok (m, ph) c" by (simp add: depth_inv_def)
  then have d: "depth_ok (m', ph) c"
    using c m' by (simp add: depth_ok_def held_of_def Let_def)
  show ?case
    by (rule depth_inv_one_cpu [OF step_myproc(4) _ c(1) m'(1) _ _ _ d])
      (use step_myproc(3) in \<open>simp_all add: spin_inv_def held_of_def c m'\<close>)
next
  case (step_sti ph h c m)
  then have "depth_ok (m, ph) c" by (simp add: depth_inv_def)
  then have d: "depth_ok (sti h m, ph) c"
    using step_sti by (simp add: depth_ok_def held_of_def Let_def)
  show ?case
    by (rule depth_inv_one_cpu [OF step_sti(6) _ step_sti(2) _ _ _ _ d, where k = "cpus m ! c"])
      (use step_sti in \<open>simp_all add: spin_inv_def held_of_def\<close>)
qed

lemma reachable_depth_inv: "spin_reachable s0 s \<Longrightarrow> booted s0 \<Longrightarrow> depth_inv s"
  by (induction rule: spin_reachable.induct)
    (auto intro: depth_inv_booted spin_step_depth reachable_spin_inv)

lemma in_cs_depth:
  assumes "depth_inv s" and "c < length (cpus (fst s))" and "apicid (cpus (fst s) ! c) = h"
    and "lk_cpu (lks (fst s) lk) = Some c \<or> snd s h = Won lk"
  shows "0 < ncli (cpus (fst s) ! c) \<and> \<not> if_flag (fst s) h"
proof -
  from assms(1,2) have d: "depth_ok s c" by (simp add: depth_inv_def)
  have "0 < int (card (held_of c (fst s))) + (if snd s h = Run then 0 else 1)"
  proof (cases "snd s h = Run")
    case True
    with assms(4) have "lk \<in> held_of c (fst s)" by (auto simp: held_of_def)
    with d have "0 < card (held_of c (fst s))"
      by (auto simp: depth_ok_def Let_def card_gt_0_iff)
    with True show ?thesis by simp
  qed simp
  with d assms(3) show ?thesis by (auto simp: depth_ok_def Let_def)
qed

section \<open>The locks of the running CPU as a list\<close>

text \<open>
  The state every later component extends: the spin locks the running CPU holds, most
  recent first. A lock that another CPU holds makes \<open>acquire\<close> wait and is not visible here.
\<close>

record kcore =
  held :: "lockid list"

definition lock :: "lockid \<Rightarrow> 'a kcore_scheme \<Rightarrow> 'a kcore_scheme stop + 'a kcore_scheme" where
  "lock lk s =
     (if lk \<in> set (held s) then Inl (Panic ''acquire'') else Inr (s\<lparr>held := lk # held s\<rparr>))"

definition unlock :: "lockid \<Rightarrow> 'a kcore_scheme \<Rightarrow> 'a kcore_scheme stop + 'a kcore_scheme" where
  "unlock lk s =
     (if lk \<notin> set (held s) then Inl (Panic ''release'') else Inr (s\<lparr>held := remove1 lk (held s)\<rparr>))"

definition holds :: "nat \<Rightarrow> machine \<Rightarrow> lockid list \<Rightarrow> bool" where
  "holds c m ls \<longleftrightarrow> distinct ls \<and>
     set ls = {lk. locked (lks m lk) \<noteq> 0 \<and> lk_cpu (lks m lk) = Some c}"

lemma acquire_refines_lock:
  assumes "acquire h fp lk m = Inr m'" and "cpu_of h m = Some c" and "holds c m (held s)"
  shows "\<exists>s'. lock lk s = Inr s' \<and> holds c m' (held s')"
proof -
  from assms(1) obtain m1 where m1: "acquire_enter h lk m = Inr m1"
    and free: "locked (lks m1 lk) = 0"
    and m': "acquire_won h fp lk (upd_lk lk (\<lambda>l. l\<lparr>locked := 1\<rparr>) m1) = Inr m'"
    by (auto simp: acquire_def xchg_def seq_eq_Inr_iff split: if_splits)
  from m1 obtain k where "c < length (cpus m)" "cpus m1 = (cpus m)[c := k]" "apicid k = h"
      "lks m1 = lks m" "apicid (cpus m ! c) = h"
    by (rule acquire_enter_InrD) (use assms(2) in auto)
  note k = this
  have "cpu_of h m1 = Some c"
    using assms(2) k scan_list_update_same [of c "cpus m" "\<lambda>k. apicid k = h" "\<lambda>_. k"] by simp
  with m' have m': "m' = upd_lk lk (\<lambda>l. l\<lparr>lk_cpu := Some c, pcs := getcallerpcs fp (stacks m1)\<rparr>)
      (upd_lk lk (\<lambda>l. l\<lparr>locked := 1\<rparr>) m1)"
    by (simp add: acquire_won_def mycpu_def split: if_splits)
  have fresh: "lk \<notin> set (held s)"
    using free k(4) assms(3) by (simp add: holds_def)
  have set: "set (lk # held s) = {lk. locked (lks m' lk) \<noteq> 0 \<and> lk_cpu (lks m' lk) = Some c}"
    using assms(3) k(4) by (auto simp: holds_def m')
  have "lock lk s = Inr (s\<lparr>held := lk # held s\<rparr>)" using fresh by (simp add: lock_def)
  moreover have "holds c m' (held (s\<lparr>held := lk # held s\<rparr>))"
    unfolding holds_def using set fresh assms(3) by (simp add: holds_def)
  ultimately show ?thesis by blast
qed

lemma release_refines_unlock:
  assumes "release h lk m = Inr m'" and "cpu_of h m = Some c" and "holds c m (held s)"
  shows "\<exists>s'. unlock lk s = Inr s' \<and> holds c m' (held s')"
  using assms(1)
  by (rule release_InrD) (use assms(2,3) in \<open>auto simp: holds_def unlock_def\<close>)

lemma lock_fresh [simp]: "lk \<notin> set (held s) \<Longrightarrow> lock lk s = Inr (s\<lparr>held := lk # held s\<rparr>)"
  by (simp add: lock_def)

lemma unlock_top [simp]: "held s = lk # ls \<Longrightarrow> unlock lk s = Inr (s\<lparr>held := ls\<rparr>)"
  by (simp add: unlock_def)

lemma lock_Inr_iff: "lock lk s = Inr t \<longleftrightarrow> lk \<notin> set (held s) \<and> t = s\<lparr>held := lk # held s\<rparr>"
  by (auto simp: lock_def)

lemma unlock_Inr_iff:
  "unlock lk s = Inr t \<longleftrightarrow> lk \<in> set (held s) \<and> t = s\<lparr>held := remove1 lk (held s)\<rparr>"
  by (auto simp: unlock_def)

lemma pushcli_total:
  assumes "cpu_of h m = Some c"
  shows "\<exists>m'. pushcli h m = Inr m'"
  using assms by (simp add: pushcli_def mycpu_def Let_def)

lemma popcli_total:
  assumes "cpu_of h m = Some c" and "\<not> if_flag m h" and "0 < ncli (cpus m ! c)"
  shows "\<exists>m'. popcli h m = Inr m'"
  using assms by (auto simp: popcli_def mycpu_def Let_def dest: cpu_ofD)

lemma holding_total:
  assumes "cpu_of h m = Some c" and "0 \<le> ncli (cpus m ! c)"
  shows "\<exists>m'. holding h lk m = Inr (locked (lks m lk) \<noteq> 0 \<and> lk_cpu (lks m lk) = Some c, m')"
proof -
  obtain m1 where m1: "pushcli h m = Inr m1" using pushcli_total [OF assms(1)] by blast
  have c: "cpu_of h m1 = Some c" using assms(1) pushcli_cpu_of [OF m1] by simp
  have k: "\<not> if_flag m1 h" "0 < ncli (cpus m1 ! c)" "lks m1 = lks m"
    by (rule pushcli_InrD [OF m1]; use assms in \<open>simp add: pushed_def\<close>)+
  from popcli_total [OF c k(1,2)] m1 c k show ?thesis
    by (auto simp: holding_def mycpu_def Let_def)
qed

section \<open>Properties\<close>

text \<open>A two-CPU machine as \<open>mpinit\<close> leaves it, for the witnesses.\<close>

definition two_cpus :: machine where
  "two_cpus = \<lparr>cpus = [\<lparr>apicid = 0, started = 1, ncli = 0, intena = False, cpu_proc = None\<rparr>,
                       \<lparr>apicid = 1, started = 1, ncli = 0, intena = False, cpu_proc = None\<rparr>],
     if_flag = (\<lambda>_. True), lks = (\<lambda>_. \<lparr>locked = 0, lk_name = [], lk_cpu = None, pcs = []\<rparr>),
     stacks = (\<lambda>_. 0)\<rparr>"

lemmas spin_evals = acquire_def acquire_enter_def acquire_won_def release_def holding_def
  pushcli_def popcli_def mycpu_def upd_cpu_def upd_lk_def cli_def sti_def xchg_def two_cpus_def
  getcallerpcs_def numeral_eq_Suc

lemma two_cpus_booted: "booted (two_cpus, \<lambda>_. Run)"
  by (simp add: booted_def two_cpus_def)

lemma two_cpus_won:
  "\<exists>s. spin_reachable (two_cpus, \<lambda>_. Run) s \<and> snd s 1 = Won L_kmem \<and> map apicid (cpus (fst s)) = [0, 1]"
proof -
  let ?r = "\<lambda>_ :: uchar. Run"
  define m1 where "m1 = projr (acquire_enter 1 L_kmem two_cpus)"
  have e: "acquire_enter 1 L_kmem two_cpus = Inr m1" and l: "locked (lks m1 L_kmem) = 0"
    and a: "map apicid (cpus m1) = [0, 1]"
    by (simp_all add: m1_def spin_evals)
  have "spin_step (two_cpus, ?r) (m1, ?r(1 := Spin L_kmem))"
    by (rule step_enter [OF refl e])
  then have "spin_reachable (two_cpus, ?r) (m1, ?r(1 := Spin L_kmem))"
    by (rule spin_next [OF spin_start])
  moreover have "spin_step (m1, ?r(1 := Spin L_kmem))
      (snd (xchg L_kmem 1 m1), (?r(1 := Spin L_kmem))(1 := Won L_kmem))"
    using l by (intro step_won [of _ _ L_kmem _ "fst (xchg L_kmem 1 m1)"]) (auto simp: xchg_def)
  ultimately have "spin_reachable (two_cpus, ?r)
      (snd (xchg L_kmem 1 m1), (?r(1 := Spin L_kmem))(1 := Won L_kmem))"
    by (rule spin_next)
  then show ?thesis
    using a by (intro exI [of _ "(snd (xchg L_kmem 1 m1), (?r(1 := Spin L_kmem))(1 := Won L_kmem))"] conjI)
      (simp_all add: xchg_def)
qed

text \<open>
  C4: mutual exclusion. In every interleaving of the CPUs that starts from the booted
  machine, two CPUs in the critical section of the same spin lock are the same CPU.
\<close>

theorem spin_mutual_exclusion:
  assumes "booted s0" and "spin_reachable s0 s" and "in_cs s h lk" and "in_cs s h' lk"
  shows "h = h'"
  using reachable_spin_inv [OF assms(2,1)] assms(3,4) by (rule spin_inv_exclusive)

theorem spin_mutual_exclusion_witness:
  "\<exists>s. spin_reachable (two_cpus, \<lambda>_. Run) s \<and> in_cs s 1 L_kmem \<and> (\<forall>h. in_cs s h L_kmem \<longrightarrow> h = 1)"
proof -
  obtain s where s: "spin_reachable (two_cpus, \<lambda>_. Run) s" "in_cs s 1 L_kmem"
    using two_cpus_won by (auto simp: in_cs_def)
  with spin_mutual_exclusion [OF two_cpus_booted s(1) _ s(2)] show ?thesis by blast
qed

text \<open>
  C23: a CPU inside the critical section of a spin lock, from the winning exchange until
  \<open>release\<close>, has a positive \<open>ncli\<close> and its interrupts are off, in every interleaving from
  the booted machine. An interrupt handler therefore cannot spin on a lock its own CPU holds.
\<close>

theorem lock_holder_interrupts_off:
  assumes "booted s0" and "spin_reachable s0 s" and "in_cs s h lk"
    and "c < length (cpus (fst s))" and "apicid (cpus (fst s) ! c) = h"
  shows "0 < ncli (cpus (fst s) ! c) \<and> \<not> if_flag (fst s) h"
proof (rule in_cs_depth [OF reachable_depth_inv [OF assms(2,1)] assms(4,5)])
  have "distinct (map apicid (cpus (fst s)))"
    using reachable_spin_inv [OF assms(2,1)] by (simp add: spin_inv_def)
  then show "lk_cpu (lks (fst s) lk) = Some c \<or> snd s h = Won lk"
    using assms(3-5) distinct_apicid by (fastforce simp: in_cs_def)
qed

theorem lock_holder_interrupts_off_witness:
  "\<exists>s. spin_reachable (two_cpus, \<lambda>_. Run) s \<and> in_cs s 1 L_kmem \<and> \<not> if_flag (fst s) 1"
proof -
  obtain s where s: "spin_reachable (two_cpus, \<lambda>_. Run) s" "in_cs s 1 L_kmem"
      and a: "map apicid (cpus (fst s)) = [0, 1]"
    using two_cpus_won by (auto simp: in_cs_def)
  from a have "1 < length (cpus (fst s))" "apicid (cpus (fst s) ! 1) = 1"
    by (auto simp: map_eq_Cons_conv)
  with lock_holder_interrupts_off [OF two_cpus_booted s this] s show ?thesis by blast
qed

text \<open>
  C22: \<open>acquire\<close> and \<open>release\<close> refine the view of the held locks the other components use.
  Whenever the detailed code returns, \<open>lock\<close> (or \<open>unlock\<close>) succeeds on the list of the
  CPU's locks and its result describes the new machine; when \<open>lock\<close> panics because the lock
  is already held, so does \<open>acquire\<close>, and \<open>release\<close> of a lock not held panics likewise.
\<close>

theorem spinlock_refinement:
  assumes "cpu_of h m = Some c" and "holds c m (held s)" and "0 \<le> ncli (cpus m ! c)"
  shows "(acquire h fp lk m = Inr m' \<longrightarrow> (\<exists>s'. lock lk s = Inr s' \<and> holds c m' (held s'))) \<and>
         (release h lk m = Inr m' \<longrightarrow> (\<exists>s'. unlock lk s = Inr s' \<and> holds c m' (held s'))) \<and>
         (lk \<in> set (held s) \<longrightarrow> acquire h fp lk m = Inl (Panic ''acquire'')) \<and>
         (lk \<notin> set (held s) \<longrightarrow> release h lk m = Inl (Panic ''release''))"
proof -
  have "lk \<in> set (held s) \<longrightarrow> acquire h fp lk m = Inl (Panic ''acquire'')"
  proof
    assume "lk \<in> set (held s)"
    then have own: "locked (lks m lk) \<noteq> 0" "lk_cpu (lks m lk) = Some c"
      using assms(2) by (auto simp: holds_def)
    obtain m1 where m1: "pushcli h m = Inr m1" using pushcli_total [OF assms(1)] by blast
    have c: "cpu_of h m1 = Some c" using assms(1) pushcli_cpu_of [OF m1] by simp
    have k: "0 \<le> ncli (cpus m1 ! c)" "lks m1 = lks m"
      by (rule pushcli_InrD [OF m1]; use assms(1,3) in \<open>simp add: pushed_def\<close>)+
    from holding_total [OF c k(1), of lk] own m1 k(2) show "acquire h fp lk m = Inl (Panic ''acquire'')"
      by (auto simp: acquire_def acquire_enter_def)
  qed
  moreover have "lk \<notin> set (held s) \<longrightarrow> release h lk m = Inl (Panic ''release'')"
  proof
    assume "lk \<notin> set (held s)"
    then have "\<not> (locked (lks m lk) \<noteq> 0 \<and> lk_cpu (lks m lk) = Some c)"
      using assms(2) by (simp add: holds_def)
    with holding_total [OF assms(1,3), of lk] show "release h lk m = Inl (Panic ''release'')"
      by (auto simp: release_def)
  qed
  ultimately show ?thesis
    using acquire_refines_lock [OF _ assms(1,2)] release_refines_unlock [OF _ assms(1,2)] by simp
qed

theorem spinlock_refinement_witness:
  "\<exists>m s'. acquire 1 0 L_kmem two_cpus = Inr m \<and> lock L_kmem \<lparr>held = []\<rparr> = Inr s' \<and> holds 1 m (held s')"
proof -
  have h: "cpu_of 1 two_cpus = Some 1" "holds 1 two_cpus (held \<lparr>held = []\<rparr>)"
      "0 \<le> ncli (cpus two_cpus ! 1)"
    by (simp_all add: two_cpus_def holds_def)
  have "\<exists>m. acquire 1 0 L_kmem two_cpus = Inr m" by (simp add: spin_evals)
  with spinlock_refinement [OF h] show ?thesis by blast
qed
end
