(* ===== verification/Kalloc.thy ===== *)
theory Kalloc
  imports Cstring Spinlock
begin

text \<open>
  \<open>kalloc.c\<close>: the page allocator. The free list is threaded through the free pages
  themselves: the first word of a free page is the address of the next one. The model keeps
  it there, in byte-addressed memory. \<open>free_chain\<close> relates that memory to the list of free
  pages, and \<open>page_allocator\<close> is the contract the address-space code relies on.
\<close>

section \<open>State and operations\<close>

text \<open>
  \<open>mem\<close> is physical memory as the kernel addresses it (from \<^verbatim>\<open>KERNBASE\<close> upwards), \<open>kend\<close> the
  linker symbol \<open>end\<close>.
\<close>

record kmem_state = kcore +
  mem :: memory
  freelist :: uint
  use_lock :: bool
  kend :: uint

type_synonym ('s, 'a) kres = "'s stop + 'a"

definition kmem_lock :: "'a kmem_state_scheme \<Rightarrow> ('a kmem_state_scheme, 'a kmem_state_scheme) kres" where
  "kmem_lock s = (if use_lock s then lock L_kmem s else Inr s)"

definition kmem_unlock :: "'a kmem_state_scheme \<Rightarrow> ('a kmem_state_scheme, 'a kmem_state_scheme) kres" where
  "kmem_unlock s = (if use_lock s then unlock L_kmem s else Inr s)"

definition kfree :: "uint \<Rightarrow> 'a kmem_state_scheme \<Rightarrow> ('a kmem_state_scheme, 'a kmem_state_scheme) kres" where
  "kfree v s =
     (if v mod PGSIZE \<noteq> 0 \<or> v < kend s \<or> V2P v \<ge> PHYSTOP then Inl (Panic ''kfree'')
      else
        let s = s\<lparr>mem := memset v 1 PGSIZE (mem s)\<rparr>
        in seq (kmem_lock s) (\<lambda>s.
           kmem_unlock (s\<lparr>mem := st32 v (freelist s) (mem s), freelist := v\<rparr>)))"

definition kalloc :: "'a kmem_state_scheme \<Rightarrow> ('a kmem_state_scheme, uint \<times> 'a kmem_state_scheme) kres" where
  "kalloc s =
     seq (kmem_lock s) (\<lambda>s.
     let r = freelist s;
         s = (if r \<noteq> 0 then s\<lparr>freelist := ld32 (mem s) r\<rparr> else s)
     in seq (kmem_unlock s) (\<lambda>s. Inr (r, s)))"

lemma kfree_Inr_range:
  assumes "kfree v s = Inr s'"
  shows "unat v + 4096 < 2 ^ 32"
proof -
  have "V2P v < PHYSTOP"
    using assms by (auto simp: kfree_def split: if_splits)
  then have "unat (v - KERNBASE) < 234881024"
    by (simp add: V2P_def word_less_nat_alt)
  then show ?thesis
    using unat_lt_2_32 [of v] by (auto simp: unat_diff_word split: if_splits)
qed

function freerange_from :: "uint \<Rightarrow> uint \<Rightarrow> 'a kmem_state_scheme \<Rightarrow>
    ('a kmem_state_scheme, 'a kmem_state_scheme) kres" where
  "freerange_from p vend s =
     (if p + PGSIZE \<le> vend then seq (kfree p s) (\<lambda>s. freerange_from (p + PGSIZE) vend s)
      else Inr s)"
  by pat_completeness auto
termination
proof (relation "measure (\<lambda>(p, vend, s). unat vend - unat p)")
  fix p vend :: uint and s s' :: "'a kmem_state_scheme"
  assume le: "p + PGSIZE \<le> vend" and "kfree p s = Inr s'"
  then have "unat (p + PGSIZE) = unat p + 4096"
    using kfree_Inr_range by (intro unat_add_no_wrap [of p PGSIZE, simplified]) auto
  with le show "((p + PGSIZE, vend, s'), p, vend, s) \<in> measure (\<lambda>(p, vend, s). unat vend - unat p)"
    by (simp add: word_le_nat_alt)
qed simp

declare freerange_from.simps [simp del]

definition freerange :: "uint \<Rightarrow> uint \<Rightarrow> 'a kmem_state_scheme \<Rightarrow>
    ('a kmem_state_scheme, 'a kmem_state_scheme) kres" where
  "freerange vstart vend s = freerange_from (PGROUNDUP vstart) vend s"

definition kinit1 :: "uint \<Rightarrow> uint \<Rightarrow> 'a kmem_state_scheme \<Rightarrow>
    ('a kmem_state_scheme, 'a kmem_state_scheme) kres" where
  "kinit1 vstart vend s = freerange vstart vend (s\<lparr>use_lock := False\<rparr>)"

definition kinit2 :: "uint \<Rightarrow> uint \<Rightarrow> 'a kmem_state_scheme \<Rightarrow>
    ('a kmem_state_scheme, 'a kmem_state_scheme) kres" where
  "kinit2 vstart vend s = seq (freerange vstart vend s) (\<lambda>s. Inr (s\<lparr>use_lock := True\<rparr>))"

text \<open>\<open>freemem\<close> walks the list; on a list that is not terminated it does not return.\<close>

partial_function (option) freemem_from :: "memory \<Rightarrow> uint \<Rightarrow> uint \<Rightarrow> uint option" where
  "freemem_from m r n = (if r \<noteq> 0 then freemem_from m (ld32 m r) (n + 1) else Some n)"

definition freemem :: "'a kmem_state_scheme \<Rightarrow> uint option" where
  "freemem s = freemem_from (mem s) (freelist s) 0"

section \<open>The free list as a list of pages\<close>

primrec free_chain :: "memory \<Rightarrow> uint \<Rightarrow> uint list \<Rightarrow> bool" where
  "free_chain m r [] \<longleftrightarrow> r = 0"
| "free_chain m r (v # vs) \<longleftrightarrow> r = v \<and> v \<noteq> 0 \<and> free_chain m (ld32 m v) vs"

definition kpage :: "uint \<Rightarrow> uint \<Rightarrow> bool" where
  "kpage e v \<longleftrightarrow> pg_aligned v \<and> e \<le> v \<and> V2P v < PHYSTOP"

definition kmem_ok :: "'a kmem_state_scheme \<Rightarrow> uint list \<Rightarrow> bool" where
  "kmem_ok s vs \<longleftrightarrow> free_chain (mem s) (freelist s) vs \<and> distinct vs \<and>
     (\<forall>v \<in> set vs. kpage (kend s) v) \<and> (use_lock s \<longrightarrow> L_kmem \<notin> set (held s))"

text \<open>What an allocator operation may change: memory and the head of the list.\<close>

definition kmem_frame :: "'a kmem_state_scheme \<Rightarrow> 'a kmem_state_scheme \<Rightarrow> bool" where
  "kmem_frame s s' \<longleftrightarrow> held s' = held s \<and> use_lock s' = use_lock s \<and> kend s' = kend s \<and>
     kmem_state.more s' = kmem_state.more s"

lemma kmem_frame_refl [simp]: "kmem_frame s s"
  by (simp add: kmem_frame_def)

lemma kmem_frame_trans [trans]: "kmem_frame s s' \<Longrightarrow> kmem_frame s' s'' \<Longrightarrow> kmem_frame s s''"
  by (simp add: kmem_frame_def)

lemma kmem_frameD:
  assumes "kmem_frame s s'"
  shows "held s' = held s" "use_lock s' = use_lock s" "kend s' = kend s"
    "kmem_state.more s' = kmem_state.more s"
  using assms by (simp_all add: kmem_frame_def)

lemma kpage_nonzero: "kpage e v \<Longrightarrow> v \<noteq> 0"
  by (auto simp: kpage_def V2P_def)

lemma kpage_kfree_guard: "kpage e v \<longleftrightarrow> \<not> (v mod PGSIZE \<noteq> 0 \<or> v < e \<or> V2P v \<ge> PHYSTOP)"
  by (auto simp: kpage_def pg_aligned_def mod_eq_0_unat)

lemma pg_aligned_mod_4: "pg_aligned v \<Longrightarrow> unat v mod 4 = 0"
  using mod_mod_cancel [of 4 4096 "unat v"] by (simp add: pg_aligned_def)

lemma kfree_mem:
  assumes "pg_aligned v" and "PGROUNDDOWN x \<noteq> v"
  shows "st32 v w (memset v 1 PGSIZE m) x = m x"
  using assms by (simp add: st32_other_page pg_aligned_mod_4 memset_apply in_page_iff)

lemma free_chain_cong:
  "(\<And>v x. v \<in> set vs \<Longrightarrow> PGROUNDDOWN x = v \<Longrightarrow> m x = m' x) \<Longrightarrow> \<forall>v \<in> set vs. pg_aligned v \<Longrightarrow>
   free_chain m r vs = free_chain m' r vs"
proof (induction vs arbitrary: r)
  case Nil
  then show ?case by simp
next
  case (Cons v vs)
  then have "ld32 m v = ld32 m' v"
    by (intro ld32_cong_page) (auto simp: pg_aligned_mod_4)
  with Cons show ?case by auto
qed

lemma kmem_ok_held:
  "kmem_ok s vs \<Longrightarrow> use_lock s \<Longrightarrow> L_kmem \<notin> set (held s)"
  by (simp add: kmem_ok_def)

lemma kfree_ok:
  assumes "kmem_ok s vs" and "kpage (kend s) v" and "v \<notin> set vs"
  shows "\<exists>s'. kfree v s = Inr s' \<and> kmem_ok s' (v # vs) \<and>
     kmem_frame s s' \<and>
     (\<forall>x. PGROUNDDOWN x \<noteq> v \<longrightarrow> mem s' x = mem s x)"
proof -
  define m where "m = st32 v (freelist s) (memset v 1 PGSIZE (mem s))"
  have al: "pg_aligned v" "\<forall>u \<in> set vs. pg_aligned u"
    using assms by (auto simp: kpage_def kmem_ok_def)
  have same: "m x = mem s x" if "PGROUNDDOWN x \<noteq> v" for x
    unfolding m_def using al(1) that by (rule kfree_mem)
  have "free_chain m (freelist s) vs = free_chain (mem s) (freelist s) vs"
    using assms(3) al by (intro free_chain_cong) (auto intro!: same)
  then have chain: "free_chain m v (v # vs)"
    using assms(1,2) by (auto simp: m_def kmem_ok_def dest: kpage_nonzero)
  have run: "kfree v s = Inr (s\<lparr>mem := m, freelist := v\<rparr>)"
    using assms(2) kmem_ok_held [OF assms(1)]
    by (auto simp: kfree_def kpage_kfree_guard Let_def kmem_lock_def kmem_unlock_def m_def)
  show ?thesis
    using assms chain same by (intro exI [of _ "s\<lparr>mem := m, freelist := v\<rparr>"]) (auto simp: run kmem_ok_def kmem_frame_def)
qed

lemma kalloc_ok:
  assumes "kmem_ok s vs"
  shows "\<exists>s'. kalloc s = Inr (case vs of [] \<Rightarrow> 0 | v # _ \<Rightarrow> v, s') \<and> kmem_ok s' (tl vs) \<and>
     kmem_frame s s' \<and> mem s' = mem s"
proof (cases vs)
  case Nil
  with assms show ?thesis
    by (auto simp: kalloc_def kmem_lock_def kmem_unlock_def kmem_ok_def Let_def)
next
  case (Cons v us)
  with assms have "freelist s = v" "v \<noteq> 0" by (auto simp: kmem_ok_def)
  then have "kalloc s = Inr (v, s\<lparr>freelist := ld32 (mem s) v\<rparr>)"
    using kmem_ok_held [OF assms] by (auto simp: kalloc_def kmem_lock_def kmem_unlock_def Let_def)
  with Cons assms show ?thesis
    by (intro exI [of _ "s\<lparr>freelist := ld32 (mem s) v\<rparr>"])
      (auto simp: kmem_ok_def kmem_frame_def)
qed

section \<open>Ranges of pages\<close>

primrec pages_from :: "uint \<Rightarrow> nat \<Rightarrow> uint list" where
  "pages_from p 0 = []"
| "pages_from p (Suc n) = p # pages_from (p + PGSIZE) n"

lemma freerange_from_ok:
  assumes "kmem_ok s vs" and "distinct (pages_from p n)"
    and "\<forall>v \<in> set (pages_from p n). kpage (kend s) v \<and> v \<notin> set vs"
    and "unat vend < unat p + 4096 * Suc n" and "unat p + 4096 * n \<le> unat vend" and "unat vend + 4096 < 2 ^ 32"
  shows "\<exists>s'. freerange_from p vend s = Inr s' \<and> kmem_ok s' (rev (pages_from p n) @ vs) \<and>
     kmem_frame s s'"
  using assms
proof (induction n arbitrary: p s vs)
  case 0
  have "unat (p + PGSIZE) = unat p + 4096"
    using 0 by (intro unat_add_no_wrap [of p PGSIZE, simplified]) auto
  with 0 have "\<not> p + PGSIZE \<le> vend"
    by (simp add: word_le_nat_alt)
  with 0 show ?case by (subst freerange_from.simps) simp
next
  case (Suc n)
  have up: "unat (p + PGSIZE) = unat p + 4096"
    using Suc.prems by (intro unat_add_no_wrap [of p PGSIZE, simplified]) auto
  with Suc.prems have le: "p + PGSIZE \<le> vend"
    by (simp add: word_le_nat_alt)
  obtain s1 where s1: "kfree p s = Inr s1" "kmem_ok s1 (p # vs)" "kmem_frame s s1"
    using kfree_ok [of s vs p] Suc.prems by auto
  then have kend: "kend s1 = kend s" by (simp add: kmem_frameD)
  obtain s' where "freerange_from (p + PGSIZE) vend s1 = Inr s'"
      "kmem_ok s' (rev (pages_from (p + PGSIZE) n) @ p # vs)" "kmem_frame s1 s'"
    using Suc.IH [OF s1(2), of "p + PGSIZE"] Suc.prems up kend by auto
  with s1 le show ?case
    by (subst freerange_from.simps) (auto intro: kmem_frame_trans)
qed

lemma length_pages_from [simp]: "length (pages_from p n) = n"
  by (induction n arbitrary: p) auto

lemma set_pages_from:
  assumes "unat p + 4096 * n \<le> 2 ^ 32" and "v \<in> set (pages_from p n)"
  shows "\<exists>i < n. unat v = unat p + 4096 * i"
  using assms
proof (induction n arbitrary: p)
  case 0
  then show ?case by simp
next
  case (Suc n)
  show ?case
  proof (cases "v = p")
    case True
    then show ?thesis by (intro exI [of _ 0]) simp
  next
    case False
    then have v: "v \<in> set (pages_from (p + PGSIZE) n)" using Suc.prems by simp
    then have "n \<noteq> 0" by (cases n) auto
    then have "unat p + 4096 < 2 ^ 32" using Suc.prems by (cases n) auto
    then have up: "unat (p + PGSIZE) = unat p + 4096"
      by (intro unat_add_no_wrap [of p PGSIZE, simplified]) auto
    obtain i where "i < n" "unat v = unat (p + PGSIZE) + 4096 * i"
      using Suc.IH [of "p + PGSIZE"] v Suc.prems up by auto
    with up show ?thesis by (intro exI [of _ "Suc i"]) simp
  qed
qed

lemma distinct_pages_from: "unat p + 4096 * n \<le> 2 ^ 32 \<Longrightarrow> distinct (pages_from p n)"
proof (induction n arbitrary: p)
  case 0
  then show ?case by simp
next
  case (Suc n)
  show ?case
  proof (cases n)
    case (Suc k)
    with Suc.prems have "unat p + 4096 < 2 ^ 32" by simp
    then have up: "unat (p + PGSIZE) = unat p + 4096"
      by (intro unat_add_no_wrap [of p PGSIZE, simplified]) auto
    with Suc.prems have b: "unat (p + PGSIZE) + 4096 * n \<le> 2 ^ 32" by simp
    have "p \<notin> set (pages_from (p + PGSIZE) n)"
      using set_pages_from [OF b, of p] up by auto
    with Suc.IH [OF b] show ?thesis by simp
  qed simp
qed

lemma freerange_kpages:
  assumes "pg_aligned p" and "e \<le> p" and "KERNBASE \<le> p"
    and "unat p + 4096 * n \<le> unat (KERNBASE + PHYSTOP)" and "v \<in> set (pages_from p n)"
  shows "kpage e v"
proof -
  obtain i where i: "i < n" "unat v = unat p + 4096 * i"
    using set_pages_from [of p n v] assms(4,5) by auto
  have "unat (v - KERNBASE) < 234881024"
    using i assms(3,4) by (simp add: unat_diff_word word_le_nat_alt)
  moreover have "pg_aligned v"
    using i(2) assms(1) by (simp add: pg_aligned_def)
  ultimately show ?thesis
    using i assms(2) by (simp add: kpage_def V2P_def word_less_nat_alt word_le_nat_alt)
qed

lemma freerange_ok:
  assumes "kmem_ok s vs" and "kend s \<le> PGROUNDUP vstart" and "KERNBASE \<le> PGROUNDUP vstart"
    and "PGROUNDUP vstart \<le> vend" and "vend \<le> KERNBASE + PHYSTOP"
    and "n = (unat vend - unat (PGROUNDUP vstart)) div 4096"
    and "set (pages_from (PGROUNDUP vstart) n) \<inter> set vs = {}"
  shows "\<exists>s'. freerange vstart vend s = Inr s' \<and>
     kmem_ok s' (rev (pages_from (PGROUNDUP vstart) n) @ vs) \<and> kmem_frame s s'"
proof -
  let ?p = "PGROUNDUP vstart"
  have al: "pg_aligned ?p" by (rule pg_aligned_PGROUNDUP)
  have v: "unat vend \<le> unat (KERNBASE + PHYSTOP)" "unat ?p \<le> unat vend"
    using assms(4,5) by (simp_all add: word_le_nat_alt)
  then have b: "unat vend < unat ?p + 4096 * Suc n" "unat ?p + 4096 * n \<le> unat vend"
    unfolding assms(6) by simp_all
  with v have b': "unat ?p + 4096 * n \<le> unat (KERNBASE + PHYSTOP)" by linarith
  then have "distinct (pages_from ?p n)"
    by (intro distinct_pages_from) simp
  moreover have "\<forall>v \<in> set (pages_from ?p n). kpage (kend s) v \<and> v \<notin> set vs"
    using freerange_kpages [OF al assms(2,3) b'] assms(7) by blast
  moreover have "unat vend + 4096 < 2 ^ 32" using v by simp
  ultimately show ?thesis
    unfolding freerange_def using freerange_from_ok [OF assms(1)] b by blast
qed

lemma freemem_from_chain:
  "free_chain m r vs \<Longrightarrow> freemem_from m r n = Some (n + of_nat (length vs))"
proof (induction vs arbitrary: r n)
  case Nil
  then show ?case by (simp add: freemem_from.simps)
next
  case (Cons v vs)
  then show ?case by (subst freemem_from.simps) (simp add: algebra_simps)
qed

section \<open>The contract of the allocator\<close>

text \<open>
  What the clients of \<open>kalloc.c\<close> rely on: \<open>pool s vs\<close> says that the free pages of \<open>s\<close> are
  \<open>vs\<close>, \<open>page s v\<close> that \<open>v\<close> may be handed to \<open>free\<close>.
\<close>

locale page_allocator =
  fixes alloc :: "'s \<Rightarrow> 'e + (uint \<times> 's)"
    and free :: "uint \<Rightarrow> 's \<Rightarrow> 'e + 's"
    and pool :: "'s \<Rightarrow> uint list \<Rightarrow> bool"
    and page :: "'s \<Rightarrow> uint \<Rightarrow> bool"
    and bytes :: "'s \<Rightarrow> memory"
  assumes pool_pages: "pool s vs \<Longrightarrow> distinct vs \<and> (\<forall>v \<in> set vs. page s v)"
    and page_nonzero: "page s v \<Longrightarrow> v \<noteq> 0"
    and alloc_nil: "pool s [] \<Longrightarrow> \<exists>s'. alloc s = Inr (0, s') \<and> pool s' [] \<and> page s' = page s \<and> bytes s' = bytes s"
    and alloc_cons: "pool s (v # vs) \<Longrightarrow>
      \<exists>s'. alloc s = Inr (v, s') \<and> pool s' vs \<and> page s' = page s \<and> bytes s' = bytes s"
    and free_page: "pool s vs \<Longrightarrow> page s v \<Longrightarrow> v \<notin> set vs \<Longrightarrow>
      \<exists>s'. free v s = Inr s' \<and> pool s' (v # vs) \<and> page s' = page s \<and>
        (\<forall>x. PGROUNDDOWN x \<noteq> v \<longrightarrow> bytes s' x = bytes s x)"
begin

lemma alloc_free_alloc:
  assumes "pool s (v # vs)"
  shows "\<exists>s1 s2 s3. alloc s = Inr (v, s1) \<and> free v s1 = Inr s2 \<and> alloc s2 = Inr (v, s3) \<and> pool s3 vs"
proof -
  obtain s1 where s1: "alloc s = Inr (v, s1)" "pool s1 vs" "page s1 = page s"
    using alloc_cons [OF assms] by blast
  moreover have "page s v" "v \<notin> set vs" using pool_pages [OF assms] by auto
  ultimately obtain s2 where s2: "free v s1 = Inr s2" "pool s2 (v # vs)"
    using free_page [of s1 vs v] by auto
  with s1 alloc_cons [OF s2(2)] show ?thesis by blast
qed

lemma times_alloc:
  assumes "pool s vs" and "n \<le> length vs"
  shows "\<exists>s'. times n alloc s = Inr (take n vs, s') \<and> pool s' (drop n vs) \<and> bytes s' = bytes s"
  using assms
proof (induction n arbitrary: s vs)
  case 0
  then show ?case by simp
next
  case (Suc n)
  then obtain v us where vs: "vs = v # us" by (cases vs) auto
  with Suc.prems obtain s1 where s1: "alloc s = Inr (v, s1)" "pool s1 us" "bytes s1 = bytes s"
    using alloc_cons by blast
  obtain s2 where "times n alloc s1 = Inr (take n us, s2)" "pool s2 (drop n us)" "bytes s2 = bytes s1"
    using Suc.IH [OF s1(2)] Suc.prems vs by auto
  with s1 vs show ?case by simp
qed

lemma times_alloc_fresh:
  assumes "pool s vs" and "n \<le> length vs"
  shows "\<exists>ps s'. times n alloc s = Inr (ps, s') \<and> length ps = n \<and> distinct ps \<and> 0 \<notin> set ps \<and>
     (\<forall>v \<in> set ps. page s v) \<and> bytes s' = bytes s"
proof -
  obtain s' where s': "times n alloc s = Inr (take n vs, s')" "bytes s' = bytes s"
    using times_alloc [OF assms] by blast
  have "distinct (take n vs)" "\<forall>v \<in> set (take n vs). page s v"
    using pool_pages [OF assms(1)] by (auto dest: in_set_takeD)
  moreover from this have "0 \<notin> set (take n vs)" using page_nonzero by blast
  ultimately show ?thesis using s' assms(2) by (intro exI [of _ "take n vs"]) auto
qed

end

interpretation kalloc: page_allocator kalloc kfree kmem_ok "\<lambda>s. kpage (kend s)" mem
proof
  show "\<exists>s'. kalloc s = Inr (0, s') \<and> kmem_ok s' [] \<and> kpage (kend s') = kpage (kend s) \<and> mem s' = mem s"
    if "kmem_ok s []" for s :: "'a kmem_state_scheme"
    using kalloc_ok [OF that] by (auto dest: kmem_frameD)
  show "\<exists>s'. kalloc s = Inr (v, s') \<and> kmem_ok s' vs \<and> kpage (kend s') = kpage (kend s) \<and> mem s' = mem s"
    if "kmem_ok s (v # vs)" for s :: "'a kmem_state_scheme" and v vs
    using kalloc_ok [OF that] by (auto dest: kmem_frameD)
  show "\<exists>s'. kfree v s = Inr s' \<and> kmem_ok s' (v # vs) \<and> kpage (kend s') = kpage (kend s) \<and>
      (\<forall>x. PGROUNDDOWN x \<noteq> v \<longrightarrow> mem s' x = mem s x)"
    if "kmem_ok s vs" "kpage (kend s) v" "v \<notin> set vs" for s :: "'a kmem_state_scheme" and v vs
    using kfree_ok [OF that] by (auto dest: kmem_frameD)
qed (auto simp: kmem_ok_def dest: kpage_nonzero)

section \<open>Properties\<close>

text \<open>A machine with three pages of free memory above the kernel, for the witnesses.\<close>

definition small_kmem :: kmem_state where
  "small_kmem = \<lparr>held = [], mem = (\<lambda>_. 0), freelist = 0, use_lock = True, kend = 0x80100000\<rparr>"

lemma small_kmem_ok: "kmem_ok small_kmem []"
  by (simp add: kmem_ok_def small_kmem_def)

lemma small_kmem_pages:
  "\<exists>s. freerange 0x80100001 0x80104000 small_kmem = Inr s \<and>
     kmem_ok s [0x80103000, 0x80102000, 0x80101000] \<and> kmem_frame small_kmem s"
proof -
  have n: "3 = (unat (0x80104000 :: uint) - unat (PGROUNDUP 0x80100001)) div 4096"
    by (simp add: PGROUNDUP_def)
  have p: "pages_from (PGROUNDUP 0x80100001) 3 = [0x80101000, 0x80102000, 0x80103000]"
    by (simp add: numeral_3_eq_3 PGROUNDUP_def)
  show ?thesis
    using freerange_ok [OF small_kmem_ok _ _ _ _ n] p by (simp add: small_kmem_def PGROUNDUP_def)
qed

text \<open>
  C8: \<open>kfree\<close> and \<open>kalloc\<close> implement a stack of free pages. With the free pages \<open>vs\<close> threaded
  through memory, \<open>kfree\<close> of another page of the allocator's range pushes it and changes no byte
  outside that page; \<open>kalloc\<close> pops the head, or returns 0 when there is none; neither
  changes any other part of the kernel's state, the locks held included.
\<close>

theorem kalloc_kfree_refine_stack:
  assumes "kmem_ok s vs"
  shows "(\<exists>s'. kalloc s = Inr (case vs of [] \<Rightarrow> 0 | v # _ \<Rightarrow> v, s') \<and> kmem_ok s' (tl vs) \<and>
            kmem_frame s s' \<and> mem s' = mem s) \<and>
         (\<forall>v. kpage (kend s) v \<longrightarrow> v \<notin> set vs \<longrightarrow>
            (\<exists>s'. kfree v s = Inr s' \<and> kmem_ok s' (v # vs) \<and> kmem_frame s s' \<and>
               (\<forall>x. PGROUNDDOWN x \<noteq> v \<longrightarrow> mem s' x = mem s x)))"
  using kalloc_ok [OF assms] kfree_ok [OF assms] by blast

theorem kalloc_kfree_refine_stack_witness:
  "\<exists>s s'. kfree 0x80105000 small_kmem = Inr s \<and> kalloc s = Inr (0x80105000, s')"
proof -
  have "kpage (kend small_kmem) 0x80105000"
    by (simp add: kpage_def pg_aligned_def small_kmem_def V2P_def)
  then obtain s where s: "kfree 0x80105000 small_kmem = Inr s" "kmem_ok s [0x80105000]"
    using kalloc_kfree_refine_stack [OF small_kmem_ok] by auto
  with kalloc_kfree_refine_stack [OF s(2)] show ?thesis by auto
qed



text \<open>
  C30: as many \<open>kalloc\<close> calls in a row as there are free pages return that many distinct
  pages of the allocator's range, none of them null, and leave memory as it was.
\<close>

theorem kalloc_fresh_pages:
  assumes "kmem_ok s vs" and "n \<le> length vs"
  shows "\<exists>ps s'. times n kalloc s = Inr (ps, s') \<and> length ps = n \<and> distinct ps \<and> 0 \<notin> set ps \<and>
     (\<forall>v \<in> set ps. kpage (kend s) v) \<and> mem s' = mem s"
  using assms by (rule kalloc.times_alloc_fresh)

theorem kalloc_fresh_pages_witness:
  "\<exists>s ps s'. freerange 0x80100001 0x80104000 small_kmem = Inr s \<and> times 2 kalloc s = Inr (ps, s') \<and>
     length ps = 2 \<and> distinct ps"
proof -
  obtain s where s: "freerange 0x80100001 0x80104000 small_kmem = Inr s"
      "kmem_ok s [0x80103000, 0x80102000, 0x80101000]"
    using small_kmem_pages by blast
  with kalloc_fresh_pages [OF s(2), of 2] show ?thesis by auto
qed

text \<open>
  C31: \<open>freerange\<close> puts every whole page between \<open>PGROUNDUP(vstart)\<close> and \<open>vend\<close> on the free
  list and nothing else, for a range above the kernel image and below the top of memory;
  \<open>freemem\<close> then returns the number of free pages (it walks the list and terminates).
\<close>

theorem freerange_freemem:
  assumes "kmem_ok s vs" and "kend s \<le> PGROUNDUP vstart" and "KERNBASE \<le> PGROUNDUP vstart"
    and "PGROUNDUP vstart \<le> vend" and "vend \<le> KERNBASE + PHYSTOP"
    and "n = (unat vend - unat (PGROUNDUP vstart)) div 4096"
    and "set (pages_from (PGROUNDUP vstart) n) \<inter> set vs = {}"
  shows "freemem s = Some (of_nat (length vs)) \<and>
    (\<exists>s'. freerange vstart vend s = Inr s' \<and>
       kmem_ok s' (rev (pages_from (PGROUNDUP vstart) n) @ vs) \<and> kmem_frame s s' \<and>
       freemem s' = Some (of_nat (n + length vs)))"
proof -
  have "freemem t = Some (of_nat (length us))" if "kmem_ok t us" for t :: "'a kmem_state_scheme" and us
    using that freemem_from_chain [of "mem t" "freelist t" us 0] by (simp add: freemem_def kmem_ok_def)
  with freerange_ok [OF assms] assms(1) show ?thesis by fastforce
qed

theorem freerange_freemem_witness:
  "\<exists>s. freerange 0x80100001 0x80104000 small_kmem = Inr s \<and> freemem s = Some 3"
proof -
  have n: "3 = (unat (0x80104000 :: uint) - unat (PGROUNDUP 0x80100001)) div 4096"
    by (simp add: PGROUNDUP_def)
  show ?thesis
    using freerange_freemem [OF small_kmem_ok _ _ _ _ n] by (auto simp: small_kmem_def PGROUNDUP_def)
qed

end
