(* ===== verification/Vm.thy ===== *)
theory Vm
  imports Kalloc
begin

text \<open>
  \<open>vm.c\<close>: two-level page tables in memory, user address spaces, and copying to and from
  them. Page directories and page tables are pages of the allocator, read and written with
  32-bit loads and stores; \<open>pte_of\<close> is the mapping they stand for.
\<close>

section \<open>State and operations\<close>

text \<open>\<open>kdata\<close> is the linker symbol \<open>data\<close>, where the writable part of the kernel begins.\<close>

record vm_state = kmem_state +
  kpgdir :: uint
  cr3 :: uint
  kdata :: uint

definition walkpgdir :: "uint \<Rightarrow> uint \<Rightarrow> bool \<Rightarrow> 'a kmem_state_scheme \<Rightarrow>
    ('a kmem_state_scheme, uint \<times> 'a kmem_state_scheme) kres" where
  "walkpgdir pgdir va alloc s =
     (let pde = pgdir + 4 * PDX va
      in if ld32 (mem s) pde AND PTE_P \<noteq> 0
         then Inr (P2V (PTE_ADDR (ld32 (mem s) pde)) + 4 * PTX va, s)
         else if \<not> alloc then Inr (0, s)
         else seq (kalloc s) (\<lambda>(pgtab, s).
           if pgtab = 0 then Inr (0, s)
           else
             let s = s\<lparr>mem := memset pgtab 0 PGSIZE (mem s)\<rparr>;
                 s = s\<lparr>mem := st32 pde (V2P pgtab OR PTE_P OR PTE_W OR PTE_U) (mem s)\<rparr>
             in Inr (pgtab + 4 * PTX va, s)))"

text \<open>
  The loop of \<open>mappages\<close> leaves at \<open>a == last\<close>; from an address that is not a whole number of
  pages below \<open>last\<close> it would never get there.
\<close>

function mappages_from :: "uint \<Rightarrow> uint \<Rightarrow> uint \<Rightarrow> uint \<Rightarrow> uint \<Rightarrow> 'a kmem_state_scheme \<Rightarrow>
    ('a kmem_state_scheme, int \<times> 'a kmem_state_scheme) kres" where
  "mappages_from pgdir a lastp pa perm s =
     seq (walkpgdir pgdir a True s) (\<lambda>(pte, s).
     if pte = 0 then Inr (-1, s)
     else if ld32 (mem s) pte AND PTE_P \<noteq> 0 then Inl (Panic ''remap'')
     else
       let s = s\<lparr>mem := st32 pte (pa OR perm OR PTE_P) (mem s)\<rparr>
       in if a = lastp then Inr (0, s)
          else if unat (lastp - a) < 4096 then Inl Diverge
          else mappages_from pgdir (a + PGSIZE) lastp (pa + PGSIZE) perm s)"
  by pat_completeness auto
termination
proof (relation "measure (\<lambda>(pgdir, a, lastp, pa, perm, s). unat (lastp - a))")
  fix pgdir a lastp pa perm :: uint and s t :: "'a kmem_state_scheme"
  assume "\<not> unat (lastp - a) < 4096"
  moreover have "unat (lastp - a - 4096) = unat (lastp - a) - 4096" if "4096 \<le> unat (lastp - a)"
    using that by (simp add: unat_diff_word [of "lastp - a" 4096])
  ultimately show "((pgdir, a + PGSIZE, lastp, pa + PGSIZE, perm, t), pgdir, a, lastp, pa, perm, s)
      \<in> measure (\<lambda>(pgdir, a, lastp, pa, perm, s). unat (lastp - a))"
    by (simp add: diff_diff_eq [symmetric])
qed simp

declare mappages_from.simps [simp del]

definition mappages :: "uint \<Rightarrow> uint \<Rightarrow> uint \<Rightarrow> uint \<Rightarrow> uint \<Rightarrow> 'a kmem_state_scheme \<Rightarrow>
    ('a kmem_state_scheme, int \<times> 'a kmem_state_scheme) kres" where
  "mappages pgdir va sz pa perm s =
     mappages_from pgdir (PGROUNDDOWN va) (PGROUNDDOWN (va + sz - 1)) pa perm s"

text \<open>
  \<open>deallocuvm\<close>: a missing page table makes the loop skip to the next directory entry. Past
  the top of the address space the address wraps around and the loop never ends.
\<close>

function deallocuvm_from :: "uint \<Rightarrow> uint \<Rightarrow> uint \<Rightarrow> 'a kmem_state_scheme \<Rightarrow>
    ('a kmem_state_scheme, 'a kmem_state_scheme) kres" where
  "deallocuvm_from pgdir a oldsz s =
     (if a < oldsz then
        seq (walkpgdir pgdir a False s) (\<lambda>(pte, s).
        seq (if pte = 0 then Inr (PGADDR (PDX a + 1) 0 0 - PGSIZE, s)
             else if ld32 (mem s) pte AND PTE_P \<noteq> 0 then
               let pa = PTE_ADDR (ld32 (mem s) pte)
               in if pa = 0 then Inl (Panic ''kfree'')
                  else seq (kfree (P2V pa) s) (\<lambda>s. Inr (a, s\<lparr>mem := st32 pte 0 (mem s)\<rparr>))
             else Inr (a, s)) (\<lambda>(a', s).
        if a' + PGSIZE \<le> a then Inl Diverge else deallocuvm_from pgdir (a' + PGSIZE) oldsz s))
      else Inr s)"
  by pat_completeness auto
termination
  by (relation "measure (\<lambda>(pgdir, a, oldsz, s). 2 ^ 32 - unat a)")
    (use unat_lt_2_32 in \<open>simp_all add: word_le_nat_alt diff_less_mono2\<close>)

declare deallocuvm_from.simps [simp del]

definition deallocuvm :: "uint \<Rightarrow> uint \<Rightarrow> uint \<Rightarrow> 'a kmem_state_scheme \<Rightarrow>
    ('a kmem_state_scheme, uint \<times> 'a kmem_state_scheme) kres" where
  "deallocuvm pgdir oldsz newsz s =
     (if newsz \<ge> oldsz then Inr (oldsz, s)
      else seq (deallocuvm_from pgdir (PGROUNDUP newsz) oldsz s) (\<lambda>s. Inr (newsz, s)))"

fun freevm_tables :: "uint \<Rightarrow> nat list \<Rightarrow> 'a kmem_state_scheme \<Rightarrow>
    ('a kmem_state_scheme, 'a kmem_state_scheme) kres" where
  "freevm_tables pgdir [] s = Inr s"
| "freevm_tables pgdir (i # is) s =
     (let e = ld32 (mem s) (pgdir + 4 * of_nat i)
      in if e AND PTE_P \<noteq> 0
         then seq (kfree (P2V (PTE_ADDR e)) s) (\<lambda>s. freevm_tables pgdir is s)
         else freevm_tables pgdir is s)"

definition freevm :: "uint \<Rightarrow> 'a kmem_state_scheme \<Rightarrow>
    ('a kmem_state_scheme, 'a kmem_state_scheme) kres" where
  "freevm pgdir s =
     (if pgdir = 0 then Inl (Panic ''freevm: no pgdir'')
      else seq (deallocuvm pgdir KERNBASE 0 s) (\<lambda>(_, s).
           seq (freevm_tables pgdir [0..<NPDENTRIES] s) (\<lambda>s.
           kfree pgdir s)))"

text \<open>The kernel's part of every page table: virtual start, physical start and end, permissions.\<close>

definition kmap :: "uint \<Rightarrow> (uint \<times> uint \<times> uint \<times> uint) list" where
  "kmap dat =
     [(KERNBASE, 0, EXTMEM, PTE_W),
      (KERNLINK, V2P KERNLINK, V2P dat, 0),
      (dat, V2P dat, PHYSTOP, PTE_W),
      (DEVSPACE, DEVSPACE, 0, PTE_W)]"

fun setupkvm_from :: "uint \<Rightarrow> (uint \<times> uint \<times> uint \<times> uint) list \<Rightarrow> 'a kmem_state_scheme \<Rightarrow>
    ('a kmem_state_scheme, uint \<times> 'a kmem_state_scheme) kres" where
  "setupkvm_from pgdir [] s = Inr (pgdir, s)"
| "setupkvm_from pgdir ((virt, ps, pe, perm) # ks) s =
     seq (mappages pgdir virt (pe - ps) ps perm s) (\<lambda>(r, s).
     if r < 0 then seq (freevm pgdir s) (\<lambda>s. Inr (0, s))
     else setupkvm_from pgdir ks s)"

definition setupkvm :: "'a vm_state_scheme \<Rightarrow> ('a vm_state_scheme, uint \<times> 'a vm_state_scheme) kres" where
  "setupkvm s =
     seq (kalloc s) (\<lambda>(pgdir, s).
     if pgdir = 0 then Inr (0, s)
     else
       let s = s\<lparr>mem := memset pgdir 0 PGSIZE (mem s)\<rparr>
       in if P2V PHYSTOP > DEVSPACE then Inl (Panic ''PHYSTOP too high'')
          else setupkvm_from pgdir (kmap (kdata s)) s)"

definition switchkvm :: "'a vm_state_scheme \<Rightarrow> 'a vm_state_scheme" where
  "switchkvm s = s\<lparr>cr3 := V2P (kpgdir s)\<rparr>"

definition kvmalloc :: "'a vm_state_scheme \<Rightarrow> ('a vm_state_scheme, 'a vm_state_scheme) kres" where
  "kvmalloc s = seq (setupkvm s) (\<lambda>(pgdir, s). Inr (switchkvm (s\<lparr>kpgdir := pgdir\<rparr>)))"

text \<open>\<open>inituvm\<close> uses the page \<open>kalloc\<close> returns without a test.\<close>

definition inituvm :: "uint \<Rightarrow> uchar list \<Rightarrow> 'a kmem_state_scheme \<Rightarrow>
    ('a kmem_state_scheme, 'a kmem_state_scheme) kres" where
  "inituvm pgdir code s =
     (if length code \<ge> 4096 then Inl (Panic ''inituvm: more than a page'')
      else seq (kalloc s) (\<lambda>(v, s).
        if v = 0 then Inl (Fault ''inituvm'')
        else
          let s = s\<lparr>mem := memset v 0 PGSIZE (mem s)\<rparr>
          in seq (mappages pgdir 0 PGSIZE (V2P v) (PTE_W OR PTE_U) s) (\<lambda>(_, s).
             Inr (s\<lparr>mem := poke v code (mem s)\<rparr>))))"

function allocuvm_from :: "uint \<Rightarrow> uint \<Rightarrow> uint \<Rightarrow> uint \<Rightarrow> 'a kmem_state_scheme \<Rightarrow>
    ('a kmem_state_scheme, uint \<times> 'a kmem_state_scheme) kres" where
  "allocuvm_from pgdir a oldsz newsz s =
     (if a < newsz then
        seq (kalloc s) (\<lambda>(v, s).
        if v = 0 then seq (deallocuvm pgdir newsz oldsz s) (\<lambda>(_, s). Inr (0, s))
        else
          let s = s\<lparr>mem := memset v 0 PGSIZE (mem s)\<rparr>
          in seq (mappages pgdir a PGSIZE (V2P v) (PTE_W OR PTE_U) s) (\<lambda>(r, s).
             if r < 0 then
               seq (deallocuvm pgdir newsz oldsz s) (\<lambda>(_, s).
               seq (kfree v s) (\<lambda>s. Inr (0, s)))
             else if a + PGSIZE \<le> a then Inl Diverge
             else allocuvm_from pgdir (a + PGSIZE) oldsz newsz s))
      else Inr (newsz, s))"
  by pat_completeness auto
termination
  by (relation "measure (\<lambda>(pgdir, a, oldsz, newsz, s). 2 ^ 32 - unat a)")
    (use unat_lt_2_32 in \<open>simp_all add: word_le_nat_alt diff_less_mono2\<close>)

declare allocuvm_from.simps [simp del]

definition allocuvm :: "uint \<Rightarrow> uint \<Rightarrow> uint \<Rightarrow> 'a kmem_state_scheme \<Rightarrow>
    ('a kmem_state_scheme, uint \<times> 'a kmem_state_scheme) kres" where
  "allocuvm pgdir oldsz newsz s =
     (if newsz \<ge> KERNBASE then Inr (0, s)
      else if newsz < oldsz then Inr (oldsz, s)
      else allocuvm_from pgdir (PGROUNDUP oldsz) oldsz newsz s)"

definition clearpteu :: "uint \<Rightarrow> uint \<Rightarrow> 'a kmem_state_scheme \<Rightarrow>
    ('a kmem_state_scheme, 'a kmem_state_scheme) kres" where
  "clearpteu pgdir uva s =
     seq (walkpgdir pgdir uva False s) (\<lambda>(pte, s).
     if pte = 0 then Inl (Panic ''clearpteu'')
     else Inr (s\<lparr>mem := st32 pte (ld32 (mem s) pte AND NOT PTE_U) (mem s)\<rparr>))"

text \<open>The loop of \<open>copyuvm\<close>; \<open>d\<close> is the child's directory, freed on the label \<open>bad\<close>.\<close>

function copyuvm_from :: "uint \<Rightarrow> uint \<Rightarrow> uint \<Rightarrow> uint \<Rightarrow> 'a kmem_state_scheme \<Rightarrow>
    ('a kmem_state_scheme, uint \<times> 'a kmem_state_scheme) kres" where
  "copyuvm_from pgdir d i sz s =
     (if i < sz then
        seq (walkpgdir pgdir i False s) (\<lambda>(pte, s).
        if pte = 0 then Inl (Panic ''copyuvm: pte should exist'')
        else if ld32 (mem s) pte AND PTE_P = 0 then Inl (Panic ''copyuvm: page not present'')
        else
          let pa = PTE_ADDR (ld32 (mem s) pte); flags = PTE_FLAGS (ld32 (mem s) pte)
          in seq (kalloc s) (\<lambda>(v, s).
             if v = 0 then seq (freevm d s) (\<lambda>s. Inr (0, s))
             else
               let s = s\<lparr>mem := memmove v (P2V pa) PGSIZE (mem s)\<rparr>
               in seq (mappages d i PGSIZE (V2P v) flags s) (\<lambda>(r, s).
                  if r < 0 then seq (kfree v s) (\<lambda>s. seq (freevm d s) (\<lambda>s. Inr (0, s)))
                  else if i + PGSIZE \<le> i then Inl Diverge
                  else copyuvm_from pgdir d (i + PGSIZE) sz s)))
      else Inr (d, s))"
  by pat_completeness auto
termination
  by (relation "measure (\<lambda>(pgdir, d, i, sz, s). 2 ^ 32 - unat i)")
    (use unat_lt_2_32 in \<open>simp_all add: word_le_nat_alt diff_less_mono2\<close>)

declare copyuvm_from.simps [simp del]

definition copyuvm :: "uint \<Rightarrow> uint \<Rightarrow> 'a vm_state_scheme \<Rightarrow>
    ('a vm_state_scheme, uint \<times> 'a vm_state_scheme) kres" where
  "copyuvm pgdir sz s =
     seq (setupkvm s) (\<lambda>(d, s).
     if d = 0 then Inr (0, s) else copyuvm_from pgdir d 0 sz s)"

text \<open>\<open>uva2ka\<close> reads the entry without a test that the page table exists.\<close>

definition uva2ka :: "uint \<Rightarrow> uint \<Rightarrow> 'a kmem_state_scheme \<Rightarrow>
    ('a kmem_state_scheme, uint \<times> 'a kmem_state_scheme) kres" where
  "uva2ka pgdir uva s =
     seq (walkpgdir pgdir uva False s) (\<lambda>(pte, s).
     if pte = 0 then Inl (Fault ''uva2ka'')
     else if ld32 (mem s) pte AND PTE_P = 0 then Inr (0, s)
     else if ld32 (mem s) pte AND PTE_U = 0 then Inr (0, s)
     else Inr (P2V (PTE_ADDR (ld32 (mem s) pte)), s))"

lemma page_rest_pos: "0 < unat (PGSIZE - (va - PGROUNDDOWN va))"
proof -
  have "unat (va - PGROUNDDOWN va) < 4096"
    using in_page_iff [of "PGROUNDDOWN va" va] by simp
  then show ?thesis
    by (simp add: unat_diff_word [of _ "va - PGROUNDDOWN va"] del: diff_diff_eq2)
qed

text \<open>The buffer of \<open>copyout\<close> is a list of bytes; its length is the argument \<open>len\<close>.\<close>

function copyout :: "uint \<Rightarrow> uint \<Rightarrow> uchar list \<Rightarrow> 'a kmem_state_scheme \<Rightarrow>
    ('a kmem_state_scheme, int \<times> 'a kmem_state_scheme) kres" where
  "copyout pgdir va buf s =
     (if length buf > 0 then
        let va0 = PGROUNDDOWN va
        in seq (uva2ka pgdir va0 s) (\<lambda>(pa0, s).
           if pa0 = 0 then Inr (-1, s)
           else
             let n = min (unat (PGSIZE - (va - va0))) (length buf);
                 s = s\<lparr>mem := poke (pa0 + (va - va0)) (take n buf) (mem s)\<rparr>
             in copyout pgdir (va0 + PGSIZE) (drop n buf) s)
      else Inr (0, s))"
  by pat_completeness auto
termination
  by (relation "measure (\<lambda>(pgdir, va, buf, s). length buf)")
    (use page_rest_pos in \<open>auto simp: min_def not_le\<close>)

declare copyout.simps [simp del]

end
