(* ===== verification/Addrspace.thy ===== *)
theory Addrspace
  imports Vm
begin

text \<open>
  What the page-table code of \<open>vm.c\<close> establishes: the mapping a directory stands for
  (\<open>pte_of\<close>), when the pages of an address space are well formed and owned by it alone
  (\<open>as_ok\<close>), and what \<open>walkpgdir\<close>, \<open>mappages\<close>, \<open>deallocuvm\<close> and \<open>allocuvm\<close> do to it.
\<close>

section \<open>Page-table entries in memory\<close>

lemma unat_PTX: "unat (PTX va) = unat va div 4096 mod 1024"
proof -
  have "(0x3FF :: uint) = mask 10" by (simp add: mask_eq_exp_minus_1)
  then have "PTX va = take_bit 10 (drop_bit 12 va)" by (simp only: PTX_def take_bit_eq_mask)
  then show ?thesis by (simp add: take_bit_eq_mod drop_bit_eq_div unat_mod unat_div)
qed

lemma unat_PDX: "unat (PDX va) = unat va div 4194304"
proof -
  have "(0x3FF :: uint) = mask 10" by (simp add: mask_eq_exp_minus_1)
  then have "PDX va = take_bit 10 (drop_bit 22 va)" by (simp only: PDX_def take_bit_eq_mask)
  then have "unat (PDX va) = unat va div 4194304 mod 1024"
    by (simp add: take_bit_eq_mod drop_bit_eq_div unat_mod unat_div)
  moreover have "unat va div 4194304 < 1024" using unat_lt_2_32 [of va] by simp
  ultimately show ?thesis by simp
qed

lemma unat_PTX_less [simp]: "unat (PTX va) < 1024"
  by (simp add: unat_PTX)

lemma unat_PDX_less [simp]: "unat (PDX va) < 1024"
  using unat_lt_2_32 [of va] by (simp add: unat_PDX)

lemma same_entry_iff: "PDX x = PDX y \<and> PTX x = PTX y \<longleftrightarrow> PGROUNDDOWN x = PGROUNDDOWN y"
proof -
  have split: "n div 4096 = 1024 * (n div 4194304) + n div 4096 mod 1024" for n :: nat
    using div_mult2_eq [of n 4096 1024] by simp
  have "PGROUNDDOWN x = PGROUNDDOWN y \<longleftrightarrow> unat x div 4096 = unat y div 4096"
    by (simp add: word_unat_eq_iff unat_PGROUNDDOWN minus_mod_eq_div_mult)
  moreover have "PDX x = PDX y \<and> PTX x = PTX y \<longleftrightarrow>
      unat x div 4194304 = unat y div 4194304 \<and> unat x div 4096 mod 1024 = unat y div 4096 mod 1024"
    by (simp add: word_unat_eq_iff unat_PTX unat_PDX)
  moreover have "unat x div 4194304 = unat y div 4194304" if "unat x div 4096 = unat y div 4096"
    using that div_mult2_eq [of "unat x" 4096 1024] div_mult2_eq [of "unat y" 4096 1024] by simp
  ultimately show ?thesis
    using split [of "unat x"] split [of "unat y"] by metis
qed

lemma entry_unat:
  assumes "pg_aligned t" and "unat i < 1024"
  shows "unat (t + 4 * i) = unat t + 4 * unat i"
proof -
  obtain k where k: "unat t = 4096 * k" using assms(1) unfolding pg_aligned_def by (blast dest: mod_0_ex)
  have "k < 1048576" using k unat_lt_2_32 [of t] by simp
  then have "unat t + 4 * unat i < 2 ^ 32" using k assms(2) by simp
  moreover have "unat (4 * i) = 4 * unat i" using assms(2) by (simp add: unat_word_ariths)
  ultimately show ?thesis by (simp add: unat_word_ariths)
qed

lemma entry_mod_4 [simp]: "pg_aligned t \<Longrightarrow> unat i < 1024 \<Longrightarrow> unat (t + 4 * i) mod 4 = 0"
  by (simp add: entry_unat pg_aligned_mod_4)

lemma entry_page [simp]:
  assumes "pg_aligned t" and "unat i < 1024"
  shows "PGROUNDDOWN (t + 4 * i) = t"
proof -
  have "unat (t + 4 * i - t) < 4096"
    using assms by (simp add: unat_word_ariths)
  then show ?thesis using in_page_iff [OF assms(1)] by blast
qed

lemma entry_inject:
  assumes "pg_aligned t" and "pg_aligned t'" and "unat i < 1024" and "unat j < 1024"
  shows "t + 4 * i = t' + 4 * j \<longleftrightarrow> t = t' \<and> i = j"
proof
  assume e: "t + 4 * i = t' + 4 * j"
  have "t = t'" using arg_cong [OF e, of PGROUNDDOWN] assms by simp
  moreover have "unat t + 4 * unat i = unat t' + 4 * unat j"
    using arg_cong [OF e, of unat] by (simp only: entry_unat assms)
  ultimately show "t = t' \<and> i = j" by (simp add: unat_inject)
qed simp

lemma ld32_st32_entry:
  assumes "pg_aligned t" and "pg_aligned t'" and "unat i < 1024" and "unat j < 1024"
  shows "ld32 (st32 (t + 4 * i) v m) (t' + 4 * j) = (if t = t' \<and> i = j then v else ld32 m (t' + 4 * j))"
  using assms entry_inject [OF assms] by (auto intro: ld32_st32_other)

lemma st32_entry_other_page:
  assumes "pg_aligned t" and "unat i < 1024" and "PGROUNDDOWN x \<noteq> t"
  shows "st32 (t + 4 * i) v m x = m x"
  using assms by (intro st32_other_page) auto

lemma ld32_memset_0:
  assumes "pg_aligned v" and "unat a mod 4 = 0"
  shows "ld32 (memset v 0 PGSIZE m) a = (if PGROUNDDOWN a = v then 0 else ld32 m a)"
  using assms by (auto simp: ld32_def memset_apply in_page_iff PGROUNDDOWN_add_bytes)

lemma pg_aligned_P2V [simp]: "pg_aligned (P2V a) = pg_aligned a"
proof -
  have "unat (P2V a) mod 4096 = unat a mod 4096"
  proof -
    have "unat (P2V a) = (unat a + 2147483648) mod 4294967296"
      by (simp add: P2V_def unat_word_ariths)
    then have "unat (P2V a) mod 4096 = (unat a + 2147483648) mod 4096"
      by (simp add: mod_mod_cancel)
    also have "\<dots> = unat a mod 4096" using mod_mult_self1 [of "unat a" 524288 4096] by simp
    finally show ?thesis .
  qed
  then show ?thesis by (simp add: pg_aligned_def)
qed

lemma pg_aligned_V2P [simp]: "pg_aligned (V2P a) = pg_aligned a"
  using pg_aligned_P2V [of "V2P a"] by simp

lemma pg_aligned_PTE_ADDR [simp]: "pg_aligned (PTE_ADDR e)"
  by (simp add: PTE_ADDR_eq_PGROUNDDOWN)

lemma small_and_minus_4096: "unat f < 4096 \<Longrightarrow> f AND - 4096 = 0" for f :: uint
  by (rule unat_inject) (simp add: unat_and_minus_4096)

lemma PTE_ADDR_or:
  assumes "pg_aligned a" and "unat f < 4096"
  shows "PTE_ADDR (a OR f) = a"
proof -
  have "a AND - 4096 = a"
    using PGROUNDDOWN_aligned [OF assms(1)] by (simp add: PGROUNDDOWN_def)
  then show ?thesis
    using small_and_minus_4096 [OF assms(2)] by (simp add: PTE_ADDR_def bit.conj_disj_distrib2)
qed

lemma and_1_or: "(a OR b OR 1) AND 1 \<noteq> (0 :: uint)"
  by (simp add: bit.conj_disj_distrib2)

section \<open>The mapping a page directory stands for\<close>

abbreviation (input) present :: "uint \<Rightarrow> bool" where
  "present e \<equiv> e AND PTE_P \<noteq> 0"

definition pde_of :: "memory \<Rightarrow> uint \<Rightarrow> uint \<Rightarrow> uint" where
  "pde_of m d va = ld32 m (d + 4 * PDX va)"

definition ptab_of :: "memory \<Rightarrow> uint \<Rightarrow> uint \<Rightarrow> uint" where
  "ptab_of m d va = P2V (PTE_ADDR (pde_of m d va))"

definition pte_of :: "memory \<Rightarrow> uint \<Rightarrow> uint \<Rightarrow> uint" where
  "pte_of m d va = (if present (pde_of m d va) then ld32 m (ptab_of m d va + 4 * PTX va) else 0)"

definition frame_of :: "memory \<Rightarrow> uint \<Rightarrow> uint \<Rightarrow> uint" where
  "frame_of m d va = P2V (PTE_ADDR (pte_of m d va))"

text \<open>
  The pages of an address space: the directory, its tables, and the frames of its user part.
  In a well-formed address space (\<open>as_ok e m d W\<close>) all of them are pages of the allocator,
  no two roles share a page, and none is in \<open>W\<close>, the pages that belong to somebody else:
  the free list, or another process. \<open>e\<close> is the end of the kernel image, above \<^verbatim>\<open>KERNBASE\<close>.
\<close>

definition ptabs :: "memory \<Rightarrow> uint \<Rightarrow> uint set" where
  "ptabs m d = {ptab_of m d va | va. present (pde_of m d va)}"

definition pt_ok :: "uint \<Rightarrow> memory \<Rightarrow> uint \<Rightarrow> uint set \<Rightarrow> bool" where
  "pt_ok e m d W \<longleftrightarrow> kpage e d \<and> d \<notin> W \<and>
     (\<forall>t \<in> ptabs m d. kpage e t \<and> t \<noteq> d \<and> t \<notin> W) \<and>
     (\<forall>x y. present (pde_of m d x) \<longrightarrow> present (pde_of m d y) \<longrightarrow>
        ptab_of m d x = ptab_of m d y \<longrightarrow> PDX x = PDX y)"

definition frames_ok :: "uint \<Rightarrow> memory \<Rightarrow> uint \<Rightarrow> uint set \<Rightarrow> bool" where
  "frames_ok e m d W \<longleftrightarrow>
     (\<forall>x < KERNBASE. present (pte_of m d x) \<longrightarrow>
        kpage e (frame_of m d x) \<and> frame_of m d x \<notin> insert d (ptabs m d \<union> W) \<and>
        (\<forall>y < KERNBASE. present (pte_of m d y) \<longrightarrow> frame_of m d x = frame_of m d y \<longrightarrow>
           PGROUNDDOWN x = PGROUNDDOWN y))"

definition as_ok :: "uint \<Rightarrow> memory \<Rightarrow> uint \<Rightarrow> uint set \<Rightarrow> bool" where
  "as_ok e m d W \<longleftrightarrow> KERNBASE < e \<and> pt_ok e m d W \<and> frames_ok e m d W"

lemma kpage_aligned: "kpage e v \<Longrightarrow> pg_aligned v"
  by (simp add: kpage_def)

lemma pt_okD:
  assumes "pt_ok e m d W" and "present (pde_of m d x)"
  shows "kpage e (ptab_of m d x)" "ptab_of m d x \<noteq> d" "ptab_of m d x \<notin> W" "ptab_of m d x \<noteq> 0"
proof -
  have t: "ptab_of m d x \<in> ptabs m d" using assms(2) by (auto simp: ptabs_def)
  then show k: "kpage e (ptab_of m d x)" "ptab_of m d x \<noteq> d" "ptab_of m d x \<notin> W"
    using assms(1) by (auto simp: pt_ok_def)
  show "ptab_of m d x \<noteq> 0" using k(1) by (rule kpage_nonzero)
qed

lemma pt_ok_inj:
  "pt_ok e m d W \<Longrightarrow> present (pde_of m d x) \<Longrightarrow> present (pde_of m d y) \<Longrightarrow>
   ptab_of m d x = ptab_of m d y \<Longrightarrow> PDX x = PDX y"
  unfolding pt_ok_def by blast

lemma aligned_ptab [simp]: "pg_aligned (ptab_of m d x)"
  by (simp add: ptab_of_def)

lemma pt_ok_dir: "pt_ok e m d W \<Longrightarrow> pg_aligned d"
  by (auto simp: pt_ok_def kpage_def)

lemma same_pde: "PDX x = PDX y \<Longrightarrow> pde_of m d x = pde_of m d y"
  by (simp add: pde_of_def)

lemma pte_of_page: "PGROUNDDOWN x = PGROUNDDOWN y \<Longrightarrow> pte_of m d x = pte_of m d y"
  using same_entry_iff [of x y] by (simp add: pte_of_def ptab_of_def pde_of_def)

text \<open>Memory outside the directory and its tables does not matter to the mapping.\<close>

lemma pt_cong:
  assumes "pt_ok e m d W" and "\<forall>x. PGROUNDDOWN x \<in> insert d (ptabs m d) \<longrightarrow> m' x = m x"
  shows "pde_of m' d = pde_of m d" "ptab_of m' d = ptab_of m d" "pte_of m' d = pte_of m d"
    "ptabs m' d = ptabs m d"
proof -
  have d: "pg_aligned d" using assms(1) by (rule pt_ok_dir)
  show pde: "pde_of m' d = pde_of m d"
    unfolding pde_of_def using d assms(2) by (intro ext ld32_cong_page) auto
  then show tab: "ptab_of m' d = ptab_of m d"
    by (intro ext) (simp add: ptab_of_def)
  show "ptabs m' d = ptabs m d" by (simp add: ptabs_def pde tab)
  show "pte_of m' d = pte_of m d"
  proof
    fix x
    have "ld32 m' (ptab_of m d x + 4 * PTX x) = ld32 m (ptab_of m d x + 4 * PTX x)"
      if "present (pde_of m d x)"
      using that assms(2) by (intro ld32_cong_page) (auto simp: ptabs_def)
    then show "pte_of m' d x = pte_of m d x" by (simp add: pte_of_def pde tab)
  qed
qed

section \<open>Writing an entry\<close>

lemma st_pte:
  fixes v :: uint
  assumes ok: "pt_ok e m d W" and p: "present (pde_of m d va)"
  defines "m' \<equiv> st32 (ptab_of m d va + 4 * PTX va) v m"
  shows "pde_of m' d x = pde_of m d x" "ptab_of m' d x = ptab_of m d x" "ptabs m' d = ptabs m d"
    "pte_of m' d x = (if PGROUNDDOWN x = PGROUNDDOWN va then v else pte_of m d x)"
    "pt_ok e m' d W"
    "PGROUNDDOWN y \<notin> ptabs m d \<Longrightarrow> m' y = m y"
proof -
  have al: "pg_aligned d" using ok by (rule pt_ok_dir)
  have t: "ptab_of m d va \<noteq> d" using ok p by (rule pt_okD)
  show pde: "pde_of m' d x = pde_of m d x" for x
    using al t by (simp add: pde_of_def m'_def ld32_st32_entry)
  then show tab: "ptab_of m' d x = ptab_of m d x" for x by (simp add: ptab_of_def)
  show tabs: "ptabs m' d = ptabs m d" by (simp add: ptabs_def pde tab)
  show "pt_ok e m' d W" using ok unfolding pt_ok_def tabs pde tab .
  show "pte_of m' d x = (if PGROUNDDOWN x = PGROUNDDOWN va then v else pte_of m d x)"
  proof (cases "present (pde_of m d x)")
    case True
    have "pte_of m' d x = ld32 m' (ptab_of m d x + 4 * PTX x)"
      using True by (simp add: pte_of_def pde tab)
    also have "\<dots> = (if ptab_of m d va = ptab_of m d x \<and> PTX va = PTX x then v
        else ld32 m (ptab_of m d x + 4 * PTX x))"
      unfolding m'_def by (rule ld32_st32_entry) simp_all
    also have "ptab_of m d va = ptab_of m d x \<and> PTX va = PTX x \<longleftrightarrow> PGROUNDDOWN x = PGROUNDDOWN va"
    proof
      assume a: "ptab_of m d va = ptab_of m d x \<and> PTX va = PTX x"
      then have "PDX va = PDX x" using pt_ok_inj [OF ok p True] by blast
      with a show "PGROUNDDOWN x = PGROUNDDOWN va" using same_entry_iff [of x va] by simp
    next
      assume "PGROUNDDOWN x = PGROUNDDOWN va"
      then have "PDX x = PDX va" "PTX x = PTX va" using same_entry_iff [of x va] by blast+
      then show "ptab_of m d va = ptab_of m d x \<and> PTX va = PTX x"
        using same_pde [of x va m d] by (simp add: ptab_of_def)
    qed
    finally show ?thesis using True by (simp add: pte_of_def)
  next
    case False
    then have "PGROUNDDOWN x \<noteq> PGROUNDDOWN va"
      using p same_entry_iff [of x va] same_pde [of x va m d] by auto
    with False show ?thesis by (simp add: pte_of_def pde)
  qed
  show "m' y = m y" if "PGROUNDDOWN y \<notin> ptabs m d"
    unfolding m'_def using that p by (intro st32_entry_other_page) (auto simp: ptabs_def)
qed

lemma kmem_ok_mem:
  assumes "kmem_ok s vs" and "\<And>x. PGROUNDDOWN x \<in> set vs \<Longrightarrow> m x = mem s x"
  shows "kmem_ok (s\<lparr>mem := m\<rparr>) vs"
proof -
  have "free_chain m (freelist s) vs = free_chain (mem s) (freelist s) vs"
    using assms by (intro free_chain_cong) (auto simp: kmem_ok_def kpage_def)
  with assms(1) show ?thesis by (simp add: kmem_ok_def)
qed

text \<open>Adding an empty table for a directory entry leaves the mapping as it is.\<close>

lemma st_pde:
  assumes ok: "pt_ok e m d W" and np: "\<not> present (pde_of m d va)"
    and t: "kpage e t" "t \<noteq> d" "t \<notin> W" "t \<notin> ptabs m d"
  defines "m' \<equiv> st32 (d + 4 * PDX va) (V2P t OR PTE_P OR PTE_W OR PTE_U) (memset t 0 PGSIZE m)"
  shows "present (pde_of m' d va)" "ptab_of m' d va = t" "pte_of m' d x = pte_of m d x"
    "ptabs m' d = insert t (ptabs m d)" "pt_ok e m' d W"
    "PGROUNDDOWN y \<notin> {d, t} \<Longrightarrow> m' y = m y"
proof -
  have al: "pg_aligned d" "pg_aligned t" using pt_ok_dir [OF ok] t(1) by (auto simp: kpage_def)
  define w where "w = (V2P t OR PTE_P OR PTE_W OR PTE_U)"
  have w: "PTE_ADDR w = V2P t" "present w"
  proof -
    show "PTE_ADDR w = V2P t" unfolding w_def using al(2) by (intro PTE_ADDR_or) simp_all
    show "present w" by (simp add: w_def bit.conj_disj_distrib2)
  qed
  have pde: "pde_of m' d x = (if PDX x = PDX va then w else pde_of m d x)" for x
    unfolding pde_of_def m'_def w_def [symmetric]
    using al t(2) by (auto simp: ld32_st32_entry ld32_memset_0)
  show "present (pde_of m' d va)" using w by (simp add: pde)
  have tab: "ptab_of m' d x = (if PDX x = PDX va then t else ptab_of m d x)" for x
    by (simp add: ptab_of_def pde w)
  then show "ptab_of m' d va = t" by simp
  have np': "\<not> present (pde_of m d x)" if "PDX x = PDX va" for x
    using np same_pde [OF that] by simp
  show tabs: "ptabs m' d = insert t (ptabs m d)"
    unfolding ptabs_def using w np' by (auto simp: pde tab split: if_splits)
  show "pte_of m' d x = pte_of m d x"
  proof (cases "PDX x = PDX va")
    case True
    then have "pte_of m' d x = ld32 m' (t + 4 * PTX x)"
      using w by (simp add: pte_of_def pde tab)
    also have "\<dots> = 0"
      unfolding m'_def using al t(2) by (simp add: ld32_st32_entry ld32_memset_0)
    finally show ?thesis using np' [OF True] by (simp add: pte_of_def)
  next
    case False
    have "ld32 m' (ptab_of m d x + 4 * PTX x) = ld32 m (ptab_of m d x + 4 * PTX x)"
      if "present (pde_of m d x)"
    proof -
      have "ptab_of m d x \<noteq> t" "ptab_of m d x \<noteq> d"
        using that t(4) pt_okD(2) [OF ok that] by (auto simp: ptabs_def)
      then show ?thesis unfolding m'_def using al by (simp add: ld32_st32_entry ld32_memset_0)
    qed
    with False show ?thesis by (simp add: pte_of_def pde tab)
  qed
  show "pt_ok e m' d W"
    unfolding pt_ok_def
  proof (intro conjI allI impI)
    show "kpage e d" "d \<notin> W" using ok by (auto simp: pt_ok_def)
    show "\<forall>u \<in> ptabs m' d. kpage e u \<and> u \<noteq> d \<and> u \<notin> W"
      using ok t by (auto simp: tabs pt_ok_def)
    fix x y
    assume xy: "present (pde_of m' d x)" "present (pde_of m' d y)" "ptab_of m' d x = ptab_of m' d y"
    have "t \<noteq> ptab_of m d z" if "present (pde_of m d z)" for z
      using that t(4) by (auto simp: ptabs_def)
    then show "PDX x = PDX y"
      using xy pt_ok_inj [OF ok, of x y] by (auto simp: pde tab split: if_splits)
  qed
  show "m' y = m y" if "PGROUNDDOWN y \<notin> {d, t}"
    unfolding m'_def using that al by (simp add: st32_entry_other_page memset_apply in_page_iff)
qed

lemma entry_zero: "pg_aligned t \<Longrightarrow> t \<noteq> 0 \<Longrightarrow> t + 4 * PTX va \<noteq> 0"
  using entry_unat [of t "PTX va"] by (auto simp: unat_eq_0)

lemma pt_ok_mono: "pt_ok e m d W \<Longrightarrow> W' \<subseteq> W \<Longrightarrow> pt_ok e m d W'"
  unfolding pt_ok_def by blast

section \<open>walkpgdir and mappages\<close>

text \<open>
  Page-table code only takes pages from the front of the free list, to make tables of
  them, and touches no memory but the directory and its tables.
\<close>

definition pt_grows :: "uint \<Rightarrow> uint set \<Rightarrow> 'a kmem_state_scheme \<Rightarrow> uint list \<Rightarrow>
    'a kmem_state_scheme \<Rightarrow> uint list \<Rightarrow> bool" where
  "pt_grows d W s vs s' vs' \<longleftrightarrow>
     kmem_ok s' vs' \<and> kmem_frame s s' \<and> pt_ok (kend s) (mem s') d (W \<union> set vs') \<and>
     (\<exists>us. vs = us @ vs' \<and> ptabs (mem s') d = ptabs (mem s) d \<union> set us) \<and>
     (\<forall>x. PGROUNDDOWN x \<notin> insert d (ptabs (mem s') d) \<longrightarrow> mem s' x = mem s x)"

lemma pt_grows_refl:
  "kmem_ok s vs \<Longrightarrow> pt_ok (kend s) (mem s) d (W \<union> set vs) \<Longrightarrow> pt_grows d W s vs s vs"
  by (simp add: pt_grows_def)

lemma pt_grows_trans:
  assumes "pt_grows d W s vs s' vs'" and "pt_grows d W s' vs' s'' vs''"
  shows "pt_grows d W s vs s'' vs''"
proof -
  have "kend s' = kend s" using assms(1) by (auto simp: pt_grows_def dest: kmem_frameD)
  moreover obtain us us' where "vs = us @ vs'" "ptabs (mem s') d = ptabs (mem s) d \<union> set us"
      "vs' = us' @ vs''" "ptabs (mem s'') d = ptabs (mem s') d \<union> set us'"
    using assms by (auto simp: pt_grows_def)
  moreover have "\<exists>zs. vs = zs @ vs'' \<and> ptabs (mem s'') d = ptabs (mem s) d \<union> set zs"
    using calculation by (intro exI [of _ "us @ us'"]) auto
  ultimately show ?thesis
    using assms unfolding pt_grows_def by (auto intro: kmem_frame_trans)
qed

lemma pt_grows_st_pte:
  assumes g: "pt_grows d W s vs s' vs'" and p: "present (pde_of (mem s') d va)"
  shows "pt_grows d W s vs (s'\<lparr>mem := st32 (ptab_of (mem s') d va + 4 * PTX va) v (mem s')\<rparr>) vs'"
proof -
  have ok: "pt_ok (kend s) (mem s') d (W \<union> set vs')" using g by (simp add: pt_grows_def)
  note st = st_pte [OF ok p, where v = v]
  have "kmem_ok (s'\<lparr>mem := st32 (ptab_of (mem s') d va + 4 * PTX va) v (mem s')\<rparr>) vs'"
  proof (rule kmem_ok_mem)
    show "kmem_ok s' vs'" using g by (simp add: pt_grows_def)
    fix x
    assume "PGROUNDDOWN x \<in> set vs'"
    then have "PGROUNDDOWN x \<notin> ptabs (mem s') d" using ok unfolding pt_ok_def by blast
    then show "st32 (ptab_of (mem s') d va + 4 * PTX va) v (mem s') x = mem s' x" by (rule st(6))
  qed
  then show ?thesis
    using g st(3,5,6) unfolding pt_grows_def by (auto simp: kmem_frame_def)
qed

lemma walkpgdir_alloc:
  assumes km: "kmem_ok s vs" and ok: "pt_ok (kend s) (mem s) d (W \<union> set vs)" and dj: "W \<inter> set vs = {}"
  shows "\<exists>pte s' vs'. walkpgdir d va True s = Inr (pte, s') \<and> pt_grows d W s vs s' vs' \<and>
     pte_of (mem s') d = pte_of (mem s) d \<and> (pte = 0 \<longrightarrow> vs' = []) \<and>
     (pte \<noteq> 0 \<longrightarrow> present (pde_of (mem s') d va) \<and> pte = ptab_of (mem s') d va + 4 * PTX va)"
proof (cases "present (pde_of (mem s) d va)")
  case True
  then show ?thesis
    using pt_grows_refl [OF km ok] pt_okD [OF ok True]
    by (intro exI [of _ "ptab_of (mem s) d va + 4 * PTX va"] exI [of _ s] exI [of _ vs])
      (auto simp: walkpgdir_def pde_of_def ptab_of_def Let_def entry_zero)
next
  case False
  obtain s1 where s1: "kalloc s = Inr (case vs of [] \<Rightarrow> 0 | v # _ \<Rightarrow> v, s1)" "kmem_ok s1 (tl vs)"
      "kmem_frame s s1" "mem s1 = mem s"
    using kalloc_ok [OF km] by blast
  show ?thesis
  proof (cases vs)
    case Nil
    with s1 have "pt_grows d W s vs s1 []"
      using ok by (simp add: pt_grows_def)
    with False s1 Nil show ?thesis
      by (intro exI [of _ 0] exI [of _ s1] exI [of _ "[]"]) (simp add: walkpgdir_def pde_of_def Let_def)
  next
    case (Cons t us)
    have t: "kpage (kend s) t" "t \<noteq> d" "t \<notin> W" "t \<notin> ptabs (mem s) d" "t \<notin> set us" "t \<noteq> 0"
      using km ok dj Cons kpage_nonzero [of "kend s" t] by (auto simp: kmem_ok_def pt_ok_def)
    have ok': "pt_ok (kend s) (mem s) d (W \<union> set us)"
      by (rule pt_ok_mono [OF ok]) (use Cons in auto)
    define m' where "m' = st32 (d + 4 * PDX va) (V2P t OR PTE_P OR PTE_W OR PTE_U) (memset t 0 PGSIZE (mem s))"
    note st = st_pde [OF ok' False t(1,2) _ t(4), folded m'_def]
    have tn: "t \<notin> W \<union> set us" using t by simp
    note st = st [OF tn]
    have "kmem_ok (s1\<lparr>mem := m'\<rparr>) us"
    proof (rule kmem_ok_mem)
      show "kmem_ok s1 us" using s1(2) Cons by simp
      fix x
      assume x: "PGROUNDDOWN x \<in> set us"
      have "d \<notin> set us" using ok Cons by (auto simp: pt_ok_def)
      with x t(5) have "PGROUNDDOWN x \<notin> {d, t}" by auto
      then show "m' x = mem s1 x" using st(6) s1(4) by simp
    qed
    then have "pt_grows d W s vs (s1\<lparr>mem := m'\<rparr>) us"
      using s1(3) st(4-6) Cons unfolding pt_grows_def by (auto simp: kmem_frame_def)
    moreover have "walkpgdir d va True s = Inr (t + 4 * PTX va, s1\<lparr>mem := m'\<rparr>)"
      using False s1 Cons t(6) by (simp add: walkpgdir_def pde_of_def Let_def m'_def)
    moreover have "t + 4 * PTX va \<noteq> 0"
      using t(1,6) entry_zero by (auto simp: kpage_def)
    moreover have "pte_of m' d = pte_of (mem s) d" using st(3) by (intro ext)
    ultimately show ?thesis
      using st(1,2) by (intro exI [of _ "t + 4 * PTX va"] exI [of _ "s1\<lparr>mem := m'\<rparr>"] exI [of _ us]) simp
  qed
qed

lemma page_step:
  assumes "pg_aligned a" and "pg_aligned p"
  shows "p = a \<Longrightarrow> unat (p - (a + PGSIZE)) = 4294963200"
    and "p \<noteq> a \<Longrightarrow> unat (p - (a + PGSIZE)) = unat (p - a) - 4096 \<and> 4096 \<le> unat (p - a)"
proof -
  have e: "p - (a + PGSIZE) = p - a - 4096" by simp
  show "unat (p - (a + PGSIZE)) = 4294963200" if "p = a"
    using that by (simp add: unat_word_ariths)
  assume "p \<noteq> a"
  then have "4096 \<le> unat (p - a)"
    using in_page_iff [OF assms(1), of p] PGROUNDDOWN_aligned [OF assms(2)] by force
  then show "unat (p - (a + PGSIZE)) = unat (p - a) - 4096 \<and> 4096 \<le> unat (p - a)"
    unfolding e by (simp add: unat_diff_word [of "p - a" 4096])
qed

lemma aligned_diff:
  assumes "pg_aligned a" and "pg_aligned p"
  shows "unat (p - a) \<le> 4294963200"
proof -
  obtain j k where "unat a = 4096 * j" "unat p = 4096 * k"
    using assms unfolding pg_aligned_def by (blast dest: mod_0_ex)
  then show ?thesis
    using unat_lt_2_32 [of p] unat_lt_2_32 [of a] by (auto simp: unat_diff_word split: if_splits)
qed

lemma pg_aligned_step [simp]: "pg_aligned (a + PGSIZE) = pg_aligned a"
proof -
  have "unat (a + 4096) mod 4096 = (unat a + 4096) mod 4294967296 mod 4096"
    by (simp add: unat_word_ariths)
  also have "\<dots> = unat a mod 4096" by (simp add: mod_mod_cancel)
  finally show ?thesis by (simp add: pg_aligned_def)
qed

text \<open>
  \<open>maps_to d m m' a pa perm n\<close>: the first \<open>n\<close> bytes from \<open>a\<close> on are mapped to \<open>pa\<close> on, page by
  page, and everything else is mapped as before.
\<close>

definition maps_to :: "uint \<Rightarrow> memory \<Rightarrow> memory \<Rightarrow> uint \<Rightarrow> uint \<Rightarrow> uint \<Rightarrow> nat \<Rightarrow> bool" where
  "maps_to d m m' a pa perm n \<longleftrightarrow>
     (\<forall>x. pte_of m' d x =
        (if unat (PGROUNDDOWN x - a) < n then (pa + (PGROUNDDOWN x - a)) OR perm OR PTE_P
         else pte_of m d x))"

lemma mappages_from_ok:
  assumes "kmem_ok s vs" and "pt_ok (kend s) (mem s) d (W \<union> set vs)" and "W \<inter> set vs = {}"
    and "pg_aligned a" and "pg_aligned lastp"
    and "\<And>x. unat (PGROUNDDOWN x - a) \<le> unat (lastp - a) \<Longrightarrow> \<not> present (pte_of (mem s) d x)"
  shows "\<exists>r s' vs' n. mappages_from d a lastp pa perm s = Inr (r, s') \<and> pt_grows d W s vs s' vs' \<and>
     maps_to d (mem s) (mem s') a pa perm n \<and>
     (r = 0 \<and> n = unat (lastp - a) + 4096 \<or> r = -1 \<and> vs' = [] \<and> n \<le> unat (lastp - a))"
  using assms
proof (induction "unat (lastp - a)" arbitrary: a pa s vs rule: less_induct)
  case (less a pa s vs)
  obtain pte s1 vs1 where w: "walkpgdir d a True s = Inr (pte, s1)" and g: "pt_grows d W s vs s1 vs1"
    and same: "pte_of (mem s1) d = pte_of (mem s) d" and z: "pte = 0 \<Longrightarrow> vs1 = []"
    and p: "pte \<noteq> 0 \<Longrightarrow> present (pde_of (mem s1) d a)" "pte \<noteq> 0 \<Longrightarrow> pte = ptab_of (mem s1) d a + 4 * PTX a"
    using walkpgdir_alloc [OF less.prems(1-3), of a] by blast
  show ?case
  proof (cases "pte = 0")
    case True
    then have "mappages_from d a lastp pa perm s = Inr (-1, s1)"
      using w by (subst mappages_from.simps) simp
    moreover have "maps_to d (mem s) (mem s1) a pa perm 0"
      by (simp add: maps_to_def same)
    ultimately show ?thesis using g z [OF True]
      by (intro exI [of _ "-1"] exI [of _ s1] exI [of _ vs1] exI [of _ 0]) simp
  next
    case False
    note p = p [OF False]
    define v where "v = pa OR perm OR PTE_P"
    define s2 where "s2 = s1\<lparr>mem := st32 pte v (mem s1)\<rparr>"
    have ok1: "pt_ok (kend s) (mem s1) d (W \<union> set vs1)" using g by (simp add: pt_grows_def)
    have "pte_of (mem s1) d a = ld32 (mem s1) pte" using p by (simp add: pte_of_def)
    moreover have "\<not> present (pte_of (mem s) d a)"
      using less.prems(4) by (intro less.prems(6)) simp
    ultimately have np: "\<not> present (ld32 (mem s1) pte)" using same by simp
    have g2: "pt_grows d W s vs s2 vs1"
      unfolding s2_def p(2) using g p(1) by (rule pt_grows_st_pte)
    have pte2: "pte_of (mem s2) d x = (if PGROUNDDOWN x = a then v else pte_of (mem s) d x)" for x
      using st_pte(4) [OF ok1 p(1), where v = v and x = x] less.prems(4)
      by (simp add: s2_def p(2) same)
    have step: "mappages_from d a lastp pa perm s =
        (if a = lastp then Inr (0, s2) else if unat (lastp - a) < 4096 then Inl Diverge
         else mappages_from d (a + PGSIZE) lastp (pa + PGSIZE) perm s2)"
      using w False np by (subst mappages_from.simps) (simp add: s2_def v_def Let_def)
    show ?thesis
    proof (cases "a = lastp")
      case True
      have "maps_to d (mem s) (mem s2) a pa perm 4096"
        using in_page_iff [OF less.prems(4)] by (auto simp: maps_to_def pte2 v_def)
      then show ?thesis
        using step True g2 by (intro exI [of _ 0] exI [of _ s2] exI [of _ vs1] exI [of _ 4096]) simp
    next
      case ne: False
      have far: "unat (lastp - (a + PGSIZE)) = unat (lastp - a) - 4096" "4096 \<le> unat (lastp - a)"
        using page_step(2) [OF less.prems(4,5)] ne by simp_all
      have k: "kmem_ok s2 vs1" "pt_ok (kend s2) (mem s2) d (W \<union> set vs1)" "W \<inter> set vs1 = {}"
        using g2 less.prems(3) by (auto simp: pt_grows_def kmem_frame_def)
      have "\<not> present (pte_of (mem s2) d x)"
        if "unat (PGROUNDDOWN x - (a + PGSIZE)) \<le> unat (lastp - (a + PGSIZE))" for x
      proof -
        have "PGROUNDDOWN x \<noteq> a"
          using that far page_step(1) [OF less.prems(4), of "PGROUNDDOWN x"]
            aligned_diff [OF less.prems(4,5)] by auto
        then have "unat (PGROUNDDOWN x - a) \<le> unat (lastp - a)"
          using that far page_step(2) [OF less.prems(4), of "PGROUNDDOWN x"] by simp
        with \<open>PGROUNDDOWN x \<noteq> a\<close> show ?thesis using less.prems(6) by (simp add: pte2)
      qed
      then obtain r s' vs' n where ih: "mappages_from d (a + PGSIZE) lastp (pa + PGSIZE) perm s2 = Inr (r, s')"
          "pt_grows d W s2 vs1 s' vs'" "maps_to d (mem s2) (mem s') (a + PGSIZE) (pa + PGSIZE) perm n"
          "r = 0 \<and> n = unat (lastp - (a + PGSIZE)) + 4096 \<or>
           r = -1 \<and> vs' = [] \<and> n \<le> unat (lastp - (a + PGSIZE))"
        using less.hyps [of "a + PGSIZE" s2 vs1 "pa + PGSIZE"] far k less.prems(4,5) by auto
      have "maps_to d (mem s) (mem s') a pa perm (n + 4096)"
        unfolding maps_to_def
      proof
        fix x
        have n: "n \<le> 4294963200" using ih(4) far aligned_diff [OF less.prems(4,5)] by auto
        have e: "pte_of (mem s') d x =
            (if unat (PGROUNDDOWN x - (a + PGSIZE)) < n
             then (pa + PGSIZE + (PGROUNDDOWN x - (a + PGSIZE))) OR perm OR PTE_P else pte_of (mem s2) d x)"
          using ih(3) unfolding maps_to_def by blast
        show "pte_of (mem s') d x =
            (if unat (PGROUNDDOWN x - a) < n + 4096 then (pa + (PGROUNDDOWN x - a)) OR perm OR PTE_P
             else pte_of (mem s) d x)"
        proof (cases "PGROUNDDOWN x = a")
          case True
          with e n page_step(1) [OF less.prems(4), of "PGROUNDDOWN x"] show ?thesis
            by (simp add: pte2 v_def)
        next
          case False
          with page_step(2) [OF less.prems(4), of "PGROUNDDOWN x"]
          have "unat (PGROUNDDOWN x - (a + PGSIZE)) < n \<longleftrightarrow> unat (PGROUNDDOWN x - a) < n + 4096" by auto
          moreover have "pa + PGSIZE + (PGROUNDDOWN x - (a + PGSIZE)) = pa + (PGROUNDDOWN x - a)" by simp
          ultimately show ?thesis using e False by (simp only: pte2 if_False)
        qed
      qed
      with ih far show ?thesis
        using step ne pt_grows_trans [OF g2 ih(2)]
        by (intro exI [of _ r] exI [of _ s'] exI [of _ vs'] exI [of _ "n + 4096"]) auto
    qed
  qed
qed

section \<open>Removing pages: deallocuvm\<close>

lemma frames_okD:
  assumes "frames_ok e m d W" and "x < KERNBASE" and "present (pte_of m d x)"
  shows "kpage e (frame_of m d x)" "frame_of m d x \<noteq> d" "frame_of m d x \<notin> ptabs m d" "frame_of m d x \<notin> W"
  using assms by (auto simp: frames_ok_def)

lemma frames_ok_inj:
  "frames_ok e m d W \<Longrightarrow> x < KERNBASE \<Longrightarrow> present (pte_of m d x) \<Longrightarrow> y < KERNBASE \<Longrightarrow>
   present (pte_of m d y) \<Longrightarrow> frame_of m d x = frame_of m d y \<Longrightarrow> PGROUNDDOWN x = PGROUNDDOWN y"
  unfolding frames_ok_def by blast

lemma frames_okI:
  assumes "\<And>x. x < KERNBASE \<Longrightarrow> present (pte_of m d x) \<Longrightarrow>
      kpage e (frame_of m d x) \<and> frame_of m d x \<noteq> d \<and> frame_of m d x \<notin> ptabs m d \<and> frame_of m d x \<notin> W"
    and "\<And>x y. x < KERNBASE \<Longrightarrow> present (pte_of m d x) \<Longrightarrow> y < KERNBASE \<Longrightarrow>
      present (pte_of m d y) \<Longrightarrow> frame_of m d x = frame_of m d y \<Longrightarrow> PGROUNDDOWN x = PGROUNDDOWN y"
  shows "frames_ok e m d W"
  unfolding frames_ok_def insert_iff Un_iff de_Morgan_disj using assms by blast

lemma pt_ok_insert:
  "pt_ok e m d W \<Longrightarrow> f \<noteq> d \<Longrightarrow> f \<notin> ptabs m d \<Longrightarrow> pt_ok e m d (insert f W)"
  unfolding pt_ok_def by blast

lemma unmap_page:
  assumes as: "as_ok (kend s) (mem s) d (W \<union> set vs)" and km: "kmem_ok s1 (f # vs)"
    and a: "a < KERNBASE" "present (pte_of (mem s) d a)" and f: "f = frame_of (mem s) d a"
    and same: "\<And>x. PGROUNDDOWN x \<noteq> f \<Longrightarrow> mem s1 x = mem s x"
  defines "m2 \<equiv> st32 (ptab_of (mem s) d a + 4 * PTX a) 0 (mem s1)"
  shows "kmem_ok (s1\<lparr>mem := m2\<rparr>) (f # vs)" "as_ok (kend s) m2 d (W \<union> set (f # vs))"
    "pte_of m2 d x = (if PGROUNDDOWN x = PGROUNDDOWN a then 0 else pte_of (mem s) d x)"
    "ptabs m2 d = ptabs (mem s) d"
    "PGROUNDDOWN y \<notin> insert f (ptabs (mem s) d) \<Longrightarrow> m2 y = mem s y"
proof -
  have pt: "pt_ok (kend s) (mem s) d (W \<union> set vs)" and fr: "frames_ok (kend s) (mem s) d (W \<union> set vs)"
    using as by (auto simp: as_ok_def)
  note fa = frames_okD [OF fr a, folded f]
  have agree: "\<forall>x. PGROUNDDOWN x \<in> insert d (ptabs (mem s) d) \<longrightarrow> mem s1 x = mem s x"
    using fa(2,3) by (intro allI impI same) auto
  note cong = pt_cong [OF pt agree]
  have "pt_ok (kend s) (mem s1) d (W \<union> set vs)" using pt unfolding pt_ok_def cong .
  then have pt1: "pt_ok (kend s) (mem s1) d (W \<union> set (f # vs))"
    using pt_ok_insert [of "kend s" "mem s1" d "W \<union> set vs" f] fa(2,3) by (simp add: cong)
  have p1: "present (pde_of (mem s1) d a)"
    using a(2) by (auto simp: cong pte_of_def split: if_splits)
  note st = st_pte [OF pt1 p1, where v = 0, unfolded cong, folded m2_def]
  show pte: "pte_of m2 d x = (if PGROUNDDOWN x = PGROUNDDOWN a then 0 else pte_of (mem s) d x)" for x
    by (rule st(4))
  show tabs: "ptabs m2 d = ptabs (mem s) d" by (rule st(3))
  show out: "m2 y = mem s y" if "PGROUNDDOWN y \<notin> insert f (ptabs (mem s) d)" for y
    using that same st(6) by auto
  show "kmem_ok (s1\<lparr>mem := m2\<rparr>) (f # vs)"
  proof (rule kmem_ok_mem [OF km])
    fix x
    assume "PGROUNDDOWN x \<in> set (f # vs)"
    then have "PGROUNDDOWN x \<notin> ptabs (mem s) d" using pt fa(3) unfolding pt_ok_def by auto
    then show "m2 x = mem s1 x" by (rule st(6))
  qed
  have fr2: "frame_of m2 d x = frame_of (mem s) d x" if "PGROUNDDOWN x \<noteq> PGROUNDDOWN a" for x
    using that by (simp add: frame_of_def pte)
  have live: "PGROUNDDOWN x \<noteq> PGROUNDDOWN a \<and> present (pte_of (mem s) d x)" if "present (pte_of m2 d x)" for x
    using that by (auto simp: pte split: if_splits)
  have "frames_ok (kend s) m2 d (W \<union> set (f # vs))"
  proof (rule frames_okI)
    fix x
    assume x: "x < KERNBASE" "present (pte_of m2 d x)"
    note l = live [OF x(2)]
    have "frame_of (mem s) d x \<noteq> f"
      using frames_ok_inj [OF fr x(1) _ a] l f by blast
    with frames_okD [OF fr x(1)] l fr2 tabs show "kpage (kend s) (frame_of m2 d x) \<and> frame_of m2 d x \<noteq> d \<and>
        frame_of m2 d x \<notin> ptabs m2 d \<and> frame_of m2 d x \<notin> W \<union> set (f # vs)" by simp
  next
    fix x y
    assume "x < KERNBASE" "present (pte_of m2 d x)" "y < KERNBASE" "present (pte_of m2 d y)"
      "frame_of m2 d x = frame_of m2 d y"
    with live fr2 show "PGROUNDDOWN x = PGROUNDDOWN y" by (metis frames_ok_inj [OF fr])
  qed
  with st(5) as show "as_ok (kend s) m2 d (W \<union> set (f # vs))" by (simp add: as_ok_def)
qed

text \<open>
  What \<open>deallocuvm\<close> does: the user pages in the range are gone from the mapping and are now
  on the free list; nothing else of the mapping, of the page tables or of memory changes.
\<close>

definition mapped_in :: "memory \<Rightarrow> uint \<Rightarrow> uint \<Rightarrow> uint \<Rightarrow> uint set" where
  "mapped_in m d a b = {x. a \<le> PGROUNDDOWN x \<and> PGROUNDDOWN x < b \<and> present (pte_of m d x)}"

definition unmaps :: "uint \<Rightarrow> uint set \<Rightarrow> uint \<Rightarrow> uint \<Rightarrow> 'a kmem_state_scheme \<Rightarrow> uint list \<Rightarrow>
    'a kmem_state_scheme \<Rightarrow> uint list \<Rightarrow> bool" where
  "unmaps d W a b s vs s' vs' \<longleftrightarrow>
     kmem_ok s' vs' \<and> kmem_frame s s' \<and> as_ok (kend s) (mem s') d (W \<union> set vs') \<and> W \<inter> set vs' = {} \<and>
     ptabs (mem s') d = ptabs (mem s) d \<and>
     (\<forall>x. pte_of (mem s') d x = (if x \<in> mapped_in (mem s) d a b then 0 else pte_of (mem s) d x)) \<and>
     set vs' = set vs \<union> frame_of (mem s) d ` mapped_in (mem s) d a b \<and>
     (\<forall>y. PGROUNDDOWN y \<notin> set vs' \<longrightarrow> PGROUNDDOWN y \<notin> ptabs (mem s) d \<longrightarrow> mem s' y = mem s y)"

lemma unmaps_none:
  assumes "kmem_ok s vs" and "as_ok (kend s) (mem s) d (W \<union> set vs)" and "W \<inter> set vs = {}" and "\<not> a < b"
  shows "unmaps d W a b s vs s vs"
proof -
  have "mapped_in (mem s) d a b = {}" using assms(4) by (auto simp: mapped_in_def)
  with assms show ?thesis unfolding unmaps_def by simp
qed

lemma unmaps_skip:
  assumes "unmaps d W n b s vs s' vs'" and "a \<le> n"
    and "\<And>x. a \<le> PGROUNDDOWN x \<Longrightarrow> PGROUNDDOWN x < n \<Longrightarrow> \<not> present (pte_of (mem s) d x)"
  shows "unmaps d W a b s vs s' vs'"
proof -
  have "x \<in> mapped_in (mem s) d a b \<longleftrightarrow> x \<in> mapped_in (mem s) d n b" for x
    using assms(2) assms(3) [of x] unfolding mapped_in_def mem_Collect_eq by (meson leI order_trans)
  then have "mapped_in (mem s) d a b = mapped_in (mem s) d n b" by blast
  note eq = this
  show ?thesis using assms(1) unfolding unmaps_def eq .
qed

lemma unat_next_dir:
  assumes "a < KERNBASE"
  shows "unat (PGADDR (PDX a + 1) 0 0) = (unat a div 4194304 + 1) * 4194304"
proof -
  have "unat a div 4194304 < 512" using assms by (simp add: word_less_nat_alt less_mult_imp_div_less)
  then have "unat (PDX a + 1) = unat a div 4194304 + 1" "unat a div 4194304 + 1 < 1024"
    by (simp_all add: unat_word_ariths unat_PDX)
  moreover have "unat (push_bit 22 y) = unat y * 4194304" if "unat y < 1024" for y :: uint
    using that by (simp add: push_bit_eq_mult unat_word_ariths)
  ultimately show ?thesis by (simp add: PGADDR_def)
qed

lemma next_dir_same_PDX:
  assumes "a < KERNBASE" and "a \<le> PGROUNDDOWN x" and "PGROUNDDOWN x < PGADDR (PDX a + 1) 0 0"
  shows "PDX x = PDX a"
proof -
  have le: "unat a \<le> unat (PGROUNDDOWN x)" "unat (PGROUNDDOWN x) < (unat a div 4194304 + 1) * 4194304"
    using assms(2,3) unat_next_dir [OF assms(1)] by (simp_all add: word_le_nat_alt word_less_nat_alt)
  have "unat a div 4194304 \<le> unat (PGROUNDDOWN x) div 4194304" using le(1) by (rule div_le_mono)
  moreover have "unat (PGROUNDDOWN x) div 4194304 < unat a div 4194304 + 1"
    using le(2) by (simp add: less_mult_imp_div_less)
  ultimately have "unat (PDX (PGROUNDDOWN x)) = unat (PDX a)" by (simp add: unat_PDX)
  moreover have "PDX x = PDX (PGROUNDDOWN x)"
    using same_entry_iff [of x "PGROUNDDOWN x"] by simp
  ultimately show ?thesis by (simp add: unat_inject)
qed

lemma page_lt_next:
  assumes "pg_aligned a" and "a < KERNBASE" and "a \<le> PGROUNDDOWN x" and "PGROUNDDOWN x < a + PGSIZE"
  shows "PGROUNDDOWN x = a"
proof -
  have u: "unat (a + PGSIZE) = unat a + 4096"
    using assms(2) by (intro unat_add_no_wrap [of a PGSIZE, simplified]) (simp add: word_less_nat_alt)
  have "unat (PGROUNDDOWN x - a) < 4096"
    using assms(3,4) u by (simp add: unat_diff_word word_le_nat_alt word_less_nat_alt)
  then show ?thesis using in_page_iff [OF assms(1), of "PGROUNDDOWN x"] by simp
qed

lemma next_page:
  assumes "a < KERNBASE"
  shows "unat (a + PGSIZE) = unat a + 4096" "a < a + PGSIZE"
proof -
  show u: "unat (a + PGSIZE) = unat a + 4096"
    using assms by (intro unat_add_no_wrap [of a PGSIZE, simplified]) (simp add: word_less_nat_alt)
  then show "a < a + PGSIZE" by (simp add: word_less_nat_alt)
qed

lemma unmaps_cons:
  assumes as: "as_ok (kend s) (mem s) d (W \<union> set vs)" and km: "kmem_ok s1 (f # vs)" and fr: "kmem_frame s s1"
    and a: "pg_aligned a" "a < KERNBASE" "present (pte_of (mem s) d a)" and f: "f = frame_of (mem s) d a"
    and same: "\<And>x. PGROUNDDOWN x \<noteq> f \<Longrightarrow> mem s1 x = mem s x" and b: "a < b"
    and s2: "s2 = s1\<lparr>mem := st32 (ptab_of (mem s) d a + 4 * PTX a) 0 (mem s1)\<rparr>"
    and rest: "unmaps d W (a + PGSIZE) b s2 (f # vs) s' vs'"
  shows "unmaps d W a b s vs s' vs'"
proof -
  note u = unmap_page [OF as km a(2,3) f same]
  have k: "kend s2 = kend s" "kmem_frame s s2" using fr by (auto simp: s2 kmem_frame_def)
  have split: "a \<le> PGROUNDDOWN x \<longleftrightarrow> PGROUNDDOWN x = a \<or> a + PGSIZE \<le> PGROUNDDOWN x" for x
  proof (cases "a + PGSIZE \<le> PGROUNDDOWN x")
    case True
    then show ?thesis using order_trans [OF less_imp_le [OF next_page(2) [OF a(2)]] True] by blast
  next
    case False
    then show ?thesis using page_lt_next [OF a(1,2), of x] by (auto simp: not_le)
  qed
  have out: "\<not> a + PGSIZE \<le> a" using next_page(2) [OF a(2)] by (simp add: not_le)
  have pa: "PGROUNDDOWN a = a" using a(1) by simp
  have pte2: "pte_of (mem s2) d x = (if PGROUNDDOWN x = a then 0 else pte_of (mem s) d x)" for x
    using u(3) [of x] by (simp add: s2 pa)
  have fr2: "frame_of (mem s2) d x = frame_of (mem s) d x" if "PGROUNDDOWN x \<noteq> a" for x
    using that by (simp add: frame_of_def pte2)
  have "x \<in> mapped_in (mem s) d a b \<longleftrightarrow> PGROUNDDOWN x = a \<or> x \<in> mapped_in (mem s2) d (a + PGSIZE) b" for x
    using split [of x] b a(3) out pte_of_page [of x a "mem s" d] pa
    by (cases "PGROUNDDOWN x = a") (simp_all add: mapped_in_def pte2)
  then have dom: "mapped_in (mem s) d a b = {x. PGROUNDDOWN x = a} \<union> mapped_in (mem s2) d (a + PGSIZE) b" by blast
  have "frame_of (mem s) d x = f" if "PGROUNDDOWN x = a" for x
    using that f pte_of_page [of x a "mem s" d] pa by (simp add: frame_of_def)
  then have "frame_of (mem s) d ` {x. PGROUNDDOWN x = a} = {f}" using pa by auto
  moreover have "frame_of (mem s) d ` mapped_in (mem s2) d (a + PGSIZE) b =
      frame_of (mem s2) d ` mapped_in (mem s2) d (a + PGSIZE) b"
    using fr2 out by (intro image_cong refl) (auto simp: mapped_in_def)
  ultimately have fs: "frame_of (mem s) d ` mapped_in (mem s) d a b =
      insert f (frame_of (mem s2) d ` mapped_in (mem s2) d (a + PGSIZE) b)"
    unfolding dom image_Un by simp
  have vs': "set vs' = set vs \<union> frame_of (mem s) d ` mapped_in (mem s) d a b"
    using rest unfolding unmaps_def fs by auto
  have tabs: "ptabs (mem s2) d = ptabs (mem s) d" using u(4) by (simp add: s2)
  have "mem s' y = mem s y" if "PGROUNDDOWN y \<notin> set vs'" "PGROUNDDOWN y \<notin> ptabs (mem s) d" for y
  proof -
    have "f \<in> set vs'" using vs' fs by simp
    then have "mem s2 y = mem s y" using that u(5) [of y] by (auto simp: s2)
    with that rest tabs show ?thesis unfolding unmaps_def by simp
  qed
  moreover have "pte_of (mem s') d x = (if x \<in> mapped_in (mem s) d a b then 0 else pte_of (mem s) d x)" for x
    using rest unfolding unmaps_def dom by (simp add: pte2)
  moreover have "kmem_ok s' vs'" "kmem_frame s s'" "as_ok (kend s) (mem s') d (W \<union> set vs')"
      "W \<inter> set vs' = {}" "ptabs (mem s') d = ptabs (mem s) d"
  proof -
    from rest have r: "kmem_ok s' vs'" "kmem_frame s2 s'" "as_ok (kend s2) (mem s') d (W \<union> set vs')"
        "W \<inter> set vs' = {}" "ptabs (mem s') d = ptabs (mem s2) d"
      unfolding unmaps_def by - (elim conjE, assumption)+
    show "kmem_ok s' vs'" "W \<inter> set vs' = {}" by (fact r)+
    show "kmem_frame s s'" by (rule kmem_frame_trans [OF k(2) r(2)])
    show "as_ok (kend s) (mem s') d (W \<union> set vs')" using r(3) unfolding k(1) .
    show "ptabs (mem s') d = ptabs (mem s) d" using r(5) unfolding tabs .
  qed
  ultimately show ?thesis
    unfolding unmaps_def using vs' by (intro conjI allI impI) assumption+
qed

lemma walkpgdir_lookup:
  "walkpgdir d va False s =
     Inr (if present (pde_of (mem s) d va) then ptab_of (mem s) d va + 4 * PTX va else 0, s)"
  by (simp add: walkpgdir_def pde_of_def ptab_of_def Let_def)

lemma as_okD:
  "as_ok e m d W \<Longrightarrow> KERNBASE < e" "as_ok e m d W \<Longrightarrow> pt_ok e m d W" "as_ok e m d W \<Longrightarrow> frames_ok e m d W"
  by (auto simp: as_ok_def)

lemma deallocuvm_from_ok:
  assumes "kmem_ok s vs" and "as_ok (kend s) (mem s) d (W \<union> set vs)" and "W \<inter> set vs = {}"
    and "pg_aligned a" and "b \<le> KERNBASE"
  shows "\<exists>s' vs'. deallocuvm_from d a b s = Inr s' \<and> unmaps d W a b s vs s' vs'"
  using assms
proof (induction "2 ^ 32 - unat a" arbitrary: a s vs rule: less_induct)
  case (less a s vs)
  note ok = less.prems
  have smaller: "2 ^ 32 - unat n < 2 ^ 32 - unat a" if "a < n" for n
    using that unat_lt_2_32 [of n] by (simp add: word_less_nat_alt)
  show ?case
  proof (cases "a < b")
    case False
    with unmaps_none [OF ok(1-3) False] show ?thesis
      by (intro exI [of _ s] exI [of _ vs]) (simp add: deallocuvm_from.simps)
  next
    case True
    then have k: "a < KERNBASE" using ok(5) by simp
    note np = next_page(2) [OF k]
    show ?thesis
    proof (cases "present (pde_of (mem s) d a)")
      case False
      define n where "n = PGADDR (PDX a + 1) 0 0"
      have lt: "a < n"
        unfolding n_def word_less_nat_alt unat_next_dir [OF k]
        using dividend_less_div_times [of 4194304 "unat a"] by simp
      have al: "pg_aligned n"
        unfolding pg_aligned_def n_def unat_next_dir [OF k] by simp
      have step: "deallocuvm_from d a b s = deallocuvm_from d n b s"
        using True False linorder_not_le [THEN iffD2, OF lt]
        by (subst deallocuvm_from.simps) (simp add: walkpgdir_lookup n_def [symmetric])
      have "\<not> present (pte_of (mem s) d x)" if "a \<le> PGROUNDDOWN x" "PGROUNDDOWN x < n" for x
        using next_dir_same_PDX [OF k that(1)] that(2) False same_pde [of x a "mem s" d]
        by (simp add: n_def pte_of_def)
      then show ?thesis
        using less.hyps [OF smaller [OF lt] ok(1-3) al ok(5)] unmaps_skip less_imp_le [OF lt] step by metis
    next
      case pde: True
      define pte where "pte = ptab_of (mem s) d a + 4 * PTX a"
      have nz: "pte \<noteq> 0" and ld: "pte_of (mem s) d a = ld32 (mem s) pte"
        using pt_okD [OF as_okD(2) [OF ok(2)] pde] entry_zero pde by (auto simp: pte_def pte_of_def)
      show ?thesis
      proof (cases "present (pte_of (mem s) d a)")
        case False
        have step: "deallocuvm_from d a b s = deallocuvm_from d (a + PGSIZE) b s"
          using True False pde nz linorder_not_le [THEN iffD2, OF np] ld
          by (subst deallocuvm_from.simps) (simp add: walkpgdir_lookup pte_def [symmetric])
        have "\<not> present (pte_of (mem s) d x)" if "a \<le> PGROUNDDOWN x" "PGROUNDDOWN x < a + PGSIZE" for x
          using page_lt_next [OF ok(4) k that] False pte_of_page [of x a "mem s" d] ok(4) by simp
        then show ?thesis
          using less.hyps [OF smaller [OF np] ok(1-3) _ ok(5)] ok(4) unmaps_skip less_imp_le [OF np] step
          by (metis pg_aligned_step)
      next
        case p: True
        define f where "f = frame_of (mem s) d a"
        have fr: "kpage (kend s) f" "f \<notin> set vs" "f \<notin> W" "KERNBASE < f"
          using frames_okD [OF as_okD(3) [OF ok(2)] k p] as_okD(1) [OF ok(2)]
          by (auto simp: f_def kpage_def)
        obtain s1 where s1: "kfree f s = Inr s1" "kmem_ok s1 (f # vs)" "kmem_frame s s1"
            "\<And>x. PGROUNDDOWN x \<noteq> f \<Longrightarrow> mem s1 x = mem s x"
          using kfree_ok [OF ok(1) fr(1,2)] by blast
        define s2 where "s2 = s1\<lparr>mem := st32 pte 0 (mem s1)\<rparr>"
        have pa: "PTE_ADDR (ld32 (mem s) pte) \<noteq> 0" "P2V (PTE_ADDR (ld32 (mem s) pte)) = f"
          using fr(4) by (auto simp: f_def frame_of_def ld P2V_def)
        have step: "deallocuvm_from d a b s = deallocuvm_from d (a + PGSIZE) b s2"
          using True pde nz linorder_not_le [THEN iffD2, OF np] ld p pa s1(1)
          by (subst deallocuvm_from.simps)
            (simp add: walkpgdir_lookup pte_def [symmetric] Let_def s2_def)
        note u = unmap_page [OF ok(2) s1(2) k p f_def s1(4), folded pte_def]
        have ok2: "kmem_ok s2 (f # vs)" "as_ok (kend s2) (mem s2) d (W \<union> set (f # vs))" "W \<inter> set (f # vs) = {}"
          using u(1,2) s1(3) fr(3) ok(3) by (auto simp: s2_def kmem_frame_def)
        obtain s' vs' where "deallocuvm_from d (a + PGSIZE) b s2 = Inr s'" "unmaps d W (a + PGSIZE) b s2 (f # vs) s' vs'"
          using less.hyps [OF smaller [OF np] ok2 _ ok(5)] ok(4) by auto
        with unmaps_cons [OF ok(2) s1(2,3) ok(4) k p f_def s1(4) True _ this(2)] step show ?thesis
          by (auto simp: s2_def pte_def)
      qed
    qed
  qed
qed

section \<open>Adding pages: allocuvm\<close>

lemma mappages_page:
  assumes "pg_aligned a"
  shows "mappages d a PGSIZE pa perm s = mappages_from d a a pa perm s"
proof -
  have "unat (a + 4095 - a) < 4096" by simp
  then have "PGROUNDDOWN (a + 4095) = a" using in_page_iff [OF assms] by blast
  then show ?thesis using assms by (simp add: mappages_def add.commute)
qed

lemma as_ok_mono: "as_ok e m d W \<Longrightarrow> W' \<subseteq> W \<Longrightarrow> as_ok e m d W'"
  unfolding as_ok_def pt_ok_def frames_ok_def by blast

lemma frames_ok_tables:
  assumes "frames_ok e m d (W \<union> set vs)" and "ptabs m' d = ptabs m d \<union> set zs" and "set zs \<subseteq> set vs"
    and "set vs' \<subseteq> set vs" and "pte_of m' d = pte_of m d"
  shows "frames_ok e m' d (W \<union> set vs')"
proof -
  have "frame_of m' d = frame_of m d" using assms(5) by (intro ext) (simp add: frame_of_def)
  note eqs = this assms(2,5)
  show ?thesis using assms(1,3,4) unfolding frames_ok_def eqs by blast
qed

lemma frames_ok_add:
  assumes fr: "frames_ok e m d (W \<union> set (v # us))" and tabs: "ptabs m' d = ptabs m d \<union> set zs"
    and sub: "set zs \<subseteq> set us" "set us' \<subseteq> set us"
    and v: "kpage e v" "v \<noteq> d" "v \<notin> ptabs m' d" "v \<notin> W \<union> set us"
    and pte: "\<And>x. pte_of m' d x = (if PGROUNDDOWN x = a then w else pte_of m d x)" and w: "P2V (PTE_ADDR w) = v"
  shows "frames_ok e m' d (W \<union> set us')"
proof (rule frames_okI)
  have fa: "frame_of m' d x = (if PGROUNDDOWN x = a then v else frame_of m d x)" for x
    by (simp add: frame_of_def pte w)
  {
    fix x
    assume x: "x < KERNBASE" "present (pte_of m' d x)"
    show "kpage e (frame_of m' d x) \<and> frame_of m' d x \<noteq> d \<and> frame_of m' d x \<notin> ptabs m' d \<and>
        frame_of m' d x \<notin> W \<union> set us'"
    proof (cases "PGROUNDDOWN x = a")
      case True
      with v sub fa show ?thesis by auto
    next
      case False
      then have "present (pte_of m d x)" using x(2) by (simp add: pte)
      from frames_okD [OF fr x(1) this] False sub show ?thesis by (auto simp: fa tabs)
    qed
  }
  fix x y
  assume xy: "x < KERNBASE" "present (pte_of m' d x)" "y < KERNBASE" "present (pte_of m' d y)"
    "frame_of m' d x = frame_of m' d y"
  have old: "frame_of m d z \<noteq> v" if "z < KERNBASE" "present (pte_of m' d z)" "PGROUNDDOWN z \<noteq> a" for z
    using frames_okD(4) [OF fr that(1)] that by (auto simp: pte)
  show "PGROUNDDOWN x = PGROUNDDOWN y"
  proof (cases "PGROUNDDOWN x = a \<or> PGROUNDDOWN y = a")
    case True
    with old [OF xy(1,2)] old [OF xy(3,4)] xy(5) show ?thesis by (auto simp: fa split: if_splits)
  next
    case False
    with frames_ok_inj [OF fr xy(1) _ xy(3)] xy show ?thesis by (auto simp: fa pte)
  qed
qed

text \<open>
  One turn of the loop: a fresh page is cleared and mapped at \<open>a\<close>, or there is no page left
  for a table and the mapping stays as it was.
\<close>

lemma alloc_page:
  assumes km: "kmem_ok s (v # us)" and as: "as_ok (kend s) (mem s) d (W \<union> set (v # us))" and dj: "W \<inter> set (v # us) = {}"
    and a: "pg_aligned a" "\<not> present (pte_of (mem s) d a)" and s1: "kmem_ok s1 us" "kmem_frame s s1" "mem s1 = mem s"
  shows "\<exists>r s2 us'. mappages d a PGSIZE (V2P v) (PTE_W OR PTE_U) (s1\<lparr>mem := memset v 0 PGSIZE (mem s1)\<rparr>) = Inr (r, s2) \<and>
     kmem_ok s2 us' \<and> kmem_frame s s2 \<and>
     (\<exists>zs. us = zs @ us' \<and> ptabs (mem s2) d = ptabs (mem s) d \<union> set zs) \<and>
     (\<forall>y. PGROUNDDOWN y \<notin> insert d (insert v (ptabs (mem s2) d)) \<longrightarrow> mem s2 y = mem s y) \<and>
     (r = 0 \<and> as_ok (kend s) (mem s2) d (W \<union> set us') \<and> (\<forall>y. PGROUNDDOWN y = v \<longrightarrow> mem s2 y = 0) \<and>
        (\<forall>x. pte_of (mem s2) d x = (if PGROUNDDOWN x = a then V2P v OR PTE_W OR PTE_U OR PTE_P else pte_of (mem s) d x)) \<or>
      r = -1 \<and> as_ok (kend s) (mem s2) d (insert v W \<union> set us') \<and> us' = [] \<and> pte_of (mem s2) d = pte_of (mem s) d)"
proof -
  let ?s = "s1\<lparr>mem := memset v 0 PGSIZE (mem s1)\<rparr>"
  have pt: "pt_ok (kend s) (mem s) d (W \<union> set (v # us))" and fr: "frames_ok (kend s) (mem s) d (W \<union> set (v # us))"
    using as by (auto simp: as_ok_def)
  have v: "kpage (kend s) v" "v \<noteq> d" "v \<notin> ptabs (mem s) d" "v \<notin> W" "v \<notin> set us"
    using km pt dj by (auto simp: kmem_ok_def pt_ok_def)
  have clear: "memset v 0 PGSIZE (mem s1) y = (if PGROUNDDOWN y = v then 0 else mem s y)" for y
    using kpage_aligned [OF v(1)] s1(3) by (simp add: memset_apply in_page_iff)
  have agree: "\<forall>x. PGROUNDDOWN x \<in> insert d (ptabs (mem s) d) \<longrightarrow> mem ?s x = mem s x"
    using v(2,3) clear by auto
  note cong = pt_cong [OF pt agree]
  have kend: "kend ?s = kend s" using s1(2) by (simp add: kmem_frameD)
  have km2: "kmem_ok ?s us"
    by (rule kmem_ok_mem [OF s1(1)]) (use v(5) clear s1(3) in auto)
  have sets: "insert v W \<union> set us = W \<union> set (v # us)" by auto
  have pt2: "pt_ok (kend ?s) (mem ?s) d (insert v W \<union> set us)"
    using pt unfolding kend sets pt_ok_def cong .
  have "unat (PGROUNDDOWN x - a) \<le> unat (a - a) \<Longrightarrow> \<not> present (pte_of (mem ?s) d x)" for x
    using a pte_of_page [of x a "mem s" d] unfolding cong by (simp add: unat_eq_0)
  note np = this
  have dj2: "insert v W \<inter> set us = {}" using v(4,5) dj by auto
  from mappages_from_ok [OF km2 pt2 dj2 a(1) a(1) np, of "V2P v" "PTE_W OR PTE_U"]
  obtain r s2 us' n where m: "mappages_from d a a (V2P v) (PTE_W OR PTE_U) ?s = Inr (r, s2)"
      and g: "pt_grows d (insert v W) ?s us s2 us'" and mt: "maps_to d (mem ?s) (mem s2) a (V2P v) (PTE_W OR PTE_U) n"
      and n: "r = 0 \<and> n = unat (a - a) + 4096 \<or> r = -1 \<and> us' = [] \<and> n \<le> unat (a - a)"
    by blast
  obtain zs where zs: "us = zs @ us'" "ptabs (mem s2) d = ptabs (mem s) d \<union> set zs"
    using g unfolding pt_grows_def cong by blast
  have g': "kmem_ok s2 us'" "kmem_frame s s2" "pt_ok (kend s) (mem s2) d (insert v W \<union> set us')"
    using g kend s1(2) by (auto simp: pt_grows_def kmem_frame_def)
  have out: "mem s2 y = mem ?s y" if "PGROUNDDOWN y \<notin> insert d (ptabs (mem s2) d)" for y
    using g that by (simp add: pt_grows_def)
  have out': "\<forall>y. PGROUNDDOWN y \<notin> insert d (insert v (ptabs (mem s2) d)) \<longrightarrow> mem s2 y = mem s y"
    using out clear by auto
  have vt: "v \<notin> ptabs (mem s2) d" using g'(3) unfolding pt_ok_def by blast
  have kb: "KERNBASE < kend s" using as by (simp add: as_ok_def)
  from n have "(r = 0 \<and> as_ok (kend s) (mem s2) d (W \<union> set us') \<and> (\<forall>y. PGROUNDDOWN y = v \<longrightarrow> mem s2 y = 0) \<and>
        (\<forall>x. pte_of (mem s2) d x = (if PGROUNDDOWN x = a then V2P v OR PTE_W OR PTE_U OR PTE_P else pte_of (mem s) d x)) \<or>
      r = -1 \<and> as_ok (kend s) (mem s2) d (insert v W \<union> set us') \<and> us' = [] \<and> pte_of (mem s2) d = pte_of (mem s) d)"
  proof
    assume r: "r = 0 \<and> n = unat (a - a) + 4096"
    have pte: "pte_of (mem s2) d x = (if PGROUNDDOWN x = a then V2P v OR 7 else pte_of (mem s) d x)" for x
      using mt r in_page_iff [OF a(1), of "PGROUNDDOWN x"] unfolding maps_to_def cong by simp
    have w: "P2V (PTE_ADDR (V2P v OR 7)) = v"
      using kpage_aligned [OF v(1)] by (simp add: PTE_ADDR_or)
    have "frames_ok (kend s) (mem s2) d (W \<union> set us')"
      by (rule frames_ok_add [OF fr zs(2) _ _ v(1,2) vt _ pte w]) (use zs(1) v(4,5) in auto)
    moreover have "pt_ok (kend s) (mem s2) d (W \<union> set us')" by (rule pt_ok_mono [OF g'(3)]) auto
    moreover have "mem s2 y = 0" if "PGROUNDDOWN y = v" for y
      using out [of y] that vt v(2) clear by simp
    ultimately show ?thesis using r kb pte by (simp add: as_ok_def)
  next
    assume r: "r = -1 \<and> us' = [] \<and> n \<le> unat (a - a)"
    then have pte: "pte_of (mem s2) d = pte_of (mem s) d"
      using mt unfolding maps_to_def cong by auto
    have fr': "frames_ok (kend s) (mem s) d (insert v W \<union> set us)" using fr unfolding sets .
    have "frames_ok (kend s) (mem s2) d (insert v W \<union> set us')"
      by (rule frames_ok_tables [OF fr' zs(2) _ _ pte]) (use zs(1) in auto)
    with r pte g'(3) kb show ?thesis by (simp add: as_ok_def)
  qed
  then show ?thesis
    unfolding mappages_page [OF a(1)] using m g'(1,2) zs out'
    by (intro exI [of _ r] exI [of _ s2] exI [of _ us'] conjI exI [of _ zs]) assumption+
qed

lemma as_ok_cong:
  assumes "as_ok e m d W" and "\<forall>x. PGROUNDDOWN x \<in> insert d (ptabs m d) \<longrightarrow> m' x = m x"
  shows "as_ok e m' d W" "pte_of m' d = pte_of m d" "ptabs m' d = ptabs m d"
proof -
  note cong = pt_cong [OF as_okD(2) [OF assms(1)] assms(2)]
  have fr: "frame_of m' d = frame_of m d" by (intro ext) (simp add: frame_of_def cong)
  show "pte_of m' d = pte_of m d" "ptabs m' d = ptabs m d" by (fact cong)+
  show "as_ok e m' d W" using assms(1) unfolding as_ok_def pt_ok_def frames_ok_def cong fr .
qed

text \<open>
  The state of the loop of \<open>allocuvm\<close>: from \<open>A\<close> up to \<open>a\<close> every page is mapped, writable for the
  user, to a page of zeros that was free at the start; the rest of the mapping is unchanged.
\<close>

definition fresh_range :: "uint \<Rightarrow> uint \<Rightarrow> uint \<Rightarrow> memory \<Rightarrow> uint set \<Rightarrow> memory \<Rightarrow> bool" where
  "fresh_range d A a m0 V m \<longleftrightarrow>
     (\<forall>x. if A \<le> PGROUNDDOWN x \<and> PGROUNDDOWN x < a
          then pte_of m d x = V2P (frame_of m d x) OR PTE_W OR PTE_U OR PTE_P \<and> frame_of m d x \<in> V \<and>
            (\<forall>y. PGROUNDDOWN y = frame_of m d x \<longrightarrow> m y = 0)
          else pte_of m d x = pte_of m0 d x)"

definition grown :: "uint \<Rightarrow> uint set \<Rightarrow> uint \<Rightarrow> uint \<Rightarrow> 'a kmem_state_scheme \<Rightarrow> uint list \<Rightarrow>
    'a kmem_state_scheme \<Rightarrow> uint list \<Rightarrow> bool" where
  "grown d W A a s0 vs0 s vs \<longleftrightarrow>
     kmem_ok s vs \<and> kmem_frame s0 s \<and> as_ok (kend s0) (mem s) d (W \<union> set vs) \<and> set vs \<subseteq> set vs0 \<and>
     set vs \<union> ptabs (mem s) d \<union> frame_of (mem s) d ` {x. A \<le> PGROUNDDOWN x \<and> PGROUNDDOWN x < a} =
       set vs0 \<union> ptabs (mem s0) d \<and>
     fresh_range d A a (mem s0) (set vs0) (mem s) \<and>
     (\<forall>y. PGROUNDDOWN y \<notin> insert d (ptabs (mem s0) d) \<union> set vs0 \<longrightarrow> mem s y = mem s0 y)"

lemma grown_refl:
  assumes "kmem_ok s vs" and "as_ok (kend s) (mem s) d (W \<union> set vs)"
  shows "grown d W A A s vs s vs"
proof -
  have none: "\<not> (A \<le> PGROUNDDOWN x \<and> PGROUNDDOWN x < A)" for x by (auto simp: not_less)
  then have empty: "{x. A \<le> PGROUNDDOWN x \<and> PGROUNDDOWN x < A} = {}" by blast
  show ?thesis unfolding grown_def fresh_range_def if_not_P [OF none] empty using assms by simp
qed

lemma page_range_step:
  assumes "pg_aligned a" and "a < KERNBASE" and "A \<le> a"
  shows "A \<le> PGROUNDDOWN x \<and> PGROUNDDOWN x < a + PGSIZE \<longleftrightarrow>
    A \<le> PGROUNDDOWN x \<and> PGROUNDDOWN x < a \<or> PGROUNDDOWN x = a"
proof (cases "a \<le> PGROUNDDOWN x")
  case True
  then show ?thesis
    using page_lt_next [OF assms(1,2) True] next_page(2) [OF assms(2)] assms(3) by (auto simp: not_less)
next
  case False
  then have "PGROUNDDOWN x < a" by simp
  moreover from this have "PGROUNDDOWN x < a + PGSIZE" using next_page(2) [OF assms(2)] by (rule less_trans)
  ultimately show ?thesis by auto
qed

lemma grown_step:
  assumes g: "grown d W A a s0 vs0 s (v # us)" and a: "pg_aligned a" "a < KERNBASE" "A \<le> a"
    and s2: "kmem_ok s2 us'" "kmem_frame s s2" "us = zs @ us'" "ptabs (mem s2) d = ptabs (mem s) d \<union> set zs"
      "\<forall>y. PGROUNDDOWN y \<notin> insert d (insert v (ptabs (mem s2) d)) \<longrightarrow> mem s2 y = mem s y"
      "as_ok (kend s) (mem s2) d (W \<union> set us')" "\<forall>y. PGROUNDDOWN y = v \<longrightarrow> mem s2 y = 0"
      "\<forall>x. pte_of (mem s2) d x = (if PGROUNDDOWN x = a then V2P v OR PTE_W OR PTE_U OR PTE_P else pte_of (mem s) d x)"
  shows "grown d W A (a + PGSIZE) s0 vs0 s2 us'"
proof -
  have old: "kmem_ok s (v # us)" "kmem_frame s0 s" "as_ok (kend s0) (mem s) d (W \<union> set (v # us))"
      "set (v # us) \<subseteq> set vs0" "fresh_range d A a (mem s0) (set vs0) (mem s)"
      "\<forall>y. PGROUNDDOWN y \<notin> insert d (ptabs (mem s0) d) \<union> set vs0 \<longrightarrow> mem s y = mem s0 y"
      "set (v # us) \<union> ptabs (mem s) d \<union> frame_of (mem s) d ` {x. A \<le> PGROUNDDOWN x \<and> PGROUNDDOWN x < a} =
       set vs0 \<union> ptabs (mem s0) d"
    using g unfolding grown_def by blast+
  have v: "kpage (kend s) v" using old(1) by (auto simp: kmem_ok_def)
  have kend: "kend s = kend s0" using old(2) by (rule kmem_frameD)
  have w: "P2V (PTE_ADDR (V2P v OR PTE_W OR PTE_U OR PTE_P)) = v"
    using kpage_aligned [OF v] by (simp add: PTE_ADDR_or)
  have fa: "frame_of (mem s2) d x = (if PGROUNDDOWN x = a then v else frame_of (mem s) d x)" for x
    unfolding frame_of_def using s2(8) w by simp
  note split = page_range_step [OF a]
  have "fresh_range d A (a + PGSIZE) (mem s0) (set vs0) (mem s2)"
    unfolding fresh_range_def split
  proof
    fix x
    have o: "if A \<le> PGROUNDDOWN x \<and> PGROUNDDOWN x < a
          then pte_of (mem s) d x = V2P (frame_of (mem s) d x) OR PTE_W OR PTE_U OR PTE_P \<and>
            frame_of (mem s) d x \<in> set vs0 \<and> (\<forall>y. PGROUNDDOWN y = frame_of (mem s) d x \<longrightarrow> mem s y = 0)
          else pte_of (mem s) d x = pte_of (mem s0) d x"
      using old(5) unfolding fresh_range_def by blast
    show "if A \<le> PGROUNDDOWN x \<and> PGROUNDDOWN x < a \<or> PGROUNDDOWN x = a
          then pte_of (mem s2) d x = V2P (frame_of (mem s2) d x) OR PTE_W OR PTE_U OR PTE_P \<and>
            frame_of (mem s2) d x \<in> set vs0 \<and> (\<forall>y. PGROUNDDOWN y = frame_of (mem s2) d x \<longrightarrow> mem s2 y = 0)
          else pte_of (mem s2) d x = pte_of (mem s0) d x"
    proof (cases "PGROUNDDOWN x = a")
      case True
      with s2(7,8) old(4) fa show ?thesis by simp
    next
      case False
      have "mem s2 y = mem s y" if i: "A \<le> PGROUNDDOWN x \<and> PGROUNDDOWN x < a" "PGROUNDDOWN y = frame_of (mem s) d x" for y
      proof -
        have "PGROUNDDOWN x < KERNBASE" using i(1) a(2) by (meson less_trans)
        moreover have "pte_of (mem s) d (PGROUNDDOWN x) = pte_of (mem s) d x" by (rule pte_of_page) simp
        moreover have "present (pte_of (mem s) d x)" using o i(1) by (simp add: bit.conj_disj_distrib2)
        ultimately have "frame_of (mem s) d x \<noteq> d" "frame_of (mem s) d x \<notin> ptabs (mem s) d"
            "frame_of (mem s) d x \<notin> W \<union> set (v # us)"
          using frames_okD [OF as_okD(3) [OF old(3)], of "PGROUNDDOWN x"] by (simp_all add: frame_of_def)
        then show ?thesis using s2(3-5) i(2) by auto
      qed
      then show ?thesis using o False s2(8) fa by auto
    qed
  qed
  moreover have "{x. A \<le> PGROUNDDOWN x \<and> PGROUNDDOWN x < a + PGSIZE} =
      {x. A \<le> PGROUNDDOWN x \<and> PGROUNDDOWN x < a} \<union> {x. PGROUNDDOWN x = a}"
    using split by auto
  then have "frame_of (mem s2) d ` {x. A \<le> PGROUNDDOWN x \<and> PGROUNDDOWN x < a + PGSIZE} =
      insert v (frame_of (mem s) d ` {x. A \<le> PGROUNDDOWN x \<and> PGROUNDDOWN x < a})"
    using PGROUNDDOWN_aligned [OF a(1)] by (auto simp: fa image_iff)
  then have "set us' \<union> ptabs (mem s2) d \<union> frame_of (mem s2) d ` {x. A \<le> PGROUNDDOWN x \<and> PGROUNDDOWN x < a + PGSIZE} =
      set vs0 \<union> ptabs (mem s0) d"
    using old(7) s2(3,4) by auto
  moreover have "\<forall>y. PGROUNDDOWN y \<notin> insert d (ptabs (mem s0) d) \<union> set vs0 \<longrightarrow> mem s2 y = mem s0 y"
  proof (intro allI impI)
    fix y
    assume y: "PGROUNDDOWN y \<notin> insert d (ptabs (mem s0) d) \<union> set vs0"
    then have "PGROUNDDOWN y \<notin> insert d (insert v (ptabs (mem s2) d))"
      using old(4,7) s2(3,4) by auto
    then show "mem s2 y = mem s0 y" using s2(5) old(6) y by simp
  qed
  ultimately show ?thesis
    unfolding grown_def using s2(1,3,6) kmem_frame_trans [OF old(2) s2(2)] old(4) kend by simp
qed

lemma unmapsD:
  assumes "unmaps d W a b s vs s' vs'"
  shows "kmem_ok s' vs'" "kmem_frame s s'" "as_ok (kend s) (mem s') d (W \<union> set vs')"
    "W \<inter> set vs' = {}" "ptabs (mem s') d = ptabs (mem s) d"
    "pte_of (mem s') d x = (if x \<in> mapped_in (mem s) d a b then 0 else pte_of (mem s) d x)"
    "set vs' = set vs \<union> frame_of (mem s) d ` mapped_in (mem s) d a b"
    "PGROUNDDOWN y \<notin> set vs' \<Longrightarrow> PGROUNDDOWN y \<notin> ptabs (mem s) d \<Longrightarrow> mem s' y = mem s y"
  using assms unfolding unmaps_def by - (elim conjE, (assumption | blast))+

lemma unmaps_undoes:
  assumes u: "unmaps d W A b s vs s' vs'" and ab: "a \<le> b"
    and p': "\<forall>x. A \<le> PGROUNDDOWN x \<and> PGROUNDDOWN x < a \<longrightarrow> present (pte_of (mem s) d x)"
    and q': "\<forall>x. \<not> (A \<le> PGROUNDDOWN x \<and> PGROUNDDOWN x < a) \<longrightarrow> pte_of (mem s) d x = pte_of m0 d x"
    and z': "\<forall>x. A \<le> PGROUNDDOWN x \<and> PGROUNDDOWN x < b \<longrightarrow> pte_of m0 d x = 0"
  shows "pte_of (mem s') d = pte_of m0 d"
    and "mapped_in (mem s) d A b = {x. A \<le> PGROUNDDOWN x \<and> PGROUNDDOWN x < a}"
proof -
  note p = p' [rule_format, OF conjI] and q = q' [rule_format] and z = z' [rule_format, OF conjI]
  have "x \<in> mapped_in (mem s) d A b \<longleftrightarrow> A \<le> PGROUNDDOWN x \<and> PGROUNDDOWN x < a" for x
  proof (cases "A \<le> PGROUNDDOWN x \<and> PGROUNDDOWN x < a")
    case True
    then show ?thesis using p [of x] order_less_le_trans [OF _ ab, of "PGROUNDDOWN x"] by (simp add: mapped_in_def)
  next
    case False
    then show ?thesis using q [of x] z [of x] by (auto simp: mapped_in_def)
  qed
  then show m: "mapped_in (mem s) d A b = {x. A \<le> PGROUNDDOWN x \<and> PGROUNDDOWN x < a}" by blast
  show "pte_of (mem s') d = pte_of m0 d"
  proof
    fix x
    have e: "pte_of (mem s') d x =
        (if A \<le> PGROUNDDOWN x \<and> PGROUNDDOWN x < a then 0 else pte_of (mem s) d x)"
      using unmapsD(6) [OF u] unfolding m by simp
    show "pte_of (mem s') d x = pte_of m0 d x"
    proof (cases "A \<le> PGROUNDDOWN x \<and> PGROUNDDOWN x < a")
      case True
      then show ?thesis using e z [of x] order_less_le_trans [OF _ ab, of "PGROUNDDOWN x"] by simp
    next
      case False
      then show ?thesis using e q [OF False] by (simp only: if_False)
    qed
  qed
qed

text \<open>After a failure: the mapping is the one before the call, and every page is accounted for.\<close>

definition restored :: "uint \<Rightarrow> uint set \<Rightarrow> 'a kmem_state_scheme \<Rightarrow> uint list \<Rightarrow>
    'a kmem_state_scheme \<Rightarrow> uint list \<Rightarrow> bool" where
  "restored d W s0 vs0 s vs \<longleftrightarrow>
     kmem_ok s vs \<and> kmem_frame s0 s \<and> as_ok (kend s0) (mem s) d (W \<union> set vs) \<and>
     pte_of (mem s) d = pte_of (mem s0) d \<and>
     set vs \<union> ptabs (mem s) d = set vs0 \<union> ptabs (mem s0) d \<and>
     (\<forall>y. PGROUNDDOWN y \<notin> insert d (ptabs (mem s0) d) \<union> set vs0 \<longrightarrow> mem s y = mem s0 y)"

lemma deallocuvm_runs:
  assumes "kmem_ok s vs" and "as_ok (kend s) (mem s) d (W \<union> set vs)" and "W \<inter> set vs = {}"
    and "oldsz < newsz" and "newsz \<le> KERNBASE"
  shows "\<exists>s' vs'. deallocuvm d newsz oldsz s = Inr (oldsz, s') \<and> unmaps d W (PGROUNDUP oldsz) newsz s vs s' vs'"
  using deallocuvm_from_ok [OF assms(1-3) pg_aligned_PGROUNDUP assms(5), of oldsz] assms(4)
  by (auto simp: deallocuvm_def)

lemma fresh_rangeD:
  assumes "fresh_range d A a m0 V m"
  shows "A \<le> PGROUNDDOWN x \<Longrightarrow> PGROUNDDOWN x < a \<Longrightarrow> present (pte_of m d x)"
    "\<not> (A \<le> PGROUNDDOWN x \<and> PGROUNDDOWN x < a) \<Longrightarrow> pte_of m d x = pte_of m0 d x"
proof -
  have f: "if A \<le> PGROUNDDOWN x \<and> PGROUNDDOWN x < a
      then pte_of m d x = V2P (frame_of m d x) OR PTE_W OR PTE_U OR PTE_P \<and> frame_of m d x \<in> V \<and>
        (\<forall>y. PGROUNDDOWN y = frame_of m d x \<longrightarrow> m y = 0)
      else pte_of m d x = pte_of m0 d x"
    using assms unfolding fresh_range_def by blast
  show "present (pte_of m d x)" if "A \<le> PGROUNDDOWN x" "PGROUNDDOWN x < a"
    using f that by (simp add: bit.conj_disj_distrib2)
  show "pte_of m d x = pte_of m0 d x" if "\<not> (A \<le> PGROUNDDOWN x \<and> PGROUNDDOWN x < a)"
    using f unfolding if_not_P [OF that] .
qed

lemma grown_undo:
  assumes g: "grown d W A a s0 vs0 s vs" and e: "mem s1 = mem s" "kmem_ok s1 vs" "kmem_frame s s1"
    and A: "A = PGROUNDUP oldsz" "a \<le> newsz" "oldsz < newsz" "newsz \<le> KERNBASE" and dj: "W \<inter> set vs0 = {}"
    and z: "\<forall>x. A \<le> PGROUNDDOWN x \<and> PGROUNDDOWN x < newsz \<longrightarrow> pte_of (mem s0) d x = 0"
  shows "\<exists>s' vs'. deallocuvm d newsz oldsz s1 = Inr (oldsz, s') \<and> restored d W s0 vs0 s' vs'"
proof -
  have old: "kmem_ok s vs" "kmem_frame s0 s" "as_ok (kend s0) (mem s) d (W \<union> set vs)" "set vs \<subseteq> set vs0"
      "fresh_range d A a (mem s0) (set vs0) (mem s)"
      "\<forall>y. PGROUNDDOWN y \<notin> insert d (ptabs (mem s0) d) \<union> set vs0 \<longrightarrow> mem s y = mem s0 y"
      "set vs \<union> ptabs (mem s) d \<union> frame_of (mem s) d ` {x. A \<le> PGROUNDDOWN x \<and> PGROUNDDOWN x < a} =
       set vs0 \<union> ptabs (mem s0) d"
    using g unfolding grown_def by blast+
  have fr: "kmem_frame s0 s1" using kmem_frame_trans [OF old(2) e(3)] .
  have kend: "kend s1 = kend s0" using fr by (rule kmem_frameD)
  have as: "as_ok (kend s1) (mem s1) d (W \<union> set vs)" using old(3) by (simp add: kend e(1))
  have dj': "W \<inter> set vs = {}" using dj old(4) by auto
  obtain s' vs' where r: "deallocuvm d newsz oldsz s1 = Inr (oldsz, s')" and u: "unmaps d W A newsz s1 vs s' vs'"
    using deallocuvm_runs [OF e(2) as dj' A(3,4)] A(1) by blast
  have "\<forall>x. A \<le> PGROUNDDOWN x \<and> PGROUNDDOWN x < a \<longrightarrow> present (pte_of (mem s) d x)"
    "\<forall>x. \<not> (A \<le> PGROUNDDOWN x \<and> PGROUNDDOWN x < a) \<longrightarrow> pte_of (mem s) d x = pte_of (mem s0) d x"
    using fresh_rangeD [OF old(5)] by blast+
  note und = unmaps_undoes [OF u A(2), unfolded e(1), OF this z]
  have vs': "set vs' = set vs \<union> frame_of (mem s) d ` {x. A \<le> PGROUNDDOWN x \<and> PGROUNDDOWN x < a}"
    "ptabs (mem s') d = ptabs (mem s) d"
    using unmapsD(5,7) [OF u] unfolding e(1) und(2) by blast+
  have "mem s' y = mem s0 y" if "PGROUNDDOWN y \<notin> insert d (ptabs (mem s0) d) \<union> set vs0" for y
  proof -
    have "PGROUNDDOWN y \<notin> set vs'" "PGROUNDDOWN y \<notin> ptabs (mem s) d" using that old(7) vs' by auto
    then have "mem s' y = mem s y" using unmapsD(8) [OF u] unfolding e(1) by blast
    with old(6) that show ?thesis by simp
  qed
  moreover have "kmem_ok s' vs'" "kmem_frame s0 s'" "as_ok (kend s0) (mem s') d (W \<union> set vs')"
    using unmapsD(1,3) [OF u] kmem_frame_trans [OF fr unmapsD(2) [OF u]] unfolding kend by blast+
  moreover have "set vs' \<union> ptabs (mem s') d = set vs0 \<union> ptabs (mem s0) d"
    using old(7) vs' by auto
  ultimately show ?thesis using r und(1) unfolding restored_def by blast
qed

lemma grownD:
  assumes "grown d W A a s0 vs0 s vs"
  shows "kmem_ok s vs" "kmem_frame s0 s" "as_ok (kend s0) (mem s) d (W \<union> set vs)" "set vs \<subseteq> set vs0"
    "set vs \<union> ptabs (mem s) d \<union> frame_of (mem s) d ` {x. A \<le> PGROUNDDOWN x \<and> PGROUNDDOWN x < a} =
       set vs0 \<union> ptabs (mem s0) d"
    "fresh_range d A a (mem s0) (set vs0) (mem s)"
    "PGROUNDDOWN y \<notin> insert d (ptabs (mem s0) d) \<union> set vs0 \<Longrightarrow> mem s y = mem s0 y"
  using assms unfolding grown_def by - (elim conjE, (assumption | blast))+

lemma grown_undo_table:
  assumes g: "grown d W A a s0 vs0 s (v # us)"
    and s2: "kmem_ok s2 []" "kmem_frame s s2" "ptabs (mem s2) d = ptabs (mem s) d \<union> set us"
      "\<forall>y. PGROUNDDOWN y \<notin> insert d (insert v (ptabs (mem s2) d)) \<longrightarrow> mem s2 y = mem s y"
      "as_ok (kend s) (mem s2) d (insert v W)" "pte_of (mem s2) d = pte_of (mem s) d"
    and A: "A = PGROUNDUP oldsz" "a \<le> newsz" "oldsz < newsz" "newsz \<le> KERNBASE" and dj: "W \<inter> set vs0 = {}"
    and z: "\<forall>x. A \<le> PGROUNDDOWN x \<and> PGROUNDDOWN x < newsz \<longrightarrow> pte_of (mem s0) d x = 0"
  shows "\<exists>s' s'' vs'. deallocuvm d newsz oldsz s2 = Inr (oldsz, s') \<and> kfree v s' = Inr s'' \<and>
    restored d W s0 vs0 s'' vs'"
proof -
  note old = grownD [OF g]
  have fr: "kmem_frame s0 s2" by (rule kmem_frame_trans [OF old(2) s2(2)])
  have kend: "kend s2 = kend s0" "kend s = kend s0" using fr old(2) by (auto dest: kmem_frameD)
  have as: "as_ok (kend s2) (mem s2) d (insert v W \<union> set [])" using s2(5) by (simp add: kend)
  have "insert v W \<inter> set [] = {}" by simp
  from deallocuvm_runs [OF s2(1) as this A(3,4)]
  obtain s' vs' where r: "deallocuvm d newsz oldsz s2 = Inr (oldsz, s')"
      and u: "unmaps d (insert v W) A newsz s2 [] s' vs'"
    using A(1) by blast
  note ud = unmapsD [OF u]
  have "\<forall>x. A \<le> PGROUNDDOWN x \<and> PGROUNDDOWN x < a \<longrightarrow> present (pte_of (mem s2) d x)"
    "\<forall>x. \<not> (A \<le> PGROUNDDOWN x \<and> PGROUNDDOWN x < a) \<longrightarrow> pte_of (mem s2) d x = pte_of (mem s0) d x"
    using fresh_rangeD [OF old(6)] unfolding s2(6) by blast+
  note und = unmaps_undoes [OF u A(2) this z]
  have kf: "kmem_frame s0 s'" by (rule kmem_frame_trans [OF fr ud(2)])
  have v: "kpage (kend s') v" "v \<notin> set vs'"
    using old(1) kmem_frameD(3) [OF kf] kend ud(4) by (auto simp: kmem_ok_def)
  obtain s'' where k: "kfree v s' = Inr s''" "kmem_ok s'' (v # vs')" "kmem_frame s' s''"
      "\<forall>x. PGROUNDDOWN x \<noteq> v \<longrightarrow> mem s'' x = mem s' x"
    using kfree_ok [OF ud(1) v] by blast
  have as': "as_ok (kend s0) (mem s') d (W \<union> set (v # vs'))" using ud(3) by (simp add: kend)
  have vd: "v \<notin> insert d (ptabs (mem s') d)"
    using as_okD(2) [OF ud(3)] unfolding pt_ok_def by blast
  then have "\<forall>x. PGROUNDDOWN x \<in> insert d (ptabs (mem s') d) \<longrightarrow> mem s'' x = mem s' x"
    using k(4) by metis
  note c = as_ok_cong [OF as' this]
  have fs: "frame_of (mem s2) d = frame_of (mem s) d" by (intro ext) (simp add: frame_of_def s2(6))
  have acc: "set (v # vs') \<union> ptabs (mem s'') d = set vs0 \<union> ptabs (mem s0) d"
    using old(5) ud(5,7) s2(3) unfolding c(3) und(2) fs by auto
  have "mem s'' y = mem s0 y" if "PGROUNDDOWN y \<notin> insert d (ptabs (mem s0) d) \<union> set vs0" for y
  proof -
    have y: "PGROUNDDOWN y \<notin> set (v # vs') \<union> ptabs (mem s'') d" "PGROUNDDOWN y \<noteq> d" using that acc by auto
    then have y2: "PGROUNDDOWN y \<notin> ptabs (mem s2) d" unfolding c(3) ud(5) by blast
    have "mem s'' y = mem s' y" using k(4) y by simp
    also have "\<dots> = mem s2 y" using ud(8) y y2 by simp
    also have "\<dots> = mem s y" using s2(4) y y2 by simp
    also have "\<dots> = mem s0 y" using old(7) that by blast
    finally show ?thesis .
  qed
  moreover have "pte_of (mem s'') d = pte_of (mem s0) d" using c(2) und(1) by simp
  ultimately have "restored d W s0 vs0 s'' (v # vs')"
    unfolding restored_def using k(2) kmem_frame_trans [OF kf k(3)] c(1) acc by blast
  with r k(1) show ?thesis by blast
qed

lemma grown_bound:
  assumes "grown d W A a s0 vs0 s vs" and "\<And>x. A \<le> PGROUNDDOWN x \<Longrightarrow> PGROUNDDOWN x < a \<longleftrightarrow> PGROUNDDOWN x < b"
  shows "grown d W A b s0 vs0 s vs"
proof -
  have e: "A \<le> PGROUNDDOWN x \<and> PGROUNDDOWN x < b \<longleftrightarrow> A \<le> PGROUNDDOWN x \<and> PGROUNDDOWN x < a" for x
    using assms(2) by blast
  show ?thesis using assms(1) unfolding grown_def fresh_range_def e .
qed

lemma allocuvm_from_ok:
  assumes "grown d W A a s0 vs0 s vs" and "pg_aligned a" and "A \<le> a" and "A = PGROUNDUP oldsz"
    and "oldsz \<le> A" and "newsz < KERNBASE" and "W \<inter> set vs0 = {}" and "a = A \<or> unat a < unat newsz + 4096"
    and "\<forall>x. A \<le> PGROUNDDOWN x \<and> PGROUNDDOWN x < newsz \<longrightarrow> pte_of (mem s0) d x = 0"
  shows "\<exists>r s' vs'. allocuvm_from d a oldsz newsz s = Inr (r, s') \<and>
     (r = newsz \<and> grown d W A newsz s0 vs0 s' vs' \<or> r = 0 \<and> restored d W s0 vs0 s' vs')"
  using assms
proof (induction "2 ^ 32 - unat a" arbitrary: a s vs rule: less_induct)
  case (less a s vs)
  note h = less.prems
  note gd = grownD [OF h(1)]
  have kend: "kend s = kend s0" using gd(2) by (rule kmem_frameD)
  show ?case
  proof (cases "a < newsz")
    case False
    have "PGROUNDDOWN x < a \<longleftrightarrow> PGROUNDDOWN x < newsz" if A: "A \<le> PGROUNDDOWN x" for x
    proof
      assume "PGROUNDDOWN x < a"
      obtain j k where jk: "unat (PGROUNDDOWN x) = 4096 * j" "unat a = 4096 * k"
        using pg_aligned_PGROUNDDOWN [of x] h(2) unfolding pg_aligned_def by (blast dest: mod_0_ex)
      with \<open>PGROUNDDOWN x < a\<close> have "unat (PGROUNDDOWN x) + 4096 \<le> unat a"
        by (simp add: word_less_nat_alt)
      then show "PGROUNDDOWN x < newsz"
        using h(8) A \<open>PGROUNDDOWN x < a\<close> by (auto simp: word_less_nat_alt word_le_nat_alt)
    next
      assume "PGROUNDDOWN x < newsz"
      with False show "PGROUNDDOWN x < a" by simp
    qed
    with h(1) have "grown d W A newsz s0 vs0 s vs" by (rule grown_bound)
    moreover have "allocuvm_from d a oldsz newsz s = Inr (newsz, s)"
      using False by (subst allocuvm_from.simps) simp
    ultimately show ?thesis by blast
  next
    case True
    have lt: "a < KERNBASE" using True h(6) by (rule less_trans)
    have on: "oldsz < newsz" using h(3,5) True by (meson order_le_less_trans order_trans)
    have nk: "newsz \<le> KERNBASE" using h(6) by simp
    obtain s1 where s1: "kalloc s = Inr (case vs of [] \<Rightarrow> 0 | v # _ \<Rightarrow> v, s1)" "kmem_ok s1 (tl vs)"
        "kmem_frame s s1" "mem s1 = mem s"
      using kalloc_ok [OF gd(1)] by blast
    show ?thesis
    proof (cases vs)
      case Nil
      have km: "kmem_ok s1 vs" using s1(2) Nil by simp
      from grown_undo [OF h(1) s1(4) km s1(3) h(4) less_imp_le [OF True] on nk h(7,9)]
      obtain s' vs' where "deallocuvm d newsz oldsz s1 = Inr (oldsz, s')" "restored d W s0 vs0 s' vs'" by blast
      moreover from this have "allocuvm_from d a oldsz newsz s = Inr (0, s')"
        using True s1(1) Nil by (subst allocuvm_from.simps) simp
      ultimately show ?thesis by blast
    next
      case (Cons v us)
      have v0: "v \<noteq> 0" using gd(1) Cons kpage_nonzero by (auto simp: kmem_ok_def)
      have ap: "\<not> present (pte_of (mem s) d a)"
        using fresh_rangeD(2) [OF gd(6), of a] h(2,3,9) True by simp
      have km: "kmem_ok s (v # us)" "kmem_ok s1 us" "as_ok (kend s) (mem s) d (W \<union> set (v # us))" "W \<inter> set (v # us) = {}"
        using gd(1,3,4) s1(2) Cons kend h(7) by auto
      from alloc_page [OF km(1,3,4) h(2) ap km(2) s1(3,4)]
      obtain r s2 us' zs where m: "mappages d a PGSIZE (V2P v) (PTE_W OR PTE_U) (s1\<lparr>mem := memset v 0 PGSIZE (mem s1)\<rparr>) = Inr (r, s2)"
        and s2: "kmem_ok s2 us'" "kmem_frame s s2" "us = zs @ us'" "ptabs (mem s2) d = ptabs (mem s) d \<union> set zs"
          "\<forall>y. PGROUNDDOWN y \<notin> insert d (insert v (ptabs (mem s2) d)) \<longrightarrow> mem s2 y = mem s y"
        and c: "r = 0 \<and> as_ok (kend s) (mem s2) d (W \<union> set us') \<and> (\<forall>y. PGROUNDDOWN y = v \<longrightarrow> mem s2 y = 0) \<and>
        (\<forall>x. pte_of (mem s2) d x = (if PGROUNDDOWN x = a then V2P v OR PTE_W OR PTE_U OR PTE_P else pte_of (mem s) d x)) \<or>
      r = -1 \<and> as_ok (kend s) (mem s2) d (insert v W \<union> set us') \<and> us' = [] \<and> pte_of (mem s2) d = pte_of (mem s) d"
        by blast
      have g: "grown d W A a s0 vs0 s (v # us)" using h(1) Cons by simp
      from c show ?thesis
      proof
        assume c: "r = 0 \<and> as_ok (kend s) (mem s2) d (W \<union> set us') \<and> (\<forall>y. PGROUNDDOWN y = v \<longrightarrow> mem s2 y = 0) \<and>
        (\<forall>x. pte_of (mem s2) d x = (if PGROUNDDOWN x = a then V2P v OR PTE_W OR PTE_U OR PTE_P else pte_of (mem s) d x))"
        then have g2: "grown d W A (a + PGSIZE) s0 vs0 s2 us'"
          using grown_step [OF g h(2) lt h(3) s2] by blast
        note np = next_page [OF lt]
        have step: "allocuvm_from d a oldsz newsz s = allocuvm_from d (a + PGSIZE) oldsz newsz s2"
          using True s1(1) Cons v0 m c linorder_not_le [THEN iffD2, OF np(2)]
          by (subst allocuvm_from.simps) (simp add: Let_def)
        show ?thesis
          unfolding step
        proof (rule less.hyps [OF _ g2 _ _ h(4,5,6,7) _ h(9)])
          show "2 ^ 32 - unat (a + PGSIZE) < 2 ^ 32 - unat a"
            using np(1) unat_lt_2_32 [of "a + PGSIZE"] by simp
          show "A \<le> a + PGSIZE" using h(3) np(2) by (meson less_imp_le order_trans)
          show "a + PGSIZE = A \<or> unat (a + PGSIZE) < unat newsz + 4096"
            using np(1) True by (simp add: word_less_nat_alt)
        qed (use h(2) in simp)
      next
        assume c: "r = -1 \<and> as_ok (kend s) (mem s2) d (insert v W \<union> set us') \<and> us' = [] \<and> pte_of (mem s2) d = pte_of (mem s) d"
        then have c': "kmem_ok s2 []" "ptabs (mem s2) d = ptabs (mem s) d \<union> set us" "as_ok (kend s) (mem s2) d (insert v W)"
            "pte_of (mem s2) d = pte_of (mem s) d" using s2(1,3,4) by auto
        obtain s' s'' vs' where "deallocuvm d newsz oldsz s2 = Inr (oldsz, s')" "kfree v s' = Inr s''" "restored d W s0 vs0 s'' vs'"
          using grown_undo_table [OF g c'(1) s2(2) c'(2) s2(5) c'(3,4) h(4) less_imp_le [OF True] on nk h(7,9)] by blast
        moreover from this have "allocuvm_from d a oldsz newsz s = Inr (0, s'')"
          using True s1(1) Cons v0 m c by (subst allocuvm_from.simps) (simp add: Let_def)
        ultimately show ?thesis by blast
      qed
    qed
  qed
qed

section \<open>Properties\<close>

text \<open>An allocator with two free pages and an empty page directory, for the witnesses.\<close>

definition two_pages :: kmem_state where
  "two_pages = \<lparr>held = [], mem = st32 0x80101000 0x80102000 (\<lambda>_. 0), freelist = 0x80101000,
     use_lock = True, kend = 0x80100000\<rparr>"

abbreviation (input) empty_dir :: uint where "empty_dir \<equiv> 0x80104000"

lemma ld32_zero [simp]: "ld32 (\<lambda>_. 0) a = 0"
  by (simp add: ld32_def)

lemma two_pages_ok: "kmem_ok two_pages [0x80101000, 0x80102000]"
  by (simp add: kmem_ok_def two_pages_def kpage_def pg_aligned_def V2P_def)

lemma two_pages_dir: "pde_of (mem two_pages) empty_dir va = 0" "pte_of (mem two_pages) empty_dir va = 0"
proof -
  have al: "pg_aligned (empty_dir :: uint)" by (simp add: pg_aligned_def)
  have "PGROUNDDOWN (empty_dir + 4 * PDX va) = empty_dir" using al by simp
  moreover have "PGROUNDDOWN 0x80101000 = 0x80101000" by (simp add: PGROUNDDOWN_def)
  moreover have "(empty_dir :: uint) \<noteq> 0x80101000" by simp
  ultimately have "empty_dir + 4 * PDX va \<noteq> 0x80101000" by metis
  then show pde: "pde_of (mem two_pages) empty_dir va = 0"
    using entry_mod_4 [OF al, of "PDX va"] by (simp add: pde_of_def two_pages_def)
  then show "pte_of (mem two_pages) empty_dir va = 0" by (simp add: pte_of_def)
qed

lemma two_pages_as: "as_ok (kend two_pages) (mem two_pages) empty_dir ({} \<union> set [0x80101000, 0x80102000])"
proof -
  have "ptabs (mem two_pages) empty_dir = {}" by (simp add: ptabs_def two_pages_dir)
  then have "pt_ok (kend two_pages) (mem two_pages) empty_dir ({} \<union> set [0x80101000, 0x80102000])"
    by (simp add: pt_ok_def two_pages_dir) (simp add: kpage_def pg_aligned_def V2P_def two_pages_def)
  moreover have "frames_ok (kend two_pages) (mem two_pages) empty_dir ({} \<union> set [0x80101000, 0x80102000])"
    by (simp add: frames_ok_def two_pages_dir)
  ultimately show ?thesis by (simp add: as_ok_def) (simp add: two_pages_def)
qed

text \<open>
  C12: \<open>mappages\<close> on a range whose pages are not mapped yet either maps every page of the
  range, page by page to consecutive physical addresses with the given permissions
  (\<open>maps_to\<close> with the size of the whole range), or runs out of pages for a page table, returns
  -1, and has mapped a prefix of the range; it changes no other entry, takes pages from the
  free list only for new tables, and touches no memory but the directory and its tables.
\<close>

theorem mappages_correct:
  assumes "kmem_ok s vs" and "pt_ok (kend s) (mem s) d (W \<union> set vs)" and "W \<inter> set vs = {}"
    and "a = PGROUNDDOWN va" and "n = unat (PGROUNDDOWN (va + sz - 1) - a)"
    and "\<forall>x. unat (PGROUNDDOWN x - a) \<le> n \<longrightarrow> \<not> present (pte_of (mem s) d x)"
  shows "\<exists>r s' vs' k. mappages d va sz pa perm s = Inr (r, s') \<and> pt_grows d W s vs s' vs' \<and>
     maps_to d (mem s) (mem s') a pa perm k \<and>
     (r = 0 \<and> k = n + 4096 \<or> r = -1 \<and> vs' = [] \<and> k \<le> n)"
  using mappages_from_ok [OF assms(1-3) _ _ assms(6) [rule_format], unfolded assms(4,5)] assms(4,5)
  by (simp add: mappages_def)

theorem mappages_correct_witness:
  "\<exists>r s' vs' k. mappages empty_dir 0x1000 0x2000 0x3000 PTE_U two_pages = Inr (r, s') \<and>
     maps_to empty_dir (mem two_pages) (mem s') 0x1000 0x3000 PTE_U k \<and>
     (r = 0 \<and> k = 8192 \<or> r = -1 \<and> vs' = [] \<and> k \<le> 4096)"
  using mappages_correct [OF two_pages_ok as_okD(2) [OF two_pages_as] _ refl refl,
      of "0x1000" "0x2000" "0x3000" PTE_U]
  by (auto simp: two_pages_dir PGROUNDDOWN_def)



text \<open>
  C13: \<open>deallocuvm\<close> from \<open>oldsz\<close> (at most \<^verbatim>\<open>KERNBASE\<close>) down to \<open>newsz\<close> removes exactly the pages from
  \<open>PGROUNDUP(newsz)\<close> up to \<open>oldsz\<close> from the mapping, and puts their frames, each once, back on
  the free list (\<open>unmaps\<close>); the address space stays well formed. It always returns, also where
  page tables are missing.
\<close>

theorem deallocuvm_frees:
  assumes "kmem_ok s vs" and "as_ok (kend s) (mem s) d (W \<union> set vs)" and "W \<inter> set vs = {}"
    and "newsz < oldsz" and "oldsz \<le> KERNBASE"
  shows "\<exists>s' vs'. deallocuvm d oldsz newsz s = Inr (newsz, s') \<and> unmaps d W (PGROUNDUP newsz) oldsz s vs s' vs'"
  using assms by (rule deallocuvm_runs)

theorem deallocuvm_frees_witness:
  "\<exists>s' vs'. deallocuvm empty_dir KERNBASE 0 two_pages = Inr (0, s') \<and>
     unmaps empty_dir {} 0 KERNBASE two_pages [0x80101000, 0x80102000] s' vs'"
  using deallocuvm_frees [OF two_pages_ok two_pages_as, of 0 KERNBASE] by (simp add: PGROUNDUP_def)

end
