(* ===== verification/Sched.thy ===== *)
theory Sched
  imports Complex_Main Addrspace
begin

text \<open>
  The process table and the fair scheduler of \<open>proc.c\<close>: virtual run time and weights,
  \<open>allocproc\<close>, the choice made by \<open>scheduler\<close>, \<open>sched\<close>, \<open>yield\<close>, \<open>sleep\<close> and \<open>wakeup\<close>, \<open>kill\<close>, and
  the nice system calls. Computations that the source does in \<open>double\<close> are done with exact
  rationals; a conversion to \<open>uint\<close> keeps the integer part modulo \<open>2\<^sup>32\<close>. A division by a zero
  weight is undefined in the source and is a \<open>Fault\<close> here.

  A pointer to a process is its index in the table. A call that gives up the CPU ends in
  \<open>Swtch\<close> with the state in which the scheduler goes on; the code that runs when the
  process is chosen again is a definition of its own (\<open>yield_resume\<close>, \<open>sleep_resume\<close>).
\<close>

section \<open>State\<close>

datatype procstate = UNUSED | EMBRYO | SLEEPING | RUNNABLE | RUNNING | ZOMBIE

text \<open>Sleep channels: the addresses the source passes to \<open>sleep\<close> and \<open>wakeup\<close>.\<close>

datatype chan =
    ChNone | ChProc nat | ChTicks | ChLog | ChBuf nat | ChInode nat
  | ChPipeR uint | ChPipeW uint | ChInput

record proc =
  sz :: uint
  pgdir :: uint
  kstack :: uint
  state :: procstate
  pid :: int
  parent :: "nat option"
  tf :: uint
  ctxt :: uint
  chan :: chan
  killed :: bool
  ofile :: "nat option list"
  cwd :: "nat option"
  nice :: int
  p_name :: "uchar list"
  time_slice :: uint
  vruntime :: uint
  actual_runtime :: uint
  int_overflow :: int
  scheduled_time :: uint
  weight :: uint

text \<open>
  \<open>curproc\<close> is \<open>mycpu()->proc\<close> of the CPU that runs the code; \<open>ktrapret\<close> and \<open>kforkret\<close> are the
  addresses of the assembly entry points.
\<close>

record proc_state = vm_state +
  ptable :: "proc list"
  nextpid :: int
  initproc :: "nat option"
  curproc :: "nat option"
  ticks :: uint
  ktrapret :: uint
  kforkret :: uint

type_synonym ('a, 'b) pres = "('a proc_state_scheme, 'b) kres"

definition nice_to_weight :: "int list" where
  "nice_to_weight =
     [88818, 71054, 56843, 45475, 36380,
      29104, 23283, 18626, 14901, 11921,
      9537, 7629, 6104, 4883, 3906,
      3125, 2500, 2000, 1600, 1280,
      1024, 819, 655, 524, 419,
      336, 268, 214, 172, 137,
      110, 88, 70, 56, 45,
      36, 29, 23, 18, 15]"

definition weight_of :: "int \<Rightarrow> uint" where
  "weight_of n = of_int (nice_to_weight ! nat n)"

abbreviation (input) pr :: "'a proc_state_scheme \<Rightarrow> nat \<Rightarrow> proc" where
  "pr s i \<equiv> ptable s ! i"

definition upd_proc :: "nat \<Rightarrow> (proc \<Rightarrow> proc) \<Rightarrow> 'a proc_state_scheme \<Rightarrow> 'a proc_state_scheme" where
  "upd_proc i f s = s\<lparr>ptable := (ptable s)[i := f (ptable s ! i)]\<rparr>"

text \<open>The process the CPU runs; dereferencing the result of \<open>myproc()\<close> when it is null is a fault.\<close>

definition myp :: "'a proc_state_scheme \<Rightarrow> ('a, nat) pres" where
  "myp s = (case curproc s of Some i \<Rightarrow> Inr i | None \<Rightarrow> Inl (Fault ''myproc''))"

section \<open>Weights and virtual run time\<close>

definition totalweight :: "proc list \<Rightarrow> uint" where
  "totalweight ps = sum_list (map weight (filter (\<lambda>p. state p \<noteq> UNUSED) ps))"

definition ran :: "proc \<Rightarrow> rat" where
  "ran p = of_nat (unat (actual_runtime p - scheduled_time p))"

definition vruntimeupdate :: "proc \<Rightarrow> 's stop + proc" where
  "vruntimeupdate p =
     (if weight p = 0 then Inl (Fault ''vruntimeupdate'')
      else
        let v = of_nat (unat (vruntime p)); w = of_nat (unat (weight p))
        in if v + 1024 * (ran p / w) > 2147483647
           then Inr (p\<lparr>int_overflow := int_overflow p + 1,
                       vruntime := of_int \<lfloor>v + (1024 * ran p / w - 2147483647)\<rfloor>\<rparr>)
           else Inr (p\<lparr>vruntime := of_int \<lfloor>v + 1024 * (ran p / w)\<rfloor>\<rparr>))"

definition update_runtime :: "nat \<Rightarrow> 'a proc_state_scheme \<Rightarrow> ('a, 'a proc_state_scheme) pres" where
  "update_runtime i s = seq (vruntimeupdate (pr s i)) (\<lambda>p. Inr (upd_proc i (\<lambda>_. p) s))"

section \<open>Creating a process\<close>

text \<open>
  \<open>allocproc\<close>: the trap frame is 76 bytes (19 words), the context 20 bytes with \<open>eip\<close> at
  offset 16.
\<close>

definition proc_found :: "int \<Rightarrow> proc \<Rightarrow> proc" where
  "proc_found n p = p\<lparr>state := EMBRYO, pid := n, nice := 20, weight := weight_of 20,
     actual_runtime := 0, vruntime := 0, scheduled_time := 0, time_slice := 0, int_overflow := 0\<rparr>"

definition alloc_kstack :: "nat \<Rightarrow> 'a proc_state_scheme \<Rightarrow> ('a, nat option \<times> 'a proc_state_scheme) pres" where
  "alloc_kstack i s =
     seq (kalloc s) (\<lambda>(k, s).
     let s = upd_proc i (\<lambda>p. p\<lparr>kstack := k\<rparr>) s
     in if k = 0 then Inr (None, upd_proc i (\<lambda>p. p\<lparr>state := UNUSED\<rparr>) s)
        else
          let sp = k + KSTACKSIZE - 76;
              s = upd_proc i (\<lambda>p. p\<lparr>tf := sp\<rparr>) s;
              s = s\<lparr>mem := st32 (sp - 4) (ktrapret s) (mem s)\<rparr>;
              s = upd_proc i (\<lambda>p. p\<lparr>ctxt := sp - 24\<rparr>) s;
              s = s\<lparr>mem := memset (sp - 24) 0 20 (mem s)\<rparr>;
              s = s\<lparr>mem := st32 (sp - 24 + 16) (kforkret s) (mem s)\<rparr>
          in Inr (Some i, s))"

definition allocproc :: "'a proc_state_scheme \<Rightarrow> ('a, nat option \<times> 'a proc_state_scheme) pres" where
  "allocproc s =
     seq (lock L_ptable s) (\<lambda>s.
     case scan (\<lambda>p. state p = UNUSED) (ptable s) of
       None \<Rightarrow> seq (unlock L_ptable s) (\<lambda>s. Inr (None, s))
     | Some i \<Rightarrow>
         let s = upd_proc i (proc_found (nextpid s)) s;
             s = s\<lparr>nextpid := nextpid s + 1\<rparr>
         in seq (unlock L_ptable s) (\<lambda>s. alloc_kstack i s))"

text \<open>\<open>switchuvm\<close>: the task-state segment is hardware state; \<open>cr3\<close> is what later code depends on.\<close>

definition switchuvm :: "nat option \<Rightarrow> 'a proc_state_scheme \<Rightarrow> ('a, 'a proc_state_scheme) pres" where
  "switchuvm p s =
     (case p of
        None \<Rightarrow> Inl (Panic ''switchuvm: no process'')
      | Some i \<Rightarrow>
          if kstack (pr s i) = 0 then Inl (Panic ''switchuvm: no kstack'')
          else if pgdir (pr s i) = 0 then Inl (Panic ''switchuvm: no pgdir'')
          else Inr (s\<lparr>cr3 := V2P (pgdir (pr s i))\<rparr>))"

section \<open>The scheduler\<close>

definition runs_before :: "proc \<Rightarrow> proc \<Rightarrow> bool" where
  "runs_before p q \<longleftrightarrow>
     int_overflow p < int_overflow q \<or> int_overflow p = int_overflow q \<and> vruntime p < vruntime q"

text \<open>The inner loop: the shortest job so far, over the table entries from \<open>i\<close> on.\<close>

fun shortest_from :: "proc list \<Rightarrow> nat \<Rightarrow> proc list \<Rightarrow> nat \<Rightarrow> nat" where
  "shortest_from t i [] best = best"
| "shortest_from t i (p # ps) best =
     shortest_from t (Suc i) ps
       (if state p = RUNNABLE \<and> runs_before p (t ! best) then i else best)"

definition shortestjob :: "proc list \<Rightarrow> nat option" where
  "shortestjob t =
     (case scan (\<lambda>p. state p = RUNNABLE) t of
        None \<Rightarrow> None
      | Some i \<Rightarrow> Some (shortest_from t 0 t i))"

text \<open>
  One turn of the \<open>for(;;)\<close> loop of \<open>scheduler\<close>. The inner loop reuses \<open>p\<close>, so at most one
  process is run per turn. With a process to run, control is passed to it by \<open>swtch\<close>, still
  holding \<open>ptable.lock\<close>; \<open>scheduler_back\<close> is the code after \<open>swtch\<close>.
\<close>

definition scheduler_turn :: "'a proc_state_scheme \<Rightarrow> ('a, nat option \<times> 'a proc_state_scheme) pres" where
  "scheduler_turn s =
     seq (lock L_ptable s) (\<lambda>s.
     let total = totalweight (ptable s)
     in case shortestjob (ptable s) of
          None \<Rightarrow> seq (unlock L_ptable s) (\<lambda>s. Inr (None, s))
        | Some j \<Rightarrow>
            if total = 0 then Inl (Fault ''scheduler'')
            else
              let s = upd_proc j (\<lambda>p. p\<lparr>time_slice :=
                    1000 * of_int \<lfloor>of_nat (unat (weight p)) / of_nat (unat total) + (1/2 :: rat)\<rfloor> * 10\<rparr>) s;
                  s = upd_proc j (\<lambda>p. p\<lparr>scheduled_time := actual_runtime p\<rparr>) s;
                  s = s\<lparr>curproc := Some j\<rparr>
              in seq (switchuvm (Some j) s) (\<lambda>s.
                 Inr (Some j, upd_proc j (\<lambda>p. p\<lparr>state := RUNNING\<rparr>) s)))"

definition scheduler_back :: "'a proc_state_scheme \<Rightarrow> ('a, 'a proc_state_scheme) pres" where
  "scheduler_back s =
     (let s = switchkvm s; s = s\<lparr>curproc := None\<rparr> in unlock L_ptable s)"

text \<open>
  \<open>sched\<close>: \<open>ncli\<close> is the number of locks held (the depth counts nothing else where \<open>sched\<close> is
  called), and interrupts are off while a lock is held.
\<close>

definition sched :: "'a proc_state_scheme \<Rightarrow> ('a, 'b) pres" where
  "sched s =
     (if L_ptable \<notin> set (held s) then Inl (Panic ''sched ptable.lock'')
      else if length (held s) \<noteq> 1 then Inl (Panic ''sched locks'')
      else seq (myp s) (\<lambda>i.
        if state (pr s i) = RUNNING then Inl (Panic ''sched running'')
        else if held s = [] then Inl (Panic ''sched interruptible'')
        else Inl (Swtch s)))"

definition yield :: "'a proc_state_scheme \<Rightarrow> ('a, 'b) pres" where
  "yield s =
     seq (lock L_ptable s) (\<lambda>s.
     seq (myp s) (\<lambda>i.
     seq (update_runtime i s) (\<lambda>s.
     sched (upd_proc i (\<lambda>p. p\<lparr>state := RUNNABLE\<rparr>) s))))"

definition yield_resume :: "'a proc_state_scheme \<Rightarrow> ('a, 'a proc_state_scheme) pres" where
  "yield_resume s = unlock L_ptable s"

definition sleep :: "chan \<Rightarrow> lockid option \<Rightarrow> 'a proc_state_scheme \<Rightarrow> ('a, 'b) pres" where
  "sleep c lk s =
     (case curproc s of
        None \<Rightarrow> Inl (Panic ''sleep'')
      | Some i \<Rightarrow>
          (case lk of
             None \<Rightarrow> Inl (Panic ''sleep without lk'')
           | Some l \<Rightarrow>
               seq (if l \<noteq> L_ptable then seq (lock L_ptable s) (\<lambda>s. unlock l s) else Inr s) (\<lambda>s.
               seq (update_runtime i s) (\<lambda>s.
               sched (upd_proc i (\<lambda>p. p\<lparr>chan := c, state := SLEEPING\<rparr>) s)))))"

definition sleep_resume :: "lockid \<Rightarrow> 'a proc_state_scheme \<Rightarrow> ('a, 'a proc_state_scheme) pres" where
  "sleep_resume l s =
     seq (myp s) (\<lambda>i.
     let s = upd_proc i (\<lambda>p. p\<lparr>chan := ChNone\<rparr>) s
     in if l \<noteq> L_ptable then seq (unlock L_ptable s) (\<lambda>s. lock l s) else Inr s)"

text \<open>
  \<open>wakeup1\<close>. The first loop leaves the last process that is not RUNNABLE in \<open>shortest\<close>, or
  null when there is none; the second loop dereferences it at each RUNNABLE process.
\<close>

fun last_not_runnable :: "nat \<Rightarrow> proc list \<Rightarrow> nat option \<Rightarrow> nat option" where
  "last_not_runnable i [] r = r"
| "last_not_runnable i (p # ps) r =
     last_not_runnable (Suc i) ps (if state p = RUNNABLE then r else Some i)"

definition wakeup_shortest :: "proc list \<Rightarrow> 's stop + nat option" where
  "wakeup_shortest t =
     (case last_not_runnable 0 t None of
        None \<Rightarrow> if \<exists>p \<in> set t. state p = RUNNABLE then Inl (Fault ''wakeup1'') else Inr None
      | Some i \<Rightarrow> Inr (Some (shortest_from t 0 t i)))"

definition wake_one :: "nat option \<Rightarrow> nat \<Rightarrow> proc list \<Rightarrow> 's stop + proc list" where
  "wake_one sh i t =
     (case sh of
        None \<Rightarrow> Inl (Fault ''wakeup1'')
      | Some j \<Rightarrow>
          let t = t[i := (t ! i)\<lparr>state := RUNNABLE\<rparr>]; q = t ! j
          in if int_overflow q \<noteq> 0 \<or> vruntime q \<noteq> 0 then
               if weight (t ! i) = 0 then Inl (Fault ''wakeup1'')
               else
                 let t = t[i := (t ! i)\<lparr>vruntime :=
                       (vruntime q - of_int \<lfloor>1024 / of_nat (unat (weight (t ! i))) + (1/2 :: rat)\<rfloor>) * 1000\<rparr>]
                 in Inr (t[i := (t ! i)\<lparr>int_overflow := int_overflow (t ! j)\<rparr>])
             else
               let t = t[i := (t ! i)\<lparr>vruntime := vruntime q\<rparr>]
               in Inr (t[i := (t ! i)\<lparr>int_overflow := 0\<rparr>]))"

fun wake_from :: "chan \<Rightarrow> nat option \<Rightarrow> nat list \<Rightarrow> proc list \<Rightarrow> 's stop + proc list" where
  "wake_from c sh [] t = Inr t"
| "wake_from c sh (i # is) t =
     (if state (t ! i) = SLEEPING \<and> chan (t ! i) = c
      then seq (wake_one sh i t) (\<lambda>t. wake_from c sh is t)
      else wake_from c sh is t)"

definition wakeup1 :: "chan \<Rightarrow> 'a proc_state_scheme \<Rightarrow> ('a, 'a proc_state_scheme) pres" where
  "wakeup1 c s =
     seq (wakeup_shortest (ptable s)) (\<lambda>sh.
     seq (wake_from c sh [0..<length (ptable s)] (ptable s)) (\<lambda>t.
     Inr (s\<lparr>ptable := t\<rparr>)))"

definition wakeup :: "chan \<Rightarrow> 'a proc_state_scheme \<Rightarrow> ('a, 'a proc_state_scheme) pres" where
  "wakeup c s = seq (lock L_ptable s) (\<lambda>s. seq (wakeup1 c s) (\<lambda>s. unlock L_ptable s))"

section \<open>kill and the nice values\<close>

definition kill :: "int \<Rightarrow> 'a proc_state_scheme \<Rightarrow> ('a, int \<times> 'a proc_state_scheme) pres" where
  "kill n s =
     seq (lock L_ptable s) (\<lambda>s.
     case scan (\<lambda>p. pid p = n) (ptable s) of
       Some i \<Rightarrow>
         let s = upd_proc i (\<lambda>p. p\<lparr>killed := True\<rparr>) s
         in seq (if state (pr s i) = SLEEPING
                 then update_runtime i (upd_proc i (\<lambda>p. p\<lparr>state := RUNNABLE\<rparr>) s)
                 else Inr s) (\<lambda>s.
            seq (unlock L_ptable s) (\<lambda>s. Inr (0, s)))
     | None \<Rightarrow> seq (unlock L_ptable s) (\<lambda>s. Inr (-1, s)))"

definition getnice :: "int \<Rightarrow> 'a proc_state_scheme \<Rightarrow> ('a, int \<times> 'a proc_state_scheme) pres" where
  "getnice n s =
     seq (lock L_ptable s) (\<lambda>s.
     case scan (\<lambda>p. pid p = n) (ptable s) of
       Some i \<Rightarrow> let v = nice (pr s i) in seq (unlock L_ptable s) (\<lambda>s. Inr (v, s))
     | None \<Rightarrow> seq (unlock L_ptable s) (\<lambda>s. Inr (-1, s)))"

definition setnice :: "int \<Rightarrow> int \<Rightarrow> 'a proc_state_scheme \<Rightarrow> ('a, int \<times> 'a proc_state_scheme) pres" where
  "setnice n v s =
     (if v > 39 \<or> v < 0 then Inr (-1, s)
      else seq (lock L_ptable s) (\<lambda>s.
        let s = (case scan (\<lambda>p. pid p = n) (ptable s) of
                   Some i \<Rightarrow> upd_proc i (\<lambda>p. p\<lparr>nice := v, weight := weight_of v\<rparr>) s
                 | None \<Rightarrow> s)
        in seq (unlock L_ptable s) (\<lambda>s. Inr (0, s))))"

section \<open>The choice of the scheduler\<close>

lemma runs_before_irrefl [simp]: "\<not> runs_before p p"
  by (simp add: runs_before_def)

lemma runs_before_trans: "runs_before p q \<Longrightarrow> runs_before q r \<Longrightarrow> runs_before p r"
  by (auto simp: runs_before_def)

lemma runs_before_le_trans: "\<not> runs_before q p \<Longrightarrow> runs_before q r \<Longrightarrow> runs_before p r"
  by (auto simp: runs_before_def)

lemma shortest_from_props:
  assumes "qs = drop i t" and "i \<le> length t" and "b < length t"
    and "\<forall>k < i. state (t ! k) = RUNNABLE \<longrightarrow> \<not> runs_before (t ! k) (t ! b)"
  shows "shortest_from t i qs b < length t \<and>
    (state (t ! b) = RUNNABLE \<longrightarrow> state (t ! shortest_from t i qs b) = RUNNABLE) \<and>
    (\<forall>k < length t. state (t ! k) = RUNNABLE \<longrightarrow> \<not> runs_before (t ! k) (t ! shortest_from t i qs b))"
  using assms
proof (induction qs arbitrary: i b)
  case Nil
  then show ?case by auto
next
  case (Cons p qs)
  then have i: "i < length t" "p = t ! i" "qs = drop (Suc i) t"
    by (metis drop_eq_Nil list.distinct(1) not_le, metis nth_via_drop, metis drop_Suc list.sel(3) tl_drop)
  show ?case
  proof (cases "state p = RUNNABLE \<and> runs_before p (t ! b)")
    case True
    have "shortest_from t (Suc i) qs i < length t \<and>
        (state (t ! i) = RUNNABLE \<longrightarrow> state (t ! shortest_from t (Suc i) qs i) = RUNNABLE) \<and>
        (\<forall>k < length t. state (t ! k) = RUNNABLE \<longrightarrow> \<not> runs_before (t ! k) (t ! shortest_from t (Suc i) qs i))"
      using Cons.prems(4) i True
      by (intro Cons.IH) (auto simp: less_Suc_eq dest: runs_before_trans)
    with True i show ?thesis by simp
  next
    case False
    have "shortest_from t (Suc i) qs b < length t \<and>
        (state (t ! b) = RUNNABLE \<longrightarrow> state (t ! shortest_from t (Suc i) qs b) = RUNNABLE) \<and>
        (\<forall>k < length t. state (t ! k) = RUNNABLE \<longrightarrow> \<not> runs_before (t ! k) (t ! shortest_from t (Suc i) qs b))"
      using Cons.prems i False by (intro Cons.IH) (auto simp: less_Suc_eq)
    with False show ?thesis by auto
  qed
qed

lemma shortestjob_spec:
  "case shortestjob t of
     None \<Rightarrow> \<forall>p \<in> set t. state p \<noteq> RUNNABLE
   | Some j \<Rightarrow> j < length t \<and> state (t ! j) = RUNNABLE \<and>
       (\<forall>k < length t. state (t ! k) = RUNNABLE \<longrightarrow> \<not> runs_before (t ! k) (t ! j))"
proof (cases "scan (\<lambda>p. state p = RUNNABLE) t")
  case None
  then have "\<forall>p \<in> set t. state p \<noteq> RUNNABLE" by (simp add: scan_None_iff)
  with None show ?thesis by (simp add: shortestjob_def)
next
  case (Some i)
  then have "i < length t" "state (t ! i) = RUNNABLE" by (auto dest: scan_SomeD)
  with shortest_from_props [of t 0 t i] Some show ?thesis by (simp add: shortestjob_def)
qed

section \<open>Virtual run time\<close>

text \<open>The virtual time a process has used, with the overflows counted.\<close>

definition vtime :: "proc \<Rightarrow> int" where
  "vtime p = int_overflow p * 2147483647 + int (unat (vruntime p))"

lemma floor_share:
  fixes v r w :: nat
  assumes "0 < w"
  shows "\<lfloor>of_nat v + 1024 * (of_nat r / of_nat w) :: rat\<rfloor> = int v + 1024 * int r div int w"
    and "\<lfloor>of_nat v + (1024 * of_nat r / of_nat w - 2147483647) :: rat\<rfloor> = int v + 1024 * int r div int w - 2147483647"
proof -
  have f: "\<lfloor>of_int (1024 * int r) / of_int (int w) :: rat\<rfloor> = 1024 * int r div int w"
    by (rule floor_divide_of_int_eq)
  have "of_nat v + 1024 * (of_nat r / of_nat w) = of_int (1024 * int r) / of_int (int w) + (of_int (int v) :: rat)"
    by simp
  then show "\<lfloor>of_nat v + 1024 * (of_nat r / of_nat w) :: rat\<rfloor> = int v + 1024 * int r div int w"
    using f by (simp only: floor_add_int [symmetric])
  have "of_nat v + (1024 * of_nat r / of_nat w - 2147483647) =
      of_int (1024 * int r) / (of_int (int w)) + (of_int (int v - 2147483647) :: rat)"
    by simp
  then show "\<lfloor>of_nat v + (1024 * of_nat r / of_nat w - 2147483647) :: rat\<rfloor> =
      int v + 1024 * int r div int w - 2147483647"
    using f by (simp only: floor_add_int [symmetric])
qed

lemma unat_of_int_word:
  assumes "0 \<le> z" and "z < 4294967296"
  shows "int (unat (of_int z :: uint)) = z"
  using assms by (simp add: unsigned_of_int take_bit_int_eq_self)

lemma vruntimeupdate_exact:
  assumes w: "weight p \<noteq> 0"
    and r: "r = 1024 * int (unat (actual_runtime p - scheduled_time p)) div int (unat (weight p))"
    and fits: "int (unat (vruntime p)) + r < 2147483647 + 4294967296"
  shows "\<exists>p'. vruntimeupdate p = Inr p' \<and> vtime p' = vtime p + r \<and>
    p' = p\<lparr>int_overflow := int_overflow p', vruntime := vruntime p'\<rparr>"
proof -
  have w0: "0 < unat (weight p)" using w by (simp add: unat_gt_0)
  have "r = int (1024 * unat (actual_runtime p - scheduled_time p) div unat (weight p))"
    unfolding r zdiv_int of_nat_mult of_nat_numeral ..
  then have r0: "0 \<le> r" by simp
  define x :: rat where "x = of_nat (unat (vruntime p)) + 1024 * (ran p / of_nat (unat (weight p)))"
  have fl: "\<lfloor>x\<rfloor> = int (unat (vruntime p)) + r"
    using floor_share(1) [OF w0, of "unat (vruntime p)" "unat (actual_runtime p - scheduled_time p)"]
    unfolding x_def ran_def r .
  have fl2: "\<lfloor>of_nat (unat (vruntime p)) + (1024 * ran p / of_nat (unat (weight p)) - 2147483647)\<rfloor> =
      int (unat (vruntime p)) + r - 2147483647"
    using floor_share(2) [OF w0, of "unat (vruntime p)" "unat (actual_runtime p - scheduled_time p)"]
    unfolding ran_def r .
  show ?thesis
  proof (cases "x > 2147483647")
    case True
    then have "2147483647 \<le> \<lfloor>x\<rfloor>" by (simp add: le_floor_iff)
    define p' where "p' = p\<lparr>int_overflow := int_overflow p + 1,
      vruntime := of_int (int (unat (vruntime p)) + r - 2147483647)\<rparr>"
    have vp: "vruntime p' = of_int (int (unat (vruntime p)) + r - 2147483647)" unfolding p'_def by simp
    have "int (unat (vruntime p')) = int (unat (vruntime p)) + r - 2147483647"
      unfolding vp using \<open>2147483647 \<le> \<lfloor>x\<rfloor>\<close> fl fits by (intro unat_of_int_word) auto
    then have "vtime p' = vtime p + r" unfolding vtime_def by (simp add: p'_def)
    moreover have "vruntimeupdate p = Inr p'" unfolding p'_def
      unfolding vruntimeupdate_def Let_def using True w unfolding x_def by (simp only: fl2 if_True if_False)
    moreover have "p' = p\<lparr>int_overflow := int_overflow p', vruntime := vruntime p'\<rparr>" by (simp add: p'_def)
    ultimately show ?thesis by blast
  next
    case False
    then have "\<lfloor>x\<rfloor> \<le> 2147483647" by (simp add: floor_le_iff)
    define p' where "p' = p\<lparr>vruntime := of_int (int (unat (vruntime p)) + r)\<rparr>"
    have vp: "vruntime p' = of_int (int (unat (vruntime p)) + r)" unfolding p'_def by simp
    have "int (unat (vruntime p')) = int (unat (vruntime p)) + r"
      unfolding vp using \<open>\<lfloor>x\<rfloor> \<le> 2147483647\<close> fl r0 by (intro unat_of_int_word) auto
    then have "vtime p' = vtime p + r" unfolding vtime_def by (simp add: p'_def)
    moreover have "vruntimeupdate p = Inr p'" unfolding p'_def
      unfolding vruntimeupdate_def Let_def using False w fl unfolding x_def by (simp only: if_True if_False)
    moreover have "p' = p\<lparr>int_overflow := int_overflow p', vruntime := vruntime p'\<rparr>" by (simp add: p'_def)
    ultimately show ?thesis by blast
  qed
qed

lemma vruntimeupdate_frame:
  assumes "vruntimeupdate p = Inr p'"
  shows "\<exists>v ov. p' = p\<lparr>int_overflow := ov, vruntime := v\<rparr>"
proof -
  have "p' = p\<lparr>int_overflow := int_overflow p', vruntime := vruntime p'\<rparr>"
    using assms by (auto simp: vruntimeupdate_def Let_def split: if_splits)
  then show ?thesis by blast
qed

section \<open>Waking processes\<close>

definition sleeps_on :: "chan \<Rightarrow> proc \<Rightarrow> bool" where
  "sleeps_on c p \<longleftrightarrow> state p = SLEEPING \<and> chan p = c"

definition woken :: "proc \<Rightarrow> proc \<Rightarrow> bool" where
  "woken p q \<longleftrightarrow> q = p\<lparr>state := RUNNABLE, vruntime := vruntime q, int_overflow := int_overflow q\<rparr>"

lemma wokenI: "q = p\<lparr>state := RUNNABLE, vruntime := v, int_overflow := ov\<rparr> \<Longrightarrow> woken p q"
  by (simp add: woken_def)

lemma wake_one_effect:
  assumes "wake_one sh i t = Inr t'" and "i < length t"
  shows "length t' = length t" "woken (t ! i) (t' ! i)" "k \<noteq> i \<Longrightarrow> t' ! k = t ! k"
proof -
  obtain q where q: "t' = t[i := q]" "woken (t ! i) q"
    using assms by (auto simp: wake_one_def Let_def split: option.splits if_splits intro!: wokenI that)
  then show "length t' = length t" "woken (t ! i) (t' ! i)" "k \<noteq> i \<Longrightarrow> t' ! k = t ! k"
    using assms(2) by auto
qed

lemma wake_one_total:
  assumes "sh = Some j" and "weight (t ! i) \<noteq> 0" and "i < length t"
  shows "\<exists>t'. wake_one sh i t = Inr t'"
  using assms by (auto simp: wake_one_def Let_def)

lemma woken_fields:
  assumes "woken p q"
  shows "state q = RUNNABLE" "pid q = pid p" "nice q = nice p" "weight q = weight p"
proof -
  have q: "q = p\<lparr>state := RUNNABLE, vruntime := vruntime q, int_overflow := int_overflow q\<rparr>"
    using assms by (simp only: woken_def)
  show "state q = RUNNABLE" by (subst q) simp
  show "pid q = pid p" by (subst q) simp
  show "nice q = nice p" by (subst q) simp
  show "weight q = weight p" by (subst q) simp
qed

lemma wake_from_effect:
  assumes "(wake_from c sh is t :: 's stop + proc list) = Inr t'" and "distinct is" and "\<forall>i \<in> set is. i < length t"
  shows "length t' = length t \<and>
    (\<forall>k < length t. if k \<in> set is \<and> sleeps_on c (t ! k) then woken (t ! k) (t' ! k) else t' ! k = t ! k)"
  using assms
proof (induction "is" arbitrary: t)
  case Nil
  then show ?case by simp
next
  case (Cons i "is")
  have i: "i < length t" "i \<notin> set is" using Cons.prems by auto
  show ?case
  proof (cases "sleeps_on c (t ! i)")
    case True
    then obtain t1 where t1: "(wake_one sh i t :: 's stop + proc list) = Inr t1"
        "(wake_from c sh is t1 :: 's stop + proc list) = Inr t'"
      using Cons.prems(1) by (auto simp: sleeps_on_def seq_eq_Inr_iff)
    note e = wake_one_effect [OF t1(1) i(1)]
    have ih: "length t' = length t1 \<and>
      (\<forall>k < length t1. if k \<in> set is \<and> sleeps_on c (t1 ! k) then woken (t1 ! k) (t' ! k) else t' ! k = t1 ! k)"
      using Cons.prems(2,3) e(1) by (intro Cons.IH [OF t1(2)]) auto
    show ?thesis
    proof (intro conjI allI impI)
      show "length t' = length t" using ih e(1) by simp
      fix k
      assume k: "k < length t"
      show "if k \<in> set (i # is) \<and> sleeps_on c (t ! k) then woken (t ! k) (t' ! k) else t' ! k = t ! k"
      proof (cases "k = i")
        case True
        with ih e(1) k i(2) have "t' ! k = t1 ! k" by auto
        with True e(2) \<open>sleeps_on c (t ! i)\<close> show ?thesis by simp
      next
        case False
        with ih e(1) k e(3) [OF False] show ?thesis by auto
      qed
    qed
  next
    case False
    then have "(wake_from c sh is t :: 's stop + proc list) = Inr t'" using Cons.prems(1) by (auto simp: sleeps_on_def)
    then have "length t' = length t \<and>
      (\<forall>k < length t. if k \<in> set is \<and> sleeps_on c (t ! k) then woken (t ! k) (t' ! k) else t' ! k = t ! k)"
      using Cons.prems(2,3) by (intro Cons.IH) auto
    with False show ?thesis by auto
  qed
qed

lemma wake_from_total:
  fixes t :: "proc list"
  assumes "\<forall>i \<in> set is. i < length t \<and> (sleeps_on c (t ! i) \<longrightarrow> weight (t ! i) \<noteq> 0)" and "distinct is"
  shows "\<exists>t'. (wake_from c (Some j) is t :: 's stop + proc list) = Inr t'"
  using assms
proof (induction "is" arbitrary: t)
  case Nil
  then show ?case by simp
next
  case (Cons i "is")
  show ?case
  proof (cases "sleeps_on c (t ! i)")
    case True
    then obtain t1 where t1: "(wake_one (Some j) i t :: 's stop + proc list) = Inr t1"
      using wake_one_total [of "Some j" j t i] Cons.prems(1) by auto
    have "i < length t" using Cons.prems(1) by simp
    note e = wake_one_effect [OF t1 this]
    have "\<exists>t'. (wake_from c (Some j) is t1 :: 's stop + proc list) = Inr t'"
    proof (rule Cons.IH)
      show "\<forall>k \<in> set is. k < length t1 \<and> (sleeps_on c (t1 ! k) \<longrightarrow> weight (t1 ! k) \<noteq> 0)"
      proof
        fix k
        assume "k \<in> set is"
        moreover from this have "k \<noteq> i" using Cons.prems(2) by auto
        ultimately show "k < length t1 \<and> (sleeps_on c (t1 ! k) \<longrightarrow> weight (t1 ! k) \<noteq> 0)"
          using e(1) e(3) [of k] Cons.prems(1) by simp
      qed
    qed (use Cons.prems(2) in simp)
    with True t1 show ?thesis by (auto simp: sleeps_on_def)
  next
    case False
    with Cons show ?thesis by (auto simp: sleeps_on_def)
  qed
qed

lemma last_not_runnable_Some:
  "last_not_runnable i qs r = None \<longleftrightarrow> r = None \<and> (\<forall>p \<in> set qs. state p = RUNNABLE)"
  by (induction i qs r rule: last_not_runnable.induct) auto

lemma wakeup1_effect:
  fixes s :: "'a proc_state_scheme"
  assumes "wakeup1 c s = Inr s'"
  shows "\<exists>t. s' = s\<lparr>ptable := t\<rparr> \<and> length t = length (ptable s) \<and>
    (\<forall>k < length t. if sleeps_on c (pr s k) then woken (pr s k) (t ! k) else t ! k = pr s k)"
proof -
  obtain sh t where "(wake_from c sh [0..<length (ptable s)] (ptable s) :: 'a proc_state_scheme stop + proc list) = Inr t"
      "s' = s\<lparr>ptable := t\<rparr>"
    using assms by (auto simp: wakeup1_def seq_eq_Inr_iff)
  with wake_from_effect [OF this(1)] show ?thesis by auto
qed

lemma wakeup1_total:
  fixes s :: "'a proc_state_scheme"
  assumes "\<exists>p \<in> set (ptable s). state p \<noteq> RUNNABLE"
    and "\<forall>p \<in> set (ptable s). sleeps_on c p \<longrightarrow> weight p \<noteq> 0"
  shows "\<exists>s'. wakeup1 c s = Inr s'"
proof -
  obtain i where i: "last_not_runnable 0 (ptable s) None = Some i"
    using assms(1) last_not_runnable_Some [of 0 "ptable s" None] by (cases "last_not_runnable 0 (ptable s) None") auto
  have "\<exists>t'. (wake_from c (Some (shortest_from (ptable s) 0 (ptable s) i)) [0..<length (ptable s)] (ptable s)
      :: 'a proc_state_scheme stop + proc list) = Inr t'"
    using assms(2) by (intro wake_from_total) auto
  with i show ?thesis by (auto simp: wakeup1_def wakeup_shortest_def)
qed

section \<open>Well-formed process tables\<close>

definition proc_ok :: "int \<Rightarrow> proc \<Rightarrow> bool" where
  "proc_ok n p \<longleftrightarrow> state p \<noteq> UNUSED \<longrightarrow>
     0 < pid p \<and> pid p < n \<and> 0 \<le> nice p \<and> nice p \<le> 39 \<and> weight p = weight_of (nice p)"

definition ptable_ok :: "'a proc_state_scheme \<Rightarrow> bool" where
  "ptable_ok s \<longleftrightarrow> length (ptable s) = NPROC \<and> 0 < nextpid s \<and>
     (\<forall>i < NPROC. proc_ok (nextpid s) (pr s i)) \<and>
     (\<forall>i < NPROC. \<forall>j < NPROC. state (pr s i) \<noteq> UNUSED \<longrightarrow> state (pr s j) \<noteq> UNUSED \<longrightarrow>
        pid (pr s i) = pid (pr s j) \<longrightarrow> i = j)"

lemma weight_of_positive:
  assumes "0 \<le> n" and "n \<le> 39"
  shows "weight_of n \<noteq> 0" "unat (weight_of n) \<le> 88818"
proof -
  have "\<forall>k < 40. 0 < nice_to_weight ! k \<and> nice_to_weight ! k \<le> 88818"
    by (simp add: nice_to_weight_def All_less_Suc numeral_eq_Suc)
  moreover have "nat n < 40" using assms by linarith
  ultimately have w: "0 < nice_to_weight ! nat n" "nice_to_weight ! nat n \<le> 88818" by blast+
  then have u: "int (unat (weight_of n)) = nice_to_weight ! nat n"
    unfolding weight_of_def by (intro unat_of_int_word) auto
  show "unat (weight_of n) \<le> 88818" using u w(2) by linarith
  show "weight_of n \<noteq> 0"
  proof
    assume "weight_of n = 0"
    with u w(1) show False by simp
  qed
qed

lemma proc_ok_weight: "proc_ok n p \<Longrightarrow> state p \<noteq> UNUSED \<Longrightarrow> weight p \<noteq> 0"
  using weight_of_positive(1) by (auto simp: proc_ok_def)

text \<open>Updates that leave identity, nice value and weight alone keep the table well formed.\<close>

definition same_id :: "proc \<Rightarrow> proc \<Rightarrow> bool" where
  "same_id p q \<longleftrightarrow> pid q = pid p \<and> nice q = nice p \<and> weight q = weight p \<and>
     (state p = UNUSED \<longrightarrow> state q = UNUSED)"

lemma same_id_refl [simp]: "same_id p p"
  by (simp add: same_id_def)

lemma ptable_ok_ids:
  assumes "ptable_ok s" and "length (ptable s') = length (ptable s)" and "nextpid s' = nextpid s"
    and "\<And>i. i < length (ptable s) \<Longrightarrow> pid (pr s' i) = pid (pr s i) \<and>
      (state (pr s i) = UNUSED \<longrightarrow> state (pr s' i) = UNUSED) \<and> proc_ok (nextpid s) (pr s' i)"
  shows "ptable_ok s'"
proof -
  have l: "length (ptable s) = NPROC" using assms(1) by (simp add: ptable_ok_def)
  have id: "pid (pr s' i) = pid (pr s i)" "proc_ok (nextpid s) (pr s' i)"
      "state (pr s' i) \<noteq> UNUSED \<Longrightarrow> state (pr s i) \<noteq> UNUSED" if "i < NPROC" for i
    using assms(4) [of i] that l by auto
  show ?thesis
    unfolding ptable_ok_def
  proof (intro conjI allI impI)
    show "length (ptable s') = NPROC" "0 < nextpid s'" using assms(1-3) by (auto simp: ptable_ok_def)
    show "proc_ok (nextpid s') (pr s' i)" if "i < NPROC" for i
      using id(2) [OF that] unfolding assms(3) .
    show "i = j" if "i < NPROC" "j < NPROC" "state (pr s' i) \<noteq> UNUSED" "state (pr s' j) \<noteq> UNUSED"
        "pid (pr s' i) = pid (pr s' j)" for i j
      using assms(1) id(1,3) [OF that(1)] id(1,3) [OF that(2)] that unfolding ptable_ok_def by simp
  qed
qed

lemma ptable_ok_same_id:
  assumes "ptable_ok s" and "length (ptable s') = length (ptable s)" and "nextpid s' = nextpid s"
    and "\<And>i. i < length (ptable s) \<Longrightarrow> same_id (pr s i) (pr s' i)"
  shows "ptable_ok s'"
  using assms(1-3)
proof (rule ptable_ok_ids)
  fix i
  assume i: "i < length (ptable s)"
  then have "proc_ok (nextpid s) (pr s i)" using assms(1) by (simp add: ptable_ok_def)
  then show "pid (pr s' i) = pid (pr s i) \<and> (state (pr s i) = UNUSED \<longrightarrow> state (pr s' i) = UNUSED) \<and>
      proc_ok (nextpid s) (pr s' i)"
    using assms(4) [OF i] unfolding same_id_def proc_ok_def by auto
qed

lemma upd_proc_simps [simp]:
  "length (ptable (upd_proc i f s)) = length (ptable s)" "nextpid (upd_proc i f s) = nextpid s"
  "curproc (upd_proc i f s) = curproc s" "held (upd_proc i f s) = held s" "initproc (upd_proc i f s) = initproc s"
  "ptable (upd_proc i f s) = (ptable s)[i := f (ptable s ! i)]" "mem (upd_proc i f s) = mem s"
  "freelist (upd_proc i f s) = freelist s" "use_lock (upd_proc i f s) = use_lock s" "kend (upd_proc i f s) = kend s"
  "cr3 (upd_proc i f s) = cr3 s" "kpgdir (upd_proc i f s) = kpgdir s" "kdata (upd_proc i f s) = kdata s"
  "ticks (upd_proc i f s) = ticks s" "ktrapret (upd_proc i f s) = ktrapret s" "kforkret (upd_proc i f s) = kforkret s"
  by (simp_all add: upd_proc_def)

lemma ptable_ok_upd:
  assumes "ptable_ok s" and "\<And>p. same_id p (f p)"
  shows "ptable_ok (upd_proc i f s)"
  using assms(1)
proof (rule ptable_ok_same_id)
  fix k
  assume "k < length (ptable s)"
  then show "same_id (pr s k) (pr (upd_proc i f s) k)"
    using assms(2) by (cases "k = i") auto
qed simp_all

lemma ptable_ok_cong:
  "ptable_ok s \<Longrightarrow> ptable s' = ptable s \<Longrightarrow> nextpid s' = nextpid s \<Longrightarrow> ptable_ok s'"
  by (simp add: ptable_ok_def)

lemma vruntimeupdate_same_id:
  assumes "vruntimeupdate p = Inr p'"
  shows "same_id p p'" "state p' = state p"
proof -
  obtain v ov where p': "p' = p\<lparr>int_overflow := ov, vruntime := v\<rparr>"
    using vruntimeupdate_frame [OF assms] by blast
  show "same_id p p'" "state p' = state p" by (simp_all add: p' same_id_def)
qed

lemma update_runtime_ok:
  assumes "ptable_ok s" and "update_runtime i s = Inr s'"
  shows "ptable_ok s'" "curproc s' = curproc s" "held s' = held s"
proof -
  obtain p where p: "(vruntimeupdate (pr s i) :: 'a proc_state_scheme stop + proc) = Inr p" "s' = upd_proc i (\<lambda>_. p) s"
    using assms(2) by (auto simp: update_runtime_def seq_eq_Inr_iff)
  show "curproc s' = curproc s" "held s' = held s" by (simp_all add: p(2))
  show "ptable_ok s'"
    using assms(1)
  proof (rule ptable_ok_same_id)
    fix k
    assume "k < length (ptable s)"
    then show "same_id (pr s k) (pr s' k)"
      using vruntimeupdate_same_id(1) [OF p(1)] by (cases "k = i") (auto simp: p(2))
  qed (simp_all add: p(2))
qed

lemma wakeup1_ok:
  assumes "ptable_ok s" and "wakeup1 c s = Inr s'"
  shows "ptable_ok s'"
proof -
  obtain t where t: "s' = s\<lparr>ptable := t\<rparr>" "length t = length (ptable s)"
      "\<forall>k < length t. if sleeps_on c (pr s k) then woken (pr s k) (t ! k) else t ! k = pr s k"
    using wakeup1_effect [OF assms(2)] by blast
  show ?thesis
    using assms(1)
  proof (rule ptable_ok_same_id)
    fix k
    assume "k < length (ptable s)"
    with t(2,3) have k: "if sleeps_on c (pr s k) then woken (pr s k) (t ! k) else t ! k = pr s k" by simp
    show "same_id (pr s k) (pr s' k)"
    proof (cases "sleeps_on c (pr s k)")
      case True
      with k have "woken (pr s k) (t ! k)" by simp
      from woken_fields [OF this] True show ?thesis
        by (simp add: t(1) same_id_def sleeps_on_def)
    qed (use k in \<open>simp add: t(1)\<close>)
  qed (simp_all add: t)
qed

lemma kalloc_frame:
  assumes "kalloc s = Inr (v, s')"
  shows "s' = s\<lparr>held := held s', freelist := freelist s'\<rparr>"
  using assms
  by (auto simp: kalloc_def kmem_lock_def kmem_unlock_def seq_eq_Inr_iff lock_Inr_iff unlock_Inr_iff Let_def
      split: if_splits)

lemma kalloc_ptable:
  assumes "kalloc s = Inr (v, s')"
  shows "ptable s' = ptable s" "nextpid s' = nextpid s" "curproc s' = curproc s" "mem s' = mem s"
    "ktrapret s' = ktrapret s" "kforkret s' = kforkret s" "initproc s' = initproc s"
  by (subst kalloc_frame [OF assms], simp)+

definition born :: "int \<Rightarrow> proc \<Rightarrow> bool" where
  "born n q \<longleftrightarrow> pid q = n \<and> nice q = 20 \<and> weight q = weight_of 20 \<and> vruntime q = 0 \<and>
     int_overflow q = 0 \<and> actual_runtime q = 0 \<and> scheduled_time q = 0 \<and> time_slice q = 0"

definition on_kstack :: "proc \<Rightarrow> proc \<Rightarrow> bool" where
  "on_kstack p q \<longleftrightarrow> pid q = pid p \<and> nice q = nice p \<and> weight q = weight p \<and> vruntime q = vruntime p \<and>
     int_overflow q = int_overflow p \<and> actual_runtime q = actual_runtime p \<and>
     scheduled_time q = scheduled_time p \<and> time_slice q = time_slice p"

lemma alloc_kstack_effect:
  assumes "alloc_kstack i s = Inr (r, s')" and "i < length (ptable s)"
  shows "\<exists>q. ptable s' = (ptable s)[i := q] \<and> nextpid s' = nextpid s \<and> on_kstack (pr s i) q \<and>
    (r = None \<and> state q = UNUSED \<or> r = Some i \<and> state q = state (pr s i) \<and> kstack q \<noteq> 0)"
proof -
  obtain k s2 where k: "kalloc s = Inr (k, s2)" using assms(1) by (auto simp: alloc_kstack_def seq_eq_Inr_iff)
  note kt = kalloc_ptable [OF k]
  show ?thesis
  proof (cases "k = 0")
    case True
    then show ?thesis
      using assms k kt
      by (intro exI [of _ "(pr s i)\<lparr>kstack := k, state := UNUSED\<rparr>"])
        (auto simp: alloc_kstack_def on_kstack_def)
  next
    case False
    then show ?thesis
      using assms k kt
      by (intro exI [of _ "(pr s i)\<lparr>kstack := k, tf := k + KSTACKSIZE - 76, ctxt := k + KSTACKSIZE - 76 - 24\<rparr>"])
        (auto simp: alloc_kstack_def on_kstack_def Let_def)
  qed
qed

lemma allocproc_table:
  assumes "allocproc s = Inr (r, s')"
  shows "(r = None \<and> ptable s' = ptable s \<and> nextpid s' = nextpid s \<and> (\<forall>p \<in> set (ptable s). state p \<noteq> UNUSED)) \<or>
    (\<exists>i q. i < length (ptable s) \<and> state (pr s i) = UNUSED \<and> ptable s' = (ptable s)[i := q] \<and>
       nextpid s' = nextpid s + 1 \<and> born (nextpid s) q \<and>
       (r = None \<and> state q = UNUSED \<or> r = Some i \<and> state q = EMBRYO \<and> kstack q \<noteq> 0))"
proof (cases "scan (\<lambda>p. state p = UNUSED) (ptable s)")
  case None
  with assms show ?thesis
    by (auto simp: allocproc_def seq_eq_Inr_iff lock_Inr_iff unlock_Inr_iff scan_None_iff)
next
  case (Some i)
  then have i: "i < length (ptable s)" "state (pr s i) = UNUSED" by (auto dest: scan_SomeD)
  define p where "p = proc_found (nextpid s) (pr s i)"
  define s1 where "s1 = (upd_proc i (proc_found (nextpid s)) (s\<lparr>held := L_ptable # held s\<rparr>))
    \<lparr>nextpid := nextpid s + 1, held := held s\<rparr>"
  have s1: "ptable s1 = (ptable s)[i := p]" "nextpid s1 = nextpid s + 1" "alloc_kstack i s1 = Inr (r, s')"
    using assms Some
    by (auto simp: allocproc_def seq_eq_Inr_iff lock_Inr_iff unlock_Inr_iff p_def s1_def Let_def)
  obtain q where q: "ptable s' = (ptable s1)[i := q]" "nextpid s' = nextpid s1" "on_kstack (pr s1 i) q"
      "r = None \<and> state q = UNUSED \<or> r = Some i \<and> state q = state (pr s1 i) \<and> kstack q \<noteq> 0"
    using alloc_kstack_effect [OF s1(3)] i s1(1) by auto
  have "born (nextpid s) q" using q(3) i by (simp add: s1(1) p_def proc_found_def born_def on_kstack_def)
  then show ?thesis
    using i q s1 by (intro disjI2 exI [of _ i] exI [of _ q]) (auto simp: p_def proc_found_def)
qed

lemma allocproc_ok:
  assumes "ptable_ok s" and "allocproc s = Inr (r, s')"
  shows "ptable_ok s'"
proof -
  have "(ptable s' = ptable s \<and> nextpid s' = nextpid s) \<or>
    (\<exists>i q. i < length (ptable s) \<and> ptable s' = (ptable s)[i := q] \<and> nextpid s' = nextpid s + 1 \<and> born (nextpid s) q)"
    using allocproc_table [OF assms(2)] by blast
  then show ?thesis
  proof (elim disjE exE conjE)
  assume "ptable s' = ptable s" "nextpid s' = nextpid s"
  with assms(1) show ?thesis by (rule ptable_ok_cong)
next
  fix i q
  assume i: "i < length (ptable s)" "ptable s' = (ptable s)[i := q]" "nextpid s' = nextpid s + 1" "born (nextpid s) q"
  have l: "length (ptable s) = NPROC" using assms(1) by (simp add: ptable_ok_def)
  have old: "pid (pr s k) < nextpid s" if "k < NPROC" "state (pr s k) \<noteq> UNUSED" for k
    using assms(1) that by (auto simp: ptable_ok_def proc_ok_def)
  show ?thesis
    unfolding ptable_ok_def
  proof (intro conjI allI impI)
    show "length (ptable s') = NPROC" "0 < nextpid s'" using assms(1) by (auto simp: i ptable_ok_def)
    fix k
    assume k: "k < NPROC"
    then have "proc_ok (nextpid s) (pr s k)" using assms(1) by (simp add: ptable_ok_def)
    then show "proc_ok (nextpid s') (pr s' k)"
      using i k l assms(1) by (cases "k = i") (auto simp: proc_ok_def born_def ptable_ok_def)
    fix j
    assume j: "j < NPROC" and a: "state (pr s' k) \<noteq> UNUSED" "state (pr s' j) \<noteq> UNUSED" "pid (pr s' k) = pid (pr s' j)"
    show "k = j"
    proof (cases "k = i \<or> j = i")
      case True
      then show ?thesis
        using i k j l a old [of k] old [of j] by (cases "k = i"; cases "j = i") (auto simp: born_def)
    next
      case False
      then have "state (pr s k) \<noteq> UNUSED" "state (pr s j) \<noteq> UNUSED" "pid (pr s k) = pid (pr s j)"
        using a i by auto
      with assms(1) k j show ?thesis unfolding ptable_ok_def by blast
    qed
  qed
  qed
qed

lemma setnice_ok:
  assumes "ptable_ok s" and "setnice n v s = Inr (r, s')"
  shows "ptable_ok s'"
proof (cases "v > 39 \<or> v < 0")
  case True
  with assms show ?thesis by (auto simp: setnice_def)
next
  case False
  have s': "ptable s' = (case scan (\<lambda>p. pid p = n) (ptable s) of
       Some i \<Rightarrow> (ptable s)[i := (pr s i)\<lparr>nice := v, weight := weight_of v\<rparr>] | None \<Rightarrow> ptable s)"
      "nextpid s' = nextpid s"
    using assms(2) False
    by (auto simp: setnice_def seq_eq_Inr_iff lock_Inr_iff unlock_Inr_iff Let_def split: option.splits)
  show ?thesis
  proof (cases "scan (\<lambda>p. pid p = n) (ptable s)")
    case None
    with s' assms(1) show ?thesis by (auto intro: ptable_ok_cong)
  next
    case (Some i)
    note t = s'(1) [unfolded Some option.case]
    show ?thesis
      using assms(1) _ s'(2)
    proof (rule ptable_ok_ids)
      fix k
      assume k: "k < length (ptable s)"
      then have "proc_ok (nextpid s) (pr s k)" using assms(1) by (simp add: ptable_ok_def)
      then show "pid (pr s' k) = pid (pr s k) \<and> (state (pr s k) = UNUSED \<longrightarrow> state (pr s' k) = UNUSED) \<and>
          proc_ok (nextpid s) (pr s' k)"
        unfolding t using False k by (cases "k = i") (simp_all add: proc_ok_def)
    qed (simp add: t)
  qed
qed

lemma kill_ok:
  assumes "ptable_ok s" and "kill n s = Inr (r, s')"
  shows "ptable_ok s'"
proof (cases "scan (\<lambda>p. pid p = n) (ptable s)")
  case None
  with assms have "ptable s' = ptable s" "nextpid s' = nextpid s"
    by (auto simp: kill_def seq_eq_Inr_iff lock_Inr_iff unlock_Inr_iff)
  with assms(1) show ?thesis by (rule ptable_ok_cong)
next
  case (Some i)
  define s1 where "s1 = upd_proc i (\<lambda>p. p\<lparr>killed := True\<rparr>) (s\<lparr>held := L_ptable # held s\<rparr>)"
  have ok1: "ptable_ok s1"
    unfolding s1_def using assms(1) by (intro ptable_ok_upd) (auto simp: same_id_def intro: ptable_ok_cong)
  obtain s2 where s2: "(if state (pr s1 i) = SLEEPING
        then update_runtime i (upd_proc i (\<lambda>p. p\<lparr>state := RUNNABLE\<rparr>) s1) else Inr s1) = Inr s2"
      and u: "unlock L_ptable s2 = Inr s'"
    using assms(2) Some by (auto simp: kill_def seq_eq_Inr_iff lock_Inr_iff s1_def Let_def split: if_splits)
  have "ptable_ok s2"
  proof (cases "state (pr s1 i) = SLEEPING")
    case True
    have "ptable_ok (upd_proc i (\<lambda>p. p\<lparr>state := RUNNABLE\<rparr>) s1)"
      using ok1
    proof (rule ptable_ok_same_id)
      fix k
      assume "k < length (ptable s1)"
      then show "same_id (pr s1 k) (pr (upd_proc i (\<lambda>p. p\<lparr>state := RUNNABLE\<rparr>) s1) k)"
        using True by (cases "k = i") (auto simp: same_id_def)
    qed simp_all
    with s2 True show ?thesis by (auto dest: update_runtime_ok(1))
  qed (use s2 ok1 in simp)
  with u show ?thesis by (auto simp: unlock_Inr_iff intro: ptable_ok_cong)
qed

section \<open>One CPU: processes and scheduler taking turns\<close>

text \<open>
  A CPU alternates between a process and the scheduler. The process runs operations on the
  table, or gives up the CPU; the scheduler dispatches a process, which first releases
  \<open>ptable.lock\<close> (at the end of \<open>yield\<close>, of \<open>sleep\<close>, or in \<open>forkret\<close>), or finds nothing to run.
\<close>

inductive cpu_step :: "'a proc_state_scheme \<Rightarrow> 'a proc_state_scheme \<Rightarrow> bool" where
  cpu_alloc: "curproc s = Some i \<Longrightarrow> allocproc s = Inr (r, s') \<Longrightarrow> cpu_step s s'"
| cpu_setnice: "curproc s = Some i \<Longrightarrow> setnice n v s = Inr (r', s') \<Longrightarrow> cpu_step s s'"
| cpu_kill: "curproc s = Some i \<Longrightarrow> kill n s = Inr (r', s') \<Longrightarrow> cpu_step s s'"
| cpu_wakeup: "curproc s = Some i \<Longrightarrow> wakeup c s = Inr s' \<Longrightarrow> cpu_step s s'"
| cpu_yield: "curproc s = Some i \<Longrightarrow> (yield s :: ('a, unit) pres) = Inl (Swtch s1) \<Longrightarrow>
     scheduler_back s1 = Inr s' \<Longrightarrow> cpu_step s s'"
| cpu_sleep: "curproc s = Some i \<Longrightarrow> (sleep c lk s :: ('a, unit) pres) = Inl (Swtch s1) \<Longrightarrow>
     scheduler_back s1 = Inr s' \<Longrightarrow> cpu_step s s'"
| cpu_idle: "curproc s = None \<Longrightarrow> scheduler_turn s = Inr (None, s') \<Longrightarrow> cpu_step s s'"
| cpu_dispatch: "curproc s = None \<Longrightarrow> scheduler_turn s = Inr (Some j, s1) \<Longrightarrow>
     yield_resume s1 = Inr s' \<Longrightarrow> cpu_step s s'"
| cpu_dispatch_sleeper: "curproc s = None \<Longrightarrow> scheduler_turn s = Inr (Some j, s1) \<Longrightarrow>
     sleep_resume l s1 = Inr s' \<Longrightarrow> cpu_step s s'"

inductive cpu_reachable :: "'a proc_state_scheme \<Rightarrow> 'a proc_state_scheme \<Rightarrow> bool" for s0 where
  cpu_start: "cpu_reachable s0 s0"
| cpu_next: "cpu_reachable s0 s \<Longrightarrow> cpu_step s t \<Longrightarrow> cpu_reachable s0 t"

text \<open>The running process is the one the CPU points to, and no other.\<close>

definition run_ok :: "'a proc_state_scheme \<Rightarrow> bool" where
  "run_ok s \<longleftrightarrow> (\<forall>k < length (ptable s). state (pr s k) = RUNNING \<longleftrightarrow> curproc s = Some k) \<and>
     (\<forall>k. curproc s = Some k \<longrightarrow> k < length (ptable s))"

definition cpu_inv :: "'a proc_state_scheme \<Rightarrow> bool" where
  "cpu_inv s \<longleftrightarrow> ptable_ok s \<and> run_ok s"

lemma run_ok_keep:
  assumes "run_ok s" and "length (ptable s') = length (ptable s)" and "curproc s' = curproc s"
    and "\<And>k. k < length (ptable s) \<Longrightarrow> state (pr s' k) = RUNNING \<longleftrightarrow> state (pr s k) = RUNNING"
  shows "run_ok s'"
  using assms unfolding run_ok_def by simp

lemma wakeup1_run_ok:
  assumes "run_ok s" and "wakeup1 c s = Inr s'"
  shows "run_ok s'"
proof -
  obtain t where t: "s' = s\<lparr>ptable := t\<rparr>" "length t = length (ptable s)"
      "\<forall>k < length t. if sleeps_on c (pr s k) then woken (pr s k) (t ! k) else t ! k = pr s k"
    using wakeup1_effect [OF assms(2)] by blast
  show ?thesis
    using assms(1)
  proof (rule run_ok_keep)
    fix k
    assume "k < length (ptable s)"
    with t(2,3) have k: "if sleeps_on c (pr s k) then woken (pr s k) (t ! k) else t ! k = pr s k" by simp
    then show "state (pr s' k) = RUNNING \<longleftrightarrow> state (pr s k) = RUNNING"
      using woken_fields(1) [of "pr s k" "t ! k"] by (cases "sleeps_on c (pr s k)") (auto simp: t(1) sleeps_on_def)
  qed (simp_all add: t)
qed

lemma update_runtime_run:
  assumes "update_runtime i s = Inr s'"
  shows "length (ptable s') = length (ptable s)" "curproc s' = curproc s" "held s' = held s"
    "state (pr s' k) = state (pr s k)"
proof -
  obtain p where p: "(vruntimeupdate (pr s i) :: 'a proc_state_scheme stop + proc) = Inr p" "s' = upd_proc i (\<lambda>_. p) s"
    using assms by (auto simp: update_runtime_def seq_eq_Inr_iff)
  then show "length (ptable s') = length (ptable s)" "curproc s' = curproc s" "held s' = held s" by simp_all
  show "state (pr s' k) = state (pr s k)"
    using vruntimeupdate_same_id(2) [OF p(1)] by (cases "k = i"; cases "k < length (ptable s)") (simp_all add: p(2) not_less list_update_beyond)
qed

lemma sched_Swtch_iff:
  "sched s = Inl (Swtch s') \<longleftrightarrow>
     s' = s \<and> held s = [L_ptable] \<and> (\<exists>i. curproc s = Some i \<and> state (pr s i) \<noteq> RUNNING)"
proof -
  have "L_ptable \<in> set (held s) \<and> length (held s) = 1 \<longleftrightarrow> held s = [L_ptable]"
    by (cases "held s") (auto simp: length_Suc_conv)
  then show ?thesis
    by (auto simp: sched_def myp_def split: option.splits)
qed

lemma give_up:
  assumes "cpu_inv s" and "curproc s = Some i" and "update_runtime i s1 = Inr s2"
    and "ptable s1 = ptable s" "nextpid s1 = nextpid s" "curproc s1 = curproc s"
    and "(sched (upd_proc i f s2) :: ('a, unit) pres) = Inl (Swtch s3)" and "scheduler_back s3 = Inr s'"
    and f: "same_id (pr s2 i) (f (pr s2 i))"
  shows "cpu_inv s'"
proof -
  have ok: "ptable_ok s" "run_ok s" using assms(1) by (auto simp: cpu_inv_def)
  have ok1: "ptable_ok s1" using ok(1) assms(4,5) by (rule ptable_ok_cong)
  note u = update_runtime_run [OF assms(3)] update_runtime_ok(1) [OF ok1 assms(3)]
  have s3: "s3 = upd_proc i f s2" "state (pr s3 i) \<noteq> RUNNING"
    using assms(7) u(2) assms(2,6) by (auto simp: sched_Swtch_iff)
  have s': "ptable s' = ptable s3" "nextpid s' = nextpid s3" "curproc s' = None"
    using assms(8) by (auto simp: scheduler_back_def switchkvm_def unlock_Inr_iff)
  have "ptable_ok s3"
    using u(5)
  proof (rule ptable_ok_same_id)
    fix k
    assume "k < length (ptable s2)"
    then show "same_id (pr s2 k) (pr s3 k)" using f by (cases "k = i") (auto simp: s3(1))
  qed (simp_all add: s3(1))
  then have "ptable_ok s'" using s'(1,2) by (rule ptable_ok_cong)
  moreover have "state (pr s3 k) \<noteq> RUNNING" if k: "k < length (ptable s3)" for k
  proof (cases "k = i")
    case False
    have "k < length (ptable s)" using k by (simp add: s3(1) u(1) assms(4))
    moreover have "state (pr s3 k) = state (pr s k)" using False by (simp add: s3(1) u(4) assms(4))
    ultimately show ?thesis using ok(2) assms(2) False by (auto simp: run_ok_def)
  qed (use s3(2) in simp)
  then have "run_ok s'" by (simp add: run_ok_def s')
  ultimately show ?thesis by (simp add: cpu_inv_def)
qed

lemma scheduler_turn_Some:
  assumes "scheduler_turn s = Inr (Some j, s')"
  shows "\<exists>q. shortestjob (ptable s) = Some j \<and> ptable s' = (ptable s)[j := q] \<and> same_id (pr s j) q \<and>
    state q = RUNNING \<and> nextpid s' = nextpid s \<and> curproc s' = Some j \<and> held s' = L_ptable # held s \<and>
    scheduled_time q = actual_runtime (pr s j) \<and> cr3 s' = V2P (pgdir (pr s j)) \<and>
    q = (pr s j)\<lparr>time_slice := time_slice q, scheduled_time := scheduled_time q, state := RUNNING\<rparr> \<and>
    time_slice q = 1000 * of_int \<lfloor>of_nat (unat (weight (pr s j))) / of_nat (unat (totalweight (ptable s))) + (1/2 :: rat)\<rfloor> * 10"
proof -
  have sj: "shortestjob (ptable s) = Some j"
    using assms by (auto simp: scheduler_turn_def seq_eq_Inr_iff lock_Inr_iff Let_def split: option.splits if_splits)
  then have j: "j < length (ptable s)" "state (pr s j) = RUNNABLE" using shortestjob_spec [of "ptable s"] by auto
  define q where "q = pr s' j"
  show ?thesis
    by (rule exI [of _ q])
      (use assms sj j in \<open>auto simp: q_def scheduler_turn_def seq_eq_Inr_iff lock_Inr_iff Let_def same_id_def
        switchuvm_def split: option.splits if_splits\<close>)
qed

lemma nth_upd: "t[i := x] ! k = (if k = i \<and> i < length t then x else t ! k)"
  by (auto simp: nth_list_update list_update_beyond not_less)

lemma dispatch_inv:
  assumes "cpu_inv s" and "curproc s = None" and "scheduler_turn s = Inr (Some j, s1)"
    and "length (ptable s') = length (ptable s1)" "nextpid s' = nextpid s1" "curproc s' = curproc s1"
    and "\<And>k. k < length (ptable s1) \<Longrightarrow> same_id (pr s1 k) (pr s' k) \<and> state (pr s' k) = state (pr s1 k)"
  shows "cpu_inv s'"
proof -
  have ok: "ptable_ok s" "run_ok s" using assms(1) by (auto simp: cpu_inv_def)
  obtain q where q: "shortestjob (ptable s) = Some j" "ptable s1 = (ptable s)[j := q]" "same_id (pr s j) q"
      "state q = RUNNING" "nextpid s1 = nextpid s" "curproc s1 = Some j"
    using scheduler_turn_Some [OF assms(3)] by blast
  have j: "j < length (ptable s)" using q(1) shortestjob_spec [of "ptable s"] by auto
  have "ptable_ok s1"
    using ok(1)
  proof (rule ptable_ok_same_id)
    fix k
    assume "k < length (ptable s)"
    then show "same_id (pr s k) (pr s1 k)" using q(2,3) by (cases "k = j") auto
  qed (simp_all add: q)
  then have "ptable_ok s'" using assms(4,5,7) by (intro ptable_ok_same_id [of s1 s']) auto
  moreover have "state (pr s' k) = RUNNING \<longleftrightarrow> k = j" if "k < length (ptable s')" for k
    using that assms(4,7) q(2,4) ok(2) assms(2) j by (cases "k = j") (auto simp: run_ok_def)
  then have "run_ok s'" using assms(4,6) q(2,6) j by (auto simp: run_ok_def)
  ultimately show ?thesis by (simp add: cpu_inv_def)
qed

lemma no_Swtch [simp]:
  "update_runtime i s \<noteq> Inl (Swtch t)" "lock l s \<noteq> Inl (Swtch t)" "unlock l s \<noteq> Inl (Swtch t)"
  by (auto simp: update_runtime_def vruntimeupdate_def lock_def unlock_def Let_def seq_eq_Inl_iff split: if_splits)

lemma cpu_step_inv: "cpu_step s s' \<Longrightarrow> cpu_inv s \<Longrightarrow> cpu_inv s'"
proof (induction rule: cpu_step.induct)
  case (cpu_alloc s i r s')
  then have ok: "ptable_ok s" "run_ok s" by (auto simp: cpu_inv_def)
  have "curproc s' = curproc s"
    using cpu_alloc(2)
    by (auto simp: allocproc_def alloc_kstack_def seq_eq_Inr_iff lock_Inr_iff unlock_Inr_iff Let_def
        dest: kalloc_ptable(3) split: option.splits if_splits)
  then have "run_ok s'"
    using allocproc_table [OF cpu_alloc(2)] ok(2)
    by (intro run_ok_keep [OF ok(2)]) (auto simp: nth_upd split: if_splits)
  with allocproc_ok [OF ok(1) cpu_alloc(2)] show ?case by (simp add: cpu_inv_def)
next
  case (cpu_setnice s i n v r' s')
  then have ok: "ptable_ok s" "run_ok s" by (auto simp: cpu_inv_def)
  have "curproc s' = curproc s" "length (ptable s') = length (ptable s)"
      "\<And>k. k < length (ptable s) \<Longrightarrow> state (pr s' k) = state (pr s k)"
    using cpu_setnice(2)
    by (auto simp: setnice_def seq_eq_Inr_iff lock_Inr_iff unlock_Inr_iff Let_def nth_upd
        split: option.splits if_splits)
  then have "run_ok s'" by (intro run_ok_keep [OF ok(2)]) auto
  with setnice_ok [OF ok(1) cpu_setnice(2)] show ?case by (simp add: cpu_inv_def)
next
  case (cpu_kill s i n r' s')
  then have ok: "ptable_ok s" "run_ok s" by (auto simp: cpu_inv_def)
  have "curproc s' = curproc s \<and> length (ptable s') = length (ptable s) \<and>
      (\<forall>k < length (ptable s). state (pr s' k) = RUNNING \<longleftrightarrow> state (pr s k) = RUNNING)"
    using cpu_kill(2)
    by (auto simp: kill_def seq_eq_Inr_iff lock_Inr_iff unlock_Inr_iff Let_def nth_upd update_runtime_run
        split: option.splits if_splits)
  then have "run_ok s'" by (intro run_ok_keep [OF ok(2)]) auto
  with kill_ok [OF ok(1) cpu_kill(2)] show ?case by (simp add: cpu_inv_def)
next
  case (cpu_wakeup s i c s')
  then have ok: "ptable_ok s" "run_ok s" by (auto simp: cpu_inv_def)
  obtain s1 where s1: "wakeup1 c (s\<lparr>held := L_ptable # held s\<rparr>) = Inr s1" "unlock L_ptable s1 = Inr s'"
    using cpu_wakeup(2) by (auto simp: wakeup_def seq_eq_Inr_iff lock_Inr_iff)
  have ok': "ptable_ok (s\<lparr>held := L_ptable # held s\<rparr>)" "run_ok (s\<lparr>held := L_ptable # held s\<rparr>)"
    using ok by (auto intro: ptable_ok_cong simp: run_ok_def)
  from wakeup1_ok [OF ok'(1) s1(1)] wakeup1_run_ok [OF ok'(2) s1(1)] s1(2)
  show ?case by (auto simp: cpu_inv_def unlock_Inr_iff run_ok_def intro: ptable_ok_cong)
next
  case (cpu_yield s i s1 s')
  obtain s2 where s2: "update_runtime i (s\<lparr>held := L_ptable # held s\<rparr>) = Inr s2"
    "(sched (upd_proc i (\<lambda>p. p\<lparr>state := RUNNABLE\<rparr>) s2) :: ('a, unit) pres) = Inl (Swtch s1)"
    using cpu_yield(1,2) by (auto simp: yield_def seq_eq_Inl_iff lock_Inr_iff myp_def)
  have "state (pr s i) = RUNNING" using cpu_yield(1,4) by (auto simp: cpu_inv_def run_ok_def)
  then have f: "same_id (pr s2 i) ((pr s2 i)\<lparr>state := RUNNABLE\<rparr>)"
    using update_runtime_run(4) [OF s2(1), of i] by (simp add: same_id_def)
  show ?case
    by (rule give_up [OF cpu_yield(4,1) s2(1) _ _ _ s2(2) cpu_yield(3) f]) simp_all
next
  case (cpu_sleep s i c lk s1 s')
  define s0 where "s0 = (if lk = Some L_ptable then s else s\<lparr>held := L_ptable # remove1 (the lk) (held s)\<rparr>)"
  have s0: "ptable s0 = ptable s" "nextpid s0 = nextpid s" "curproc s0 = curproc s"
    by (simp_all add: s0_def)
  obtain s2 where s2: "update_runtime i s0 = Inr s2"
    "(sched (upd_proc i (\<lambda>p. p\<lparr>chan := c, state := SLEEPING\<rparr>) s2) :: ('a, unit) pres) = Inl (Swtch s1)"
    using cpu_sleep(1,2) by (auto simp: sleep_def seq_eq_Inl_iff seq_eq_Inr_iff lock_Inr_iff unlock_Inr_iff
        s0_def split: option.splits if_splits)
  have "state (pr s i) = RUNNING" using cpu_sleep(1,4) by (auto simp: cpu_inv_def run_ok_def)
  then have f: "same_id (pr s2 i) ((pr s2 i)\<lparr>chan := c, state := SLEEPING\<rparr>)"
    using update_runtime_run(4) [OF s2(1), of i] s0(1) by (simp add: same_id_def)
  show ?case
    by (rule give_up [OF cpu_sleep(4,1) s2(1) s0 s2(2) cpu_sleep(3) f])
next
  case (cpu_idle s s')
  then show ?case
    by (auto simp: scheduler_turn_def seq_eq_Inr_iff lock_Inr_iff unlock_Inr_iff Let_def cpu_inv_def run_ok_def
        intro: ptable_ok_cong split: option.splits if_splits)
next
  case (cpu_dispatch s j s1 s')
  show ?case
    by (rule dispatch_inv [OF cpu_dispatch(4,1,2)])
      (use cpu_dispatch(3) in \<open>auto simp: yield_resume_def unlock_Inr_iff\<close>)
next
  case (cpu_dispatch_sleeper s j s1 l s')
  show ?case
    by (rule dispatch_inv [OF cpu_dispatch_sleeper(4,1,2)])
      (use cpu_dispatch_sleeper(3) in \<open>auto simp: sleep_resume_def myp_def seq_eq_Inr_iff unlock_Inr_iff lock_Inr_iff
        Let_def nth_upd same_id_def split: option.splits if_splits\<close>)
qed

section \<open>Weights of a table\<close>

lemma unat_sum_list:
  fixes ws :: "uint list"
  assumes "\<forall>w \<in> set ws. unat w \<le> 88818" and "length ws \<le> 64"
  shows "unat (sum_list ws) = sum_list (map unat ws) \<and> sum_list (map unat ws) \<le> 88818 * length ws"
  using assms
proof (induction ws)
  case Nil
  then show ?case by simp
next
  case (Cons w ws)
  then have ih: "unat (sum_list ws) = sum_list (map unat ws)" "sum_list (map unat ws) \<le> 88818 * length ws"
    by auto
  then have "unat w + unat (sum_list ws) < 2 ^ 32" using Cons.prems by auto
  then have "unat (w + sum_list ws) = unat w + unat (sum_list ws)" by (rule unat_add_no_wrap)
  then show ?case using ih Cons.prems by auto
qed

lemma totalweight_ge:
  assumes "ptable_ok s" and "j < length (ptable s)" and "state (pr s j) \<noteq> UNUSED"
  shows "unat (weight (pr s j)) \<le> unat (totalweight (ptable s))" "0 < unat (weight (pr s j))"
proof -
  have ok: "proc_ok (nextpid s) p" if "p \<in> set (ptable s)" for p
    using assms(1) that by (auto simp: ptable_ok_def in_set_conv_nth)
  have live: "weight p \<noteq> 0" "unat (weight p) \<le> 88818" if "p \<in> set (ptable s)" "state p \<noteq> UNUSED" for p
    using ok [OF that(1)] that(2) weight_of_positive [of "nice p"] by (auto simp: proc_ok_def)
  let ?ws = "map weight (filter (\<lambda>p. state p \<noteq> UNUSED) (ptable s))"
  have "length ?ws \<le> 64"
    using assms(1) length_filter_le [of "\<lambda>p. state p \<noteq> UNUSED" "ptable s"] by (simp add: ptable_ok_def)
  then have "unat (totalweight (ptable s)) = sum_list (map unat ?ws)"
    unfolding totalweight_def using unat_sum_list [of ?ws] live(2) by auto
  moreover have "unat (weight (pr s j)) \<in> set (map unat ?ws)" using assms(2,3) by auto
  then have "unat (weight (pr s j)) \<le> sum_list (map unat ?ws)" by (rule member_le_sum_list) simp
  ultimately show "unat (weight (pr s j)) \<le> unat (totalweight (ptable s))" by (simp only:)
  show "0 < unat (weight (pr s j))" using live(1) [of "pr s j"] assms(2,3) by (simp add: unat_gt_0)
qed

lemma half_up:
  fixes w t :: nat
  assumes "0 < w" and "w \<le> t"
  shows "\<lfloor>of_nat w / of_nat t + (1/2 :: rat)\<rfloor> = (if t \<le> 2 * w then 1 else 0)"
proof -
  have "0 < t" using assms by simp
  then have b: "0 \<le> (of_nat w / of_nat t :: rat)" "(of_nat w / of_nat t :: rat) \<le> 1"
    using assms(2) by simp_all
  have "(1/2 :: rat) \<le> of_nat w / of_nat t \<longleftrightarrow> of_nat t \<le> (of_nat (2 * w) :: rat)"
    using \<open>0 < t\<close> by (simp add: field_simps)
  then have h: "(1/2 :: rat) \<le> of_nat w / of_nat t \<longleftrightarrow> t \<le> 2 * w"
    by (simp only: of_nat_le_iff)
  define x :: rat where "x = of_nat w / of_nat t"
  have "\<lfloor>x + 1/2\<rfloor> = (if 1/2 \<le> x then 1 else 0)"
  proof (cases "1/2 \<le> x")
    case True
    moreover have "x \<le> 1" using b(2) by (simp only: x_def)
    ultimately show ?thesis by (simp add: floor_eq_iff)
  next
    case False
    moreover have "0 \<le> x" using b(1) by (simp only: x_def)
    ultimately show ?thesis by (simp add: floor_eq_iff)
  qed
  then show ?thesis unfolding x_def h .
qed

lemma scheduler_turn_total:
  assumes "ptable_ok s" and "L_ptable \<notin> set (held s)"
    and "\<forall>p \<in> set (ptable s). state p = RUNNABLE \<longrightarrow> kstack p \<noteq> 0 \<and> pgdir p \<noteq> 0"
    and sj: "shortestjob (ptable s) = Some j"
  shows "\<exists>s'. scheduler_turn s = Inr (Some j, s')"
proof -
  have j: "j < length (ptable s)" "state (pr s j) = RUNNABLE" using sj shortestjob_spec [of "ptable s"] by auto
  then have "kstack (pr s j) \<noteq> 0" "pgdir (pr s j) \<noteq> 0" using assms(3) by auto
  moreover have "0 < unat (totalweight (ptable s))"
    using totalweight_ge [OF assms(1) j(1)] j(2) by simp
  then have "totalweight (ptable s) \<noteq> 0" by (simp add: unat_gt_0)
  ultimately show ?thesis
    using sj assms(2) j(1) by (auto simp: scheduler_turn_def Let_def switchuvm_def)
qed

section \<open>Properties\<close>

text \<open>Tables for the witnesses: a running process, two that can run, a sleeper, and free slots.\<close>

definition no_proc :: proc where
  "no_proc = \<lparr>sz = 0, pgdir = 0, kstack = 0, state = UNUSED, pid = 0, parent = None, tf = 0, ctxt = 0,
     chan = ChNone, killed = False, ofile = replicate 16 None, cwd = None, nice = 0, p_name = [],
     time_slice = 0, vruntime = 0, actual_runtime = 0, int_overflow = 0, scheduled_time = 0, weight = 0\<rparr>"

definition some_proc :: "int \<Rightarrow> procstate \<Rightarrow> uint \<Rightarrow> proc" where
  "some_proc n st v = no_proc\<lparr>pid := n, state := st, pgdir := 0x80200000, kstack := 0x80201000,
     nice := 20, weight := weight_of 20, vruntime := v, chan := ChTicks\<rparr>"

definition four_procs :: "procstate \<Rightarrow> nat option \<Rightarrow> proc_state" where
  "four_procs st cur = \<lparr>held = [], mem = (\<lambda>_. 0), freelist = 0, use_lock = True, kend = 0x80100000,
     kpgdir = 0, cr3 = 0, kdata = 0x80108000,
     ptable = [some_proc 1 st 40, some_proc 2 RUNNABLE 30, some_proc 3 RUNNABLE 20, some_proc 4 SLEEPING 10]
       @ replicate 60 no_proc,
     nextpid = 5, initproc = Some 0, curproc = cur, ticks = 0, ktrapret = 0, kforkret = 0\<rparr>"

lemmas four_procs_simps = four_procs_def some_proc_def no_proc_def

lemma less_64: "(i :: nat) < 64 \<longleftrightarrow> i = 0 \<or> i = 1 \<or> i = 2 \<or> i = 3 \<or> 4 \<le> i \<and> i < 64"
  by auto

lemma four_procs_nth:
  "pr (four_procs st cur) 0 = some_proc 1 st 40" "pr (four_procs st cur) (Suc 0) = some_proc 2 RUNNABLE 30"
  "pr (four_procs st cur) 2 = some_proc 3 RUNNABLE 20" "pr (four_procs st cur) 3 = some_proc 4 SLEEPING 10"
  "4 \<le> i \<Longrightarrow> i < 64 \<Longrightarrow> pr (four_procs st cur) i = no_proc"
  by (simp_all add: four_procs_def nth_append numeral_2_eq_2 numeral_3_eq_3)

lemma four_procs_inv:
  assumes "st \<noteq> UNUSED" and "st = RUNNING \<longleftrightarrow> cur = Some 0" and "cur = Some 0 \<or> cur = None"
  shows "cpu_inv (four_procs st cur)"
proof -
  have len: "length (ptable (four_procs st cur)) = 64" by (simp add: four_procs_def)
  have unused: "state no_proc = UNUSED" by (simp add: no_proc_def)
  have "proc_ok 5 (pr (four_procs st cur) i)" if "i < 64" for i
    using less_64 [THEN iffD1, OF that] unused
    by (elim disjE) (auto simp: four_procs_nth proc_ok_def some_proc_def no_proc_def)
  moreover have "i = j" if "i < 64" "j < 64" "state (pr (four_procs st cur) i) \<noteq> UNUSED"
      "state (pr (four_procs st cur) j) \<noteq> UNUSED" "pid (pr (four_procs st cur) i) = pid (pr (four_procs st cur) j)" for i j
    using less_64 [THEN iffD1, OF that(1)] less_64 [THEN iffD1, OF that(2)] that(3-5) unused
    by (elim disjE) (auto simp: four_procs_nth some_proc_def no_proc_def)
  moreover have "nextpid (four_procs st cur) = 5" "curproc (four_procs st cur) = cur" by (simp_all add: four_procs_def)
  moreover have "state (pr (four_procs st cur) k) = RUNNING \<longleftrightarrow> cur = Some k" if "k < 64" for k
    using less_64 [THEN iffD1, OF that] unused assms
    by (elim disjE) (auto simp: four_procs_nth some_proc_def no_proc_def)
  ultimately show ?thesis
    using len assms(3) unfolding cpu_inv_def ptable_ok_def run_ok_def by auto
qed
lemma four_procs_waiting:
  "ptable_ok (four_procs SLEEPING None)" "L_ptable \<notin> set (held (four_procs SLEEPING None))"
  "\<forall>p \<in> set (ptable (four_procs SLEEPING None)). state p = RUNNABLE \<longrightarrow> kstack p \<noteq> 0 \<and> pgdir p \<noteq> 0"
  "\<exists>p \<in> set (ptable (four_procs SLEEPING None)). state p = RUNNABLE"
  using four_procs_inv [of SLEEPING None] by (auto simp: cpu_inv_def four_procs_simps)

text \<open>
  C9: the scheduler picks fairly. One turn of \<open>scheduler\<close> on a well-formed table whose lock is
  free either finds no RUNNABLE process and changes nothing, or dispatches a RUNNABLE process
  that no other RUNNABLE process precedes in the order of overflow count and then virtual run
  time; it makes it RUNNING and current, starts its accounting period, loads its page
  table and keeps \<open>ptable.lock\<close>; no other entry of the table changes.
\<close>

theorem scheduler_picks_least:
  assumes "ptable_ok s" and "L_ptable \<notin> set (held s)"
    and "\<forall>p \<in> set (ptable s). state p = RUNNABLE \<longrightarrow> kstack p \<noteq> 0 \<and> pgdir p \<noteq> 0"
  shows "(\<forall>p \<in> set (ptable s). state p \<noteq> RUNNABLE) \<and> scheduler_turn s = Inr (None, s) \<or>
    (\<exists>j q s'. scheduler_turn s = Inr (Some j, s') \<and> j < length (ptable s) \<and> state (pr s j) = RUNNABLE \<and>
       (\<forall>k < length (ptable s). state (pr s k) = RUNNABLE \<longrightarrow> \<not> runs_before (pr s k) (pr s j)) \<and>
       ptable s' = (ptable s)[j := q] \<and> state q = RUNNING \<and> scheduled_time q = actual_runtime (pr s j) \<and>
       curproc s' = Some j \<and> cr3 s' = V2P (pgdir (pr s j)) \<and> held s' = L_ptable # held s)"
proof (cases "shortestjob (ptable s)")
  case None
  with shortestjob_spec [of "ptable s"] assms(2) show ?thesis
    by (simp add: scheduler_turn_def Let_def)
next
  case (Some j)
  with shortestjob_spec [of "ptable s"] have j: "j < length (ptable s)" "state (pr s j) = RUNNABLE"
      "\<forall>k < length (ptable s). state (pr s k) = RUNNABLE \<longrightarrow> \<not> runs_before (pr s k) (pr s j)" by auto
  obtain s' where s': "scheduler_turn s = Inr (Some j, s')" using scheduler_turn_total [OF assms Some] by blast
  with scheduler_turn_Some [OF s'] j show ?thesis by blast
qed

theorem scheduler_picks_least_witness:
  "\<exists>s'. scheduler_turn (four_procs SLEEPING None) = Inr (Some 2, s') \<and> curproc s' = Some 2"
proof -
  let ?s = "four_procs SLEEPING None"
  have r: "state (pr ?s 2) = RUNNABLE" "2 < length (ptable ?s)"
    by (simp_all add: four_procs_nth some_proc_def) (simp add: four_procs_def)
  obtain j s' where s': "scheduler_turn ?s = Inr (Some j, s')" "j < length (ptable ?s)" "state (pr ?s j) = RUNNABLE"
      "\<not> runs_before (pr ?s 2) (pr ?s j)" "curproc s' = Some j"
    using scheduler_picks_least [OF four_procs_waiting(1-3)] four_procs_waiting(4) r by blast
  have "j < 64" using s'(2) by (simp add: four_procs_def)
  from less_64 [THEN iffD1, OF this] s'(3,4) have "j = 2"
    by (elim disjE) (auto simp: four_procs_nth some_proc_def no_proc_def runs_before_def)
  with s' show ?thesis by blast
qed

text \<open>
  C35: the time slice the scheduler computes is all or nothing. The ratio of weights is
  converted to an integer before it is scaled, so a process with at least half of the total
  weight gets 10000 and every other process gets 0, not a share of the scheduling latency.
\<close>

theorem time_slice_all_or_nothing:
  assumes "ptable_ok s" and "scheduler_turn s = Inr (Some j, s')"
  shows "time_slice (pr s' j) =
    (if unat (totalweight (ptable s)) \<le> 2 * unat (weight (pr s j)) then 10000 else 0)"
proof -
  obtain q where q: "shortestjob (ptable s) = Some j" "ptable s' = (ptable s)[j := q]"
      "time_slice q = 1000 * of_int \<lfloor>of_nat (unat (weight (pr s j))) / of_nat (unat (totalweight (ptable s))) + (1/2 :: rat)\<rfloor> * 10"
    using scheduler_turn_Some [OF assms(2)] by blast
  then have j: "j < length (ptable s)" "state (pr s j) = RUNNABLE" using shortestjob_spec [of "ptable s"] by auto
  have "0 < unat (weight (pr s j))" "unat (weight (pr s j)) \<le> unat (totalweight (ptable s))"
    using totalweight_ge [OF assms(1) j(1)] j(2) by simp_all
  from half_up [OF this] j(1) show ?thesis
    unfolding q(2) by (simp only: nth_list_update_eq q(3)) simp
qed

theorem time_slice_all_or_nothing_witness:
  "\<exists>j s'. scheduler_turn (four_procs SLEEPING None) = Inr (Some j, s') \<and>
     time_slice (pr s' j) \<in> {0, 10000}"
proof -
  let ?s = "four_procs SLEEPING None"
  obtain j where "shortestjob (ptable ?s) = Some j"
    using four_procs_waiting(4) shortestjob_spec [of "ptable ?s"] by (cases "shortestjob (ptable ?s)") auto
  with scheduler_turn_total [OF four_procs_waiting(1-3)] obtain s' where s': "scheduler_turn ?s = Inr (Some j, s')"
    by blast
  with time_slice_all_or_nothing [OF four_procs_waiting(1) s'] show ?thesis by auto
qed





lemma wakeup_effect:
  assumes "ptable_ok s" and "L_ptable \<notin> set (held s)" and "\<exists>p \<in> set (ptable s). state p \<noteq> RUNNABLE"
  shows "\<exists>t. wakeup c s = Inr (s\<lparr>ptable := t\<rparr>) \<and> length t = length (ptable s) \<and>
    (\<forall>k < length t. if sleeps_on c (pr s k) then woken (pr s k) (t ! k) else t ! k = pr s k)"
proof -
  let ?s = "s\<lparr>held := L_ptable # held s\<rparr>"
  have "weight p \<noteq> 0" if p: "p \<in> set (ptable s)" "sleeps_on c p" for p
  proof -
    have "proc_ok (nextpid s) p" using assms(1) p(1) by (auto simp: ptable_ok_def in_set_conv_nth)
    then show ?thesis using p(2) by (intro proc_ok_weight) (auto simp: sleeps_on_def)
  qed
  then obtain s' where s': "wakeup1 c ?s = Inr s'" using wakeup1_total [of ?s c] assms(3) by auto
  have e: "ptable ?s = ptable s" by simp
  from wakeup1_effect [OF s', unfolded e] obtain t where t: "s' = ?s\<lparr>ptable := t\<rparr>" "length t = length (ptable s)"
      "\<forall>k < length t. if sleeps_on c (pr s k) then woken (pr s k) (t ! k) else t ! k = pr s k"
    by blast
  have "wakeup c s = Inr (s\<lparr>ptable := t\<rparr>)"
    using assms(2) s' by (simp add: wakeup_def t(1))
  with t show ?thesis by blast
qed

text \<open>
  C29: \<open>wakeup(chan)\<close> on a well-formed table in which some process is not RUNNABLE returns, makes
  every process sleeping on \<open>chan\<close> RUNNABLE (changing nothing else of it but its virtual run
  time), and leaves every other process and the rest of the kernel as it was: no sleeper is
  missed, none is woken by mistake.
\<close>

theorem wakeup_wakes_exactly:
  assumes "ptable_ok s" and "L_ptable \<notin> set (held s)" and "\<exists>p \<in> set (ptable s). state p \<noteq> RUNNABLE"
  shows "\<exists>t. wakeup c s = Inr (s\<lparr>ptable := t\<rparr>) \<and> length t = length (ptable s) \<and>
    (\<forall>k < length t. if sleeps_on c (pr s k) then woken (pr s k) (t ! k) else t ! k = pr s k)"
  using assms by (rule wakeup_effect)

theorem wakeup_wakes_exactly_witness:
  "\<exists>t. wakeup ChTicks (four_procs RUNNING (Some 0)) = Inr ((four_procs RUNNING (Some 0))\<lparr>ptable := t\<rparr>) \<and>
     state (t ! 3) = RUNNABLE"
proof -
  let ?s = "four_procs RUNNING (Some 0)"
  have h: "ptable_ok ?s" "L_ptable \<notin> set (held ?s)" "\<exists>p \<in> set (ptable ?s). state p \<noteq> RUNNABLE"
    using four_procs_inv [of RUNNING "Some 0"] by (auto simp: cpu_inv_def four_procs_simps)
  have "sleeps_on ChTicks (pr ?s 3)" "3 < length (ptable ?s)"
    by (simp_all add: four_procs_nth sleeps_on_def some_proc_def) (simp add: four_procs_def)
  with wakeup_wakes_exactly [OF h, of ChTicks] woken_fields(1) show ?thesis by metis
qed

text \<open>
  C34: \<open>wakeup1\<close> dereferences a null pointer when every slot of the process table is RUNNABLE: its
  first loop looks for a process that is not RUNNABLE, and finds none.
\<close>

theorem wakeup1_null_pointer:
  assumes "ptable s \<noteq> []" and "\<forall>p \<in> set (ptable s). state p = RUNNABLE"
  shows "wakeup1 c s = Inl (Fault ''wakeup1'')"
proof -
  have "last_not_runnable 0 (ptable s) None = None" using assms(2) by (simp add: last_not_runnable_Some)
  then show ?thesis using assms by (cases "ptable s") (auto simp: wakeup1_def wakeup_shortest_def)
qed

theorem wakeup1_null_pointer_witness:
  "wakeup1 ChTicks ((four_procs RUNNING None)\<lparr>ptable := replicate 64 (some_proc 1 RUNNABLE 5)\<rparr>) = Inl (Fault ''wakeup1'')"
  by (rule wakeup1_null_pointer) (auto simp: some_proc_def)

text \<open>
  C37: nice values. \<open>setnice\<close> rejects a value outside 0..39 with -1 and no effect; otherwise it
  returns 0, and \<open>getnice\<close> of the same pid then returns the value if some slot has that pid and
  -1 if not. No other slot changes, and the slot's weight follows its nice value.
\<close>

theorem setnice_getnice:
  assumes "L_ptable \<notin> set (held s)"
  shows "((v < 0 \<or> 39 < v) \<longrightarrow> setnice n v s = Inr (-1, s)) \<and>
    (0 \<le> v \<and> v \<le> 39 \<longrightarrow> (\<exists>s'. setnice n v s = Inr (0, s') \<and>
       getnice n s' = Inr (if \<exists>p \<in> set (ptable s). pid p = n then v else -1, s') \<and>
       (\<forall>k < length (ptable s). pr s' k = pr s k \<or>
          pid (pr s k) = n \<and> pr s' k = (pr s k)\<lparr>nice := v, weight := weight_of v\<rparr>)))"
proof (intro conjI impI)
  assume "v < 0 \<or> 39 < v"
  then show "setnice n v s = Inr (-1, s)" by (auto simp: setnice_def)
next
  assume v: "0 \<le> v \<and> v \<le> 39"
  show "\<exists>s'. setnice n v s = Inr (0, s') \<and>
       getnice n s' = Inr (if \<exists>p \<in> set (ptable s). pid p = n then v else -1, s') \<and>
       (\<forall>k < length (ptable s). pr s' k = pr s k \<or>
          pid (pr s k) = n \<and> pr s' k = (pr s k)\<lparr>nice := v, weight := weight_of v\<rparr>)"
  proof (cases "scan (\<lambda>p. pid p = n) (ptable s)")
    case None
    then have "\<not> (\<exists>p \<in> set (ptable s). pid p = n)" by (simp add: scan_None_iff)
    with None v assms show ?thesis
      by (intro exI [of _ s]) (simp add: setnice_def getnice_def)
  next
    case (Some i)
    then have i: "i < length (ptable s)" "pid (pr s i) = n" by (auto dest: scan_SomeD)
    define s' where "s' = upd_proc i (\<lambda>p. p\<lparr>nice := v, weight := weight_of v\<rparr>) s"
    have "scan (\<lambda>p. pid p = n) (ptable s') = Some i"
      using Some scan_list_update_same [of i "ptable s" "\<lambda>p. pid p = n" "\<lambda>p. p\<lparr>nice := v, weight := weight_of v\<rparr>"] i
      by (simp add: s'_def)
    then have "getnice n s' = Inr (v, s')"
      using assms i by (simp add: getnice_def s'_def)
    moreover have "setnice n v s = Inr (0, s')"
      using Some v assms by (simp add: setnice_def s'_def upd_proc_def)
    moreover have "\<exists>p \<in> set (ptable s). pid p = n" using i by auto
    ultimately show ?thesis
      using i by (intro exI [of _ s']) (auto simp: s'_def nth_upd)
  qed
qed

theorem setnice_getnice_witness:
  "\<exists>s'. setnice 3 7 (four_procs RUNNING (Some 0)) = Inr (0, s') \<and> getnice 3 s' = Inr (7, s')"
proof -
  have "\<exists>p \<in> set (ptable (four_procs RUNNING (Some 0))). pid p = 3" by (simp add: four_procs_simps)
  with setnice_getnice [of "four_procs RUNNING (Some 0)" 7 3] show ?thesis by (auto simp: four_procs_def)
qed

end
