(* ===== verification/Sleeplock.thy ===== *)
theory Sleeplock
  imports Sched
begin

text \<open>
  Sleeping locks (\<open>sleeplock.c\<close>). A pointer to a sleeping lock is its name: the locks of the
  buffers and of the cached inodes. \<open>acquiresleep\<close> ends in \<open>Swtch\<close> when the lock is taken;
  \<open>acquiresleep_resume\<close> is what runs when the process is woken up.

  \<open>woke\<close> is the frame of everything that only wakes processes up; the layers above the
  process table use it to say what a call did to the processes.
\<close>

section \<open>State and operations\<close>

datatype slockid = SBuf nat | SInode nat

record sleeplock =
  sl_locked :: uint
  sl_name :: string
  sl_pid :: int

record slock_state = proc_state +
  slocks :: "slockid \<Rightarrow> sleeplock"

fun sl_lk :: "slockid \<Rightarrow> lockid" where
  "sl_lk (SBuf i) = L_bufsleep i"
| "sl_lk (SInode i) = L_inodesleep i"

fun sl_chan :: "slockid \<Rightarrow> chan" where
  "sl_chan (SBuf i) = ChBuf i"
| "sl_chan (SInode i) = ChInode i"

type_synonym ('a, 'b) slres = "('a slock_state_scheme, 'b) kres"

definition upd_slock :: "slockid \<Rightarrow> (sleeplock \<Rightarrow> sleeplock) \<Rightarrow> 'a slock_state_scheme \<Rightarrow> 'a slock_state_scheme" where
  "upd_slock l f s = s\<lparr>slocks := (slocks s)(l := f (slocks s l))\<rparr>"

definition initsleeplock :: "slockid \<Rightarrow> string \<Rightarrow> 'a slock_state_scheme \<Rightarrow> 'a slock_state_scheme" where
  "initsleeplock l n s = upd_slock l (\<lambda>k. k\<lparr>sl_name := n, sl_locked := 0, sl_pid := 0\<rparr>) s"

text \<open>The loop of \<open>acquiresleep\<close>, entered with the spin lock of the sleeping lock held.\<close>

definition acquiresleep_loop :: "slockid \<Rightarrow> 'a slock_state_scheme \<Rightarrow> ('a, 'a slock_state_scheme) slres" where
  "acquiresleep_loop l s =
     (if sl_locked (slocks s l) \<noteq> 0 then sleep (sl_chan l) (Some (sl_lk l)) s
      else
        let s = upd_slock l (\<lambda>k. k\<lparr>sl_locked := 1\<rparr>) s
        in seq (myp s) (\<lambda>i. unlock (sl_lk l) (upd_slock l (\<lambda>k. k\<lparr>sl_pid := pid (pr s i)\<rparr>) s)))"

definition acquiresleep :: "slockid \<Rightarrow> 'a slock_state_scheme \<Rightarrow> ('a, 'a slock_state_scheme) slres" where
  "acquiresleep l s = seq (lock (sl_lk l) s) (\<lambda>s. acquiresleep_loop l s)"

definition acquiresleep_resume :: "slockid \<Rightarrow> 'a slock_state_scheme \<Rightarrow> ('a, 'a slock_state_scheme) slres" where
  "acquiresleep_resume l s = seq (sleep_resume (sl_lk l) s) (\<lambda>s. acquiresleep_loop l s)"

definition releasesleep :: "slockid \<Rightarrow> 'a slock_state_scheme \<Rightarrow> ('a, 'a slock_state_scheme) slres" where
  "releasesleep l s =
     seq (lock (sl_lk l) s) (\<lambda>s.
     seq (wakeup (sl_chan l) (upd_slock l (\<lambda>k. k\<lparr>sl_locked := 0, sl_pid := 0\<rparr>) s)) (\<lambda>s.
     unlock (sl_lk l) s))"

definition holdingsleep :: "slockid \<Rightarrow> 'a slock_state_scheme \<Rightarrow> ('a, bool \<times> 'a slock_state_scheme) slres" where
  "holdingsleep l s =
     seq (lock (sl_lk l) s) (\<lambda>s.
     seq (if sl_locked (slocks s l) = 0 then Inr False
          else seq (myp s) (\<lambda>i. Inr (sl_pid (slocks s l) = pid (pr s i)))) (\<lambda>r.
     seq (unlock (sl_lk l) s) (\<lambda>s. Inr (r, s))))"

section \<open>What a running process finds\<close>

text \<open>The code runs in process \<open>i\<close>, on a well-formed process table.\<close>

definition runs_in :: "nat \<Rightarrow> 'a proc_state_scheme \<Rightarrow> bool" where
  "runs_in i s \<longleftrightarrow> ptable_ok s \<and> curproc s = Some i \<and> i < NPROC \<and> state (pr s i) = RUNNING"

definition mypid :: "'a proc_state_scheme \<Rightarrow> int" where
  "mypid s = pid (pr s (the (curproc s)))"

definition woke :: "'a proc_state_scheme \<Rightarrow> 'a proc_state_scheme \<Rightarrow> bool" where
  "woke s s' \<longleftrightarrow> s' = s\<lparr>ptable := ptable s'\<rparr> \<and> length (ptable s') = length (ptable s) \<and>
     (\<forall>k < length (ptable s). pr s' k = pr s k \<or> state (pr s k) = SLEEPING \<and> woken (pr s k) (pr s' k))"

lemma woke_refl [simp]: "woke s s"
  by (simp add: woke_def)

lemma wokeD:
  assumes "woke s s'" and "k < length (ptable s)"
  shows "pr s' k = pr s k \<or> state (pr s k) = SLEEPING \<and> woken (pr s k) (pr s' k)"
  using assms unfolding woke_def by blast

lemma woke_state:
  assumes "woke s s'" and "k < length (ptable s)"
  shows "pr s' k = pr s k \<or> state (pr s k) = SLEEPING \<and> state (pr s' k) = RUNNABLE"
    "same_id (pr s k) (pr s' k)"
proof -
  have k: "pr s' k = pr s k \<or> state (pr s k) = SLEEPING \<and> woken (pr s k) (pr s' k)"
    using assms by (rule wokeD)
  then show "pr s' k = pr s k \<or> state (pr s k) = SLEEPING \<and> state (pr s' k) = RUNNABLE"
    using woken_fields(1) by blast
  show "same_id (pr s k) (pr s' k)"
    using k woken_fields [of "pr s k" "pr s' k"] by (auto simp: same_id_def)
qed

lemma woke_trans:
  assumes "woke s s'" and "woke s' s''"
  shows "woke s s''"
  unfolding woke_def
proof (intro conjI allI impI)
  have "s'' = s'\<lparr>ptable := ptable s''\<rparr>" "s' = s\<lparr>ptable := ptable s'\<rparr>" using assms by (simp_all add: woke_def)
  then show "s'' = s\<lparr>ptable := ptable s''\<rparr>" by (metis proc_state.surjective proc_state.update_convs(1))
  show "length (ptable s'') = length (ptable s)" using assms by (simp add: woke_def)
  fix k
  assume k: "k < length (ptable s)"
  with assms have k': "k < length (ptable s')" by (simp add: woke_def)
  show "pr s'' k = pr s k \<or> state (pr s k) = SLEEPING \<and> woken (pr s k) (pr s'' k)"
  proof (cases "pr s' k = pr s k")
    case True
    with wokeD [OF assms(2) k'] show ?thesis by simp
  next
    case False
    with k woke_state(1) [OF assms(1) k] have "state (pr s' k) = RUNNABLE" by simp
    with woke_state(1) [OF assms(2) k'] have "pr s'' k = pr s' k" by auto
    with wokeD [OF assms(1) k] show ?thesis by simp
  qed
qed

lemma woke_frame:
  assumes "woke s s'"
  shows "held s' = held s" "mem s' = mem s" "freelist s' = freelist s" "curproc s' = curproc s"
    "nextpid s' = nextpid s" "ticks s' = ticks s" "cr3 s' = cr3 s" "initproc s' = initproc s"
proof -
  have s': "s' = s\<lparr>ptable := ptable s'\<rparr>" using assms by (simp add: woke_def)
  show "held s' = held s" by (subst s') simp
  show "mem s' = mem s" by (subst s') simp
  show "freelist s' = freelist s" by (subst s') simp
  show "curproc s' = curproc s" by (subst s') simp
  show "nextpid s' = nextpid s" by (subst s') simp
  show "ticks s' = ticks s" by (subst s') simp
  show "cr3 s' = cr3 s" by (subst s') simp
  show "initproc s' = initproc s" by (subst s') simp
qed

lemma woke_runs_in:
  assumes "woke s s'" and "runs_in i s"
  shows "runs_in i s'" "mypid s' = mypid s" "pr s' i = pr s i"
proof -
  note f = woke_frame [OF assms(1)]
  have l: "length (ptable s') = length (ptable s)" using assms(1) by (simp add: woke_def)
  have ok: "ptable_ok s" "i < length (ptable s)" using assms(2) by (auto simp: runs_in_def ptable_ok_def)
  have i: "pr s' i = pr s i" using woke_state(1) [OF assms(1) ok(2)] assms(2) by (auto simp: runs_in_def)
  have "ptable_ok s'"
    using ok(1) by (rule ptable_ok_same_id) (use woke_state(2) [OF assms(1)] l f in simp_all)
  with assms(2) f i show "runs_in i s'" "mypid s' = mypid s" "pr s' i = pr s i"
    by (auto simp: runs_in_def mypid_def)
qed

lemma runs_in_cong:
  "runs_in i s \<Longrightarrow> ptable s' = ptable s \<Longrightarrow> nextpid s' = nextpid s \<Longrightarrow> curproc s' = curproc s \<Longrightarrow> runs_in i s'"
  by (simp add: runs_in_def ptable_ok_def)

lemma mypid_cong: "ptable s' = ptable s \<Longrightarrow> curproc s' = curproc s \<Longrightarrow> mypid s' = mypid s"
  by (simp add: mypid_def)

lemma runs_in_not_runnable: "runs_in i s \<Longrightarrow> \<exists>p \<in> set (ptable s). state p \<noteq> RUNNABLE"
  by (rule bexI [of _ "pr s i"]) (auto simp: runs_in_def ptable_ok_def)

text \<open>A running process can always wake others up: \<open>wakeup1\<close> finds a process that is not RUNNABLE.\<close>

lemma wakeup_runs:
  assumes "runs_in i s" and "L_ptable \<notin> set (held s)"
  shows "\<exists>s'. wakeup c s = Inr s' \<and> woke s s' \<and> (\<forall>k < NPROC. \<not> sleeps_on c (pr s' k)) \<and>
    (\<forall>k < NPROC. \<not> sleeps_on c (pr s k) \<longrightarrow> pr s' k = pr s k)"
proof -
  have ok: "ptable_ok s" using assms(1) by (simp add: runs_in_def)
  obtain t where t: "wakeup c s = Inr (s\<lparr>ptable := t\<rparr>)" "length t = length (ptable s)"
      "\<forall>k < length t. if sleeps_on c (pr s k) then woken (pr s k) (t ! k) else t ! k = pr s k"
    using wakeup_effect [OF ok assms(2) runs_in_not_runnable [OF assms(1)]] by blast
  have len: "length (ptable s) = NPROC" using ok by (simp add: ptable_ok_def)
  have w: "woke s (s\<lparr>ptable := t\<rparr>)" using t(2,3) by (auto simp: woke_def sleeps_on_def split: if_splits)
  have n: "\<not> sleeps_on c (t ! k)" if k: "k < NPROC" for k
    using t(2,3) k len woken_fields(1) [of "pr s k" "t ! k"] by (auto simp: sleeps_on_def split: if_splits)
  have e: "t ! k = pr s k" if "k < NPROC" "\<not> sleeps_on c (pr s k)" for k
    using t(2,3) that len by auto
  show ?thesis using t(1) w n e by (intro exI [of _ "s\<lparr>ptable := t\<rparr>"]) auto
qed

lemma upd_slock_simps [simp]:
  "held (upd_slock l f s) = held s" "ptable (upd_slock l f s) = ptable s" "curproc (upd_slock l f s) = curproc s"
  "nextpid (upd_slock l f s) = nextpid s" "mem (upd_slock l f s) = mem s" "freelist (upd_slock l f s) = freelist s"
  "slocks (upd_slock l f s) = (slocks s)(l := f (slocks s l))"
  by (simp_all add: upd_slock_def)

lemma sl_lk_not_ptable [simp]: "sl_lk l \<noteq> L_ptable" "L_ptable \<noteq> sl_lk l"
  by (cases l; simp)+

lemma sl_chan_inj [simp]: "sl_chan l = sl_chan l' \<longleftrightarrow> l = l'"
  by (cases l; cases l') auto

lemma sl_chan_not_none [simp]: "sl_chan l \<noteq> ChNone"
  by (cases l) auto

lemma acquiresleep_free:
  assumes "runs_in i s" and "sl_lk l \<notin> set (held s)" and "sl_locked (slocks s l) = 0"
  shows "acquiresleep l s = Inr (upd_slock l (\<lambda>k. k\<lparr>sl_locked := 1, sl_pid := mypid s\<rparr>) s)"
  using assms
  by (simp add: acquiresleep_def acquiresleep_loop_def lock_def unlock_def Let_def myp_def runs_in_def mypid_def upd_slock_def)

lemma holdingsleep_eq:
  assumes "runs_in i s" and "sl_lk l \<notin> set (held s)"
  shows "holdingsleep l s = Inr (sl_locked (slocks s l) \<noteq> 0 \<and> sl_pid (slocks s l) = mypid s, s)"
  using assms
  by (auto simp: holdingsleep_def lock_def unlock_def myp_def runs_in_def mypid_def)

lemma releasesleep_runs:
  assumes "runs_in i s" and "sl_lk l \<notin> set (held s)" and "L_ptable \<notin> set (held s)"
  shows "\<exists>s'. releasesleep l s = Inr s' \<and>
    woke (upd_slock l (\<lambda>k. k\<lparr>sl_locked := 0, sl_pid := 0\<rparr>) s) s' \<and>
    (\<forall>k < NPROC. \<not> sleeps_on (sl_chan l) (pr s' k)) \<and>
    (\<forall>k < NPROC. \<not> sleeps_on (sl_chan l) (pr s k) \<longrightarrow> pr s' k = pr s k)"
proof -
  let ?u = "upd_slock l (\<lambda>k. k\<lparr>sl_locked := 0, sl_pid := 0\<rparr>)"
  let ?s = "?u (s\<lparr>held := sl_lk l # held s\<rparr>)"
  have r: "runs_in i ?s" by (rule runs_in_cong [OF assms(1)]) simp_all
  obtain s1 where s1: "wakeup (sl_chan l) ?s = Inr s1" "woke ?s s1" "\<forall>k < NPROC. \<not> sleeps_on (sl_chan l) (pr s1 k)"
      "\<forall>k < NPROC. \<not> sleeps_on (sl_chan l) (pr ?s k) \<longrightarrow> pr s1 k = pr ?s k"
    using wakeup_runs [OF r, of "sl_chan l"] assms(3) by auto
  have s1eq: "s1 = ?s\<lparr>ptable := ptable s1\<rparr>" using s1(2) by (simp add: woke_def)
  have h: "held s1 = sl_lk l # held s" by (subst s1eq) simp
  have "releasesleep l s = Inr (s1\<lparr>held := held s\<rparr>)"
    using assms(2) s1(1) by (simp add: releasesleep_def lock_def unlock_def h)
  moreover have "s1\<lparr>held := held s\<rparr> = (?u s)\<lparr>ptable := ptable s1\<rparr>"
    by (subst s1eq) (simp add: upd_slock_def)
  moreover have "woke (?u s) ((?u s)\<lparr>ptable := ptable s1\<rparr>)" using s1(2) by (simp add: woke_def)
  ultimately show ?thesis using s1(3,4) by (intro exI [of _ "(?u s)\<lparr>ptable := ptable s1\<rparr>"]) simp
qed

text \<open>Giving up the CPU in \<open>sleep\<close>, and what the scheduler does, leave every layer above the process table alone.\<close>

lemma sleep_Swtch:
  assumes "(sleep c (Some l) s :: ('a, 'b) pres) = Inl (Swtch s')" and "l \<noteq> L_ptable" and "L_ptable \<notin> set (held s)"
  shows "\<exists>i p. curproc s = Some i \<and>
    s' = s\<lparr>held := [L_ptable], ptable := (ptable s)[i := p]\<rparr> \<and> held s = [l] \<and>
    state p = SLEEPING \<and> chan p = c \<and> pid p = pid (pr s i) \<and> weight p = weight (pr s i) \<and> nice p = nice (pr s i)"
proof -
  obtain i where i: "curproc s = Some i" using assms(1) by (auto simp: sleep_def split: option.splits)
  have l: "l \<in> set (held s)"
    using assms i by (auto simp: sleep_def lock_def unlock_def seq_eq_Inl_iff split: if_splits)
  let ?s = "s\<lparr>held := L_ptable # remove1 l (held s)\<rparr>"
  have u: "unlock l (s\<lparr>held := L_ptable # held s\<rparr>) = Inr ?s" using l assms(2) by (auto simp: unlock_def)
  have "seq (update_runtime i ?s) (\<lambda>s. sched (upd_proc i (\<lambda>p. p\<lparr>chan := c, state := SLEEPING\<rparr>) s) :: ('a, 'b) pres) = Inl (Swtch s')"
    using assms i u by (simp add: sleep_def lock_def)
  then obtain s2 where s2: "update_runtime i ?s = Inr s2"
      "(sched (upd_proc i (\<lambda>p. p\<lparr>chan := c, state := SLEEPING\<rparr>) s2) :: ('a, 'b) pres) = Inl (Swtch s')"
    by (auto simp: seq_eq_Inl_iff update_runtime_def vruntimeupdate_def Let_def split: if_splits)
  obtain q where q: "(vruntimeupdate (pr s i) :: 'a proc_state_scheme stop + proc) = Inr q" "s2 = upd_proc i (\<lambda>_. q) ?s"
    using s2(1) by (auto simp: update_runtime_def seq_eq_Inr_iff)
  have s': "s' = upd_proc i (\<lambda>p. p\<lparr>chan := c, state := SLEEPING\<rparr>) s2" "held s2 = [L_ptable]"
    using s2(2) by (auto simp: sched_Swtch_iff)
  have "remove1 l (held s) = []" using s'(2) by (simp add: q(2))
  with l have h: "held s = [l]" by (cases "held s") (auto split: if_splits)
  define p where "p = q\<lparr>chan := c, state := SLEEPING\<rparr>"
  have "s' = s\<lparr>held := [L_ptable], ptable := (ptable s)[i := p]\<rparr>"
    using h by (cases "i < length (ptable s)") (simp_all add: s'(1) q(2) upd_proc_def p_def list_update_beyond)
  moreover have "same_id (pr s i) q" by (rule vruntimeupdate_same_id(1) [OF q(1)])
  then have "pid p = pid (pr s i)" "weight p = weight (pr s i)" "nice p = nice (pr s i)" by (auto simp: same_id_def p_def)
  ultimately show ?thesis using i h by (intro exI [of _ i] exI [of _ p]) (simp add: p_def)
qed

lemma scheduler_turn_frame:
  assumes "scheduler_turn s = Inr (r, s')"
  shows "s' = s\<lparr>held := held s', ptable := ptable s', curproc := curproc s', cr3 := cr3 s'\<rparr>"
  using assms
  by (auto simp: scheduler_turn_def seq_eq_Inr_iff lock_Inr_iff unlock_Inr_iff Let_def switchuvm_def upd_proc_def
    split: option.splits if_splits)

lemma scheduler_back_frame:
  assumes "scheduler_back s = Inr s'"
  shows "s' = s\<lparr>held := remove1 L_ptable (held s), curproc := None, cr3 := cr3 s'\<rparr>"
  using assms by (auto simp: scheduler_back_def switchkvm_def unlock_Inr_iff)

lemma scheduler_turn_states:
  assumes "scheduler_turn s = Inr (r, s')"
  shows "length (ptable s') = length (ptable s)"
    "k < length (ptable s) \<Longrightarrow> sleeps_on c (pr s' k) \<Longrightarrow> sleeps_on c (pr s k)"
proof -
  have "length (ptable s') = length (ptable s) \<and>
    (k < length (ptable s) \<longrightarrow> sleeps_on c (pr s' k) \<longrightarrow> sleeps_on c (pr s k))"
  proof (cases r)
    case None
    with assms show ?thesis
      by (auto simp: scheduler_turn_def seq_eq_Inr_iff lock_Inr_iff unlock_Inr_iff Let_def split: option.splits if_splits)
  next
    case (Some j)
    then obtain q where "ptable s' = (ptable s)[j := q]" "state q = RUNNING"
      using scheduler_turn_Some [OF assms [unfolded Some]] by blast
    then show ?thesis by (auto simp: sleeps_on_def nth_upd)
  qed
  then show "length (ptable s') = length (ptable s)"
    "k < length (ptable s) \<Longrightarrow> sleeps_on c (pr s' k) \<Longrightarrow> sleeps_on c (pr s k)" by auto
qed

text \<open>
  Processes that take and release sleeping locks on a CPU, with the scheduler switching between
  them: a process that finds the lock taken sleeps, and looks again when it is dispatched.
\<close>

inductive sl_step :: "'a slock_state_scheme \<Rightarrow> 'a slock_state_scheme \<Rightarrow> bool" where
  sl_get: "runs_in i s \<Longrightarrow> held s = [] \<Longrightarrow> acquiresleep l s = Inr s' \<Longrightarrow> sl_step s s'"
| sl_wait: "runs_in i s \<Longrightarrow> held s = [] \<Longrightarrow> acquiresleep l s = Inl (Swtch s1) \<Longrightarrow> scheduler_back s1 = Inr s' \<Longrightarrow>
     sl_step s s'"
| sl_put: "runs_in i s \<Longrightarrow> held s = [] \<Longrightarrow> releasesleep l s = Inr s' \<Longrightarrow> sl_step s s'"
| sl_yield: "runs_in i s \<Longrightarrow> held s = [] \<Longrightarrow>
     (yield s :: ('a slock_state_ext, unit) pres) = Inl (Swtch s1) \<Longrightarrow> scheduler_back s1 = Inr s' \<Longrightarrow> sl_step s s'"
| sl_resume: "curproc s = None \<Longrightarrow> held s = [] \<Longrightarrow> scheduler_turn s = Inr (Some j, s1) \<Longrightarrow>
     yield_resume s1 = Inr s' \<Longrightarrow> sl_step s s'"
| sl_retry: "curproc s = None \<Longrightarrow> held s = [] \<Longrightarrow> scheduler_turn s = Inr (Some j, s1) \<Longrightarrow>
     acquiresleep_resume l s1 = Inr s' \<Longrightarrow> sl_step s s'"
| sl_rewait: "curproc s = None \<Longrightarrow> held s = [] \<Longrightarrow> scheduler_turn s = Inr (Some j, s1) \<Longrightarrow>
     acquiresleep_resume l s1 = Inl (Swtch s2) \<Longrightarrow> scheduler_back s2 = Inr s' \<Longrightarrow> sl_step s s'"

inductive sl_reachable :: "'a slock_state_scheme \<Rightarrow> 'a slock_state_scheme \<Rightarrow> bool" for s0 where
  sl_start: "sl_reachable s0 s0"
| sl_next: "sl_reachable s0 s \<Longrightarrow> sl_step s t \<Longrightarrow> sl_reachable s0 t"

definition no_stuck_sleeper :: "'a slock_state_scheme \<Rightarrow> bool" where
  "no_stuck_sleeper s \<longleftrightarrow> length (ptable s) = NPROC \<and>
     (\<forall>l. \<forall>k < NPROC. sleeps_on (sl_chan l) (pr s k) \<longrightarrow> sl_locked (slocks s l) \<noteq> 0)"

lemma no_stuck_cong:
  "no_stuck_sleeper s \<Longrightarrow> ptable s' = ptable s \<Longrightarrow> slocks s' = slocks s \<Longrightarrow> no_stuck_sleeper s'"
  by (simp add: no_stuck_sleeper_def)

lemma no_stuck_back:
  assumes "no_stuck_sleeper s" and "scheduler_back s = Inr s'"
  shows "no_stuck_sleeper s'"
proof -
  have "ptable s' = ptable s" "slocks s' = slocks s"
    by (subst scheduler_back_frame [OF assms(2)], simp)+
  with assms(1) show ?thesis by (rule no_stuck_cong)
qed

lemma no_stuck_turn:
  assumes "no_stuck_sleeper s" and "scheduler_turn s = Inr (r, s')"
  shows "no_stuck_sleeper s'"
proof -
  have "slocks s' = slocks s" by (subst scheduler_turn_frame [OF assms(2)]) simp
  with assms(1) scheduler_turn_states [OF assms(2)] show ?thesis by (auto simp: no_stuck_sleeper_def)
qed

lemma no_stuck_loop:
  fixes s :: "'a slock_state_scheme"
  assumes "no_stuck_sleeper s" and "L_ptable \<notin> set (held s)"
  shows "acquiresleep_loop l s = Inr s' \<Longrightarrow> no_stuck_sleeper s'"
    "acquiresleep_loop l s = Inl (Swtch s') \<Longrightarrow> no_stuck_sleeper s'"
proof -
  show "no_stuck_sleeper s'" if "acquiresleep_loop l s = Inr s'"
    using that assms(1)
    by (auto simp: acquiresleep_loop_def Let_def seq_eq_Inr_iff unlock_Inr_iff no_stuck_sleeper_def upd_slock_def
      sleep_def sched_def split: if_splits option.splits)
  assume sw: "acquiresleep_loop l s = Inl (Swtch s')"
  have lk: "sl_locked (slocks s l) \<noteq> 0"
    using sw by (auto simp: acquiresleep_loop_def Let_def seq_eq_Inl_iff myp_def unlock_def split: if_splits option.splits)
  with sw have "(sleep (sl_chan l) (Some (sl_lk l)) s :: ('a slock_state_ext, 'a slock_state_scheme) pres) = Inl (Swtch s')" by (simp add: acquiresleep_loop_def)
  from sleep_Swtch [OF this _ assms(2)] obtain i p where s': "s' = s\<lparr>held := [L_ptable], ptable := (ptable s)[i := p]\<rparr>"
      "state p = SLEEPING" "chan p = sl_chan l" by auto
  show "no_stuck_sleeper s'"
    using assms(1) lk s'(2,3) by (auto simp: no_stuck_sleeper_def s'(1) nth_upd sleeps_on_def split: if_splits)
qed


lemma yield_frame:
  assumes "(yield s :: ('a, unit) pres) = Inl (Swtch s')"
  shows "\<exists>i p. s' = s\<lparr>held := L_ptable # held s, ptable := (ptable s)[i := p]\<rparr> \<and> state p = RUNNABLE"
proof -
  obtain i where i: "curproc s = Some i"
    using assms by (auto simp: yield_def seq_eq_Inl_iff lock_def myp_def split: option.splits if_splits)
  let ?s = "s\<lparr>held := L_ptable # held s\<rparr>"
  have "seq (update_runtime i ?s) (\<lambda>s. sched (upd_proc i (\<lambda>p. p\<lparr>state := RUNNABLE\<rparr>) s) :: ('a, unit) pres) = Inl (Swtch s')"
    using assms i by (auto simp: yield_def lock_def myp_def split: if_splits)
  then obtain s2 where s2: "update_runtime i ?s = Inr s2"
      "(sched (upd_proc i (\<lambda>p. p\<lparr>state := RUNNABLE\<rparr>) s2) :: ('a, unit) pres) = Inl (Swtch s')"
    by (auto simp: seq_eq_Inl_iff update_runtime_def vruntimeupdate_def Let_def split: if_splits)
  obtain q where q: "(vruntimeupdate (pr s i) :: 'a proc_state_scheme stop + proc) = Inr q" "s2 = upd_proc i (\<lambda>_. q) ?s"
    using s2(1) by (auto simp: update_runtime_def seq_eq_Inr_iff)
  have "s' = upd_proc i (\<lambda>p. p\<lparr>state := RUNNABLE\<rparr>) s2" using s2(2) by (auto simp: sched_Swtch_iff)
  then have "s' = s\<lparr>held := L_ptable # held s, ptable := (ptable s)[i := q\<lparr>state := RUNNABLE\<rparr>]\<rparr>"
    by (cases "i < length (ptable s)") (simp_all add: q(2) upd_proc_def list_update_beyond)
  then show ?thesis by (intro exI [of _ i] exI [of _ "q\<lparr>state := RUNNABLE\<rparr>"]) simp
qed

lemma slocks_upd_proc [simp]: "slocks (upd_proc i f s) = slocks s"
  by (simp add: upd_proc_def)

lemma no_stuck_resume:
  assumes "no_stuck_sleeper s" and "held s = [L_ptable]"
  shows "acquiresleep_resume l s = Inr s' \<Longrightarrow> no_stuck_sleeper s'"
    "acquiresleep_resume l s = Inl (Swtch s') \<Longrightarrow> no_stuck_sleeper s'"
proof -
  have r: "no_stuck_sleeper s1 \<and> held s1 = [sl_lk l]" if "sleep_resume (sl_lk l) s = Inr s1" for s1
    using that assms
    by (auto simp: sleep_resume_def Let_def seq_eq_Inr_iff lock_Inr_iff unlock_Inr_iff no_stuck_sleeper_def sleeps_on_def
      nth_upd sl_chan_not_none [symmetric] split: if_splits)
  show "no_stuck_sleeper s'" if "acquiresleep_resume l s = Inr s'"
    using that r no_stuck_loop(1) by (fastforce simp: acquiresleep_resume_def seq_eq_Inr_iff)
  have n: "sleep_resume (sl_lk l) s \<noteq> Inl (Swtch s')"
    by (auto simp: sleep_resume_def Let_def seq_eq_Inl_iff lock_def unlock_def myp_def split: if_splits option.splits)
  show "no_stuck_sleeper s'" if "acquiresleep_resume l s = Inl (Swtch s')"
    using that r n no_stuck_loop(2) by (fastforce simp: acquiresleep_resume_def seq_eq_Inl_iff)
qed

lemma sl_step_no_stuck: "sl_step s s' \<Longrightarrow> no_stuck_sleeper s \<Longrightarrow> no_stuck_sleeper s'"
proof (induction rule: sl_step.induct)
  case (sl_get i s l s')
  then have "acquiresleep_loop l (s\<lparr>held := [sl_lk l]\<rparr>) = Inr s'" by (simp add: acquiresleep_def lock_def)
  moreover have "no_stuck_sleeper (s\<lparr>held := [sl_lk l]\<rparr>)" using sl_get.prems by (rule no_stuck_cong) simp_all
  ultimately show ?case using no_stuck_loop(1) by fastforce
next
  case (sl_wait i s l s1 s')
  then have "acquiresleep_loop l (s\<lparr>held := [sl_lk l]\<rparr>) = Inl (Swtch s1)" by (simp add: acquiresleep_def lock_def)
  moreover have "no_stuck_sleeper (s\<lparr>held := [sl_lk l]\<rparr>)" using sl_wait.prems by (rule no_stuck_cong) simp_all
  ultimately have "no_stuck_sleeper s1" using no_stuck_loop(2) by fastforce
  then show ?case using sl_wait.hyps(4) by (rule no_stuck_back)
next
  case (sl_put i s l s')
  from releasesleep_runs [OF sl_put(1), of l] sl_put(2,3)
  have w: "woke (upd_slock l (\<lambda>k. k\<lparr>sl_locked := 0, sl_pid := 0\<rparr>) s) s'" "\<forall>k < NPROC. \<not> sleeps_on (sl_chan l) (pr s' k)"
    by auto
  have sl: "slocks s' = (slocks s)(l := (slocks s l)\<lparr>sl_locked := 0, sl_pid := 0\<rparr>)"
  proof -
    have "s' = (upd_slock l (\<lambda>k. k\<lparr>sl_locked := 0, sl_pid := 0\<rparr>) s)\<lparr>ptable := ptable s'\<rparr>" using w(1) unfolding woke_def by blast
    then have "slocks s' = slocks ((upd_slock l (\<lambda>k. k\<lparr>sl_locked := 0, sl_pid := 0\<rparr>) s)\<lparr>ptable := ptable s'\<rparr>)" by simp
    then show ?thesis by simp
  qed
  have len: "length (ptable s) = NPROC" "length (ptable s') = NPROC"
    using sl_put.prems w(1) by (auto simp: no_stuck_sleeper_def woke_def)
  have "sl_locked (slocks s' l') \<noteq> 0" if k: "k < NPROC" "sleeps_on (sl_chan l') (pr s' k)" for l' k
  proof -
    have "l' \<noteq> l" using w(2) k by auto
    moreover have "sleeps_on (sl_chan l') (pr s k)"
      using woke_state(1) [OF w(1), of k] k len by (auto simp: sleeps_on_def)
    ultimately show ?thesis using sl_put.prems k(1) by (auto simp: no_stuck_sleeper_def sl)
  qed
  with len show ?case by (simp add: no_stuck_sleeper_def)
next
  case (sl_yield i s s1 s')
  from yield_frame [OF sl_yield(3)] obtain i p where
    "s1 = s\<lparr>held := L_ptable # held s, ptable := (ptable s)[i := p]\<rparr>" "state p = RUNNABLE" by blast
  then have "no_stuck_sleeper s1" using sl_yield.prems by (auto simp: no_stuck_sleeper_def nth_upd sleeps_on_def split: if_splits)
  then show ?case using sl_yield.hyps(4) by (rule no_stuck_back)
next
  case (sl_resume s j s1 s')
  have "no_stuck_sleeper s1" using sl_resume.prems sl_resume.hyps(3) by (rule no_stuck_turn)
  then show ?case using sl_resume.hyps(4) by (auto simp: yield_resume_def unlock_Inr_iff intro: no_stuck_cong)
next
  case (sl_retry s j s1 l s')
  have "no_stuck_sleeper s1" using sl_retry.prems sl_retry.hyps(3) by (rule no_stuck_turn)
  then show ?case using scheduler_turn_Some [OF sl_retry.hyps(3)] sl_retry.hyps(2,4) no_stuck_resume(1) by fastforce
next
  case (sl_rewait s j s1 l s2 s')
  have "no_stuck_sleeper s1" using sl_rewait.prems sl_rewait.hyps(3) by (rule no_stuck_turn)
  then have "no_stuck_sleeper s2" using scheduler_turn_Some [OF sl_rewait.hyps(3)] sl_rewait.hyps(2,4) no_stuck_resume(2) by fastforce
  then show ?case using sl_rewait.hyps(5) by (rule no_stuck_back)
qed

section \<open>Sleepers are never forgotten\<close>

text \<open>A process table of four processes, the first running, under the layers above it.\<close>

definition booted :: "'a \<Rightarrow> 'a proc_state_scheme" where
  "booted m = proc_state.extend (four_procs RUNNING (Some 0)) m"

lemma booted_simps [simp]:
  "held (booted m) = []" "mem (booted m) = (\<lambda>_. 0)" "freelist (booted m) = 0" "kend (booted m) = 0x80100000"
  "ptable (booted m) = ptable (four_procs RUNNING (Some 0))" "nextpid (booted m) = 5" "curproc (booted m) = Some 0"
  "initproc (booted m) = Some 0" "proc_state.more (booted m) = m" "use_lock (booted m)" "ticks (booted m) = 0"
  by (simp_all add: booted_def four_procs_def proc_state.defs)

lemma booted_runs: "runs_in 0 (booted m)"
proof -
  have "cpu_inv (four_procs RUNNING (Some 0))" by (rule four_procs_inv) simp_all
  then have ok: "ptable_ok (four_procs RUNNING (Some 0))" by (simp add: cpu_inv_def)
  have "ptable_ok (booted m)" using ok by (simp add: ptable_ok_def four_procs_def)
  then show ?thesis by (simp add: runs_in_def four_procs_nth some_proc_def)
qed

lemma booted_mypid [simp]: "mypid (booted m) = 1"
  by (simp add: mypid_def four_procs_nth some_proc_def)

definition buffer_wait :: slock_state where
  "buffer_wait = upd_proc 3 (\<lambda>p. p\<lparr>chan := ChBuf 0\<rparr>)
     (booted (slock_state.fields (\<lambda>_. \<lparr>sl_locked = 1, sl_name = ''buffer'', sl_pid = 1\<rparr>)))"

lemma buffer_wait_ok:
  "runs_in 0 buffer_wait" "no_stuck_sleeper buffer_wait" "held buffer_wait = []"
  "sleeps_on (sl_chan (SBuf 0)) (pr buffer_wait 3)"
proof -
  let ?b = "booted (slock_state.fields (\<lambda>_. \<lparr>sl_locked = 1, sl_name = ''buffer'', sl_pid = 1\<rparr>)) :: slock_state"
  have len: "length (ptable ?b) = NPROC" by (simp add: four_procs_def)
  have "ptable_ok buffer_wait"
    unfolding buffer_wait_def
    by (rule ptable_ok_upd) (simp_all add: booted_runs [unfolded runs_in_def] same_id_def)
  then show "runs_in 0 buffer_wait" by (simp add: runs_in_def buffer_wait_def four_procs_nth some_proc_def)
  have "slocks buffer_wait l = \<lparr>sl_locked = 1, sl_name = ''buffer'', sl_pid = 1\<rparr>" for l
    by (simp add: buffer_wait_def booted_def four_procs_def proc_state.defs slock_state.defs upd_proc_def)
  then show "no_stuck_sleeper buffer_wait" using len by (simp add: no_stuck_sleeper_def buffer_wait_def)
  show "held buffer_wait = []" by (simp add: buffer_wait_def)
  show "sleeps_on (sl_chan (SBuf 0)) (pr buffer_wait 3)"
    using len by (simp add: buffer_wait_def sleeps_on_def four_procs_nth some_proc_def)
qed



lemma sleep_runs:
  assumes "runs_in i s" and "held s = [l]" and "l \<noteq> L_ptable"
  shows "\<exists>p. (sleep c (Some l) s :: ('a, 'b) pres) =
      Inl (Swtch (s\<lparr>held := [L_ptable], ptable := (ptable s)[i := p]\<rparr>)) \<and> state p = SLEEPING \<and> chan p = c"
proof -
  have ok: "ptable_ok s" "i < length (ptable s)" "curproc s = Some i" "state (pr s i) = RUNNING"
    using assms(1) by (auto simp: runs_in_def ptable_ok_def)
  have "proc_ok (nextpid s) (pr s i)" using assms(1) by (auto simp: runs_in_def ptable_ok_def)
  then have "weight (pr s i) \<noteq> 0" using ok(4) by (intro proc_ok_weight) auto
  then obtain q where q: "(vruntimeupdate (pr s i) :: 'a proc_state_scheme stop + proc) = Inr q"
    by (cases "vruntimeupdate (pr s i) :: 'a proc_state_scheme stop + proc") (auto simp: vruntimeupdate_def Let_def split: if_splits)
  have "(sleep c (Some l) s :: ('a, 'b) pres) =
      Inl (Swtch (s\<lparr>held := [L_ptable], ptable := (ptable s)[i := q\<lparr>chan := c, state := SLEEPING\<rparr>]\<rparr>))"
    using assms(2,3) ok q by (simp add: sleep_def lock_def unlock_def update_runtime_def sched_def myp_def upd_proc_def)
  then show ?thesis by (intro exI [of _ "q\<lparr>chan := c, state := SLEEPING\<rparr>"]) simp
qed

end
