(* ===== verification/Pipe.thy ===== *)
theory Pipe
  imports Sleeplock
begin

text \<open>
  Pipes (\<open>pipe.c\<close>). A \<open>struct pipe\<close> lives in a page from \<open>kalloc\<close>; the pages that hold one are a
  map from page addresses to pipes. The counters \<open>nread\<close> and \<open>nwrite\<close> are 32-bit words that wrap
  around. The bytes a writer passes are read from its memory by the caller, and the bytes a
  reader gets are stored there by the caller. \<open>pipealloc\<close> also allocates file structures and is
  with them.

  The interface \<open>bounded_queue\<close> is what the pipe relies on its ring of bytes for; a reader and a
  writer see a queue of at most \<open>PIPESIZE\<close> bytes.
\<close>

section \<open>Bounded queues\<close>

locale bounded_queue =
  fixes inv :: "'q \<Rightarrow> bool"
    and contents :: "'q \<Rightarrow> 'x list"
    and capacity :: nat
    and put :: "'x \<Rightarrow> 'q \<Rightarrow> 'q"
    and get :: "'q \<Rightarrow> 'x \<times> 'q"
  assumes fits: "inv q \<Longrightarrow> length (contents q) \<le> capacity"
    and put_inv: "inv q \<Longrightarrow> length (contents q) < capacity \<Longrightarrow> inv (put x q)"
    and put_contents: "inv q \<Longrightarrow> length (contents q) < capacity \<Longrightarrow> contents (put x q) = contents q @ [x]"
    and get_inv: "inv q \<Longrightarrow> contents q \<noteq> [] \<Longrightarrow> inv (snd (get q))"
    and get_contents: "inv q \<Longrightarrow> contents q \<noteq> [] \<Longrightarrow> contents q = fst (get q) # contents (snd (get q))"
begin

primrec put_all :: "'x list \<Rightarrow> 'q \<Rightarrow> 'q" where
  "put_all [] q = q"
| "put_all (x # xs) q = put_all xs (put x q)"

lemma put_all_contents:
  assumes "inv q" and "length (contents q) + length xs \<le> capacity"
  shows "inv (put_all xs q) \<and> contents (put_all xs q) = contents q @ xs"
  using assms
proof (induction xs arbitrary: q)
  case (Cons x xs)
  then have "length (contents q) < capacity" by simp
  with put_inv [OF Cons.prems(1) this] put_contents [OF Cons.prems(1) this] Cons show ?case by simp
qed simp

fun get_upto :: "nat \<Rightarrow> 'q \<Rightarrow> 'x list \<times> 'q" where
  "get_upto 0 q = ([], q)"
| "get_upto (Suc n) q =
     (if contents q = [] then ([], q)
      else let (x, q1) = get q; (xs, q2) = get_upto n q1 in (x # xs, q2))"

lemma get_upto_contents:
  assumes "inv q"
  shows "fst (get_upto n q) = take n (contents q) \<and> inv (snd (get_upto n q)) \<and>
    contents (snd (get_upto n q)) = drop n (contents q)"
  using assms
proof (induction n arbitrary: q)
  case (Suc n)
  show ?case
  proof (cases "contents q = []")
    case False
    have "contents q = fst (get q) # contents (snd (get q))" using Suc.prems False by (rule get_contents)
    with Suc.IH [OF get_inv [OF Suc.prems False]] False show ?thesis
      by (auto simp: split_beta Let_def)
  qed (use Suc.prems in simp)
qed simp

end

section \<open>State and operations\<close>

abbreviation (input) PIPESIZE :: uint where "PIPESIZE \<equiv> 512"

record pipe =
  pdata :: "uchar list"
  nread :: uint
  nwrite :: uint
  readopen :: bool
  writeopen :: bool

record pipe_state = slock_state +
  pipes :: "uint \<rightharpoonup> pipe"

type_synonym ('a, 'b) pipres = "('a pipe_state_scheme, 'b) kres"

definition pipe_at :: "uint \<Rightarrow> 'a pipe_state_scheme \<Rightarrow> ('a, pipe) pipres" where
  "pipe_at p s = (case pipes s p of Some q \<Rightarrow> Inr q | None \<Rightarrow> Inl (Fault ''pipe''))"

definition set_pipe :: "uint \<Rightarrow> pipe \<Rightarrow> 'a pipe_state_scheme \<Rightarrow> 'a pipe_state_scheme" where
  "set_pipe p q s = s\<lparr>pipes := (pipes s)(p \<mapsto> q)\<rparr>"

text \<open>\<open>p->data[p->nwrite++ % PIPESIZE] = addr[i]\<close> and \<open>addr[i] = p->data[p->nread++ % PIPESIZE]\<close>.\<close>

definition pipe_put :: "uchar \<Rightarrow> pipe \<Rightarrow> pipe" where
  "pipe_put b q = q\<lparr>pdata := (pdata q)[unat (nwrite q mod PIPESIZE) := b], nwrite := nwrite q + 1\<rparr>"

definition pipe_get :: "pipe \<Rightarrow> uchar \<times> pipe" where
  "pipe_get q = (pdata q ! unat (nread q mod PIPESIZE), q\<lparr>nread := nread q + 1\<rparr>)"

definition pipeclose :: "uint \<Rightarrow> bool \<Rightarrow> 'a pipe_state_scheme \<Rightarrow> ('a, 'a pipe_state_scheme) pipres" where
  "pipeclose p writable s =
     seq (lock (L_pipe p) s) (\<lambda>s.
     seq (pipe_at p s) (\<lambda>q.
     seq (if writable then wakeup (ChPipeR p) (set_pipe p (q\<lparr>writeopen := False\<rparr>) s)
          else wakeup (ChPipeW p) (set_pipe p (q\<lparr>readopen := False\<rparr>) s)) (\<lambda>s.
     seq (pipe_at p s) (\<lambda>q.
     if \<not> readopen q \<and> \<not> writeopen q
     then seq (unlock (L_pipe p) s) (\<lambda>s. kfree p (s\<lparr>pipes := (pipes s)(p := None)\<rparr>))
     else unlock (L_pipe p) s))))"

text \<open>
  The loop of \<open>pipewrite\<close> with the bytes still to be written, entered with the lock held. When
  the pipe is full the writer goes to sleep; \<open>pipewrite_resume\<close> is what runs when it is woken.
\<close>

fun pipewrite_loop :: "uint \<Rightarrow> uchar list \<Rightarrow> int \<Rightarrow> 'a pipe_state_scheme \<Rightarrow> ('a, int \<times> 'a pipe_state_scheme) pipres" where
  "pipewrite_loop p [] n s =
     seq (wakeup (ChPipeR p) s) (\<lambda>s. seq (unlock (L_pipe p) s) (\<lambda>s. Inr (n, s)))"
| "pipewrite_loop p (b # bs) n s =
     seq (pipe_at p s) (\<lambda>q.
     if nwrite q = nread q + PIPESIZE then
       seq (if readopen q then seq (myp s) (\<lambda>i. Inr (killed (pr s i))) else Inr True) (\<lambda>stop.
       if stop then seq (unlock (L_pipe p) s) (\<lambda>s. Inr (-1, s))
       else seq (wakeup (ChPipeR p) s) (\<lambda>s. sleep (ChPipeW p) (Some (L_pipe p)) s))
     else pipewrite_loop p bs n (set_pipe p (pipe_put b q) s))"

definition pipewrite :: "uint \<Rightarrow> uchar list \<Rightarrow> int \<Rightarrow> 'a pipe_state_scheme \<Rightarrow> ('a, int \<times> 'a pipe_state_scheme) pipres" where
  "pipewrite p bs n s = seq (lock (L_pipe p) s) (\<lambda>s. pipewrite_loop p bs n s)"

definition pipewrite_resume :: "uint \<Rightarrow> uchar list \<Rightarrow> int \<Rightarrow> 'a pipe_state_scheme \<Rightarrow> ('a, int \<times> 'a pipe_state_scheme) pipres" where
  "pipewrite_resume p bs n s = seq (sleep_resume (L_pipe p) s) (\<lambda>s. pipewrite_loop p bs n s)"

text \<open>The copying loop of \<open>piperead\<close>, at most \<open>n\<close> times.\<close>

fun pipe_copy :: "nat \<Rightarrow> pipe \<Rightarrow> uchar list \<times> pipe" where
  "pipe_copy 0 q = ([], q)"
| "pipe_copy (Suc n) q =
     (if nread q = nwrite q then ([], q)
      else let (b, q1) = pipe_get q; (bs, q2) = pipe_copy n q1 in (b # bs, q2))"

definition piperead_loop :: "uint \<Rightarrow> int \<Rightarrow> 'a pipe_state_scheme \<Rightarrow> ('a, int \<times> uchar list \<times> 'a pipe_state_scheme) pipres" where
  "piperead_loop p n s =
     seq (pipe_at p s) (\<lambda>q.
     if nread q = nwrite q \<and> writeopen q then
       seq (myp s) (\<lambda>i.
       if killed (pr s i) then seq (unlock (L_pipe p) s) (\<lambda>s. Inr (-1, [], s))
       else sleep (ChPipeR p) (Some (L_pipe p)) s)
     else
       let (bs, q) = pipe_copy (nat n) q
       in seq (wakeup (ChPipeW p) (set_pipe p q s)) (\<lambda>s.
          seq (unlock (L_pipe p) s) (\<lambda>s. Inr (int (length bs), bs, s))))"

definition piperead :: "uint \<Rightarrow> int \<Rightarrow> 'a pipe_state_scheme \<Rightarrow> ('a, int \<times> uchar list \<times> 'a pipe_state_scheme) pipres" where
  "piperead p n s = seq (lock (L_pipe p) s) (\<lambda>s. piperead_loop p n s)"

definition piperead_resume :: "uint \<Rightarrow> int \<Rightarrow> 'a pipe_state_scheme \<Rightarrow> ('a, int \<times> uchar list \<times> 'a pipe_state_scheme) pipres" where
  "piperead_resume p n s = seq (sleep_resume (L_pipe p) s) (\<lambda>s. piperead_loop p n s)"

section \<open>A pipe is a bounded queue\<close>

definition pipe_len :: "pipe \<Rightarrow> nat" where
  "pipe_len q = unat (nwrite q - nread q)"

definition pipe_queue :: "pipe \<Rightarrow> uchar list" where
  "pipe_queue q = map (\<lambda>i. pdata q ! ((unat (nread q) + i) mod 512)) [0..<pipe_len q]"

definition pipe_ok :: "pipe \<Rightarrow> bool" where
  "pipe_ok q \<longleftrightarrow> length (pdata q) = 512 \<and> pipe_len q \<le> 512"

lemma length_pipe_queue [simp]: "length (pipe_queue q) = pipe_len q"
  by (simp add: pipe_queue_def)

lemma unat_add_mod:
  assumes "N dvd 2 ^ 32"
  shows "unat ((a :: uint) + b) mod N = (unat a + unat b) mod N"
  using assms by (simp add: unat_word_ariths mod_mod_cancel)

lemma unat_add_mod_512: "unat ((a :: uint) + b) mod 512 = (unat a + unat b) mod 512"
  by (rule unat_add_mod) simp

lemma ring_index_neq:
  assumes "i < n" and "n - i < (N :: nat)"
  shows "(a + i) mod N \<noteq> (a + n) mod N"
proof
  assume "(a + i) mod N = (a + n) mod N"
  moreover have "a + n = (a + i) + (n - i)" using assms(1) by simp
  ultimately have "N dvd (n - i)" by (metis mod_eq_dvd_iff_nat le_add1 add_diff_cancel_left')
  with assms show False by (auto dest: dvd_imp_le)
qed

lemma pipe_len_put:
  assumes "pipe_len q < 512"
  shows "pipe_len (pipe_put b q) = Suc (pipe_len q)"
proof -
  have "unat (nwrite q - nread q + 1) = unat (nwrite q - nread q) + 1"
    using assms unfolding pipe_len_def by (simp add: unat_word_ariths(1) del: unat_sub_if_size)
  then show ?thesis by (simp add: pipe_len_def pipe_put_def algebra_simps)
qed

lemma pipe_len_get:
  assumes "nread q \<noteq> nwrite q"
  shows "pipe_len q = Suc (pipe_len (snd (pipe_get q)))"
proof -
  have "nwrite q - nread q \<noteq> 0" using assms by simp
  then have "unat (nwrite q - nread q) = Suc (unat (nwrite q - nread q - 1))"
    by (simp add: unat_minus_one unat_gt_0)
  then show ?thesis by (simp add: pipe_len_def pipe_get_def algebra_simps)
qed

lemma pipe_empty_iff: "pipe_queue q = [] \<longleftrightarrow> nread q = nwrite q"
  by (auto simp: pipe_queue_def pipe_len_def unat_eq_0)

lemma pipe_full_iff:
  assumes "pipe_ok q"
  shows "nwrite q = nread q + PIPESIZE \<longleftrightarrow> pipe_len q = 512"
proof
  show "pipe_len q = 512" if "nwrite q = nread q + PIPESIZE"
    using that by (simp add: pipe_len_def)
  assume "pipe_len q = 512"
  then have "unat (nwrite q - nread q) = unat (512 :: uint)" by (simp add: pipe_len_def)
  then have "nwrite q - nread q = 512" by (simp only: word_unat_eq_iff)
  then show "nwrite q = nread q + PIPESIZE" by (simp add: algebra_simps)
qed

lemma pipe_write_index: "unat (nwrite q) mod 512 = (unat (nread q) + pipe_len q) mod 512"
  using unat_add_mod_512 [of "nread q" "nwrite q - nread q"] by (simp add: pipe_len_def)

lemma pipe_put_queue:
  assumes "pipe_ok q" and "pipe_len q < 512"
  shows "pipe_queue (pipe_put b q) = pipe_queue q @ [b]"
proof -
  let ?i = "\<lambda>i. (unat (nread q) + i) mod 512"
  have len: "length (pdata q) = 512" using assms(1) by (simp add: pipe_ok_def)
  have "(pdata q)[?i (pipe_len q) := b] ! ?i i = pdata q ! ?i i" if "i < pipe_len q" for i
  proof (rule nth_list_update_neq)
    show "?i (pipe_len q) \<noteq> ?i i"
      using ring_index_neq [of i "pipe_len q" 512 "unat (nread q)"] that assms(2) by linarith
  qed
  moreover have "(pdata q)[?i (pipe_len q) := b] ! ?i (pipe_len q) = b" using len by simp
  ultimately show ?thesis
    unfolding pipe_queue_def pipe_len_put [OF assms(2)]
    by (simp add: pipe_put_def unat_mod pipe_write_index)
qed

lemma pipe_get_queue:
  assumes "nread q \<noteq> nwrite q"
  shows "pipe_queue q = fst (pipe_get q) # pipe_queue (snd (pipe_get q))"
proof -
  have i: "(unat (nread q + 1) + i) mod 512 = (unat (nread q) + Suc i) mod 512" for i
  proof -
    have "(unat (nread q + 1) + i) mod 512 = (unat (nread q + 1) mod 512 + i) mod 512" by (simp only: mod_add_left_eq)
    also have "\<dots> = ((unat (nread q) + 1) mod 512 + i) mod 512" by (simp only: unat_add_mod_512 unat_1)
    also have "\<dots> = (unat (nread q) + Suc i) mod 512" by (simp only: mod_add_left_eq) simp
    finally show ?thesis .
  qed
  have "pipe_queue q = map (\<lambda>i. pdata q ! ((unat (nread q) + i) mod 512)) (0 # map Suc [0..<pipe_len (snd (pipe_get q))])"
    unfolding pipe_queue_def pipe_len_get [OF assms] by (simp only: upt_conv_Cons map_Suc_upt zero_less_Suc)
  also have "\<dots> = fst (pipe_get q) # pipe_queue (snd (pipe_get q))"
    by (simp add: pipe_queue_def pipe_get_def i unat_mod o_def)
  finally show ?thesis .
qed

interpretation ring: bounded_queue pipe_ok pipe_queue 512 pipe_put pipe_get
proof
  show "length (pipe_queue q) \<le> 512" if "pipe_ok q" for q
    using that by (simp add: pipe_ok_def)
  show "pipe_ok (pipe_put b q)" if "pipe_ok q" "length (pipe_queue q) < 512" for b q
    using that pipe_len_put [of q b] by (simp add: pipe_ok_def) (simp add: pipe_put_def)
  show "pipe_queue (pipe_put b q) = pipe_queue q @ [b]" if "pipe_ok q" "length (pipe_queue q) < 512" for b q
    using that by (simp add: pipe_put_queue)
  show "pipe_ok (snd (pipe_get q))" if "pipe_ok q" "pipe_queue q \<noteq> []" for q
    using that pipe_len_get [of q] by (simp add: pipe_ok_def pipe_empty_iff) (simp add: pipe_get_def)
  show "pipe_queue q = fst (pipe_get q) # pipe_queue (snd (pipe_get q))" if "pipe_ok q" "pipe_queue q \<noteq> []" for q
    using that by (simp add: pipe_get_queue pipe_empty_iff)
qed

lemma pipe_copy_get_upto: "pipe_copy n q = ring.get_upto n q"
proof (induction n arbitrary: q)
  case (Suc n)
  then show ?case by (simp add: pipe_empty_iff split_beta Let_def)
qed simp

lemma pipe_copy_queue:
  assumes "pipe_ok q"
  shows "fst (pipe_copy n q) = take n (pipe_queue q)" "pipe_ok (snd (pipe_copy n q))"
    "pipe_queue (snd (pipe_copy n q)) = drop n (pipe_queue q)"
  using ring.get_upto_contents [OF assms, of n] by (simp_all add: pipe_copy_get_upto)

lemma pipe_at_Some [simp]: "pipes s p = Some q \<Longrightarrow> pipe_at p s = Inr q"
  by (simp add: pipe_at_def)

lemma set_pipe_simps [simp]:
  "held (set_pipe p q s) = held s" "ptable (set_pipe p q s) = ptable s" "curproc (set_pipe p q s) = curproc s"
  "nextpid (set_pipe p q s) = nextpid s" "pipes (set_pipe p q s) = (pipes s)(p \<mapsto> q)" "mem (set_pipe p q s) = mem s"
  by (simp_all add: set_pipe_def)

lemma runs_in_upd [simp]:
  "runs_in i (s\<lparr>held := h\<rparr>) = runs_in i s" "runs_in i (set_pipe p q t) = runs_in i t"
  by (simp_all add: runs_in_def ptable_ok_def)

lemma woke_pipes: "woke s s' \<Longrightarrow> pipes s' = pipes s"
proof -
  assume "woke s s'"
  then have s': "s' = s\<lparr>ptable := ptable s'\<rparr>" unfolding woke_def by blast
  show "pipes s' = pipes s" by (subst s') simp
qed

text \<open>What a process that has gone to sleep leaves behind.\<close>

definition asleep :: "nat \<Rightarrow> chan \<Rightarrow> 'a proc_state_scheme \<Rightarrow> bool" where
  "asleep i c s \<longleftrightarrow> held s = [L_ptable] \<and> i < length (ptable s) \<and> sleeps_on c (pr s i)"

lemma wake_then_sleep:
  assumes "runs_in i s" and "held s = [l]" and "l \<noteq> L_ptable" and "woke s s1"
  shows "\<exists>s'. (sleep c (Some l) s1 :: ('a, 'b) pres) = Inl (Swtch s') \<and> asleep i c s' \<and>
    s' = s\<lparr>held := [L_ptable], ptable := ptable s'\<rparr>"
proof -
  have r: "runs_in i s1" using woke_runs_in(1) [OF assms(4,1)] .
  have h: "held s1 = [l]" using assms(2,4) by (simp add: woke_frame(1))
  from sleep_runs [OF r h assms(3)] obtain p where p:
      "(sleep c (Some l) s1 :: ('a, 'b) pres) = Inl (Swtch (s1\<lparr>held := [L_ptable], ptable := (ptable s1)[i := p]\<rparr>))"
      "state p = SLEEPING" "chan p = c" by blast
  have s1: "s1 = s\<lparr>ptable := ptable s1\<rparr>" using assms(4) unfolding woke_def by blast
  have "s1\<lparr>held := [L_ptable], ptable := (ptable s1)[i := p]\<rparr> = s\<lparr>held := [L_ptable], ptable := (ptable s1)[i := p]\<rparr>"
    by (subst (1) s1) simp
  with p r show ?thesis
    by (intro exI [of _ "s1\<lparr>held := [L_ptable], ptable := (ptable s1)[i := p]\<rparr>"])
      (simp add: asleep_def sleeps_on_def runs_in_def ptable_ok_def)
qed

lemma wake_then_unlock:
  assumes "runs_in i s" and "held s = [l]" and "l \<noteq> L_ptable"
  shows "\<exists>s'. seq (wakeup c s) (\<lambda>s. unlock l s) = Inr s' \<and> woke (s\<lparr>held := []\<rparr>) s'"
proof -
  obtain s1 where s1: "wakeup c s = Inr s1" "woke s s1" using wakeup_runs [OF assms(1), of c] assms(2,3) by auto
  have "held s1 = [l]" using s1(2) assms(2) by (simp add: woke_frame(1))
  then have u: "unlock l s1 = Inr (s1\<lparr>held := []\<rparr>)" by (simp add: unlock_def)
  have e: "s1 = s\<lparr>ptable := ptable s1\<rparr>" using s1(2) unfolding woke_def by blast
  have e': "s1\<lparr>held := []\<rparr> = (s\<lparr>held := []\<rparr>)\<lparr>ptable := ptable s1\<rparr>" by (subst e) simp
  have "woke (s\<lparr>held := []\<rparr>) ((s\<lparr>held := []\<rparr>)\<lparr>ptable := ptable s1\<rparr>)"
    using s1(2) by (simp add: woke_def)
  then show ?thesis using s1(1) u e' by (intro exI [of _ "s1\<lparr>held := []\<rparr>"]) simp
qed

lemma pipewrite_loop_refines:
  assumes "runs_in i s" and "held s = [L_pipe p]" and "pipes s p = Some q" and "pipe_ok q"
  shows "\<exists>q'. pipe_ok q' \<and> pipe_queue q' = pipe_queue q @ take (512 - length (pipe_queue q)) bs \<and>
    (if length (pipe_queue q) + length bs \<le> 512
     then \<exists>s'. pipewrite_loop p bs n s = Inr (n, s') \<and> pipes s' = (pipes s)(p \<mapsto> q') \<and> runs_in i s' \<and> held s' = []
     else if \<not> readopen q \<or> killed (pr s i)
     then \<exists>s'. pipewrite_loop p bs n s = Inr (-1, s') \<and> pipes s' = (pipes s)(p \<mapsto> q') \<and> runs_in i s' \<and> held s' = []
     else \<exists>s'. pipewrite_loop p bs n s = Inl (Swtch s') \<and> pipes s' = (pipes s)(p \<mapsto> q') \<and> asleep i (ChPipeW p) s')"
  using assms
proof (induction bs arbitrary: s q)
  case Nil
  from wake_then_unlock [OF Nil(1,2), of "ChPipeR p"] obtain s' where
    s': "seq (wakeup (ChPipeR p) s) (\<lambda>s. unlock (L_pipe p) s) = Inr s'" "woke (s\<lparr>held := []\<rparr>) s'" by auto
  have "pipewrite_loop p [] n s = Inr (n, s')" using s'(1) by (auto simp: seq_eq_Inr_iff)
  moreover have "runs_in i s'" using s'(2) by (rule woke_runs_in(1)) (simp add: Nil(1))
  moreover have "pipes s' = (pipes s)(p \<mapsto> q)" using woke_pipes [OF s'(2)] Nil(3) by (auto simp: fun_upd_idem)
  moreover have "held s' = []" using woke_frame(1) [OF s'(2)] by simp
  ultimately show ?case using Nil(4) ring.fits [OF Nil(4)] by (intro exI [of _ q]) auto
next
  case (Cons b bs)
  note len = ring.fits [OF Cons.prems(4)]
  show ?case
  proof (cases "pipe_len q = 512")
    case True
    then have full: "nwrite q = nread q + PIPESIZE" using pipe_full_iff [OF Cons.prems(4)] by simp
    have same: "(pipes s)(p \<mapsto> q) = pipes s" using Cons.prems(3) by (auto simp: fun_upd_idem)
    have cur: "curproc s = Some i" using Cons.prems(1) by (simp add: runs_in_def)
    show ?thesis
    proof (cases "\<not> readopen q \<or> killed (pr s i)")
      case stop: True
      then have "pipewrite_loop p (b # bs) n s = Inr (-1, s\<lparr>held := []\<rparr>)"
        using full Cons.prems(2,3) cur by (auto simp: myp_def unlock_def)
      with True stop same Cons.prems show ?thesis
        by (intro exI [of _ q]) auto
    next
      case False
      obtain s1 where s1: "wakeup (ChPipeR p) s = Inr s1" "woke s s1"
        using wakeup_runs [OF Cons.prems(1), of "ChPipeR p"] Cons.prems(2) by auto
      from wake_then_sleep [OF Cons.prems(1,2) _ s1(2), of "ChPipeW p"] obtain s' where
        s': "(sleep (ChPipeW p) (Some (L_pipe p)) s1 :: ('a, int \<times> 'a pipe_state_scheme) pipres) = Inl (Swtch s')"
          "asleep i (ChPipeW p) s'" "s' = s\<lparr>held := [L_ptable], ptable := ptable s'\<rparr>" by auto
      have "pipes s' = pipes s" by (subst s'(3)) simp
      moreover have "pipewrite_loop p (b # bs) n s = Inl (Swtch s')"
        using full Cons.prems(3) False cur s1(1) s'(1) by (simp add: myp_def)
      ultimately show ?thesis using True False same s'(2) Cons.prems(4) by (intro exI [of _ q]) auto
    qed
  next
    case False
    with len have lt: "pipe_len q < 512" by simp
    let ?s = "set_pipe p (pipe_put b q) s"
    have nf: "nwrite q \<noteq> nread q + PIPESIZE" using pipe_full_iff [OF Cons.prems(4)] False by simp
    have loop: "pipewrite_loop p (b # bs) n s = pipewrite_loop p bs n ?s" using nf Cons.prems(3) by simp
    have r: "runs_in i ?s" using Cons.prems(1) by simp
    have ok: "pipe_ok (pipe_put b q)" using ring.put_inv [OF Cons.prems(4)] lt by simp
    have qq: "pipe_queue (pipe_put b q) = pipe_queue q @ [b]" using pipe_put_queue [OF Cons.prems(4) lt] .
    have ro: "readopen (pipe_put b q) = readopen q" by (simp add: pipe_put_def)
    obtain k where k: "512 - pipe_len q = Suc k" using lt by (cases "512 - pipe_len q") auto
    have k': "512 - length (pipe_queue (pipe_put b q)) = k" using k pipe_len_put [OF lt, of b] by simp
    have h: "held ?s = [L_pipe p]" "pipes ?s p = Some (pipe_put b q)" using Cons.prems(2) by simp_all
    have fit: "length (pipe_queue q) + length (b # bs) \<le> 512 \<longleftrightarrow> length (pipe_queue (pipe_put b q)) + length bs \<le> 512"
      by (simp add: qq)
    have tk: "pipe_queue q @ take (512 - length (pipe_queue q)) (b # bs) =
        pipe_queue (pipe_put b q) @ take (512 - length (pipe_queue (pipe_put b q))) bs"
      using k k' by (simp add: qq)
    have up: "(pipes ?s)(p \<mapsto> q') = (pipes s)(p \<mapsto> q')" for q' by simp
    have pt: "ptable ?s = ptable s" by simp
    show ?thesis
      unfolding loop fit tk using Cons.IH [OF r h ok] unfolding up ro pt .
  qed
qed

lemma piperead_loop_refines:
  assumes "runs_in i s" and "held s = [L_pipe p]" and "pipes s p = Some q" and "pipe_ok q"
  shows "if pipe_queue q = [] \<and> writeopen q
    then if killed (pr s i) then piperead_loop p n s = Inr (-1, [], s\<lparr>held := []\<rparr>)
         else \<exists>s'. piperead_loop p n s = Inl (Swtch s') \<and> pipes s' = pipes s \<and> asleep i (ChPipeR p) s'
    else \<exists>s' q'. piperead_loop p n s = Inr (int (min (nat n) (length (pipe_queue q))), take (nat n) (pipe_queue q), s') \<and>
       pipes s' = (pipes s)(p \<mapsto> q') \<and> pipe_ok q' \<and> pipe_queue q' = drop (nat n) (pipe_queue q) \<and>
       runs_in i s' \<and> held s' = []"
proof (cases "pipe_queue q = [] \<and> writeopen q")
  case True
  then have e: "nread q = nwrite q \<and> writeopen q" by (simp add: pipe_empty_iff)
  have cur: "curproc s = Some i" using assms(1) by (simp add: runs_in_def)
  from wake_then_sleep [OF assms(1,2) _ woke_refl, of "ChPipeR p"] obtain s' where
    s': "(sleep (ChPipeR p) (Some (L_pipe p)) s :: ('a, int \<times> uchar list \<times> 'a pipe_state_scheme) pipres) = Inl (Swtch s')"
      "asleep i (ChPipeR p) s'" "s' = s\<lparr>held := [L_ptable], ptable := ptable s'\<rparr>" by auto
  have "pipes s' = pipes s" by (subst s'(3)) simp
  with True e cur s' assms(2,3) show ?thesis
    by (simp add: piperead_loop_def myp_def unlock_def)
next
  case False
  then have e: "\<not> (nread q = nwrite q \<and> writeopen q)" by (simp add: pipe_empty_iff)
  define q' where "q' = snd (pipe_copy (nat n) q)"
  have c: "pipe_copy (nat n) q = (take (nat n) (pipe_queue q), q')" "pipe_ok q'" "pipe_queue q' = drop (nat n) (pipe_queue q)"
    using pipe_copy_queue [OF assms(4), of "nat n"] by (auto simp: q'_def prod_eq_iff)
  have r: "runs_in i (set_pipe p q' s)" "held (set_pipe p q' s) = [L_pipe p]" using assms(1,2) by simp_all
  from wake_then_unlock [OF r, of "ChPipeW p"] obtain s' where
    s': "seq (wakeup (ChPipeW p) (set_pipe p q' s)) (\<lambda>s. unlock (L_pipe p) s) = Inr s'"
      "woke ((set_pipe p q' s)\<lparr>held := []\<rparr>) s'" by auto
  have "piperead_loop p n s = Inr (int (min (nat n) (length (pipe_queue q))), take (nat n) (pipe_queue q), s')"
    using e assms(3) s'(1) by (auto simp: piperead_loop_def c(1) seq_eq_Inr_iff min.commute)
  moreover have "pipes s' = (pipes s)(p \<mapsto> q')" using woke_pipes [OF s'(2)] by simp
  moreover have "runs_in i s'" using s'(2) by (rule woke_runs_in(1)) (simp add: assms(1))
  moreover have "held s' = []" using woke_frame(1) [OF s'(2)] by simp
  ultimately show ?thesis using False c(2,3) by auto
qed

text \<open>
  C5: a pipe is a queue of at most 512 bytes. \<open>pipewrite\<close> appends all the bytes and returns their
  number when they fit; otherwise it fills the queue and goes to sleep, or returns -1 when the
  read end is closed or the writer has been killed. \<open>piperead\<close> sleeps (or returns -1 when killed)
  while the queue is empty and the write end open; otherwise it returns the first bytes of the
  queue and leaves the rest, so bytes come out in the order they went in, none lost and none
  twice, also when the 32-bit counters wrap around.
\<close>

theorem pipe_fifo:
  assumes "runs_in i s" and "held s = []" and "pipes s p = Some q" and "pipe_ok q"
  shows "(\<exists>q'. pipe_ok q' \<and> pipe_queue q' = pipe_queue q @ take (512 - length (pipe_queue q)) bs \<and>
      (if length (pipe_queue q) + length bs \<le> 512
       then \<exists>s'. pipewrite p bs n s = Inr (n, s') \<and> pipes s' = (pipes s)(p \<mapsto> q') \<and> runs_in i s' \<and> held s' = []
       else if \<not> readopen q \<or> killed (pr s i)
       then \<exists>s'. pipewrite p bs n s = Inr (-1, s') \<and> pipes s' = (pipes s)(p \<mapsto> q') \<and> runs_in i s' \<and> held s' = []
       else \<exists>s'. pipewrite p bs n s = Inl (Swtch s') \<and> pipes s' = (pipes s)(p \<mapsto> q') \<and> asleep i (ChPipeW p) s')) \<and>
    (if pipe_queue q = [] \<and> writeopen q
     then if killed (pr s i) then piperead p n s = Inr (-1, [], s)
          else \<exists>s'. piperead p n s = Inl (Swtch s') \<and> pipes s' = pipes s \<and> asleep i (ChPipeR p) s'
     else \<exists>s' q'. piperead p n s = Inr (int (min (nat n) (length (pipe_queue q))), take (nat n) (pipe_queue q), s') \<and>
        pipes s' = (pipes s)(p \<mapsto> q') \<and> pipe_ok q' \<and> pipe_queue q' = drop (nat n) (pipe_queue q) \<and>
        runs_in i s' \<and> held s' = [])"
proof -
  let ?s = "s\<lparr>held := [L_pipe p]\<rparr>"
  have h: "runs_in i ?s" "held ?s = [L_pipe p]" "pipes ?s p = Some q" using assms by simp_all
  have e: "pipewrite p bs n s = pipewrite_loop p bs n ?s" "piperead p n s = piperead_loop p n ?s"
    using assms(2) by (simp_all add: pipewrite_def piperead_def lock_def)
  have f: "pipes ?s = pipes s" "ptable ?s = ptable s" "?s\<lparr>held := []\<rparr> = s" using assms(2) by simp_all
  show ?thesis
    unfolding e using pipewrite_loop_refines [OF h assms(4), of bs n] piperead_loop_refines [OF h assms(4), of n]
    unfolding f by (rule conjI)
qed

definition pipe_world :: "uint \<Rightarrow> pipe \<Rightarrow> pipe_state" where
  "pipe_world p q = booted (slock_state_ext (\<lambda>_. \<lparr>sl_locked = 0, sl_name = [], sl_pid = 0\<rparr>)
     (pipe_state.fields [p \<mapsto> q]))"

lemma pipes_pipe_world [simp]: "pipes (pipe_world p q) = [p \<mapsto> q]"
  by (simp add: pipe_world_def booted_def four_procs_def proc_state.defs pipe_state.defs)

definition wrapping_pipe :: pipe where
  "wrapping_pipe = \<lparr>pdata = replicate 512 7, nread = 0xFFFFFFFF, nwrite = 0xFFFFFFFF, readopen = True, writeopen = True\<rparr>"

theorem pipe_fifo_witness:
  "\<exists>s'. pipewrite 0x80200000 [1, 2, 3] 3 (pipe_world 0x80200000 wrapping_pipe) = Inr (3, s')"
proof -
  have q: "pipe_ok wrapping_pipe" "pipe_queue wrapping_pipe = []"
    by (simp_all add: wrapping_pipe_def pipe_ok_def pipe_len_def pipe_queue_def)
  have r: "runs_in 0 (pipe_world 0x80200000 wrapping_pipe)" "held (pipe_world 0x80200000 wrapping_pipe) = []"
    by (simp_all add: pipe_world_def booted_runs)
  from pipe_fifo [OF r _ q(1), of "0x80200000" "[1, 2, 3]" 3] q(2) show ?thesis by auto
qed

end
