(* ===== verification/Layout.thy ===== *)
theory Layout
  imports Prelude
begin

text \<open>
  The structures that live in disk blocks (\<open>fs.h\<close>) and in executable files (\<open>elf.h\<close>) as bytes: 16-
  and 32-bit little-endian integers at an offset, the super block, the on-disk inode, the
  directory entry and the ELF headers. The C code casts a pointer into the block to a pointer to
  the structure; here reading and writing a field is reading and writing its bytes.
\<close>

section \<open>Integers in byte lists\<close>

definition put_bytes :: "nat \<Rightarrow> uchar list \<Rightarrow> uchar list \<Rightarrow> uchar list" where
  "put_bytes off bs d = take off d @ bs @ drop (off + length bs) d"

definition enc16 :: "ushort \<Rightarrow> uchar list" where
  "enc16 w = [ucast w, ucast (drop_bit 8 w)]"

definition enc32 :: "uint \<Rightarrow> uchar list" where
  "enc32 w = [ucast w, ucast (drop_bit 8 w), ucast (drop_bit 16 w), ucast (drop_bit 24 w)]"

definition get16 :: "uchar list \<Rightarrow> nat \<Rightarrow> ushort" where
  "get16 d i = ucast (d ! i) OR push_bit 8 (ucast (d ! (i + 1)))"

definition get32 :: "uchar list \<Rightarrow> nat \<Rightarrow> uint" where
  "get32 d i = ucast (d ! i) OR push_bit 8 (ucast (d ! (i + 1))) OR
     push_bit 16 (ucast (d ! (i + 2))) OR push_bit 24 (ucast (d ! (i + 3)))"

definition put16 :: "nat \<Rightarrow> ushort \<Rightarrow> uchar list \<Rightarrow> uchar list" where
  "put16 i w d = put_bytes i (enc16 w) d"

definition put32 :: "nat \<Rightarrow> uint \<Rightarrow> uchar list \<Rightarrow> uchar list" where
  "put32 i w d = put_bytes i (enc32 w) d"

lemma length_enc [simp]: "length (enc16 v) = 2" "length (enc32 w) = 4"
  by (simp_all add: enc16_def enc32_def)

lemma length_put_bytes [simp]: "off + length bs \<le> length d \<Longrightarrow> length (put_bytes off bs d) = length d"
  by (simp add: put_bytes_def)

lemma nth_put_bytes:
  "off + length bs \<le> length d \<Longrightarrow> i < length d \<Longrightarrow>
   put_bytes off bs d ! i = (if off \<le> i \<and> i < off + length bs then bs ! (i - off) else d ! i)"
  by (auto simp: put_bytes_def nth_append min_def)

lemma take_drop_put_bytes [simp]:
  "off + length bs \<le> length d \<Longrightarrow> take (length bs) (drop off (put_bytes off bs d)) = bs"
  by (simp add: put_bytes_def)

lemma length_put [simp]:
  "i + 2 \<le> length d \<Longrightarrow> length (put16 i v d) = length d" "i + 4 \<le> length d \<Longrightarrow> length (put32 i w d) = length d"
  by (simp_all add: put16_def put32_def)

lemma halves_of_word:
  "ucast (ucast v :: uchar) OR push_bit 8 (ucast (ucast (drop_bit 8 v) :: uchar)) = v" (is "?b = v") for v :: ushort
proof (rule bit_word_eqI)
  fix n
  assume "n < LENGTH(16)"
  then consider "n < 8" | "8 \<le> n \<and> n < 16" by force
  then show "bit ?b n = bit v n" by cases (auto simp: bit_simps)
qed

lemma get32_put32_same [simp]:
  assumes "i + 4 \<le> length d"
  shows "get32 (put32 i w d) i = w"
proof -
  have "put32 i w d ! i = enc32 w ! 0" "put32 i w d ! (i + 1) = enc32 w ! 1"
    "put32 i w d ! (i + 2) = enc32 w ! 2" "put32 i w d ! (i + 3) = enc32 w ! 3"
    using assms by (simp_all add: put32_def nth_put_bytes)
  then show ?thesis using bytes_of_word [of w] by (simp add: get32_def enc32_def numeral_2_eq_2 numeral_3_eq_3)
qed

lemma get16_put16_same [simp]:
  assumes "i + 2 \<le> length d"
  shows "get16 (put16 i w d) i = w"
proof -
  have "put16 i w d ! i = enc16 w ! 0" "put16 i w d ! (i + 1) = enc16 w ! 1"
    using assms by (simp_all add: put16_def nth_put_bytes)
  then show ?thesis using halves_of_word [of w] by (simp add: get16_def enc16_def)
qed

lemma get32_put_apart:
  "j + 4 \<le> length d \<Longrightarrow> off + length bs \<le> length d \<Longrightarrow> j + 4 \<le> off \<or> off + length bs \<le> j \<Longrightarrow> get32 (put_bytes off bs d) j = get32 d j"
  by (auto simp: get32_def nth_put_bytes)

lemma get16_put_apart:
  "j + 2 \<le> length d \<Longrightarrow> off + length bs \<le> length d \<Longrightarrow> j + 2 \<le> off \<or> off + length bs \<le> j \<Longrightarrow> get16 (put_bytes off bs d) j = get16 d j"
  by (auto simp: get16_def nth_put_bytes)

lemma get_put_apart:
  "j + 4 \<le> length d \<Longrightarrow> i + 4 \<le> length d \<Longrightarrow> j + 4 \<le> i \<or> i + 4 \<le> j \<Longrightarrow> get32 (put32 i w d) j = get32 d j"
  "j + 4 \<le> length d \<Longrightarrow> i + 2 \<le> length d \<Longrightarrow> j + 4 \<le> i \<or> i + 2 \<le> j \<Longrightarrow> get32 (put16 i v d) j = get32 d j"
  "j + 2 \<le> length d \<Longrightarrow> i + 4 \<le> length d \<Longrightarrow> j + 2 \<le> i \<or> i + 4 \<le> j \<Longrightarrow> get16 (put32 i w d) j = get16 d j"
  "j + 2 \<le> length d \<Longrightarrow> i + 2 \<le> length d \<Longrightarrow> j + 2 \<le> i \<or> i + 2 \<le> j \<Longrightarrow> get16 (put16 i v d) j = get16 d j"
  by (auto simp: put32_def put16_def intro!: get32_put_apart get16_put_apart)

lemma sint_of_nat_small: "n < 2 ^ 31 \<Longrightarrow> sint (of_nat n :: uint) = int n"
  by (simp add: signed_of_nat signed_take_bit_int_eq_self)

section \<open>Arrays of 32-bit integers\<close>

fun put32s :: "nat \<Rightarrow> uint list \<Rightarrow> uchar list \<Rightarrow> uchar list" where
  "put32s i [] d = d"
| "put32s i (w # ws) d = put32s (i + 4) ws (put32 i w d)"

definition get32s :: "uchar list \<Rightarrow> nat \<Rightarrow> nat \<Rightarrow> uint list" where
  "get32s d i n = map (\<lambda>k. get32 d (i + 4 * k)) [0..<n]"

lemma length_put32s [simp]: "i + 4 * length ws \<le> length d \<Longrightarrow> length (put32s i ws d) = length d"
  by (induction ws arbitrary: i d) simp_all

lemma get32_put32s_before:
  "i + 4 * length ws \<le> length d \<Longrightarrow> j + 4 \<le> i \<Longrightarrow> get32 (put32s i ws d) j = get32 d j"
  by (induction ws arbitrary: i d) (simp_all add: get_put_apart)

lemma get32_put32s:
  assumes "i + 4 * length ws \<le> length d" and "k < length ws"
  shows "get32 (put32s i ws d) (i + 4 * k) = ws ! k"
  using assms
proof (induction ws arbitrary: i d k)
  case (Cons w ws)
  show ?case
  proof (cases k)
    case 0
    with Cons.prems show ?thesis by (simp add: get32_put32s_before)
  next
    case (Suc j)
    with Cons.IH [of "i + 4" "put32 i w d" j] Cons.prems show ?thesis by (simp add: algebra_simps)
  qed
qed simp

lemma get32s_put32s [simp]:
  "i + 4 * length ws \<le> length d \<Longrightarrow> get32s (put32s i ws d) i (length ws) = ws"
  by (intro nth_equalityI) (simp_all add: get32s_def get32_put32s)

lemma length_get32s [simp]: "length (get32s d i n) = n"
  by (simp add: get32s_def)

section \<open>Super block\<close>

record superblock =
  sb_size :: uint
  sb_nblocks :: uint
  sb_ninodes :: uint
  sb_nlog :: uint
  sb_logstart :: uint
  sb_inodestart :: uint
  sb_bmapstart :: uint

definition dec_superblock :: "uchar list \<Rightarrow> superblock" where
  "dec_superblock d = \<lparr>sb_size = get32 d 0, sb_nblocks = get32 d 4, sb_ninodes = get32 d 8, sb_nlog = get32 d 12,
     sb_logstart = get32 d 16, sb_inodestart = get32 d 20, sb_bmapstart = get32 d 24\<rparr>"

end
