(* ===== verification/Bio.thy ===== *)
theory Bio
  imports Pipe Layout
begin

text \<open>
  The buffer cache (\<open>bio.c\<close>) over the disk driver of \<open>memide.c\<close>, which copies blocks to and from
  an array in memory. Buffers are \<open>NBUF\<close> entries linked in a ring through \<open>prev\<close> and \<open>next\<close>; a
  pointer to a buffer is its index, and index \<open>NBUF\<close> is the list head \<open>bcache.head\<close>. A scan of the
  ring that has not come back to the head after \<open>NBUF + 1\<close> steps never does, which is the outcome
  \<open>Diverge\<close>. The disk is a map from block numbers to blocks of \<open>BSIZE\<close> bytes, with the
  list of the writes made to it, oldest first.
\<close>

section \<open>State and operations\<close>

abbreviation (input) BSIZE :: nat where "BSIZE \<equiv> 512"
abbreviation (input) B_VALID :: uint where "B_VALID \<equiv> 2"
abbreviation (input) B_DIRTY :: uint where "B_DIRTY \<equiv> 4"
abbreviation (input) b_head :: nat where "b_head \<equiv> 30"

record buf =
  b_flags :: uint
  b_dev :: uint
  b_blockno :: uint
  b_refcnt :: uint
  b_prev :: nat
  b_next :: nat
  b_data :: "uchar list"

type_synonym block = "uchar list"

record bio_state = pipe_state +
  bufs :: "nat \<Rightarrow> buf"
  disk :: "uint \<Rightarrow> block"
  disksize :: uint
  dwrites :: "(uint \<times> block) list"

type_synonym ('a, 'b) bres = "('a bio_state_scheme, 'b) kres"

definition upd_buf :: "nat \<Rightarrow> (buf \<Rightarrow> buf) \<Rightarrow> 'a bio_state_scheme \<Rightarrow> 'a bio_state_scheme" where
  "upd_buf b f s = s\<lparr>bufs := (bufs s)(b := f (bufs s b))\<rparr>"

definition iderw :: "nat \<Rightarrow> 'a bio_state_scheme \<Rightarrow> ('a, 'a bio_state_scheme) bres" where
  "iderw b s =
     seq (holdingsleep (SBuf b) s) (\<lambda>(h, s).
     let x = bufs s b in
     if \<not> h then Inl (Panic ''iderw: buf not locked'')
     else if b_flags x AND (B_VALID OR B_DIRTY) = B_VALID then Inl (Panic ''iderw: nothing to do'')
     else if b_dev x \<noteq> 1 then Inl (Panic ''iderw: request not for disk 1'')
     else if b_blockno x \<ge> disksize s then Inl (Panic ''iderw: block out of range'')
     else
       let s = (if b_flags x AND B_DIRTY \<noteq> 0
                then (upd_buf b (\<lambda>x. x\<lparr>b_flags := b_flags x AND NOT B_DIRTY\<rparr>) s)
                       \<lparr>disk := (disk s)(b_blockno x := b_data x),
                        dwrites := dwrites s @ [(b_blockno x, b_data x)]\<rparr>
                else upd_buf b (\<lambda>y. y\<lparr>b_data := disk s (b_blockno x)\<rparr>) s)
       in Inr (upd_buf b (\<lambda>x. x\<lparr>b_flags := b_flags x OR B_VALID\<rparr>) s))"

text \<open>\<open>binit\<close>: every buffer in turn becomes the first of the ring.\<close>

definition link_first :: "nat \<Rightarrow> 'a bio_state_scheme \<Rightarrow> 'a bio_state_scheme" where
  "link_first b s =
     (let s = upd_buf b (\<lambda>x. x\<lparr>b_next := b_next (bufs s b_head)\<rparr>) s;
          s = upd_buf b (\<lambda>x. x\<lparr>b_prev := b_head\<rparr>) s;
          s = upd_buf (b_next (bufs s b_head)) (\<lambda>x. x\<lparr>b_prev := b\<rparr>) s
      in upd_buf b_head (\<lambda>x. x\<lparr>b_next := b\<rparr>) s)"

fun binit_from :: "nat list \<Rightarrow> 'a bio_state_scheme \<Rightarrow> 'a bio_state_scheme" where
  "binit_from [] s = s"
| "binit_from (b # bs) s = binit_from bs (link_first b (initsleeplock (SBuf b) ''buffer'' s))"

definition binit :: "'a bio_state_scheme \<Rightarrow> 'a bio_state_scheme" where
  "binit s =
     (let s = upd_buf b_head (\<lambda>x. x\<lparr>b_prev := b_head\<rparr>) s;
          s = upd_buf b_head (\<lambda>x. x\<lparr>b_next := b_head\<rparr>) s
      in binit_from [0..<NBUF] s)"

text \<open>The scans of \<open>bget\<close>: from \<open>b\<close> along \<open>step\<close> to the first buffer that satisfies \<open>P\<close>.\<close>

fun bscan :: "nat \<Rightarrow> (nat \<Rightarrow> nat) \<Rightarrow> (nat \<Rightarrow> bool) \<Rightarrow> nat \<Rightarrow> 's stop + nat option" where
  "bscan 0 step P b = Inl Diverge"
| "bscan (Suc n) step P b =
     (if b = b_head then Inr None
      else if P b then Inr (Some b)
      else bscan n step P (step b))"

definition bget :: "uint \<Rightarrow> uint \<Rightarrow> 'a bio_state_scheme \<Rightarrow> ('a, nat \<times> 'a bio_state_scheme) bres" where
  "bget dev blockno s =
     seq (lock L_bcache s) (\<lambda>s.
     seq (bscan (NBUF + 1) (\<lambda>b. b_next (bufs s b))
            (\<lambda>b. b_dev (bufs s b) = dev \<and> b_blockno (bufs s b) = blockno) (b_next (bufs s b_head))) (\<lambda>r.
     case r of
       Some b \<Rightarrow>
         seq (unlock L_bcache (upd_buf b (\<lambda>x. x\<lparr>b_refcnt := b_refcnt x + 1\<rparr>) s)) (\<lambda>s.
         seq (acquiresleep (SBuf b) s) (\<lambda>s. Inr (b, s)))
     | None \<Rightarrow>
         seq (bscan (NBUF + 1) (\<lambda>b. b_prev (bufs s b))
                (\<lambda>b. b_refcnt (bufs s b) = 0 \<and> b_flags (bufs s b) AND B_DIRTY = 0) (b_prev (bufs s b_head))) (\<lambda>r.
         case r of
           Some b \<Rightarrow>
             seq (unlock L_bcache (upd_buf b
                    (\<lambda>x. x\<lparr>b_dev := dev, b_blockno := blockno, b_flags := 0, b_refcnt := 1\<rparr>) s)) (\<lambda>s.
             seq (acquiresleep (SBuf b) s) (\<lambda>s. Inr (b, s)))
         | None \<Rightarrow> Inl (Panic ''bget: no buffers''))))"

definition bread :: "uint \<Rightarrow> uint \<Rightarrow> 'a bio_state_scheme \<Rightarrow> ('a, nat \<times> 'a bio_state_scheme) bres" where
  "bread dev blockno s =
     seq (bget dev blockno s) (\<lambda>(b, s).
     seq (if b_flags (bufs s b) AND B_VALID = 0 then iderw b s else Inr s) (\<lambda>s. Inr (b, s)))"

definition bwrite :: "nat \<Rightarrow> 'a bio_state_scheme \<Rightarrow> ('a, 'a bio_state_scheme) bres" where
  "bwrite b s =
     seq (holdingsleep (SBuf b) s) (\<lambda>(h, s).
     if \<not> h then Inl (Panic ''bwrite'')
     else iderw b (upd_buf b (\<lambda>x. x\<lparr>b_flags := b_flags x OR B_DIRTY\<rparr>) s))"

definition unlink_buf :: "nat \<Rightarrow> 'a bio_state_scheme \<Rightarrow> 'a bio_state_scheme" where
  "unlink_buf b s =
     (let s = upd_buf (b_next (bufs s b)) (\<lambda>x. x\<lparr>b_prev := b_prev (bufs s b)\<rparr>) s
      in upd_buf (b_prev (bufs s b)) (\<lambda>x. x\<lparr>b_next := b_next (bufs s b)\<rparr>) s)"

definition brelse :: "nat \<Rightarrow> 'a bio_state_scheme \<Rightarrow> ('a, 'a bio_state_scheme) bres" where
  "brelse b s =
     seq (holdingsleep (SBuf b) s) (\<lambda>(h, s).
     if \<not> h then Inl (Panic ''brelse'')
     else
       seq (releasesleep (SBuf b) s) (\<lambda>s.
       seq (lock L_bcache s) (\<lambda>s.
       let s = upd_buf b (\<lambda>x. x\<lparr>b_refcnt := b_refcnt x - 1\<rparr>) s;
           s = (if b_refcnt (bufs s b) = 0
                then link_first b (unlink_buf b s) else s)
       in unlock L_bcache s)))"

text \<open>Storing into the data of a buffer: \<open>memmove(b->data, d, BSIZE)\<close>.\<close>

definition set_data :: "nat \<Rightarrow> uchar list \<Rightarrow> 'a bio_state_scheme \<Rightarrow> 'a bio_state_scheme" where
  "set_data b d s = upd_buf b (\<lambda>x. x\<lparr>b_data := d\<rparr>) s"

section \<open>The ring\<close>

text \<open>\<open>seg f a xs z\<close>: from \<open>a\<close>, following \<open>f\<close>, one meets exactly \<open>xs\<close> and then \<open>z\<close>.\<close>

primrec seg :: "(nat \<Rightarrow> nat) \<Rightarrow> nat \<Rightarrow> nat list \<Rightarrow> nat \<Rightarrow> bool" where
  "seg f a [] z \<longleftrightarrow> f a = z"
| "seg f a (x # xs) z \<longleftrightarrow> f a = x \<and> seg f x xs z"

lemma seg_append [simp]: "seg f a (xs @ y # ys) z \<longleftrightarrow> seg f a xs y \<and> seg f y ys z"
  by (induction xs arbitrary: a) auto

lemma seg_cong: "(\<And>u. u = a \<or> u \<in> set xs \<Longrightarrow> g u = f u) \<Longrightarrow> seg g a xs z = seg f a xs z"
  by (induction xs arbitrary: a) auto

lemma seg_last: "seg f a xs z \<Longrightarrow> f (last (a # xs)) = z"
  by (induction xs arbitrary: a) auto

lemma seg_hd: "seg f a xs z \<Longrightarrow> f a = hd (xs @ [z])"
  by (cases xs) auto

lemma seg_retarget:
  assumes "seg f a xs z" and "distinct (a # xs)"
  shows "seg (f(last (a # xs) := w)) a xs w"
  using assms
proof (induction xs arbitrary: a)
  case (Cons x xs)
  have "seg (f(last (x # xs) := w)) x xs w" using Cons.prems by (intro Cons.IH) simp_all
  moreover have "a \<noteq> last (x # xs)" using Cons.prems(2) last_in_set [of "x # xs"] by (metis distinct.simps(2) list.distinct(1))
  moreover have "last (a # x # xs) = last (x # xs)" by simp
  ultimately show ?case using Cons.prems(1) by (simp del: last.simps fun_upd_apply add: fun_upd_other)
qed simp

definition ring_of :: "(nat \<Rightarrow> buf) \<Rightarrow> nat list \<Rightarrow> bool" where
  "ring_of bs xs \<longleftrightarrow> distinct xs \<and> b_head \<notin> set xs \<and>
     seg (\<lambda>b. b_next (bs b)) b_head xs b_head \<and> seg (\<lambda>b. b_prev (bs b)) b_head (rev xs) b_head"

lemma bscan_seg:
  assumes "seg f a xs b_head" and "b_head \<notin> set xs" and "length xs < n"
  shows "(bscan n f P (f a) :: 's stop + nat option) = Inr (find P xs)"
  using assms
proof (induction xs arbitrary: a n)
  case Nil
  then show ?case by (cases n) auto
next
  case (Cons x xs)
  then show ?case by (cases n) auto
qed

lemma ring_scan_next:
  "ring_of bs xs \<Longrightarrow> length xs \<le> NBUF \<Longrightarrow>
   (bscan (NBUF + 1) (\<lambda>b. b_next (bs b)) P (b_next (bs b_head)) :: 's stop + nat option) = Inr (find P xs)"
  unfolding ring_of_def by (rule bscan_seg) auto

lemma ring_scan_prev:
  "ring_of bs xs \<Longrightarrow> length xs \<le> NBUF \<Longrightarrow>
   (bscan (NBUF + 1) (\<lambda>b. b_prev (bs b)) P (b_prev (bs b_head)) :: 's stop + nat option) = Inr (find P (rev xs))"
  unfolding ring_of_def by (rule bscan_seg) auto

lemma ring_same_links:
  "ring_of bs xs \<Longrightarrow> (\<And>b. b_next (bs' b) = b_next (bs b)) \<Longrightarrow> (\<And>b. b_prev (bs' b) = b_prev (bs b)) \<Longrightarrow> ring_of bs' xs"
  by (simp add: ring_of_def)

text \<open>The links written by \<open>link_first\<close> and by taking a buffer out, on the two link functions.\<close>

lemma bufs_upd_buf [simp]: "bufs (upd_buf b f s) = (bufs s)(b := f (bufs s b))"
  by (simp add: upd_buf_def)

lemma link_first_links:
  assumes "ring_of (bufs s) xs" and "b \<notin> set xs" and "b \<noteq> b_head"
  shows "ring_of (bufs (link_first b s)) (b # xs)"
proof -
  let ?n = "\<lambda>b. b_next (bufs s b)" and ?p = "\<lambda>b. b_prev (bufs s b)"
  let ?h = "hd (xs @ [b_head])"
  have h: "?n b_head = ?h" using assms(1) seg_hd by (auto simp: ring_of_def)
  have hb: "?h \<noteq> b" using assms(2,3) by (cases xs) auto
  have bs: "bufs (link_first b s) x =
      (if x = b_head then (if ?h = b_head then (bufs s b_head)\<lparr>b_next := b, b_prev := b\<rparr> else (bufs s b_head)\<lparr>b_next := b\<rparr>)
       else if x = b then (bufs s b)\<lparr>b_next := ?h, b_prev := b_head\<rparr>
       else if x = ?h then (bufs s ?h)\<lparr>b_prev := b\<rparr> else bufs s x)" for x
    using assms(3) hb h by (simp add: link_first_def Let_def)
  have n: "b_next (bufs (link_first b s) x) = (if x = b_head then b else if x = b then ?h else ?n x)" for x
    by (simp add: bs)
  have p: "b_prev (bufs (link_first b s) x) = (if x = ?h then b else if x = b then b_head else ?p x)" for x
    using hb assms(3) by (simp add: bs)
  have r: "distinct xs" "b_head \<notin> set xs" "seg ?n b_head xs b_head" "seg ?p b_head (rev xs) b_head"
    using assms(1) by (simp_all add: ring_of_def)
  have next': "seg (\<lambda>x. b_next (bufs (link_first b s) x)) b_head (b # xs) b_head"
  proof (cases xs)
    case Nil
    with assms(3) show ?thesis by (simp add: n)
  next
    case (Cons x ys)
    have "seg (\<lambda>x. b_next (bufs (link_first b s) x)) x ys b_head = seg ?n x ys b_head"
      by (rule seg_cong) (use r(1,2) assms(2) Cons in \<open>auto simp: n\<close>)
    with r(3) assms(3) Cons show ?thesis by (simp add: n)
  qed
  have prev': "seg (\<lambda>x. b_prev (bufs (link_first b s) x)) b_head (rev (b # xs)) b_head"
  proof (cases xs)
    case Nil
    with assms(3) show ?thesis by (simp add: p)
  next
    case (Cons x ys)
    have "seg (\<lambda>x. b_prev (bufs (link_first b s) x)) b_head (rev ys) x = seg ?p b_head (rev ys) x"
      by (rule seg_cong) (use r(1,2) assms(2,3) Cons in \<open>auto simp: p\<close>)
    moreover have "seg ?p b_head (rev ys) x" using r(4) Cons by simp
    ultimately show ?thesis using Cons assms(3) hb by (simp add: p)
  qed
  show ?thesis unfolding ring_of_def using r(1,2) assms(2,3) next' prev' by auto
qed

lemma seg_unlink:
  assumes "seg f h (xs @ b # ys) h" and "distinct (h # xs @ b # ys)"
  shows "seg (f(last (h # xs) := f b)) h (xs @ ys) h"
proof -
  have s: "seg f h xs b" "seg f b ys h" using assms(1) by simp_all
  have l: "last (h # xs) \<in> set (h # xs)" by (rule last_in_set) simp
  have r: "seg (f(last (h # xs) := w)) h xs w" for w
    using s(1) by (rule seg_retarget) (use assms(2) in auto)
  show ?thesis
  proof (cases ys)
    case Nil
    with s(2) r show ?thesis by (simp del: last.simps fun_upd_apply)
  next
    case (Cons y zs)
    then have y: "f b = y" "seg f y zs h" using s(2) by simp_all
    have "seg (f(last (h # xs) := y)) y zs h = seg f y zs h"
      by (rule seg_cong) (use assms(2) l Cons in \<open>auto simp del: last.simps\<close>)
    with y r show ?thesis using Cons by (simp del: last.simps fun_upd_apply)
  qed
qed

lemma unlink_links:
  assumes "ring_of (bufs s) (xs @ b # ys)"
  shows "ring_of (bufs (unlink_buf b s)) (xs @ ys)"
proof -
  let ?n = "\<lambda>b. b_next (bufs s b)" and ?p = "\<lambda>b. b_prev (bufs s b)"
  have r: "distinct (b_head # xs @ b # ys)" "seg ?n b_head (xs @ b # ys) b_head" "seg ?p b_head (rev ys @ b # rev xs) b_head"
    using assms by (auto simp: ring_of_def)
  have pb: "?p b = last (b_head # xs)" using seg_hd [of ?p b "rev xs" b_head] r(3) by (cases xs rule: rev_cases) auto
  have nb: "?n b = last (b_head # rev ys)" using seg_hd [of ?n b ys b_head] r(2) by (cases ys) auto
  have ne: "?n b \<noteq> b" "?p b \<noteq> b"
    using r(1) unfolding pb nb by (cases ys; cases xs rule: rev_cases; auto)+
  have n: "(\<lambda>x. b_next (bufs (unlink_buf b s) x)) = ?n(?p b := ?n b)"
    using ne by (auto simp: unlink_buf_def Let_def fun_eq_iff)
  have p: "(\<lambda>x. b_prev (bufs (unlink_buf b s) x)) = ?p(?n b := ?p b)"
    using ne by (auto simp: unlink_buf_def Let_def fun_eq_iff)
  have "seg (\<lambda>x. b_next (bufs (unlink_buf b s) x)) b_head (xs @ ys) b_head"
    unfolding n pb using r(2,1) by (rule seg_unlink)
  moreover have "seg (\<lambda>x. b_prev (bufs (unlink_buf b s) x)) b_head (rev ys @ rev xs) b_head"
    unfolding p nb using r(3) by (rule seg_unlink) (use r(1) in auto)
  ultimately show ?thesis using r(1) by (auto simp: ring_of_def)
qed

text \<open>Moving a buffer to the front, and the empty cache.\<close>

lemma move_first_links:
  assumes "ring_of (bufs s) xs" and "b \<in> set xs"
  shows "ring_of (bufs (link_first b (unlink_buf b s))) (b # remove1 b xs)"
proof -
  obtain us vs where xs: "xs = us @ b # vs" "b \<notin> set us" using split_list_first [OF assms(2)] by blast
  have "b \<noteq> b_head" "b \<notin> set vs" using assms xs by (auto simp: ring_of_def)
  with unlink_links [OF assms(1) [unfolded xs(1)]] xs show ?thesis
    by (auto simp: remove1_append intro: link_first_links)
qed

lemma link_first_same:
  "b_flags (bufs (link_first b s) x) = b_flags (bufs s x)" "b_dev (bufs (link_first b s) x) = b_dev (bufs s x)"
  "b_blockno (bufs (link_first b s) x) = b_blockno (bufs s x)" "b_refcnt (bufs (link_first b s) x) = b_refcnt (bufs s x)"
  "b_data (bufs (link_first b s) x) = b_data (bufs s x)"
  by (simp_all add: link_first_def Let_def)

lemma unlink_same:
  "b_flags (bufs (unlink_buf b s) x) = b_flags (bufs s x)" "b_dev (bufs (unlink_buf b s) x) = b_dev (bufs s x)"
  "b_blockno (bufs (unlink_buf b s) x) = b_blockno (bufs s x)" "b_refcnt (bufs (unlink_buf b s) x) = b_refcnt (bufs s x)"
  "b_data (bufs (unlink_buf b s) x) = b_data (bufs s x)"
  by (simp_all add: unlink_buf_def Let_def)

lemma initsleeplock_bufs [simp]: "bufs (initsleeplock l n s) = bufs s"
  by (simp add: initsleeplock_def upd_slock_def)

lemma binit_from_links:
  assumes "ring_of (bufs s) xs" and "distinct bs" and "set bs \<inter> set xs = {}" and "b_head \<notin> set bs"
  shows "ring_of (bufs (binit_from bs s)) (rev bs @ xs)"
  using assms
proof (induction bs arbitrary: s xs)
  case (Cons b bs)
  have "ring_of (bufs (link_first b (initsleeplock (SBuf b) ''buffer'' s))) (b # xs)"
    by (rule link_first_links) (use Cons.prems in auto)
  from Cons.IH [OF this] Cons.prems show ?case by auto
qed simp

lemma binit_links: "ring_of (bufs (binit s)) (rev [0..<NBUF])"
proof -
  let ?s = "upd_buf b_head (\<lambda>x. x\<lparr>b_next := b_head\<rparr>) (upd_buf b_head (\<lambda>x. x\<lparr>b_prev := b_head\<rparr>) s)"
  have "ring_of (bufs ?s) []" by (simp add: ring_of_def)
  from binit_from_links [OF this, of "[0..<NBUF]"] show ?thesis by (simp add: binit_def)
qed

section \<open>Cache invariant and what the disk looks like through the cache\<close>

definition b_valid :: "buf \<Rightarrow> bool" where
  "b_valid x \<longleftrightarrow> b_flags x AND B_VALID \<noteq> 0"

definition b_dirty :: "buf \<Rightarrow> bool" where
  "b_dirty x \<longleftrightarrow> b_flags x AND B_DIRTY \<noteq> 0"

lemma and_2_iff: "(f :: uint) AND 2 \<noteq> 0 \<longleftrightarrow> bit f (Suc 0)"
  using and_exp_eq_0_iff_not_bit [of f 1] by simp

lemma and_4_iff: "(f :: uint) AND 4 \<noteq> 0 \<longleftrightarrow> bit f 2"
  using and_exp_eq_0_iff_not_bit [of f 2] by simp

lemma and_6_iff: "(f :: uint) AND 6 = 2 \<longleftrightarrow> bit f (Suc 0) \<and> \<not> bit f 2"
proof -
  have b6: "bit (6 :: uint) n \<longleftrightarrow> n = Suc 0 \<or> n = 2" for n
    by (auto simp: bit_numeral_rec bit_1_iff numeral_2_eq_2 split: nat.splits)
  have b2: "bit (2 :: uint) n \<longleftrightarrow> n = Suc 0" for n
    by (auto simp: bit_numeral_rec bit_1_iff split: nat.splits)
  show ?thesis
  proof
    assume e: "f AND 6 = 2"
    show "bit f (Suc 0) \<and> \<not> bit f 2"
      using arg_cong [OF e, of "\<lambda>w. bit w (Suc 0)"] arg_cong [OF e, of "\<lambda>w. bit w 2"] by (simp add: bit_and_iff b6 b2)
  next
    assume f: "bit f (Suc 0) \<and> \<not> bit f 2"
    show "f AND 6 = 2"
      by (rule bit_word_eqI) (use f in \<open>simp only: bit_and_iff b6 b2, blast\<close>)
  qed
qed

lemma flag_bits [simp]:
  "bit (f OR 2 :: uint) (Suc 0)" "bit (f OR 2 :: uint) 2 = bit f 2" "bit (f OR 4 :: uint) 2" "bit (f OR 4 :: uint) (Suc 0) = bit f (Suc 0)"
  "\<not> bit (f AND NOT 4 :: uint) 2" "bit (f AND NOT 4 :: uint) (Suc 0) = bit f (Suc 0)"
  by (simp_all add: bit_simps bit_numeral_rec numeral_2_eq_2)

lemmas flag_simps = b_valid_def b_dirty_def and_2_iff and_4_iff and_6_iff

text \<open>
  \<open>bc_ok B s\<close>: the cache is well formed and the running process holds exactly the buffers \<open>B\<close>; the
  other buffers are not in use. A valid clean buffer that is not held agrees with the disk.
\<close>

definition buf_ok :: "nat set \<Rightarrow> 'a bio_state_scheme \<Rightarrow> nat \<Rightarrow> bool" where
  "buf_ok B s b \<longleftrightarrow>
     length (b_data (bufs s b)) = BSIZE \<and>
     (b_dirty (bufs s b) \<longrightarrow> b_valid (bufs s b) \<and> b_dev (bufs s b) = 1) \<and>
     (if b \<in> B
      then b_refcnt (bufs s b) = 1 \<and> sl_locked (slocks s (SBuf b)) \<noteq> 0 \<and> sl_pid (slocks s (SBuf b)) = mypid s \<and>
        b_dev (bufs s b) = 1 \<and> b_valid (bufs s b) \<and> b_blockno (bufs s b) < disksize s
      else b_refcnt (bufs s b) = 0 \<and> sl_locked (slocks s (SBuf b)) = 0 \<and>
        (b_dev (bufs s b) = 1 \<longrightarrow> b_valid (bufs s b) \<longrightarrow> \<not> b_dirty (bufs s b) \<longrightarrow>
           b_data (bufs s b) = disk s (b_blockno (bufs s b))))"

definition caches :: "'a bio_state_scheme \<Rightarrow> nat \<Rightarrow> uint \<Rightarrow> bool" where
  "caches s b n \<longleftrightarrow> b < NBUF \<and> b_dev (bufs s b) = 1 \<and> b_blockno (bufs s b) = n"

definition bc_ok :: "nat set \<Rightarrow> 'a bio_state_scheme \<Rightarrow> bool" where
  "bc_ok B s \<longleftrightarrow> B \<subseteq> {..<NBUF} \<and> (\<exists>xs. ring_of (bufs s) xs \<and> set xs = {..<NBUF}) \<and>
     (\<forall>n. length (disk s n) = BSIZE) \<and> (\<forall>b < NBUF. buf_ok B s b) \<and>
     (\<forall>b b' n. caches s b n \<longrightarrow> caches s b' n \<longrightarrow> b = b')"

definition blk :: "'a bio_state_scheme \<Rightarrow> uint \<Rightarrow> block" where
  "blk s n =
     (case find (\<lambda>b. b_dev (bufs s b) = 1 \<and> b_blockno (bufs s b) = n \<and> b_valid (bufs s b)) [0..<NBUF] of
        Some b \<Rightarrow> b_data (bufs s b)
      | None \<Rightarrow> disk s n)"

definition bdirty :: "'a bio_state_scheme \<Rightarrow> uint \<Rightarrow> bool" where
  "bdirty s n \<longleftrightarrow> (\<exists>b < NBUF. caches s b n \<and> b_dirty (bufs s b))"

lemma bc_okD:
  assumes "bc_ok B s"
  shows "B \<subseteq> {..<NBUF}" "\<And>n. length (disk s n) = BSIZE" "\<And>b. b < NBUF \<Longrightarrow> buf_ok B s b"
    "\<And>b b' n. caches s b n \<Longrightarrow> caches s b' n \<Longrightarrow> b = b'"
  using assms unfolding bc_ok_def by blast+

lemma blk_cached:
  assumes "bc_ok B s" and "caches s b n" and "b_valid (bufs s b)"
  shows "blk s n = b_data (bufs s b)"
proof -
  have "\<exists>c. find (\<lambda>b. b_dev (bufs s b) = 1 \<and> b_blockno (bufs s b) = n \<and> b_valid (bufs s b)) [0..<NBUF] = Some c \<and> caches s c n"
    using assms(2,3)
    by (cases "find (\<lambda>b. b_dev (bufs s b) = 1 \<and> b_blockno (bufs s b) = n \<and> b_valid (bufs s b)) [0..<NBUF]")
      (auto simp: find_None_iff find_Some_iff caches_def)
  then show ?thesis using bc_okD(4) [OF assms(1,2)] by (auto simp: blk_def)
qed

lemma blk_uncached:
  assumes "\<And>b. caches s b n \<Longrightarrow> \<not> b_valid (bufs s b)"
  shows "blk s n = disk s n"
proof -
  have "find (\<lambda>b. b_dev (bufs s b) = 1 \<and> b_blockno (bufs s b) = n \<and> b_valid (bufs s b)) [0..<NBUF] = None"
    using assms by (auto simp: find_None_iff caches_def)
  then show ?thesis by (simp add: blk_def)
qed

lemma blk_free:
  assumes "bc_ok B s" and "\<not> bdirty s n" and "\<And>b. b \<in> B \<Longrightarrow> b_blockno (bufs s b) \<noteq> n"
  shows "blk s n = disk s n"
proof (cases "\<exists>b. caches s b n \<and> b_valid (bufs s b)")
  case True
  then obtain b where b: "caches s b n" "b_valid (bufs s b)" by blast
  then have "buf_ok B s b" "b \<notin> B" "\<not> b_dirty (bufs s b)"
    using bc_okD(3) [OF assms(1)] assms(2,3) by (auto simp: caches_def bdirty_def)
  with b show ?thesis using blk_cached [OF assms(1) b] by (simp add: buf_ok_def caches_def)
qed (use blk_uncached in blast)

definition bio_frame :: "'a bio_state_scheme \<Rightarrow> 'a bio_state_scheme \<Rightarrow> bool" where
  "bio_frame s s' \<longleftrightarrow>
     s' = s\<lparr>ptable := ptable s', slocks := slocks s', bufs := bufs s', disk := disk s', dwrites := dwrites s'\<rparr> \<and>
     woke s (s\<lparr>ptable := ptable s'\<rparr>) \<and> (\<forall>j. slocks s' (SInode j) = slocks s (SInode j))"

lemma bio_frame_refl [simp]: "bio_frame s s"
  by (simp add: bio_frame_def)

lemma bio_frame_trans:
  assumes "bio_frame s s'" and "bio_frame s' s''"
  shows "bio_frame s s''"
proof -
  have e: "s' = s\<lparr>ptable := ptable s', slocks := slocks s', bufs := bufs s', disk := disk s', dwrites := dwrites s'\<rparr>"
    "s'' = s'\<lparr>ptable := ptable s'', slocks := slocks s'', bufs := bufs s'', disk := disk s'', dwrites := dwrites s''\<rparr>"
    and w: "woke s (s\<lparr>ptable := ptable s'\<rparr>)" "woke s' (s'\<lparr>ptable := ptable s''\<rparr>)"
    using assms unfolding bio_frame_def by blast+
  have "s'' = s\<lparr>ptable := ptable s'', slocks := slocks s'', bufs := bufs s'', disk := disk s'', dwrites := dwrites s''\<rparr>"
    by (subst e(2), subst e(1)) simp
  moreover have "woke (s\<lparr>ptable := ptable s'\<rparr>) (s\<lparr>ptable := ptable s''\<rparr>)" using w(2) by (simp add: woke_def)
  with w(1) have "woke s (s\<lparr>ptable := ptable s''\<rparr>)" by (rule woke_trans)
  ultimately show ?thesis using assms unfolding bio_frame_def by simp
qed

lemma bio_frame_runs:
  assumes "bio_frame s s'" and "runs_in i s"
  shows "runs_in i s'" "mypid s' = mypid s" "pr s' i = pr s i" "held s' = held s" "disksize s' = disksize s"
proof -
  have e: "s' = s\<lparr>ptable := ptable s', slocks := slocks s', bufs := bufs s', disk := disk s', dwrites := dwrites s'\<rparr>"
    and w: "woke s (s\<lparr>ptable := ptable s'\<rparr>)" using assms(1) unfolding bio_frame_def by blast+
  note r = woke_runs_in [OF w assms(2)]
  have c: "curproc s' = curproc s" "nextpid s' = nextpid s" by (subst e, simp)+
  show "runs_in i s'" by (rule runs_in_cong [OF r(1)]) (simp_all add: c)
  show "mypid s' = mypid s" using r(2) by (simp add: mypid_def c)
  show "pr s' i = pr s i" using r(3) by simp
  show "held s' = held s" "disksize s' = disksize s" by (subst e, simp)+
qed

section \<open>What the operations do\<close>

lemma upd_buf_simps [simp]:
  "held (upd_buf b f s) = held s" "ptable (upd_buf b f s) = ptable s" "curproc (upd_buf b f s) = curproc s"
  "nextpid (upd_buf b f s) = nextpid s" "slocks (upd_buf b f s) = slocks s" "disk (upd_buf b f s) = disk s"
  "disksize (upd_buf b f s) = disksize s" "dwrites (upd_buf b f s) = dwrites s" "mypid (upd_buf b f s) = mypid s"
  "runs_in i (upd_buf b f s) = runs_in i s"
  by (simp_all add: upd_buf_def mypid_def runs_in_def ptable_ok_def)

lemma upd_slock_bio [simp]:
  "bufs (upd_slock l f s) = bufs s" "disk (upd_slock l f s) = disk s" "disksize (upd_slock l f s) = disksize s"
  "dwrites (upd_slock l f s) = dwrites s" "mypid (upd_slock l f t) = mypid t" "runs_in i (upd_slock l f t) = runs_in i t"
  by (simp_all add: upd_slock_def mypid_def runs_in_def ptable_ok_def)

text \<open>The state in which \<open>bread\<close> returns buffer \<open>b\<close> for block \<open>n\<close>.\<close>

definition take_buf :: "nat \<Rightarrow> 'a bio_state_scheme \<Rightarrow> 'a bio_state_scheme" where
  "take_buf b s = upd_slock (SBuf b) (\<lambda>k. k\<lparr>sl_locked := 1, sl_pid := mypid s\<rparr>) s"

lemma take_buf_acquire:
  assumes "runs_in i s" and "held s = []" and "sl_locked (slocks s (SBuf b)) = 0"
  shows "acquiresleep (SBuf b) s = Inr (take_buf b s)"
  using acquiresleep_free [OF assms(1) _ assms(3)] assms(2) by (simp add: take_buf_def)

lemma upd_buf_held [simp]:
  "(upd_buf b f (s\<lparr>held := h\<rparr>))\<lparr>held := h'\<rparr> = upd_buf b f (s\<lparr>held := h'\<rparr>)" "held t = h' \<Longrightarrow> t\<lparr>held := h'\<rparr> = t"
  by (simp_all add: upd_buf_def)

lemma upd_buf_cong: "f (bufs s b) = g (bufs s b) \<Longrightarrow> upd_buf b f s = upd_buf b g s"
  by (simp add: upd_buf_def)

lemmas ring_scans = ring_scan_next [simplified] ring_scan_prev [simplified]

lemma bget_cached:
  assumes "runs_in i s" and "held s = []" and "bc_ok B s" and "caches s b n" and "b \<notin> B"
  shows "bget 1 n s = Inr (b, take_buf b (upd_buf b (\<lambda>x. x\<lparr>b_refcnt := 1\<rparr>) s))"
proof -
  obtain xs where xs: "ring_of (bufs s) xs" "set xs = {..<NBUF}" using assms(3) by (auto simp: bc_ok_def)
  have len: "length xs \<le> 30" using xs by (metis ring_of_def distinct_card card_lessThan order_refl)
  let ?P = "\<lambda>b. b_dev (bufs s b) = 1 \<and> b_blockno (bufs s b) = n"
  have "find ?P xs = Some b"
  proof (cases "find ?P xs")
    case None
    with assms(4) xs(2) show ?thesis by (auto simp: find_None_iff caches_def)
  next
    case (Some c)
    then have "caches s c n" using xs(2) by (auto simp: find_Some_iff caches_def)
    with Some bc_okD(4) [OF assms(3,4)] show ?thesis by auto
  qed
  moreover have "b_refcnt (bufs s b) = 0" "sl_locked (slocks s (SBuf b)) = 0"
    using bc_okD(3) [OF assms(3), of b] assms(4,5) by (auto simp: buf_ok_def caches_def)
  moreover from this have "upd_buf b (\<lambda>x. x\<lparr>b_refcnt := b_refcnt x + 1\<rparr>) s = upd_buf b (\<lambda>x. x\<lparr>b_refcnt := 1\<rparr>) s"
    by (intro upd_buf_cong) simp
  ultimately show ?thesis
    using assms(1,2) take_buf_acquire [of i "upd_buf b (\<lambda>x. x\<lparr>b_refcnt := 1\<rparr>) s" b]
    by (simp add: bget_def lock_def ring_scans [OF xs(1)] len)
qed

lemma bget_new:
  assumes "runs_in i s" and "held s = []" and "bc_ok B s" and "\<And>b. \<not> caches s b n"
    and "\<exists>b < NBUF. b \<notin> B \<and> \<not> b_dirty (bufs s b)"
  shows "\<exists>b < NBUF. b \<notin> B \<and> \<not> b_dirty (bufs s b) \<and>
    bget 1 n s = Inr (b, take_buf b (upd_buf b (\<lambda>x. x\<lparr>b_dev := 1, b_blockno := n, b_flags := 0, b_refcnt := 1\<rparr>) s))"
proof -
  obtain xs where xs: "ring_of (bufs s) xs" "set xs = {..<NBUF}" using assms(3) by (auto simp: bc_ok_def)
  have len: "length xs \<le> 30" using xs by (metis ring_of_def distinct_card card_lessThan order_refl)
  have n: "find (\<lambda>b. b_dev (bufs s b) = 1 \<and> b_blockno (bufs s b) = n) xs = None"
    using assms(4) xs(2) by (auto simp: find_None_iff caches_def)
  let ?P = "\<lambda>b. b_refcnt (bufs s b) = 0 \<and> b_flags (bufs s b) AND B_DIRTY = 0"
  obtain c where c: "c < NBUF" "c \<notin> B" "\<not> b_dirty (bufs s c)" using assms(5) by blast
  have "?P c" using bc_okD(3) [OF assms(3) c(1)] c by (auto simp: buf_ok_def b_dirty_def)
  then obtain b where b: "find ?P (rev xs) = Some b"
    using c(1) xs(2) by (cases "find ?P (rev xs)") (auto simp: find_None_iff)
  have "?P b \<and> b \<in> set (rev xs)" using b by (auto simp: find_Some_iff) (metis length_rev nth_mem set_rev)
  then have b': "?P b" "b < NBUF" using xs(2) by auto
  then have "b \<notin> B" "sl_locked (slocks s (SBuf b)) = 0" "\<not> b_dirty (bufs s b)"
    using bc_okD(3) [OF assms(3) b'(2)] by (auto simp: buf_ok_def b_dirty_def split: if_splits)
  then show ?thesis
    using assms(1,2) b b'(2) n take_buf_acquire [of i "upd_buf b (\<lambda>x. x\<lparr>b_dev := 1, b_blockno := n, b_flags := 0, b_refcnt := 1\<rparr>) s" b]
    by (intro exI [of _ b])
      (simp add: bget_def lock_def ring_scans [OF xs(1)] len)
qed

lemma iderw_read:
  assumes "runs_in i s" and "held s = []" and "sl_locked (slocks s (SBuf b)) \<noteq> 0" "sl_pid (slocks s (SBuf b)) = mypid s"
    and "\<not> b_valid (bufs s b)" "\<not> b_dirty (bufs s b)" "b_dev (bufs s b) = 1" "b_blockno (bufs s b) < disksize s"
  shows "iderw b s = Inr (upd_buf b (\<lambda>x. x\<lparr>b_data := disk s (b_blockno x), b_flags := b_flags x OR B_VALID\<rparr>) s)"
  using assms holdingsleep_eq [OF assms(1), of "SBuf b"]
  by (simp add: iderw_def Let_def flag_simps upd_buf_def linorder_not_le)

lemma iderw_write:
  assumes "runs_in i s" and "held s = []" and "sl_locked (slocks s (SBuf b)) \<noteq> 0" "sl_pid (slocks s (SBuf b)) = mypid s"
    and "b_dirty (bufs s b)" "b_dev (bufs s b) = 1" "b_blockno (bufs s b) < disksize s"
  shows "iderw b s = Inr ((upd_buf b (\<lambda>x. x\<lparr>b_flags := (b_flags x AND NOT B_DIRTY) OR B_VALID\<rparr>) s)
     \<lparr>disk := (disk s)(b_blockno (bufs s b) := b_data (bufs s b)),
      dwrites := dwrites s @ [(b_blockno (bufs s b), b_data (bufs s b))]\<rparr>)"
  using assms holdingsleep_eq [OF assms(1), of "SBuf b"]
  by (simp add: iderw_def Let_def flag_simps upd_buf_def linorder_not_le)

definition grab :: "nat \<Rightarrow> uint \<Rightarrow> uint \<Rightarrow> 'a bio_state_scheme \<Rightarrow> 'a bio_state_scheme" where
  "grab b n f s = take_buf b (upd_buf b
     (\<lambda>x. x\<lparr>b_dev := 1, b_blockno := n, b_refcnt := 1, b_flags := f, b_data := blk s n\<rparr>) s)"

lemma take_buf_simps [simp]:
  "held (take_buf b s) = held s" "bufs (take_buf b s) = bufs s" "disk (take_buf b s) = disk s"
  "disksize (take_buf b s) = disksize s" "dwrites (take_buf b s) = dwrites s" "mypid (take_buf b s) = mypid s"
  "runs_in i (take_buf b s) = runs_in i s" "ptable (take_buf b s) = ptable s"
  "slocks (take_buf b s) = (slocks s)(SBuf b := (slocks s (SBuf b))\<lparr>sl_locked := 1, sl_pid := mypid s\<rparr>)"
  by (simp_all add: take_buf_def)

lemma take_upd_buf: "upd_buf b f (take_buf c s) = take_buf c (upd_buf b f s)"
  by (simp add: take_buf_def upd_buf_def upd_slock_def mypid_def)

lemma upd_buf_upd_buf: "upd_buf b f (upd_buf b g s) = upd_buf b (\<lambda>x. f (g x)) s"
  by (simp add: upd_buf_def)

lemma bread_grab:
  assumes "runs_in i s" and "held s = []" and "bc_ok B s" and "n < disksize s"
    and "\<And>b. b \<in> B \<Longrightarrow> b_blockno (bufs s b) \<noteq> n"
    and avail: "(\<exists>b. caches s b n) \<or> (\<exists>b < NBUF. b \<notin> B \<and> \<not> b_dirty (bufs s b))"
  shows "\<exists>b f. b < NBUF \<and> b \<notin> B \<and> bread 1 n s = Inr (b, grab b n f s) \<and> bit f (Suc 0) \<and> bit f 2 = b_dirty (bufs s b) \<and>
    (b_dirty (bufs s b) \<longrightarrow> caches s b n) \<and> (\<forall>c. caches s c n \<longrightarrow> c = b)"
proof (cases "\<exists>b. caches s b n")
  case True
  then obtain b where b: "caches s b n" by blast
  then have b': "b < NBUF" "b_dev (bufs s b) = 1" "b_blockno (bufs s b) = n" "b \<notin> B" using assms(5) by (auto simp: caches_def)
  note get = bget_cached [OF assms(1,2,3) b b'(4)]
  have uniq: "\<forall>c. caches s c n \<longrightarrow> c = b" using bc_okD(4) [OF assms(3) _ b] by blast
  show ?thesis
  proof (cases "b_valid (bufs s b)")
    case True
    have "take_buf b (upd_buf b (\<lambda>x. x\<lparr>b_refcnt := 1\<rparr>) s) = grab b n (b_flags (bufs s b)) s"
      unfolding grab_def using b' blk_cached [OF assms(3) b True] by (intro arg_cong [where f = "take_buf b"] upd_buf_cong) simp
    moreover have "bread 1 n s = Inr (b, take_buf b (upd_buf b (\<lambda>x. x\<lparr>b_refcnt := 1\<rparr>) s))"
      using True by (simp add: bread_def get b_valid_def)
    moreover have "bit (b_flags (bufs s b)) (Suc 0)" "bit (b_flags (bufs s b)) 2 = b_dirty (bufs s b)"
      using True by (simp_all add: b_valid_def b_dirty_def and_2_iff and_4_iff)
    ultimately show ?thesis using b' b uniq by metis
  next
    case False
    then have d: "\<not> b_dirty (bufs s b)" using bc_okD(3) [OF assms(3) b'(1)] by (auto simp: buf_ok_def)
    have e: "blk s n = disk s n" by (rule blk_uncached) (use uniq False in auto)
    let ?s = "take_buf b (upd_buf b (\<lambda>x. x\<lparr>b_refcnt := 1\<rparr>) s)"
    have "iderw b ?s = Inr (upd_buf b (\<lambda>x. x\<lparr>b_data := disk ?s (b_blockno x), b_flags := b_flags x OR B_VALID\<rparr>) ?s)"
      by (rule iderw_read) (use assms(1,2,4) b' False d in \<open>auto simp: b_valid_def b_dirty_def\<close>)
    also have "upd_buf b (\<lambda>x. x\<lparr>b_data := disk ?s (b_blockno x), b_flags := b_flags x OR B_VALID\<rparr>) ?s = grab b n (b_flags (bufs s b) OR B_VALID) s"
      unfolding grab_def take_upd_buf upd_buf_upd_buf using b' e
      by (intro arg_cong [where f = "take_buf b"] upd_buf_cong) simp
    finally have "bread 1 n s = Inr (b, grab b n (b_flags (bufs s b) OR B_VALID) s)"
      using False by (simp add: bread_def get b_valid_def)
    moreover have "bit (b_flags (bufs s b) OR B_VALID) (Suc 0)" "bit (b_flags (bufs s b) OR B_VALID) 2 = b_dirty (bufs s b)"
      by (simp_all add: b_dirty_def and_4_iff)
    ultimately show ?thesis using b' b d uniq by metis
  qed
next
  case False
  then have nc: "\<And>b. \<not> caches s b n" by blast
  from bget_new [OF assms(1,2,3) nc] avail False obtain b where
    b: "b < NBUF" "b \<notin> B" "\<not> b_dirty (bufs s b)"
      "bget 1 n s = Inr (b, take_buf b (upd_buf b (\<lambda>x. x\<lparr>b_dev := 1, b_blockno := n, b_flags := 0, b_refcnt := 1\<rparr>) s))" by blast
  have e: "blk s n = disk s n" by (rule blk_uncached) (use nc in auto)
  let ?s = "take_buf b (upd_buf b (\<lambda>x. x\<lparr>b_dev := 1, b_blockno := n, b_flags := 0, b_refcnt := 1\<rparr>) s)"
  have "iderw b ?s = Inr (upd_buf b (\<lambda>x. x\<lparr>b_data := disk ?s (b_blockno x), b_flags := b_flags x OR B_VALID\<rparr>) ?s)"
    by (rule iderw_read) (use assms(1,2,4) b in \<open>auto simp: b_valid_def b_dirty_def\<close>)
  also have "upd_buf b (\<lambda>x. x\<lparr>b_data := disk ?s (b_blockno x), b_flags := b_flags x OR B_VALID\<rparr>) ?s = grab b n B_VALID s"
    unfolding grab_def take_upd_buf upd_buf_upd_buf using e
    by (intro arg_cong [where f = "take_buf b"] upd_buf_cong) simp
  finally have "bread 1 n s = Inr (b, grab b n B_VALID s)" by (simp add: bread_def b(4))
  moreover have "bit B_VALID (Suc 0)" "bit B_VALID 2 = b_dirty (bufs s b)" using b(3) by (simp_all add: bit_numeral_rec numeral_2_eq_2)
  ultimately show ?thesis using b nc by metis
qed

lemma length_blk:
  assumes "bc_ok B s"
  shows "length (blk s n) = BSIZE"
proof (cases "\<exists>b. caches s b n \<and> b_valid (bufs s b)")
  case True
  then obtain b where b: "caches s b n" "b_valid (bufs s b)" by blast
  with bc_okD(3) [OF assms, of b] show ?thesis by (simp add: blk_cached [OF assms b] buf_ok_def caches_def)
next
  case False
  then have "blk s n = disk s n" by (intro blk_uncached) blast
  with bc_okD(2) [OF assms] show ?thesis by simp
qed

lemma grab_simps:
  "bufs (grab b n f s) = (bufs s)(b := (bufs s b)\<lparr>b_dev := 1, b_blockno := n, b_refcnt := 1, b_flags := f, b_data := blk s n\<rparr>)"
  "disk (grab b n f s) = disk s" "disksize (grab b n f s) = disksize s" "dwrites (grab b n f s) = dwrites s"
  "slocks (grab b n f s) = (slocks s)(SBuf b := (slocks s (SBuf b))\<lparr>sl_locked := 1, sl_pid := mypid s\<rparr>)"
  "mypid (grab b n f s) = mypid s" "held (grab b n f s) = held s" "ptable (grab b n f s) = ptable s"
  by (simp_all add: grab_def)

lemma caches_grab:
  assumes "\<forall>c. caches s c n \<longrightarrow> c = b" and "b < NBUF"
  shows "caches (grab b n f s) c m \<longleftrightarrow> (if c = b then m = n else caches s c m \<and> m \<noteq> n)"
  using assms by (auto simp: caches_def grab_simps)

lemma grab_bio_frame: "bio_frame s (grab b n f s)"
  unfolding bio_frame_def
proof (intro conjI allI)
  show "grab b n f s = s\<lparr>ptable := ptable (grab b n f s), slocks := slocks (grab b n f s), bufs := bufs (grab b n f s),
      disk := disk (grab b n f s), dwrites := dwrites (grab b n f s)\<rparr>"
    by (simp add: grab_def take_buf_def upd_buf_def upd_slock_def mypid_def)
qed (simp_all add: grab_simps)


lemma grab_bc_ok:
  assumes ok: "bc_ok B s" and b: "b < NBUF" "b \<notin> B" and n: "n < disksize s"
    and f: "bit f (Suc 0)" "bit f 2 = b_dirty (bufs s b)" "b_dirty (bufs s b) \<longrightarrow> caches s b n"
    and uniq: "\<forall>c. caches s c n \<longrightarrow> c = b"
  shows "bc_ok (insert b B) (grab b n f s)"
proof -
  let ?g = "grab b n f s"
  have "\<exists>xs. ring_of (bufs ?g) xs \<and> set xs = {..<NBUF}"
  proof -
    obtain xs where xs: "ring_of (bufs s) xs" "set xs = {..<NBUF}" using ok unfolding bc_ok_def by blast
    have "ring_of (bufs ?g) xs" by (rule ring_same_links [OF xs(1)]) (simp_all add: grab_simps)
    with xs(2) show ?thesis by blast
  qed
  moreover have "buf_ok (insert b B) ?g c" if c: "c < NBUF" for c
  proof (cases "c = b")
    case True
    then show ?thesis using length_blk [OF ok] f(1) n by (simp add: buf_ok_def grab_simps b_valid_def b_dirty_def and_2_iff)
  next
    case False
    with bc_okD(3) [OF ok c] show ?thesis by (auto simp: buf_ok_def grab_simps)
  qed
  moreover have "c = c'" if "caches ?g c m" "caches ?g c' m" for c c' m
    using that bc_okD(4) [OF ok] unfolding caches_grab [OF uniq b(1)] by (auto split: if_splits)
  ultimately show ?thesis
    unfolding bc_ok_def using bc_okD(1,2) [OF ok] b(1) by (auto simp: grab_simps)
qed

lemma grab_view:
  assumes ok: "bc_ok B s" and b: "b < NBUF" "b \<notin> B" and n: "n < disksize s"
    and f: "bit f (Suc 0)" "bit f 2 = b_dirty (bufs s b)" "b_dirty (bufs s b) \<longrightarrow> caches s b n"
    and uniq: "\<forall>c. caches s c n \<longrightarrow> c = b"
  shows "blk (grab b n f s) m = blk s m" "bdirty (grab b n f s) m = bdirty s m"
proof -
  let ?g = "grab b n f s"
  note cg = caches_grab [OF uniq b(1), of f]
  have ok': "bc_ok (insert b B) ?g" using assms by (rule grab_bc_ok)
  have vb: "b_valid (bufs ?g b)" using f(1) by (simp add: grab_simps b_valid_def and_2_iff)
  have other: "bufs ?g c = bufs s c" if "c \<noteq> b" for c using that by (simp add: grab_simps)
  show "blk ?g m = blk s m"
  proof (cases "m = n")
    case True
    have "caches ?g b n" by (simp add: cg)
    from blk_cached [OF ok' this vb] show ?thesis by (simp add: True grab_simps)
  next
    case False
    show ?thesis
    proof (cases "\<exists>c. c \<noteq> b \<and> caches s c m \<and> b_valid (bufs s c)")
      case True
      then obtain c where c: "c \<noteq> b" "caches s c m" "b_valid (bufs s c)" by blast
      then have "caches ?g c m" "b_valid (bufs ?g c)" using False by (auto simp: cg other)
      from blk_cached [OF ok' this] blk_cached [OF ok c(2,3)] show ?thesis by (simp add: other [OF c(1)])
    next
      case None: False
      have "\<not> b_valid (bufs ?g c)" if "caches ?g c m" for c
        using that None False by (cases "c = b") (auto simp: cg other)
      then have "blk ?g m = disk s m" using blk_uncached [of ?g m] by (simp add: grab_simps(2))
      moreover have "blk s m = disk s m"
      proof (cases "caches s b m \<and> b_valid (bufs s b)")
        case True
        then have "\<not> b_dirty (bufs s b)" using f(3) False by (auto simp: caches_def)
        with True bc_okD(3) [OF ok b(1)] b(2) blk_cached [OF ok, of b m] show ?thesis by (auto simp: buf_ok_def caches_def)
      next
        case False
        with None show ?thesis by (intro blk_uncached) metis
      qed
      ultimately show ?thesis by simp
    qed
  qed
  have db: "b_dirty (bufs ?g b) = b_dirty (bufs s b)" using f(2) by (simp add: grab_simps b_dirty_def and_4_iff)
  show "bdirty ?g m = bdirty s m"
  proof
    assume "bdirty ?g m"
    then obtain c where c: "c < NBUF" "caches ?g c m" "b_dirty (bufs ?g c)" by (auto simp: bdirty_def)
    then show "bdirty s m"
      using f(3) by (cases "c = b") (auto simp: cg other db bdirty_def)
  next
    assume "bdirty s m"
    then obtain c where c: "c < NBUF" "caches s c m" "b_dirty (bufs s c)" by (auto simp: bdirty_def)
    have "caches ?g c m \<and> b_dirty (bufs ?g c)"
    proof (cases "c = b")
      case True
      with c(2,3) f(3) have "m = n" by (simp add: caches_def)
      with True c(3) show ?thesis by (simp add: cg db)
    next
      case False
      with c(2) uniq have "m \<noteq> n" by blast
      with False c(2,3) show ?thesis by (simp add: cg other)
    qed
    with c(1) show "bdirty ?g m" by (auto simp: bdirty_def)
  qed
qed

text \<open>\<open>bread\<close> returns the block as the cache and the disk show it, locked, and changes neither view.\<close>

lemma bread_ok:
  assumes "runs_in i s" and "held s = []" and "bc_ok B s" and "n < disksize s"
    and "\<And>b. b \<in> B \<Longrightarrow> b_blockno (bufs s b) \<noteq> n"
    and "(\<exists>b. caches s b n) \<or> (\<exists>b < NBUF. b \<notin> B \<and> \<not> b_dirty (bufs s b))"
  shows "\<exists>b s'. bread 1 n s = Inr (b, s') \<and> bio_frame s s' \<and> bc_ok (insert b B) s' \<and> b < NBUF \<and> b \<notin> B \<and>
    b_blockno (bufs s' b) = n \<and> b_data (bufs s' b) = blk s n \<and> disk s' = disk s \<and> dwrites s' = dwrites s \<and>
    (\<forall>m. blk s' m = blk s m) \<and> (\<forall>m. bdirty s' m = bdirty s m) \<and> (\<forall>c \<in> B. bufs s' c = bufs s c)"
proof -
  obtain b f where g: "b < NBUF" "b \<notin> B" "bread 1 n s = Inr (b, grab b n f s)" "bit f (Suc 0)" "bit f 2 = b_dirty (bufs s b)"
      "b_dirty (bufs s b) \<longrightarrow> caches s b n" "\<forall>c. caches s c n \<longrightarrow> c = b"
    using bread_grab [OF assms] by blast
  note h = assms(3) g(1,2) assms(4) g(4-7)
  show ?thesis
    by (intro exI [of _ b] exI [of _ "grab b n f s"] conjI g(3) grab_bio_frame grab_bc_ok [OF h] g(1,2))
      (use g(2) grab_view [OF h] in \<open>auto simp: grab_simps\<close>)
qed

text \<open>The views depend only on the contents of the buffers, not on their links, counts or locks.\<close>

definition same_contents :: "buf \<Rightarrow> buf \<Rightarrow> bool" where
  "same_contents x y \<longleftrightarrow> b_flags y = b_flags x \<and> b_dev y = b_dev x \<and> b_blockno y = b_blockno x \<and> b_data y = b_data x"

lemma same_contents_refl [simp]: "same_contents x x"
  by (simp add: same_contents_def)

lemma caches_cong:
  "(\<And>b. same_contents (bufs s b) (bufs s' b)) \<Longrightarrow> caches s' b n = caches s b n"
  by (simp add: caches_def same_contents_def)

lemma view_cong:
  assumes "\<And>b. same_contents (bufs s b) (bufs s' b)"
  shows "disk s' = disk s \<Longrightarrow> blk s' n = blk s n" "bdirty s' n = bdirty s n"
proof -
  have v: "b_valid (bufs s' b) = b_valid (bufs s b)" "b_dirty (bufs s' b) = b_dirty (bufs s b)"
    "b_dev (bufs s' b) = b_dev (bufs s b)" "b_blockno (bufs s' b) = b_blockno (bufs s b)" "b_data (bufs s' b) = b_data (bufs s b)" for b
    using assms [of b] by (simp_all add: same_contents_def b_valid_def b_dirty_def)
  show "blk s' n = blk s n" if "disk s' = disk s" using that by (simp add: blk_def v cong: option.case_cong)
  show "bdirty s' n = bdirty s n" by (simp add: bdirty_def caches_def v)
qed

lemma move_first_held:
  "(upd_buf b f s)\<lparr>held := h\<rparr> = upd_buf b f (s\<lparr>held := h\<rparr>)"
  "(link_first b s)\<lparr>held := h\<rparr> = link_first b (s\<lparr>held := h\<rparr>)" "(unlink_buf b s)\<lparr>held := h\<rparr> = unlink_buf b (s\<lparr>held := h\<rparr>)"
  "held (link_first b s) = held s" "held (unlink_buf b s) = held s"
proof -
  show c: "(upd_buf b f s)\<lparr>held := h\<rparr> = upd_buf b f (s\<lparr>held := h\<rparr>)" for b f and s :: "'a bio_state_scheme"
    by (simp add: upd_buf_def)
  show "(link_first b s)\<lparr>held := h\<rparr> = link_first b (s\<lparr>held := h\<rparr>)" "(unlink_buf b s)\<lparr>held := h\<rparr> = unlink_buf b (s\<lparr>held := h\<rparr>)"
    by (simp_all add: link_first_def unlink_buf_def Let_def c)
  show "held (link_first b s) = held s" "held (unlink_buf b s) = held s" by (simp_all add: link_first_def unlink_buf_def Let_def)
qed

lemma brelse_eq:
  assumes "runs_in i s" and "held s = []" and "bc_ok B s" and "b \<in> B"
  obtains s1 where "woke (upd_slock (SBuf b) (\<lambda>k. k\<lparr>sl_locked := 0, sl_pid := 0\<rparr>) s) s1"
    "brelse b s = Inr (link_first b (unlink_buf b (upd_buf b (\<lambda>x. x\<lparr>b_refcnt := 0\<rparr>) s1)))" "bufs s1 = bufs s"
proof -
  have b: "b < NBUF" using bc_okD(1) [OF assms(3)] assms(4) by auto
  then have ok: "b_refcnt (bufs s b) = 1" "sl_locked (slocks s (SBuf b)) \<noteq> 0" "sl_pid (slocks s (SBuf b)) = mypid s"
    using bc_okD(3) [OF assms(3) b] assms(4) by (auto simp: buf_ok_def)
  obtain s1 where s1: "releasesleep (SBuf b) s = Inr s1" "woke (upd_slock (SBuf b) (\<lambda>k. k\<lparr>sl_locked := 0, sl_pid := 0\<rparr>) s) s1"
    using releasesleep_runs [OF assms(1), of "SBuf b"] assms(2) by auto
  have e: "s1 = (upd_slock (SBuf b) (\<lambda>k. k\<lparr>sl_locked := 0, sl_pid := 0\<rparr>) s)\<lparr>ptable := ptable s1\<rparr>" using s1(2) unfolding woke_def by blast
  have bs: "bufs s1 = bufs s" by (subst e) simp
  have h: "held s1 = []" using woke_frame(1) [OF s1(2)] assms(2) by simp
  have r: "upd_buf b (\<lambda>x. x\<lparr>b_refcnt := b_refcnt x - 1\<rparr>) s1 = upd_buf b (\<lambda>x. x\<lparr>b_refcnt := 0\<rparr>) s1"
    by (rule upd_buf_cong) (simp add: bs ok(1))
  let ?l = "\<lambda>s. link_first b (unlink_buf b s)"
  have "brelse b s = Inr (?l (upd_buf b (\<lambda>x. x\<lparr>b_refcnt := 0\<rparr>) s1))"
  proof -
    have c: "(?l (upd_buf b f (s1\<lparr>held := [L_bcache]\<rparr>)))\<lparr>held := []\<rparr> = ?l (upd_buf b f s1)" for f
      using h by (simp add: move_first_held)
    have hl: "held (?l (upd_buf b f (s1\<lparr>held := [L_bcache]\<rparr>))) = [L_bcache]" for f
      by (simp add: move_first_held)
    have u: "upd_buf b (\<lambda>x. x\<lparr>b_refcnt := b_refcnt x - 1\<rparr>) (s1\<lparr>held := [L_bcache]\<rparr>) =
        upd_buf b (\<lambda>x. x\<lparr>b_refcnt := 0\<rparr>) (s1\<lparr>held := [L_bcache]\<rparr>)"
      by (rule upd_buf_cong) (simp add: bs ok(1))
    show ?thesis
      using holdingsleep_eq [OF assms(1), of "SBuf b"] assms(2) ok s1(1) h
      by (simp add: brelse_def lock_def Let_def u unlock_def hl c)
  qed
  then show thesis using s1(2) bs that by blast
qed

lemma move_first_frame:
  "link_first b s = s\<lparr>bufs := bufs (link_first b s)\<rparr>" "unlink_buf b s = s\<lparr>bufs := bufs (unlink_buf b s)\<rparr>"
proof -
  have c: "upd_buf b f (s\<lparr>bufs := x\<rparr>) = s\<lparr>bufs := x(b := f (x b))\<rparr>" for b f x and s :: "'a bio_state_scheme"
    by (simp add: upd_buf_def)
  have d: "upd_buf b f s = s\<lparr>bufs := (bufs s)(b := f (bufs s b))\<rparr>" for b f and s :: "'a bio_state_scheme"
    by (simp add: upd_buf_def)
  show "link_first b s = s\<lparr>bufs := bufs (link_first b s)\<rparr>" "unlink_buf b s = s\<lparr>bufs := bufs (unlink_buf b s)\<rparr>"
    by (simp_all add: link_first_def unlink_buf_def Let_def d)
qed

lemma brelse_ok:
  assumes "runs_in i s" and "held s = []" and "bc_ok B s" and "b \<in> B"
    and "b_dirty (bufs s b) \<or> b_data (bufs s b) = disk s (b_blockno (bufs s b))"
  shows "\<exists>s'. brelse b s = Inr s' \<and> bio_frame s s' \<and> bc_ok (B - {b}) s' \<and> disk s' = disk s \<and> dwrites s' = dwrites s \<and>
    (\<forall>c. same_contents (bufs s c) (bufs s' c))"
proof -
  obtain s1 where s1: "woke (upd_slock (SBuf b) (\<lambda>k. k\<lparr>sl_locked := 0, sl_pid := 0\<rparr>) s) s1"
      "brelse b s = Inr (link_first b (unlink_buf b (upd_buf b (\<lambda>x. x\<lparr>b_refcnt := 0\<rparr>) s1)))" "bufs s1 = bufs s"
    using brelse_eq [OF assms(1-4)] by blast
  have e: "s1 = (upd_slock (SBuf b) (\<lambda>k. k\<lparr>sl_locked := 0, sl_pid := 0\<rparr>) s)\<lparr>ptable := ptable s1\<rparr>" using s1(1) unfolding woke_def by blast
  let ?u = "upd_buf b (\<lambda>x. x\<lparr>b_refcnt := 0\<rparr>) s1"
  define s' where "s' = link_first b (unlink_buf b ?u)"
  have s': "s' = s1\<lparr>bufs := bufs s'\<rparr>"
  proof -
    have "s' = (unlink_buf b ?u)\<lparr>bufs := bufs s'\<rparr>" unfolding s'_def by (rule move_first_frame(1))
    also have "\<dots> = ?u\<lparr>bufs := bufs s'\<rparr>" by (subst move_first_frame(2)) simp
    also have "\<dots> = s1\<lparr>bufs := bufs s'\<rparr>" by (simp add: upd_buf_def)
    finally show ?thesis .
  qed
  have fields: "slocks s' = (slocks s)(SBuf b := (slocks s (SBuf b))\<lparr>sl_locked := 0, sl_pid := 0\<rparr>)" "disk s' = disk s"
    "dwrites s' = dwrites s" "disksize s' = disksize s" "ptable s' = ptable s1"
    by (subst s', subst e, simp)+
  have same: "same_contents (bufs s c) (bufs s' c)" "b_refcnt (bufs s' c) = (if c = b then 0 else b_refcnt (bufs s c))" for c
    by (simp_all add: s'_def same_contents_def link_first_same unlink_same s1(3))
  have fr: "bio_frame s s'"
    unfolding bio_frame_def
  proof (intro conjI allI)
    show "s' = s\<lparr>ptable := ptable s', slocks := slocks s', bufs := bufs s', disk := disk s', dwrites := dwrites s'\<rparr>"
      by (subst s', subst e, subst fields(1)) (simp add: upd_slock_def fields)
    show "woke s (s\<lparr>ptable := ptable s'\<rparr>)" using s1(1) by (simp add: woke_def fields(5))
  qed (simp add: fields)
  have my: "mypid s' = mypid s" using bio_frame_runs(2) [OF fr assms(1)] .
  obtain xs where xs: "ring_of (bufs s) xs" "set xs = {..<NBUF}" using assms(3) unfolding bc_ok_def by blast
  have b: "b < NBUF" using bc_okD(1) [OF assms(3)] assms(4) by auto
  have "ring_of (bufs ?u) xs" by (rule ring_same_links [OF xs(1)]) (simp_all add: s1(3))
  from move_first_links [OF this] b xs(2) have ring: "ring_of (bufs s') (b # remove1 b xs)" by (simp add: s'_def)
  have "distinct xs" using xs(1) by (simp add: ring_of_def)
  then have set: "set (b # remove1 b xs) = {..<NBUF}" using xs(2) b by (auto simp: set_remove1_eq)
  have v: "b_valid (bufs s' c) = b_valid (bufs s c)" "b_dirty (bufs s' c) = b_dirty (bufs s c)" for c
    using same(1) [of c] by (simp_all add: same_contents_def b_valid_def b_dirty_def)
  have f: "b_dev (bufs s' c) = b_dev (bufs s c)" "b_blockno (bufs s' c) = b_blockno (bufs s c)" "b_data (bufs s' c) = b_data (bufs s c)" for c
    using same(1) [of c] by (simp_all add: same_contents_def)
  have bufok: "buf_ok (B - {b}) s' c" if c: "c < NBUF" for c
    using bc_okD(3) [OF assms(3) c] assms(4,5)
    by (cases "c = b") (auto simp: buf_ok_def same(2) v f fields my)
  have "bc_ok (B - {b}) s'"
    unfolding bc_ok_def
    using ring set bufok bc_okD(1,2,4) [OF assms(3)] caches_cong [of s s', OF same(1)] by (auto simp: fields)
  then show ?thesis using s1(2) fr same(1) fields(2,3) by (intro exI [of _ s']) (simp add: s'_def)
qed

text \<open>Changing flags and data of a held buffer, with or without a write to its block on the disk.\<close>

lemma held_caches:
  assumes "bc_ok B s" and "b \<in> B"
  shows "caches s b (b_blockno (bufs s b))" "b_valid (bufs s b)" "b < NBUF" "b_blockno (bufs s b) < disksize s"
    "blk s (b_blockno (bufs s b)) = b_data (bufs s b)" "length (b_data (bufs s b)) = BSIZE" "b_dev (bufs s b) = 1"
proof -
  have b: "b < NBUF" using bc_okD(1) [OF assms(1)] assms(2) by auto
  have o: "buf_ok B s b" using assms(1) b by (rule bc_okD(3))
  show c: "caches s b (b_blockno (bufs s b))" and v: "b_valid (bufs s b)" and "b < NBUF" "b_blockno (bufs s b) < disksize s"
    "length (b_data (bufs s b)) = BSIZE" "b_dev (bufs s b) = 1"
    using o b assms(2) by (auto simp: buf_ok_def caches_def)
  show "blk s (b_blockno (bufs s b)) = b_data (bufs s b)" using assms(1) c v by (rule blk_cached)
qed

lemma held_upd:
  assumes ok: "bc_ok B s" and b: "b \<in> B" and n: "n = b_blockno (bufs s b)"
    and s': "s' = (upd_buf b (\<lambda>x. x\<lparr>b_flags := f, b_data := d\<rparr>) s)\<lparr>disk := (disk s)(n := e), dwrites := w\<rparr>"
    and f: "bit f (Suc 0)" and l: "length d = BSIZE" "length e = BSIZE"
  shows "bc_ok B s'" "bio_frame s s'" "blk s' m = (if m = n then d else blk s m)"
    "bdirty s' m = (if m = n then bit f 2 else bdirty s m)"
proof -
  note h = held_caches [OF ok b]
  have bs: "bufs s' c = (if c = b then (bufs s b)\<lparr>b_flags := f, b_data := d\<rparr> else bufs s c)" for c
    by (simp add: s')
  have fl: "slocks s' = slocks s" "disk s' = (disk s)(n := e)" "disksize s' = disksize s" "mypid s' = mypid s" "ptable s' = ptable s"
    by (simp_all add: s' mypid_def)
  have ca: "caches s' c k = caches s c k" for c k by (auto simp: caches_def bs)
  show fr: "bio_frame s s'"
    unfolding bio_frame_def by (simp add: s' upd_buf_def)
  have ring: "\<exists>xs. ring_of (bufs s') xs \<and> set xs = {..<NBUF}"
  proof -
    obtain xs where xs: "ring_of (bufs s) xs" "set xs = {..<NBUF}" using ok unfolding bc_ok_def by blast
    have "ring_of (bufs s') xs" by (rule ring_same_links [OF xs(1)]) (simp_all add: bs)
    with xs(2) show ?thesis by blast
  qed
  have bufok: "buf_ok B s' c" if c: "c < NBUF" for c
  proof (cases "c = b")
    case True
    with bc_okD(3) [OF ok c] b f l show ?thesis by (simp add: buf_ok_def bs fl b_valid_def and_2_iff)
  next
    case False
    have "b_blockno (bufs s c) \<noteq> n" if "b_dev (bufs s c) = 1"
      using bc_okD(4) [OF ok h(1), of c] that False c by (auto simp: n caches_def)
    with bc_okD(3) [OF ok c] False show ?thesis by (auto simp: buf_ok_def bs fl)
  qed
  show ok': "bc_ok B s'"
    unfolding bc_ok_def using ring bufok bc_okD(1,2,4) [OF ok] l(2) by (auto simp: fl ca)
  have v: "b_valid (bufs s' b)" using f by (simp add: bs b_valid_def and_2_iff)
  show "blk s' m = (if m = n then d else blk s m)"
  proof (cases "m = n")
    case True
    have "caches s' b n" using h(1) n by (simp add: ca)
    from blk_cached [OF ok' this v] True show ?thesis by (simp add: bs)
  next
    case False
    then have nb: "\<not> caches s b m" using n by (auto simp: caches_def)
    show ?thesis
    proof (cases "\<exists>c. caches s c m \<and> b_valid (bufs s c)")
      case True
      then obtain c where c: "caches s c m" "b_valid (bufs s c)" by blast
      with nb have "caches s' c m" "b_valid (bufs s' c)" "bufs s' c = bufs s c" by (auto simp: ca bs)
      with blk_cached [OF ok' this(1,2)] blk_cached [OF ok c] False show ?thesis by simp
    next
      case None: False
      have "blk s m = disk s m" using None by (intro blk_uncached) blast
      moreover have "blk s' m = disk s' m" by (rule blk_uncached) (use None nb in \<open>auto simp: ca bs\<close>)
      ultimately show ?thesis using False by (simp add: fl)
    qed
  qed
  show "bdirty s' m = (if m = n then bit f 2 else bdirty s m)"
  proof (cases "m = n")
    case True
    have "c = b" if "caches s c n" for c using bc_okD(4) [OF ok h(1)] that n by blast
    then have "bdirty s' n = b_dirty (bufs s' b)" using h(1,3) n by (auto simp: bdirty_def ca)
    then show ?thesis using True by (simp add: bs b_dirty_def and_4_iff)
  next
    case False
    then have "\<not> caches s b m" using n by (auto simp: caches_def)
    then show ?thesis using False by (auto simp: bdirty_def ca bs)
  qed
qed

lemma bwrite_ok:
  assumes "runs_in i s" and "held s = []" and "bc_ok B s" and "b \<in> B" and "n = b_blockno (bufs s b)" and "d = b_data (bufs s b)"
  shows "\<exists>s'. bwrite b s = Inr s' \<and> bio_frame s s' \<and> bc_ok B s' \<and> disk s' = (disk s)(n := d) \<and>
    dwrites s' = dwrites s @ [(n, d)] \<and> (\<forall>m. blk s' m = blk s m) \<and> (\<forall>m. bdirty s' m \<longleftrightarrow> bdirty s m \<and> m \<noteq> n) \<and>
    (\<forall>c. b_blockno (bufs s' c) = b_blockno (bufs s c) \<and> b_data (bufs s' c) = b_data (bufs s c)) \<and>
    (\<forall>c. c \<noteq> b \<longrightarrow> bufs s' c = bufs s c)"
proof -
  note h = held_caches [OF assms(3,4)]
  have o: "sl_locked (slocks s (SBuf b)) \<noteq> 0" "sl_pid (slocks s (SBuf b)) = mypid s"
    using bc_okD(3) [OF assms(3) h(3)] assms(4) by (auto simp: buf_ok_def)
  let ?f = "((b_flags (bufs s b) OR B_DIRTY) AND NOT B_DIRTY) OR B_VALID"
  let ?s = "upd_buf b (\<lambda>x. x\<lparr>b_flags := b_flags x OR B_DIRTY\<rparr>) s"
  define s' where "s' = (upd_buf b (\<lambda>x. x\<lparr>b_flags := ?f, b_data := d\<rparr>) s)\<lparr>disk := (disk s)(n := d), dwrites := dwrites s @ [(n, d)]\<rparr>"
  have "iderw b ?s = Inr ((upd_buf b (\<lambda>x. x\<lparr>b_flags := (b_flags x AND NOT B_DIRTY) OR B_VALID\<rparr>) ?s)
     \<lparr>disk := (disk ?s)(b_blockno (bufs ?s b) := b_data (bufs ?s b)),
      dwrites := dwrites ?s @ [(b_blockno (bufs ?s b), b_data (bufs ?s b))]\<rparr>)"
    by (rule iderw_write) (use assms(1,2) o h in \<open>simp_all add: b_dirty_def and_4_iff\<close>)
  also have "\<dots> = Inr s'"
    by (simp add: s'_def upd_buf_upd_buf assms(5,6)) (simp add: upd_buf_def)
  finally have w: "bwrite b s = Inr s'"
    using holdingsleep_eq [OF assms(1), of "SBuf b"] assms(2) o by (simp add: bwrite_def)
  have l: "length d = BSIZE" using h(6) assms(6) by simp
  have f1: "bit ?f (Suc 0)" by (simp only: flag_bits)
  have f2: "\<not> bit ?f 2" by (simp only: flag_bits not_False_eq_True)
  note u = held_upd [OF assms(3,4,5) s'_def f1 l l]
  have blk: "blk s' m = blk s m" for m using u(3) [of m] h(5) assms(5,6) by (cases "m = n") simp_all
  have dirty: "bdirty s' m \<longleftrightarrow> bdirty s m \<and> m \<noteq> n" for m using u(4) [of m] f2 by (cases "m = n") simp_all
  show ?thesis
    using w u(1,2) blk dirty by (intro exI [of _ s']) (simp add: s'_def assms(6))
qed

lemma set_data_ok:
  assumes "bc_ok B s" and "b \<in> B" and "length d = BSIZE"
  shows "bc_ok B (set_data b d s)" "bio_frame s (set_data b d s)"
    "blk (set_data b d s) m = (if m = b_blockno (bufs s b) then d else blk s m)" "bdirty (set_data b d s) m = bdirty s m"
proof -
  note h = held_caches [OF assms(1,2)]
  let ?n = "b_blockno (bufs s b)"
  have s': "set_data b d s = (upd_buf b (\<lambda>x. x\<lparr>b_flags := b_flags (bufs s b), b_data := d\<rparr>) s)
      \<lparr>disk := (disk s)(?n := disk s ?n), dwrites := dwrites s\<rparr>"
    by (simp add: set_data_def upd_buf_def)
  have f: "bit (b_flags (bufs s b)) (Suc 0)" using h(2) by (simp add: b_valid_def and_2_iff)
  note u = held_upd [OF assms(1,2) refl s' f assms(3)]
  have l: "length (disk s ?n) = BSIZE" using bc_okD(2) [OF assms(1)] by simp
  show "bc_ok B (set_data b d s)" "bio_frame s (set_data b d s)"
    "blk (set_data b d s) m = (if m = ?n then d else blk s m)" using u l by auto
  have "bdirty s ?n = b_dirty (bufs s b)"
    using h(1,3) bc_okD(4) [OF assms(1) h(1)] by (auto simp: bdirty_def)
  then show "bdirty (set_data b d s) m = bdirty s m" using u(4) l by (simp add: b_dirty_def and_4_iff)
qed


section \<open>Properties\<close>

text \<open>A cache in which no block is held and at most \<open>NBUF - 1\<close> are pinned always has a buffer to give.\<close>

lemma not_all_dirty:
  assumes "bc_ok B s" and "finite D" and "\<And>m. bdirty s m \<Longrightarrow> m \<in> D" and "card D + card B < NBUF"
  shows "\<exists>b < NBUF. b \<notin> B \<and> \<not> b_dirty (bufs s b)"
proof (rule ccontr)
  assume "\<not> ?thesis"
  then have all: "b_dirty (bufs s b)" if "b < NBUF" "b \<notin> B" for b using that by blast
  let ?R = "{..<NBUF} - B"
  have B: "B \<subseteq> {..<NBUF}" using assms(1) by (rule bc_okD(1))
  have "caches s b (b_blockno (bufs s b))" if "b \<in> ?R" for b
    using that all [of b] bc_okD(3) [OF assms(1), of b] by (auto simp: buf_ok_def caches_def)
  then have inj: "inj_on (\<lambda>b. b_blockno (bufs s b)) ?R" using bc_okD(4) [OF assms(1)] by (metis (no_types, lifting) inj_onI)
  have "(\<lambda>b. b_blockno (bufs s b)) ` ?R \<subseteq> D"
    using \<open>\<And>b. b \<in> ?R \<Longrightarrow> caches s b (b_blockno (bufs s b))\<close> all assms(3) by (force simp: bdirty_def)
  then have "card ?R \<le> card D" using inj assms(2) by (metis card_image card_mono)
  moreover have "card ?R = NBUF - card B" using B by (simp add: card_Diff_subset finite_subset)
  ultimately show False using assms(4) by linarith
qed

text \<open>
  C20: a block written through the cache is read back. From any well-formed cache in which the
  process holds no buffer and a buffer is free, \<open>bread\<close> of a block, a change of its data,
  \<open>bwrite\<close>, \<open>brelse\<close> and a second \<open>bread\<close> all return; the second \<open>bread\<close> gives the new data, the disk
  has it too, and no other block changed.
\<close>

theorem buffer_write_read:
  assumes "runs_in i s" and "held s = []" and "bc_ok {} s" and "n < disksize s" and "length d = BSIZE"
    and "\<exists>b < NBUF. \<not> b_dirty (bufs s b)"
  shows "\<exists>b s'. seq (bread 1 n s) (\<lambda>(b, s). seq (bwrite b (set_data b d s)) (\<lambda>s. seq (brelse b s) (\<lambda>s. bread 1 n s))) = Inr (b, s') \<and>
    b_data (bufs s' b) = d \<and> disk s' = (disk s)(n := d) \<and> (\<forall>m. m \<noteq> n \<longrightarrow> blk s' m = blk s m)"
proof -
  obtain b s1 where s1: "bread 1 n s = Inr (b, s1)" "bio_frame s s1" "bc_ok (insert b {}) s1" "b_blockno (bufs s1 b) = n"
      "disk s1 = disk s" "\<forall>m. blk s1 m = blk s m"
    using bread_ok [OF assms(1-4)] assms(6) by blast
  note r1 = bio_frame_runs [OF s1(2) assms(1)]
  let ?s2 = "set_data b d s1"
  note s2 = set_data_ok [OF s1(3) _ assms(5), simplified]
  note r2 = bio_frame_runs [OF s2(2) r1(1)]
  have b2: "b_blockno (bufs ?s2 b) = n" "b_data (bufs ?s2 b) = d" "disk ?s2 = disk s" using s1(4,5) by (simp_all add: set_data_def)
  obtain s3 where s3: "bwrite b ?s2 = Inr s3" "bio_frame ?s2 s3" "bc_ok {b} s3" "disk s3 = (disk ?s2)(n := d)"
      "\<forall>m. blk s3 m = blk ?s2 m" "\<forall>c. b_blockno (bufs s3 c) = b_blockno (bufs ?s2 c) \<and> b_data (bufs s3 c) = b_data (bufs ?s2 c)"
    using bwrite_ok [OF r2(1) r2(4) [unfolded r1(4) assms(2)] s2(1) _ b2(1) [symmetric] b2(2) [symmetric]] by blast
  note r3 = bio_frame_runs [OF s3(2) r2(1)]
  obtain s4 where s4: "brelse b s3 = Inr s4" "bio_frame s3 s4" "bc_ok {} s4" "disk s4 = disk s3" "\<forall>c. same_contents (bufs s3 c) (bufs s4 c)"
    using brelse_ok [OF r3(1) _ s3(3), of b] r3(4) r2(4) r1(4) assms(2) s3(4,6) b2 by auto
  note r4 = bio_frame_runs [OF s4(2) r3(1)]
  have c4: "caches s4 b n"
    using caches_cong [of s3 s4, OF s4(5) [rule_format]] held_caches(1) [OF s3(3), of b] s3(6) b2(1) by simp
  have v4: "blk s4 m = (if m = n then d else blk s m)" for m
    using view_cong(1) [of s3 s4, OF s4(5) [rule_format] s4(4)] s3(5) s2(3) s1(4,6) by simp
  obtain b' s5 where s5: "bread 1 n s4 = Inr (b', s5)" "b_data (bufs s5 b') = blk s4 n" "disk s5 = disk s4" "\<forall>m. blk s5 m = blk s4 m"
    using bread_ok [OF r4(1) _ s4(3), of n] r4(4,5) r3(4,5) r2(4,5) r1(4,5) assms(2,4) c4 by auto
  show ?thesis
    by (rule exI [of _ b'], rule exI [of _ s5])
      (simp add: s1(1) s3(1) s4(1) s5 v4 s4(4) s3(4) b2(3))
qed

text \<open>The cache as \<open>binit\<close> leaves it: every buffer free, none valid.\<close>

definition no_buf :: buf where
  "no_buf = \<lparr>b_flags = 0, b_dev = 0, b_blockno = 0, b_refcnt = 0, b_prev = 0, b_next = 0, b_data = replicate BSIZE 0\<rparr>"

lemma binit_from_same:
  "same_contents (bufs s c) (bufs (binit_from bs s) c)" "b_refcnt (bufs (binit_from bs s) c) = b_refcnt (bufs s c)"
  "slocks (binit_from bs s) l = (if \<exists>b \<in> set bs. l = SBuf b then (slocks s l)\<lparr>sl_name := ''buffer'', sl_locked := 0, sl_pid := 0\<rparr>
     else slocks s l)"
  "disk (binit_from bs s) = disk s"
proof -
  have sl: "slocks (link_first b s) = slocks s" "disk (link_first b s) = disk s" for b and s :: "'a bio_state_scheme"
    by (simp_all add: link_first_def Let_def)
  show "same_contents (bufs s c) (bufs (binit_from bs s) c)" "b_refcnt (bufs (binit_from bs s) c) = b_refcnt (bufs s c)"
    by (induction bs arbitrary: s) (simp_all add: same_contents_def link_first_same)
  show "slocks (binit_from bs s) l = (if \<exists>b \<in> set bs. l = SBuf b then (slocks s l)\<lparr>sl_name := ''buffer'', sl_locked := 0, sl_pid := 0\<rparr>
     else slocks s l)"
    by (induction bs arbitrary: s) (auto simp: sl initsleeplock_def)
  show "disk (binit_from bs s) = disk s"
    by (induction bs arbitrary: s) (simp_all add: sl initsleeplock_def)
qed

lemma binit_ok:
  assumes "\<And>b. bufs s b = no_buf" and "\<And>n. length (disk s n) = BSIZE"
  shows "bc_ok {} (binit s)" "\<not> bdirty (binit s) n" "disk (binit s) = disk s" "\<not> caches (binit s) c n"
proof -
  let ?h = "upd_buf b_head (\<lambda>x. x\<lparr>b_next := b_head\<rparr>) (upd_buf b_head (\<lambda>x. x\<lparr>b_prev := b_head\<rparr>) s)"
  have b: "binit s = binit_from [0..<NBUF] ?h" by (simp add: binit_def)
  have c: "same_contents no_buf (bufs (binit s) x)" "b_refcnt (bufs (binit s) x) = 0" for x
    using binit_from_same(1,2) [where s = ?h and c = x and bs = "[0..<NBUF]"] assms(1)
    by (auto simp: b same_contents_def no_buf_def)
  have l: "sl_locked (slocks (binit s) (SBuf x)) = 0" if "x < NBUF" for x
    using that binit_from_same(3) [where s = ?h and bs = "[0..<NBUF]" and l = "SBuf x"] by (auto simp: b)
  show d: "disk (binit s) = disk s" using binit_from_same(4) [where s = ?h and bs = "[0..<NBUF]"] by (simp add: b)
  show n: "\<not> caches (binit s) x m" for x m using c(1) [of x] by (auto simp: caches_def same_contents_def no_buf_def)
  have "buf_ok {} (binit s) x" if "x < NBUF" for x
    using c [of x] l [OF that] by (simp add: buf_ok_def same_contents_def no_buf_def b_dirty_def)
  moreover have "\<exists>xs. ring_of (bufs (binit s)) xs \<and> set xs = {..<NBUF}"
    by (rule exI [of _ "rev [0..<NBUF]"]) (use binit_links [of s] in auto)
  ultimately show "bc_ok {} (binit s)" unfolding bc_ok_def using n assms(2) d by auto
  show "\<not> bdirty (binit s) n" using n by (simp add: bdirty_def)
qed

text \<open>
  C21: the ring through \<open>prev\<close> and \<open>next\<close> is the list of buffers, most recently released first. A
  block that is not cached gets the least recently released buffer that is neither in use nor
  pinned by the log, and \<open>bget\<close> panics exactly when there is none; a released buffer moves to the
  front.
\<close>

theorem cache_recycles_lru:
  assumes "runs_in i s" and "held s = []" and "bc_ok B s"
    and "ring_of (bufs s) xs" and "set xs = {..<NBUF}" and "\<And>b. \<not> caches s b n"
  shows "(case find (\<lambda>b. b \<notin> B \<and> \<not> b_dirty (bufs s b)) (rev xs) of
      None \<Rightarrow> bget 1 n s = Inl (Panic ''bget: no buffers'')
    | Some b \<Rightarrow> \<exists>s'. bget 1 n s = Inr (b, s') \<and> ring_of (bufs s') xs) \<and>
    (\<forall>b \<in> B. \<exists>s'. brelse b s = Inr s' \<and> ring_of (bufs s') (b # remove1 b xs))"
proof
  have len: "length xs \<le> 30" using assms(4,5) by (metis ring_of_def distinct_card card_lessThan order_refl)
  have n: "find (\<lambda>b. b_dev (bufs s b) = 1 \<and> b_blockno (bufs s b) = n) xs = None"
    using assms(5,6) by (auto simp: find_None_iff caches_def)
  let ?P = "\<lambda>b. b_refcnt (bufs s b) = 0 \<and> b_flags (bufs s b) AND B_DIRTY = 0"
  let ?Q = "\<lambda>b. b \<notin> B \<and> \<not> b_dirty (bufs s b)"
  have PQ: "?P b \<longleftrightarrow> ?Q b" if "b \<in> set (rev xs)" for b
    using that assms(5) bc_okD(3) [OF assms(3), of b] by (auto simp: buf_ok_def b_dirty_def split: if_splits)
  then have f: "find ?P (rev xs) = find ?Q (rev xs)" by (intro find_cong) auto
  show "case find ?Q (rev xs) of
      None \<Rightarrow> bget 1 n s = Inl (Panic ''bget: no buffers'')
    | Some b \<Rightarrow> \<exists>s'. bget 1 n s = Inr (b, s') \<and> ring_of (bufs s') xs"
  proof (cases "find ?Q (rev xs)")
    case None
    with f n assms(2) show ?thesis by (simp add: bget_def lock_def ring_scans [OF assms(4)] len)
  next
    case (Some b)
    let ?s = "upd_buf b (\<lambda>x. x\<lparr>b_dev := 1, b_blockno := n, b_flags := 0, b_refcnt := 1\<rparr>) s"
    have "b < NBUF" "b \<notin> B" using Some assms(5) by (auto simp: find_Some_iff) (metis length_rev lessThan_iff nth_mem set_rev)
    then have "sl_locked (slocks s (SBuf b)) = 0" using bc_okD(3) [OF assms(3), of b] by (simp add: buf_ok_def)
    then have "bget 1 n s = Inr (b, take_buf b ?s)"
      using Some f n assms(1,2) take_buf_acquire [of i ?s b] by (simp add: bget_def lock_def ring_scans [OF assms(4)] len)
    moreover have "ring_of (bufs (take_buf b ?s)) xs" by (rule ring_same_links [OF assms(4)]) simp_all
    ultimately show ?thesis using Some by auto
  qed
  show "\<forall>b \<in> B. \<exists>s'. brelse b s = Inr s' \<and> ring_of (bufs s') (b # remove1 b xs)"
  proof
    fix b
    assume b: "b \<in> B"
    obtain s1 where s1: "brelse b s = Inr (link_first b (unlink_buf b (upd_buf b (\<lambda>x. x\<lparr>b_refcnt := 0\<rparr>) s1)))" "bufs s1 = bufs s"
      using brelse_eq [OF assms(1-3) b] by blast
    have "ring_of (bufs (upd_buf b (\<lambda>x. x\<lparr>b_refcnt := 0\<rparr>) s1)) xs" by (rule ring_same_links [OF assms(4)]) (simp_all add: s1(2))
    from move_first_links [OF this, of b] s1(1) b bc_okD(1) [OF assms(3)] assms(5)
    show "\<exists>s'. brelse b s = Inr s' \<and> ring_of (bufs s') (b # remove1 b xs)" by auto
  qed
qed

definition bio_world :: "'a \<Rightarrow> (uint \<Rightarrow> block) \<Rightarrow> uint \<Rightarrow> 'a bio_state_scheme" where
  "bio_world x d n = binit (booted (slock_state_ext (\<lambda>_. \<lparr>sl_locked = 0, sl_name = [], sl_pid = 0\<rparr>)
     (pipe_state_ext Map.empty (bio_state_ext (\<lambda>_. no_buf) d n [] x))))"

lemma binit_keeps:
  "held (binit s) = held s" "disksize (binit s) = disksize s" "dwrites (binit s) = dwrites s"
  "runs_in i (binit s) = runs_in i s" "mypid (binit s) = mypid s"
proof -
  have "held (binit_from bs s) = held s \<and> disksize (binit_from bs s) = disksize s \<and> dwrites (binit_from bs s) = dwrites s \<and>
      runs_in i (binit_from bs s) = runs_in i s \<and> mypid (binit_from bs s) = mypid s" for bs and s :: "'a bio_state_scheme"
    by (induction bs arbitrary: s) (simp_all add: link_first_def Let_def initsleeplock_def)
  then show "held (binit s) = held s" "disksize (binit s) = disksize s" "dwrites (binit s) = dwrites s"
    "runs_in i (binit s) = runs_in i s" "mypid (binit s) = mypid s"
    by (simp_all add: binit_def Let_def)
qed

lemma bio_world_ok:
  assumes "\<And>m. length (d m) = BSIZE"
  shows "runs_in 0 (bio_world x d n)" "held (bio_world x d n) = []" "bc_ok {} (bio_world x d n)" "disksize (bio_world x d n) = n"
    "disk (bio_world x d n) = d" "\<not> bdirty (bio_world x d n) m" "\<not> caches (bio_world x d n) b m"
proof -
  let ?b = "booted (slock_state_ext (\<lambda>_. \<lparr>sl_locked = 0, sl_name = [], sl_pid = 0\<rparr>)
     (pipe_state_ext Map.empty (bio_state_ext (\<lambda>_. no_buf) d n [] x)))"
  have f: "bufs ?b = (\<lambda>_. no_buf)" "disk ?b = d" "disksize ?b = n"
    by (simp_all add: booted_def four_procs_def proc_state.defs bio_state.defs)
  show "runs_in 0 (bio_world x d n)" "held (bio_world x d n) = []" "disksize (bio_world x d n) = n"
    using f(3) by (simp_all add: bio_world_def binit_keeps booted_runs)
  show "bc_ok {} (bio_world x d n)" "disk (bio_world x d n) = d" "\<not> bdirty (bio_world x d n) m" "\<not> caches (bio_world x d n) b m"
    using binit_ok [of ?b] f assms by (simp_all add: bio_world_def)
qed

lemma bio_world_free: "\<not> b_dirty (bufs (bio_world () (\<lambda>_. replicate BSIZE 0) 1000) b)" if "b < NBUF"
  using bio_world_ok(3) [of "\<lambda>_. replicate BSIZE 0" "()" 1000] bio_world_ok(6) [of "\<lambda>_. replicate BSIZE 0" "()" 1000] that
  by (auto simp: bdirty_def caches_def dest: bc_okD(3) simp: buf_ok_def)

theorem buffer_write_read_witness:
  "\<exists>b s'. seq (bread 1 5 (bio_world () (\<lambda>_. replicate 512 0) 1000))
     (\<lambda>(b, s). seq (bwrite b (set_data b (replicate 512 7) s)) (\<lambda>s. seq (brelse b s) (\<lambda>s. bread 1 5 s))) = Inr (b, s') \<and>
    b_data (bufs s' b) = replicate 512 7"
proof -
  let ?d = "\<lambda>_ :: uint. replicate 512 (0 :: uchar)"
  have d: "length (?d m) = BSIZE" for m by simp
  note w = bio_world_ok [of ?d "()" 1000, OF d]
  have "\<exists>b < NBUF. \<not> b_dirty (bufs (bio_world () ?d 1000) b)" using bio_world_free [of 0] by (intro exI [of _ 0]) simp
  with buffer_write_read [OF w(1-3), of 5 "replicate 512 7"] w(4) show ?thesis by auto
qed

theorem cache_recycles_lru_witness:
  "\<exists>s'. bget 1 5 (bio_world () (\<lambda>_. replicate 512 0) 1000) = Inr (0, s')"
proof -
  let ?d = "\<lambda>_ :: uint. replicate 512 (0 :: uchar)"
  have d: "length (?d m) = BSIZE" for m by simp
  note w = bio_world_ok [of ?d "()" 1000, OF d]
  have r: "ring_of (bufs (bio_world () ?d 1000)) (rev [0..<NBUF])" unfolding bio_world_def by (rule binit_links)
  have f: "find (\<lambda>b. b \<notin> {} \<and> \<not> b_dirty (bufs (bio_world () ?d 1000) b)) (rev (rev [0..<NBUF])) = Some 0"
    using bio_world_free [of 0] by (simp add: upt_conv_Cons)
  show ?thesis
    using cache_recycles_lru [OF w(1-3) r _ w(7), of 5] f by (auto simp: atLeast_upt)
qed

end
