(* ===== verification/Log.thy ===== *)
theory Log
  imports Bio
begin

text \<open>
  The redo log (\<open>log.c\<close>) and \<open>readsb\<close> of \<open>fs.c\<close>, which it uses. Block numbers are 32-bit words also
  where the source keeps them in an \<open>int\<close> (the bits are the same and they are only compared for
  equality and converted back); counters are integers. Reading a log header whose count exceeds
  \<open>LOGSIZE\<close> would write past the array in memory and is a \<open>Fault\<close>.

  A crash keeps the disk and loses everything else. The list of writes made to the disk says what
  the disk was at every moment of a commit or of a recovery, and the properties say what
  \<open>recover_from_log\<close> makes of it.
\<close>

section \<open>State and operations\<close>

record log_state = bio_state +
  log_start :: uint
  log_size :: int
  log_outstanding :: int
  log_committing :: bool
  log_dev :: uint
  lh_n :: int
  lh_block :: "uint list"

type_synonym ('a, 'b) lres = "('a log_state_scheme, 'b) kres"

definition readsb :: "uint \<Rightarrow> 'a bio_state_scheme \<Rightarrow> ('a, superblock \<times> 'a bio_state_scheme) bres" where
  "readsb dev s =
     seq (bread dev 1 s) (\<lambda>(bp, s).
     let sb = dec_superblock (b_data (bufs s bp))
     in seq (brelse bp s) (\<lambda>s. Inr (sb, s)))"

text \<open>\<open>install_trans\<close>: the loop over the positions \<open>tail\<close> of the log.\<close>

fun install_from :: "nat list \<Rightarrow> 'a log_state_scheme \<Rightarrow> ('a, 'a log_state_scheme) lres" where
  "install_from [] s = Inr s"
| "install_from (tail # ts) s =
     seq (bread (log_dev s) (log_start s + of_nat tail + 1) s) (\<lambda>(lbuf, s).
     seq (bread (log_dev s) (lh_block s ! tail) s) (\<lambda>(dbuf, s).
     seq (bwrite dbuf (set_data dbuf (b_data (bufs s lbuf)) s)) (\<lambda>s.
     seq (brelse lbuf s) (\<lambda>s.
     seq (brelse dbuf s) (\<lambda>s. install_from ts s)))))"

definition install_trans :: "'a log_state_scheme \<Rightarrow> ('a, 'a log_state_scheme) lres" where
  "install_trans s = install_from [0..<nat (lh_n s)] s"

definition read_head :: "'a log_state_scheme \<Rightarrow> ('a, 'a log_state_scheme) lres" where
  "read_head s =
     seq (bread (log_dev s) (log_start s) s) (\<lambda>(buf, s).
     let d = b_data (bufs s buf); n = sint (get32 d 0); s = s\<lparr>lh_n := n\<rparr>
     in if n > int LOGSIZE then Inl (Fault ''read_head'')
        else
          let s = s\<lparr>lh_block := get32s d 4 (nat n) @ drop (nat n) (lh_block s)\<rparr>
          in brelse buf s)"

definition write_head :: "'a log_state_scheme \<Rightarrow> ('a, 'a log_state_scheme) lres" where
  "write_head s =
     seq (bread (log_dev s) (log_start s) s) (\<lambda>(buf, s).
     let d = put32 0 (of_int (lh_n s)) (b_data (bufs s buf));
         d = put32s 4 (take (nat (lh_n s)) (lh_block s)) d
     in seq (bwrite buf (set_data buf d s)) (\<lambda>s. brelse buf s))"

definition recover_from_log :: "'a log_state_scheme \<Rightarrow> ('a, 'a log_state_scheme) lres" where
  "recover_from_log s =
     seq (read_head s) (\<lambda>s.
     seq (install_trans s) (\<lambda>s.
     write_head (s\<lparr>lh_n := 0\<rparr>)))"

definition initlog :: "uint \<Rightarrow> 'a log_state_scheme \<Rightarrow> ('a, 'a log_state_scheme) lres" where
  "initlog dev s =
     (if 4 * (1 + LOGSIZE) \<ge> BSIZE then Inl (Panic ''initlog: too big logheader'')
      else
        seq (readsb dev s) (\<lambda>(sb, s).
        recover_from_log (s\<lparr>log_start := sb_logstart sb, log_size := sint (sb_nlog sb), log_dev := dev\<rparr>)))"

text \<open>The loop of \<open>begin_op\<close>, entered with \<open>log.lock\<close> held; \<open>begin_op_resume\<close> runs after a sleep.\<close>

definition begin_op_loop :: "'a log_state_scheme \<Rightarrow> ('a, 'a log_state_scheme) lres" where
  "begin_op_loop s =
     (if log_committing s then sleep ChLog (Some L_log) s
      else if lh_n s + (log_outstanding s + 1) * int MAXOPBLOCKS > int LOGSIZE then sleep ChLog (Some L_log) s
      else unlock L_log (s\<lparr>log_outstanding := log_outstanding s + 1\<rparr>))"

definition begin_op :: "'a log_state_scheme \<Rightarrow> ('a, 'a log_state_scheme) lres" where
  "begin_op s = seq (lock L_log s) (\<lambda>s. begin_op_loop s)"

definition begin_op_resume :: "'a log_state_scheme \<Rightarrow> ('a, 'a log_state_scheme) lres" where
  "begin_op_resume s = seq (sleep_resume L_log s) (\<lambda>s. begin_op_loop s)"

fun write_log_from :: "nat list \<Rightarrow> 'a log_state_scheme \<Rightarrow> ('a, 'a log_state_scheme) lres" where
  "write_log_from [] s = Inr s"
| "write_log_from (tail # ts) s =
     seq (bread (log_dev s) (log_start s + of_nat tail + 1) s) (\<lambda>(to, s).
     seq (bread (log_dev s) (lh_block s ! tail) s) (\<lambda>(from, s).
     seq (bwrite to (set_data to (b_data (bufs s from)) s)) (\<lambda>s.
     seq (brelse from s) (\<lambda>s.
     seq (brelse to s) (\<lambda>s. write_log_from ts s)))))"

definition write_log :: "'a log_state_scheme \<Rightarrow> ('a, 'a log_state_scheme) lres" where
  "write_log s = write_log_from [0..<nat (lh_n s)] s"

definition commit :: "'a log_state_scheme \<Rightarrow> ('a, 'a log_state_scheme) lres" where
  "commit s =
     (if lh_n s > 0 then
        seq (write_log s) (\<lambda>s.
        seq (write_head s) (\<lambda>s.
        seq (install_trans s) (\<lambda>s.
        write_head (s\<lparr>lh_n := 0\<rparr>))))
      else Inr s)"

definition end_op :: "'a log_state_scheme \<Rightarrow> ('a, 'a log_state_scheme) lres" where
  "end_op s =
     seq (lock L_log s) (\<lambda>s.
     let s = s\<lparr>log_outstanding := log_outstanding s - 1\<rparr>
     in if log_committing s then Inl (Panic ''log.committing'')
        else if log_outstanding s = 0 then
          seq (unlock L_log (s\<lparr>log_committing := True\<rparr>)) (\<lambda>s.
          seq (commit s) (\<lambda>s.
          seq (lock L_log s) (\<lambda>s.
          seq (wakeup ChLog (s\<lparr>log_committing := False\<rparr>)) (\<lambda>s. unlock L_log s))))
        else seq (wakeup ChLog s) (\<lambda>s. unlock L_log s))"

text \<open>\<open>log_write\<close>: \<open>i\<close> is the position of the block in the log header, or the end.\<close>

definition log_write :: "nat \<Rightarrow> 'a log_state_scheme \<Rightarrow> ('a, 'a log_state_scheme) lres" where
  "log_write b s =
     (if lh_n s \<ge> int LOGSIZE \<or> lh_n s \<ge> log_size s - 1 then Inl (Panic ''too big a transaction'')
      else if log_outstanding s < 1 then Inl (Panic ''log_write outside of trans'')
      else
        seq (lock L_log s) (\<lambda>s.
        let n = b_blockno (bufs s b);
            i = (case scan (\<lambda>k. k = n) (take (nat (lh_n s)) (lh_block s)) of Some i \<Rightarrow> i | None \<Rightarrow> nat (lh_n s));
            s = s\<lparr>lh_block := (lh_block s)[i := n]\<rparr>;
            s = (if int i = lh_n s then s\<lparr>lh_n := lh_n s + 1\<rparr> else s)
        in unlock L_log (upd_buf b (\<lambda>x. x\<lparr>b_flags := b_flags x OR B_DIRTY\<rparr>) s)))"

section \<open>Copying blocks through the cache\<close>

text \<open>
  \<open>wrote s s' ws\<close>: from \<open>s\<close> to \<open>s'\<close>, with no buffer held at either end, the writes \<open>ws\<close> were made
  to the disk, the cache shows the same, and only written blocks stopped being pinned.
\<close>

definition apply_writes :: "(uint \<times> block) list \<Rightarrow> (uint \<Rightarrow> block) \<Rightarrow> (uint \<Rightarrow> block)" where
  "apply_writes ws d = fold (\<lambda>(n, x) d. d(n := x)) ws d"

lemma apply_writes_simps [simp]:
  "apply_writes [] d = d" "apply_writes ((n, x) # ws) d = apply_writes ws (d(n := x))"
  "apply_writes (us @ vs) d = apply_writes vs (apply_writes us d)"
  by (simp_all add: apply_writes_def)

definition wrote :: "'a bio_state_scheme \<Rightarrow> 'a bio_state_scheme \<Rightarrow> (uint \<times> block) list \<Rightarrow> bool" where
  "wrote s s' ws \<longleftrightarrow> bio_frame s s' \<and> bc_ok {} s' \<and> disk s' = apply_writes ws (disk s) \<and> dwrites s' = dwrites s @ ws \<and>
     blk s' = apply_writes ws (blk s) \<and> (\<forall>m. bdirty s' m \<longleftrightarrow> bdirty s m \<and> m \<notin> fst ` set ws)"

lemma wrote_refl: "bc_ok {} s \<Longrightarrow> wrote s s []"
  by (simp add: wrote_def)

lemma wrote_trans:
  assumes "wrote s s' us" and "wrote s' s'' vs"
  shows "wrote s s'' (us @ vs)"
  using assms bio_frame_trans [of s s' s''] by (auto simp: wrote_def)

lemma copy_tail:
  fixes s :: "'a bio_state_scheme"
  assumes "runs_in i s" and "held s = []" and "bc_ok {t, c0} s" and "t \<noteq> c0"
    and "b_dirty (bufs s c0) \<or> b_data (bufs s c0) = disk s (b_blockno (bufs s c0))"
  shows "\<exists>s'. (\<forall>k. seq (bwrite t (set_data t (b_data (bufs s c0)) s)) (\<lambda>s. seq (brelse c0 s) (\<lambda>s. seq (brelse t s) k)) = (k s' :: ('a, 'b) bres)) \<and>
    wrote s s' [(b_blockno (bufs s t), b_data (bufs s c0))]"
proof -
  let ?d = "b_data (bufs s c0)" and ?n = "b_blockno (bufs s t)" and ?s = "set_data t (b_data (bufs s c0)) s"
  have l: "length ?d = BSIZE" using held_caches(6) [OF assms(3), of c0] by simp
  note s1 = set_data_ok [OF assms(3) _ l, of t, simplified]
  note r1 = bio_frame_runs [OF s1(2) assms(1)]
  have f1: "b_blockno (bufs ?s c) = b_blockno (bufs s c)" "b_data (bufs ?s t) = ?d" "bufs ?s c0 = bufs s c0"
    "disk ?s = disk s" "dwrites ?s = dwrites s" for c
    using assms(4) by (simp_all add: set_data_def)
  obtain s2 where s2: "bwrite t ?s = Inr s2" "bio_frame ?s s2" "bc_ok {t, c0} s2" "disk s2 = (disk ?s)(?n := ?d)"
      "dwrites s2 = dwrites ?s @ [(?n, ?d)]" "\<forall>m. blk s2 m = blk ?s m" "\<forall>m. bdirty s2 m \<longleftrightarrow> bdirty ?s m \<and> m \<noteq> ?n"
      "\<forall>c. b_blockno (bufs s2 c) = b_blockno (bufs ?s c) \<and> b_data (bufs s2 c) = b_data (bufs ?s c)"
      "\<forall>c. c \<noteq> t \<longrightarrow> bufs s2 c = bufs ?s c"
    using bwrite_ok [OF r1(1) r1(4) [unfolded assms(2)] s1(1) insertI1 f1(1) [symmetric] f1(2) [symmetric]] by blast
  note r2 = bio_frame_runs [OF s2(2) r1(1)]
  have ne: "b_blockno (bufs s c0) \<noteq> ?n"
    using bc_okD(4) [OF assms(3) held_caches(1) [OF assms(3), of t], of c0] held_caches(1) [OF assms(3), of c0] assms(4) by auto
  have src: "bufs s2 c0 = bufs s c0" using s2(9) assms(4) f1(3) by auto
  have "b_dirty (bufs s2 c0) \<or> b_data (bufs s2 c0) = disk s2 (b_blockno (bufs s2 c0))"
    using assms(5) src s2(4) f1(4) ne by auto
  then obtain s3 where s3: "brelse c0 s2 = Inr s3" "bio_frame s2 s3" "bc_ok {t} s3" "disk s3 = disk s2" "dwrites s3 = dwrites s2"
      "\<forall>c. same_contents (bufs s2 c) (bufs s3 c)"
    using brelse_ok [OF r2(1) _ s2(3), of c0] r2(4) r1(4) assms(2,4) by (auto simp: insert_Diff_if)
  note r3 = bio_frame_runs [OF s3(2) r2(1)]
  have f3: "b_blockno (bufs s3 t) = ?n" "b_data (bufs s3 t) = ?d" using s3(6) s2(8) f1 by (auto simp: same_contents_def)
  obtain s4 where s4: "brelse t s3 = Inr s4" "bio_frame s3 s4" "bc_ok {} s4" "disk s4 = disk s3" "dwrites s4 = dwrites s3"
      "\<forall>c. same_contents (bufs s3 c) (bufs s4 c)"
    using brelse_ok [OF r3(1) _ s3(3), of t] r3(4) r2(4) r1(4) assms(2) f3 s3(4) s2(4) by auto
  have "bio_frame s s4" using bio_frame_trans [OF s1(2) bio_frame_trans [OF s2(2) bio_frame_trans [OF s3(2) s4(2)]]] .
  moreover have "blk s4 m = (if m = ?n then ?d else blk s m)" for m
    using view_cong(1) [of s3 s4, OF s4(6) [rule_format] s4(4)] view_cong(1) [of s2 s3, OF s3(6) [rule_format] s3(4)] s2(6) s1(3) by simp
  moreover have "bdirty s4 m \<longleftrightarrow> bdirty s m \<and> m \<noteq> ?n" for m
    using view_cong(2) [of s3 s4, OF s4(6) [rule_format]] view_cong(2) [of s2 s3, OF s3(6) [rule_format]] s2(7) s1(4) by simp
  moreover have "disk s4 = (disk s)(?n := ?d)" "dwrites s4 = dwrites s @ [(?n, ?d)]"
    using s4(4,5) s3(4,5) s2(4,5) f1(4,5) by simp_all
  ultimately have "wrote s s4 [(?n, ?d)]" using s4(3) by (auto simp: wrote_def)
  then show ?thesis using s2(1) s3(1) s4(1) by (intro exI [of _ s4]) simp
qed

lemma two_breads:
  assumes "runs_in i s" and "held s = []" and "bc_ok {} s" and "x \<noteq> y" and "x < disksize s" and "y < disksize s"
    and "finite D" and "\<forall>m. bdirty s m \<longrightarrow> m \<in> D" and "card D + 2 \<le> NBUF"
  shows "\<exists>a b s1 s2. bread 1 x s = Inr (a, s1) \<and> bio_frame s s1 \<and> bread 1 y s1 = Inr (b, s2) \<and> bio_frame s s2 \<and> bc_ok {a, b} s2 \<and> a \<noteq> b \<and>
    b_blockno (bufs s2 a) = x \<and> b_data (bufs s2 a) = blk s x \<and> b_blockno (bufs s2 b) = y \<and> b_data (bufs s2 b) = blk s y \<and>
    disk s2 = disk s \<and> dwrites s2 = dwrites s \<and> (\<forall>m. blk s2 m = blk s m) \<and> (\<forall>m. bdirty s2 m = bdirty s m) \<and>
    (\<forall>c \<in> {a, b}. b_dirty (bufs s2 c) \<or> b_data (bufs s2 c) = disk s2 (b_blockno (bufs s2 c)))"
proof -
  have fr1: "\<exists>b < NBUF. b \<notin> {} \<and> \<not> b_dirty (bufs s b)"
    using not_all_dirty [OF assms(3,7)] assms(8,9) by simp
  then obtain a s1 where s1: "bread 1 x s = Inr (a, s1)" "bio_frame s s1" "bc_ok {a} s1" "b_blockno (bufs s1 a) = x"
      "b_data (bufs s1 a) = blk s x" "disk s1 = disk s" "dwrites s1 = dwrites s" "\<forall>m. blk s1 m = blk s m" "\<forall>m. bdirty s1 m = bdirty s m"
    using bread_ok [OF assms(1-3,5)] by blast
  note r1 = bio_frame_runs [OF s1(2) assms(1)]
  have "\<exists>b < NBUF. b \<notin> {a} \<and> \<not> b_dirty (bufs s1 b)"
    using not_all_dirty [OF s1(3) assms(7)] assms(8,9) s1(9) by simp
  moreover have "\<And>b. b \<in> {a} \<Longrightarrow> b_blockno (bufs s1 b) \<noteq> y" using s1(4) assms(4) by simp
  ultimately obtain b s2 where s2: "bread 1 y s1 = Inr (b, s2)" "bio_frame s1 s2" "bc_ok {b, a} s2" "b \<notin> {a}" "b_blockno (bufs s2 b) = y"
      "b_data (bufs s2 b) = blk s1 y" "disk s2 = disk s1" "dwrites s2 = dwrites s1" "\<forall>m. blk s2 m = blk s1 m" "\<forall>m. bdirty s2 m = bdirty s1 m"
      "\<forall>c \<in> {a}. bufs s2 c = bufs s1 c"
    using bread_ok [OF r1(1) r1(4) [unfolded assms(2)] s1(3), of y] r1(5) assms(6) by auto
  have ok2: "bc_ok {a, b} s2" using s2(3) by (simp add: insert_commute)
  have "b_dirty (bufs s2 c) \<or> b_data (bufs s2 c) = disk s2 (b_blockno (bufs s2 c))" if c: "c \<in> {a, b}" for c
  proof (cases "bdirty s2 (b_blockno (bufs s2 c))")
    case True
    then show ?thesis using bc_okD(4) [OF ok2 held_caches(1) [OF ok2 c]] by (auto simp: bdirty_def)
  next
    case False
    then have "blk s (b_blockno (bufs s2 c)) = disk s (b_blockno (bufs s2 c))"
      using s1(9) s2(10) by (intro blk_free [OF assms(3)]) auto
    then show ?thesis using held_caches(5) [OF ok2 c] s1(6,8) s2(7,9) by simp
  qed
  with ok2 s1 s2 bio_frame_trans [OF s1(2) s2(2)] show ?thesis
    by (intro exI [of _ a] exI [of _ b] exI [of _ s1] exI [of _ s2]) auto
qed

section \<open>The loops of the log\<close>

definition log_at :: "'a log_state_scheme \<Rightarrow> nat \<Rightarrow> uint" where
  "log_at s k = log_start s + of_nat k + 1"

definition log_region :: "'a log_state_scheme \<Rightarrow> uint set" where
  "log_region s = insert (log_start s) (log_at s ` {..<LOGSIZE})"

text \<open>The log lies inside the disk, and the blocks \<open>L\<close> of a transaction lie outside the log.\<close>

definition log_geom :: "uint list \<Rightarrow> 'a log_state_scheme \<Rightarrow> bool" where
  "log_geom L s \<longleftrightarrow> log_dev s = 1 \<and> unat (log_start s) + LOGSIZE < unat (disksize s) \<and>
     distinct L \<and> length L \<le> LOGSIZE \<and> (\<forall>m \<in> set L. m < disksize s \<and> m \<notin> log_region s)"

lemma log_at_inj [simp]: "j < LOGSIZE \<Longrightarrow> k < LOGSIZE \<Longrightarrow> log_at s j = log_at s k \<longleftrightarrow> j = k"
  by (simp add: log_at_def word_of_nat_eq_iff take_bit_eq_mod)

lemma log_at_start [simp]: "k < LOGSIZE \<Longrightarrow> log_at s k \<noteq> log_start s"
proof
  assume k: "k < LOGSIZE" and "log_at s k = log_start s"
  then have "(of_nat (Suc k) :: uint) = of_nat 0" by (simp add: log_at_def algebra_simps)
  with k show False by (simp only: word_of_nat_eq_iff) (simp add: take_bit_eq_mod)
qed

lemma log_region_in_disk:
  assumes "log_geom L s"
  shows "log_start s < disksize s" "k < LOGSIZE \<Longrightarrow> log_at s k < disksize s"
proof -
  have g: "unat (log_start s) + LOGSIZE < unat (disksize s)" using assms by (simp add: log_geom_def)
  then show "log_start s < disksize s" by (simp add: word_less_nat_alt)
  assume k: "k < LOGSIZE"
  have d: "unat (disksize s) < 2 ^ 32" using unsigned_less [of "disksize s"] by simp
  have "unat (log_at s k) = unat (log_start s) + Suc k"
  proof -
    have "log_at s k = of_nat (unat (log_start s) + Suc k)" by (simp add: log_at_def)
    then have "unat (log_at s k) = (unat (log_start s) + Suc k) mod 2 ^ 32" by (simp only: unat_of_nat) simp
    with g d k show ?thesis by simp
  qed
  with g k show "log_at s k < disksize s" by (simp add: word_less_nat_alt)
qed

lemma bio_frame_log:
  assumes "bio_frame s s'"
  shows "log_start s' = log_start s" "log_size s' = log_size s" "log_outstanding s' = log_outstanding s"
    "log_committing s' = log_committing s" "log_dev s' = log_dev s" "lh_n s' = lh_n s" "lh_block s' = lh_block s"
    "disksize s' = disksize s" "held s' = held s"
proof -
  have e: "s' = s\<lparr>ptable := ptable s', slocks := slocks s', bufs := bufs s', disk := disk s', dwrites := dwrites s'\<rparr>"
    using assms unfolding bio_frame_def by blast
  show "log_start s' = log_start s" "log_size s' = log_size s" "log_outstanding s' = log_outstanding s"
    "log_committing s' = log_committing s" "log_dev s' = log_dev s" "lh_n s' = lh_n s" "lh_block s' = lh_block s"
    "disksize s' = disksize s" "held s' = held s"
    by (subst e, simp)+
qed

lemma bio_frame_geom:
  assumes "bio_frame s s'"
  shows "log_at s' = log_at s" "log_region s' = log_region s" "log_geom L s' = log_geom L s"
  using bio_frame_log [OF assms] by (auto simp: log_at_def log_region_def log_geom_def)

lemma log_geomD:
  assumes "log_geom L s" and "k < length L"
  shows "L ! k < disksize s" "L ! k \<noteq> log_start s" "j < LOGSIZE \<Longrightarrow> L ! k \<noteq> log_at s j" "j < LOGSIZE \<Longrightarrow> log_at s j \<noteq> L ! k" "k < LOGSIZE"
proof -
  have m: "L ! k < disksize s \<and> L ! k \<notin> log_region s" "length L \<le> LOGSIZE"
    using assms(1) nth_mem [OF assms(2)] unfolding log_geom_def by blast+
  show "L ! k < disksize s" "k < LOGSIZE" using m assms(2) by simp_all
  show "L ! k \<noteq> log_start s" using m(1) by (auto simp: log_region_def)
  show ne: "L ! k \<noteq> log_at s j" if "j < LOGSIZE" using m(1) that unfolding log_region_def by blast
  show "log_at s j \<noteq> L ! k" if "j < LOGSIZE" using ne [OF that] by simp
qed

text \<open>Few enough blocks are pinned for two buffers to be free.\<close>

definition room :: "'a bio_state_scheme \<Rightarrow> bool" where
  "room s \<longleftrightarrow> (\<exists>D. finite D \<and> (\<forall>m. bdirty s m \<longrightarrow> m \<in> D) \<and> card D + 2 \<le> NBUF)"

lemma room_mono: "room s \<Longrightarrow> (\<And>m. bdirty s' m \<Longrightarrow> bdirty s m) \<Longrightarrow> room s'"
  unfolding room_def by blast

lemma wrote_room: "wrote s s' ws \<Longrightarrow> room s \<Longrightarrow> room s'"
  by (rule room_mono) (auto simp: wrote_def)

lemma wrote_runs:
  assumes "wrote s s' ws" and "runs_in i s" and "held s = []"
  shows "runs_in i s'" "held s' = []" "bc_ok {} s'" "bio_frame s s'" "mypid s' = mypid s"
  using assms bio_frame_runs [of s s' i] by (auto simp: wrote_def)

lemma apply_writes_other: "m \<notin> fst ` set ws \<Longrightarrow> apply_writes ws d m = d m"
  by (induction ws arbitrary: d) auto

lemma write_log_from_ok:
  assumes "runs_in i s" and "held s = []" and "bc_ok {} s" and "room s" and "log_geom L s"
    and "set ts \<subseteq> {..<length L}" and "distinct ts" and "\<forall>k < length L. lh_block s ! k = L ! k"
  shows "\<exists>s'. write_log_from ts s = Inr s' \<and> wrote s s' (map (\<lambda>k. (log_at s k, blk s (L ! k))) ts)"
  using assms
proof (induction ts arbitrary: s)
  case Nil
  then show ?case by (simp add: wrote_refl)
next
  case (Cons k ts)
  note g = Cons.prems(5)
  have k: "k < length L" "k < LOGSIZE" using Cons.prems(5,6) by (auto simp: log_geom_def)
  have ne: "log_at s k \<noteq> L ! k" "L ! k < disksize s" using log_geomD [OF g k(1)] k(2) by auto
  obtain D where D: "finite D" "\<forall>m. bdirty s m \<longrightarrow> m \<in> D" "card D + 2 \<le> NBUF" using Cons.prems(4) by (auto simp: room_def)
  obtain a b s1 s2 where s2: "bread 1 (log_at s k) s = Inr (a, s1)" "bio_frame s s1" "bread 1 (L ! k) s1 = Inr (b, s2)" "bio_frame s s2" "bc_ok {a, b} s2" "a \<noteq> b"
      "b_blockno (bufs s2 a) = log_at s k" "b_data (bufs s2 b) = blk s (L ! k)"
      "disk s2 = disk s" "dwrites s2 = dwrites s" "\<forall>m. blk s2 m = blk s m" "\<forall>m. bdirty s2 m = bdirty s m"
      "\<forall>c \<in> {a, b}. b_dirty (bufs s2 c) \<or> b_data (bufs s2 c) = disk s2 (b_blockno (bufs s2 c))"
    using two_breads [OF Cons.prems(1-3) ne(1) log_region_in_disk(2) [OF g k(2)] ne(2) D] by blast
  note r2 = bio_frame_runs [OF s2(4) Cons.prems(1)]
  obtain s3 where s3: "\<forall>k'. seq (bwrite a (set_data a (b_data (bufs s2 b)) s2)) (\<lambda>s. seq (brelse b s) (\<lambda>s. seq (brelse a s) k')) =
      (k' s3 :: ('a, 'a log_state_scheme) lres)" "wrote s2 s3 [(b_blockno (bufs s2 a), b_data (bufs s2 b))]"
    using copy_tail [OF r2(1) r2(4) [unfolded Cons.prems(2)] s2(5,6)] s2(13) by blast
  have w: "wrote s s3 [(log_at s k, blk s (L ! k))]"
    using s3(2) s2(4,7-12) bio_frame_trans [OF s2(4)] by (auto simp: wrote_def fun_eq_iff)
  note r3 = wrote_runs [OF w Cons.prems(1,2)]
  note f3 = bio_frame_log [OF r3(4)] and g3 = bio_frame_geom [OF r3(4)]
  have eq: "write_log_from (k # ts) s = write_log_from ts s3"
    using s2(1,3) s3(1) g k(1) Cons.prems(8) bio_frame_log [OF s2(2)] by (simp add: log_at_def log_geom_def)
  have vs: "blk s3 (L ! j) = blk s (L ! j)" if "j < length L" for j
    using w log_geomD(3) [OF g that k(2)] by (simp add: wrote_def)
  from Cons.IH [OF r3(1-3) wrote_room [OF w Cons.prems(4)]] Cons.prems(5-8) f3 g3 obtain s' where
    s': "write_log_from ts s3 = Inr s'" "wrote s3 s' (map (\<lambda>k. (log_at s3 k, blk s3 (L ! k))) ts)" by auto
  have "map (\<lambda>k. (log_at s3 k, blk s3 (L ! k))) ts = map (\<lambda>k. (log_at s k, blk s (L ! k))) ts"
    using Cons.prems(6) vs g3(1) by auto
  with wrote_trans [OF w s'(2)] s'(1) eq show ?case by auto
qed

lemma install_from_ok:
  assumes "runs_in i s" and "held s = []" and "bc_ok {} s" and "room s" and "log_geom L s"
    and "set ts \<subseteq> {..<length L}" and "distinct ts" and "\<forall>k < length L. lh_block s ! k = L ! k"
  shows "\<exists>s'. install_from ts s = Inr s' \<and> wrote s s' (map (\<lambda>k. (L ! k, blk s (log_at s k))) ts)"
  using assms
proof (induction ts arbitrary: s)
  case Nil
  then show ?case by (simp add: wrote_refl)
next
  case (Cons k ts)
  note g = Cons.prems(5)
  have k: "k < length L" "k < LOGSIZE" using Cons.prems(5,6) by (auto simp: log_geom_def)
  have ne: "log_at s k \<noteq> L ! k" "L ! k < disksize s" using log_geomD [OF g k(1)] k(2) by auto
  obtain D where D: "finite D" "\<forall>m. bdirty s m \<longrightarrow> m \<in> D" "card D + 2 \<le> NBUF" using Cons.prems(4) by (auto simp: room_def)
  obtain a b s1 s2 where s2: "bread 1 (log_at s k) s = Inr (a, s1)" "bio_frame s s1" "bread 1 (L ! k) s1 = Inr (b, s2)" "bio_frame s s2" "bc_ok {a, b} s2" "a \<noteq> b"
      "b_blockno (bufs s2 b) = L ! k" "b_data (bufs s2 a) = blk s (log_at s k)"
      "disk s2 = disk s" "dwrites s2 = dwrites s" "\<forall>m. blk s2 m = blk s m" "\<forall>m. bdirty s2 m = bdirty s m"
      "\<forall>c \<in> {a, b}. b_dirty (bufs s2 c) \<or> b_data (bufs s2 c) = disk s2 (b_blockno (bufs s2 c))"
    using two_breads [OF Cons.prems(1-3) ne(1) log_region_in_disk(2) [OF g k(2)] ne(2) D] by blast
  note r2 = bio_frame_runs [OF s2(4) Cons.prems(1)]
  have ok2: "bc_ok {b, a} s2" using s2(5) by (simp add: insert_commute)
  obtain s3 where s3: "\<forall>k'. seq (bwrite b (set_data b (b_data (bufs s2 a)) s2)) (\<lambda>s. seq (brelse a s) (\<lambda>s. seq (brelse b s) k')) =
      (k' s3 :: ('a, 'a log_state_scheme) lres)" "wrote s2 s3 [(b_blockno (bufs s2 b), b_data (bufs s2 a))]"
    using copy_tail [OF r2(1) r2(4) [unfolded Cons.prems(2)] ok2 s2(6) [symmetric]] s2(13) by blast
  have w: "wrote s s3 [(L ! k, blk s (log_at s k))]"
    using s3(2) s2(4,7-12) bio_frame_trans [OF s2(4)] by (auto simp: wrote_def fun_eq_iff)
  note r3 = wrote_runs [OF w Cons.prems(1,2)]
  note f3 = bio_frame_log [OF r3(4)] and g3 = bio_frame_geom [OF r3(4)]
  have eq: "install_from (k # ts) s = install_from ts s3"
    using s2(1,3) s3(1) g k(1) Cons.prems(8) bio_frame_log [OF s2(2)] by (simp add: log_at_def log_geom_def)
  have vs: "blk s3 (log_at s j) = blk s (log_at s j)" if "j < length L" for j
    using w log_geomD(4) [OF g k(1), of j] log_geomD(5) [OF g that] by (simp add: wrote_def)
  from Cons.IH [OF r3(1-3) wrote_room [OF w Cons.prems(4)]] Cons.prems(5-8) f3 g3 obtain s' where
    s': "install_from ts s3 = Inr s'" "wrote s3 s' (map (\<lambda>k. (L ! k, blk s3 (log_at s3 k))) ts)" by auto
  have "map (\<lambda>k. (L ! k, blk s3 (log_at s3 k))) ts = map (\<lambda>k. (L ! k, blk s (log_at s k))) ts"
    using Cons.prems(6) vs g3(1) by auto
  with wrote_trans [OF w s'(2)] s'(1) eq show ?case by auto
qed

text \<open>The header block, and reading and writing it.\<close>

definition head_block :: "uint list \<Rightarrow> block \<Rightarrow> block" where
  "head_block L d = put32s 4 L (put32 0 (of_nat (length L)) d)"

lemma length_head_block [simp]: "length d = BSIZE \<Longrightarrow> length L \<le> LOGSIZE \<Longrightarrow> length (head_block L d) = BSIZE"
  by (simp add: head_block_def)

lemma head_block_count:
  assumes "length d = BSIZE" and "length L \<le> LOGSIZE"
  shows "sint (get32 (head_block L d) 0) = int (length L)" "get32s (head_block L d) 4 (length L) = L"
proof -
  have "get32 (head_block L d) 0 = of_nat (length L)"
    using assms by (simp add: head_block_def get32_put32s_before)
  moreover have "sint (of_nat (length L) :: uint) = int (length L)"
    using assms(2) by (simp add: sint_of_nat_small)
  ultimately show "sint (get32 (head_block L d) 0) = int (length L)" by simp
  show "get32s (head_block L d) 4 (length L) = L" using assms by (simp add: head_block_def)
qed

lemma write_head_ok:
  assumes "runs_in i s" and "held s = []" and "bc_ok {} s" and "room s" and "log_geom L s"
    and "lh_n s = int n" and "n \<le> length (lh_block s)" and "n \<le> LOGSIZE"
  shows "\<exists>s'. write_head s = Inr s' \<and> wrote s s' [(log_start s, head_block (take n (lh_block s)) (blk s (log_start s)))]"
proof -
  obtain D where D: "finite D" "\<forall>m. bdirty s m \<longrightarrow> m \<in> D" "card D + 2 \<le> NBUF" using assms(4) by (auto simp: room_def)
  have "\<exists>b < NBUF. b \<notin> {} \<and> \<not> b_dirty (bufs s b)" using not_all_dirty [OF assms(3) D(1)] D(2,3) by simp
  then obtain a s1 where s1: "bread 1 (log_start s) s = Inr (a, s1)" "bio_frame s s1" "bc_ok {a} s1" "b_blockno (bufs s1 a) = log_start s"
      "b_data (bufs s1 a) = blk s (log_start s)" "disk s1 = disk s" "dwrites s1 = dwrites s" "\<forall>m. blk s1 m = blk s m" "\<forall>m. bdirty s1 m = bdirty s m"
    using bread_ok [OF assms(1-3) log_region_in_disk(1) [OF assms(5)]] by blast
  note r1 = bio_frame_runs [OF s1(2) assms(1)] and f1 = bio_frame_log [OF s1(2)]
  let ?d = "head_block (take n (lh_block s)) (blk s (log_start s))"
  have l: "length ?d = BSIZE" using length_blk [OF assms(3)] assms(7,8) by simp
  let ?s2 = "set_data a ?d s1"
  note s2 = set_data_ok [OF s1(3) singletonI l]
  note r2 = bio_frame_runs [OF s2(2) r1(1)]
  have b2: "b_blockno (bufs ?s2 a) = log_start s" "b_data (bufs ?s2 a) = ?d" "disk ?s2 = disk s" "dwrites ?s2 = dwrites s"
    using s1(4,6,7) by (simp_all add: set_data_def)
  obtain s3 where s3: "bwrite a ?s2 = Inr s3" "bio_frame ?s2 s3" "bc_ok {a} s3" "disk s3 = (disk ?s2)(log_start s := ?d)"
      "dwrites s3 = dwrites ?s2 @ [(log_start s, ?d)]" "\<forall>m. blk s3 m = blk ?s2 m" "\<forall>m. bdirty s3 m \<longleftrightarrow> bdirty ?s2 m \<and> m \<noteq> log_start s"
      "\<forall>c. b_blockno (bufs s3 c) = b_blockno (bufs ?s2 c) \<and> b_data (bufs s3 c) = b_data (bufs ?s2 c)"
    using bwrite_ok [OF r2(1) r2(4) [unfolded r1(4) assms(2)] s2(1) singletonI b2(1) [symmetric] b2(2) [symmetric]] by blast
  note r3 = bio_frame_runs [OF s3(2) r2(1)]
  obtain s4 where s4: "brelse a s3 = Inr s4" "bio_frame s3 s4" "bc_ok {} s4" "disk s4 = disk s3" "dwrites s4 = dwrites s3"
      "\<forall>c. same_contents (bufs s3 c) (bufs s4 c)"
    using brelse_ok [OF r3(1) _ s3(3), of a] r3(4) r2(4) r1(4) assms(2) s3(4,8) b2 by auto
  have "bio_frame s s4" using bio_frame_trans [OF s1(2) bio_frame_trans [OF s2(2) bio_frame_trans [OF s3(2) s4(2)]]] .
  moreover have "blk s4 m = (if m = log_start s then ?d else blk s m)" for m
    using view_cong(1) [of s3 s4, OF s4(6) [rule_format] s4(4)] s3(6) s2(3) s1(4,8) by simp
  moreover have "bdirty s4 m \<longleftrightarrow> bdirty s m \<and> m \<noteq> log_start s" for m
    using view_cong(2) [of s3 s4, OF s4(6) [rule_format]] s3(7) s2(4) s1(9) by simp
  moreover have "disk s4 = (disk s)(log_start s := ?d)" "dwrites s4 = dwrites s @ [(log_start s, ?d)]"
    using s4(4,5) s3(4,5) b2(3,4) by simp_all
  ultimately have "wrote s s4 [(log_start s, ?d)]" using s4(3) by (auto simp: wrote_def)
  moreover have "write_head s = Inr s4"
    using s1(1,5) s3(1) s4(1) f1 assms(5-8) by (simp add: write_head_def Let_def head_block_def log_geom_def)
  ultimately show ?thesis by blast
qed

text \<open>Nothing of the cache depends on the fields of the log.\<close>

lemma cache_cong:
  assumes "bufs s' = bufs s" "slocks s' = slocks s" "disk s' = disk s" "disksize s' = disksize s" "mypid s' = mypid s"
  shows "bc_ok B s' = bc_ok B s" "blk s' = blk s" "bdirty s' = bdirty s" "room s' = room s"
proof -
  have c: "caches s' = caches s" using assms by (simp add: caches_def fun_eq_iff)
  show "bc_ok B s' = bc_ok B s" using assms by (simp add: bc_ok_def buf_ok_def c)
  show "blk s' = blk s" unfolding blk_def assms by (rule refl)
  show d: "bdirty s' = bdirty s" by (rule ext) (simp add: bdirty_def c assms)
  show "room s' = room s" by (simp add: room_def d)
qed

lemma log_field_simps [simp]:
  "bc_ok B (s\<lparr>lh_n := n\<rparr>) = bc_ok B s" "blk (s\<lparr>lh_n := n\<rparr>) = blk s" "bdirty (s\<lparr>lh_n := n\<rparr>) = bdirty s"
  "bc_ok B (s\<lparr>lh_block := bl\<rparr>) = bc_ok B s" "blk (s\<lparr>lh_block := bl\<rparr>) = blk s" "bdirty (s\<lparr>lh_block := bl\<rparr>) = bdirty s"
  "bc_ok B (s\<lparr>log_outstanding := n\<rparr>) = bc_ok B s" "blk (s\<lparr>log_outstanding := n\<rparr>) = blk s" "bdirty (s\<lparr>log_outstanding := n\<rparr>) = bdirty s"
  "bc_ok B (s\<lparr>log_committing := b\<rparr>) = bc_ok B s" "blk (s\<lparr>log_committing := b\<rparr>) = blk s" "bdirty (s\<lparr>log_committing := b\<rparr>) = bdirty s"
  "bc_ok B (s\<lparr>held := h\<rparr>) = bc_ok B s" "blk (s\<lparr>held := h\<rparr>) = blk s" "bdirty (s\<lparr>held := h\<rparr>) = bdirty s"
  by (rule cache_cong; simp add: mypid_def)+

lemma log_field_room [simp]:
  "room (s\<lparr>lh_n := n\<rparr>) = room s" "room (s\<lparr>lh_block := bl\<rparr>) = room s" "room (s\<lparr>log_outstanding := n\<rparr>) = room s"
  "room (s\<lparr>log_committing := b\<rparr>) = room s" "room (s\<lparr>held := h\<rparr>) = room s"
  by (simp_all add: room_def)

lemma log_field_runs [simp]:
  "runs_in i (s\<lparr>lh_n := n\<rparr>) = runs_in i s" "runs_in i (s\<lparr>lh_block := bl\<rparr>) = runs_in i s"
  "runs_in i (s\<lparr>log_outstanding := n\<rparr>) = runs_in i s" "runs_in i (s\<lparr>log_committing := b\<rparr>) = runs_in i s"
  by (simp_all add: runs_in_def ptable_ok_def)

lemma log_field_geom [simp]:
  "log_at (s\<lparr>lh_n := n\<rparr>) = log_at s" "log_at (s\<lparr>lh_block := bl\<rparr>) = log_at s" "log_at (s\<lparr>log_outstanding := n\<rparr>) = log_at s"
  "log_at (s\<lparr>log_committing := b\<rparr>) = log_at s" "log_at (s\<lparr>held := h\<rparr>) = log_at s"
  "log_geom L (s\<lparr>lh_n := n\<rparr>) = log_geom L s" "log_geom L (s\<lparr>lh_block := bl\<rparr>) = log_geom L s"
  "log_geom L (s\<lparr>log_outstanding := n\<rparr>) = log_geom L s" "log_geom L (s\<lparr>log_committing := b\<rparr>) = log_geom L s"
  "log_geom L (s\<lparr>held := h\<rparr>) = log_geom L s"
  by (auto simp: log_at_def log_geom_def log_region_def)

lemma wrote_lh_n:
  assumes "wrote s s' ws"
  shows "wrote (s\<lparr>lh_n := n\<rparr>) (s'\<lparr>lh_n := n\<rparr>) ws"
proof -
  have e: "s' = s\<lparr>ptable := ptable s', slocks := slocks s', bufs := bufs s', disk := disk s', dwrites := dwrites s'\<rparr>"
    and w: "woke s (s\<lparr>ptable := ptable s'\<rparr>)" and j: "\<forall>j. slocks s' (SInode j) = slocks s (SInode j)"
    using assms unfolding wrote_def bio_frame_def by blast+
  have "s'\<lparr>lh_n := n\<rparr> = (s\<lparr>lh_n := n\<rparr>)\<lparr>ptable := ptable s', slocks := slocks s', bufs := bufs s', disk := disk s', dwrites := dwrites s'\<rparr>"
    by (subst e) simp
  moreover have "woke (s\<lparr>lh_n := n\<rparr>) ((s\<lparr>lh_n := n\<rparr>)\<lparr>ptable := ptable s'\<rparr>)" using w by (simp add: woke_def)
  ultimately have "bio_frame (s\<lparr>lh_n := n\<rparr>) (s'\<lparr>lh_n := n\<rparr>)" using j by (simp add: bio_frame_def)
  with assms show ?thesis by (simp add: wrote_def)
qed

lemma apply_writes_map:
  assumes "inj_on f (set ts)" and "distinct ts"
  shows "k \<in> set ts \<Longrightarrow> apply_writes (map (\<lambda>k. (f k, g k)) ts) d (f k) = g k"
    "m \<notin> f ` set ts \<Longrightarrow> apply_writes (map (\<lambda>k. (f k, g k)) ts) d m = d m"
proof -
  show other: "apply_writes (map (\<lambda>k. (f k, g k)) us) d m = d m" if "m \<notin> f ` set us" for us d
    by (rule apply_writes_other) (use that in force)
  show "apply_writes (map (\<lambda>k. (f k, g k)) ts) d (f k) = g k" if "k \<in> set ts"
    using that assms
  proof (induction ts arbitrary: d)
    case (Cons t ts)
    show ?case
    proof (cases "k = t")
      case True
      have "f k \<notin> f ` set ts" using Cons.prems True by (auto simp: inj_on_def)
      then have "apply_writes (map (\<lambda>k. (f k, g k)) ts) (d(f t := g t)) (f k) = (d(f t := g t)) (f k)"
        by (intro apply_writes_other) force
      with True show ?thesis by simp
    next
      case False
      with Cons.prems have "k \<in> set ts" "inj_on f (set ts)" "distinct ts" by auto
      from Cons.IH [OF this] show ?thesis by simp
    qed
  qed simp
qed

section \<open>Commit and recovery\<close>

definition commit_writes :: "'a log_state_scheme \<Rightarrow> uint list \<Rightarrow> (uint \<times> block) list" where
  "commit_writes s L =
     map (\<lambda>k. (log_at s k, blk s (L ! k))) [0..<length L] @
     [(log_start s, head_block L (blk s (log_start s)))] @
     map (\<lambda>k. (L ! k, blk s (L ! k))) [0..<length L] @
     [(log_start s, head_block [] (head_block L (blk s (log_start s))))]"

definition recover_writes :: "'a log_state_scheme \<Rightarrow> uint list \<Rightarrow> (uint \<times> block) list" where
  "recover_writes s L =
     map (\<lambda>k. (L ! k, disk s (log_at s k))) [0..<length L] @ [(log_start s, head_block [] (disk s (log_start s)))]"

lemma log_start_at [simp]: "k < LOGSIZE \<Longrightarrow> log_start s \<noteq> log_at s k"
  using log_at_start [of k s] by metis

lemma commit_ok:
  assumes "runs_in i s" and "held s = []" and "bc_ok {} s" and "room s" and "log_geom L s"
    and "lh_n s = int (length L)" and "L \<noteq> []" and "length L \<le> length (lh_block s)" and "take (length L) (lh_block s) = L"
  shows "\<exists>s'. commit s = Inr s' \<and> wrote (s\<lparr>lh_n := 0\<rparr>) s' (commit_writes s L)"
proof -
  let ?ts = "[0..<length L]" and ?h = "head_block L (blk s (log_start s))"
  have len: "length L \<le> LOGSIZE" using assms(5) by (simp add: log_geom_def)
  have bl: "\<forall>k < length L. lh_block s ! k = L ! k" using assms(9) by (metis nth_take)
  have ts: "set ?ts \<subseteq> {..<length L}" "distinct ?ts" by auto
  have inj: "inj_on (log_at s) (set ?ts)" using len by (auto simp: inj_on_def)
  obtain s1 where s1: "write_log s = Inr s1" "wrote s s1 (map (\<lambda>k. (log_at s k, blk s (L ! k))) ?ts)"
    using write_log_from_ok [OF assms(1-5) ts bl] assms(6) by (auto simp: write_log_def)
  note r1 = wrote_runs [OF s1(2) assms(1,2)]
  note f1 = bio_frame_log [OF r1(4)] and g1 = bio_frame_geom [OF r1(4)]
  have b1: "blk s1 (log_start s) = blk s (log_start s)"
    using s1(2) len by (auto simp: wrote_def intro!: apply_writes_other)
  obtain s2 where s2: "write_head s1 = Inr s2" "wrote s1 s2 [(log_start s, ?h)]"
    using write_head_ok [OF r1(1-3) wrote_room [OF s1(2) assms(4)], of L "length L"] assms(5,6,8,9) len f1 g1 b1 by auto
  note w2 = wrote_trans [OF s1(2) s2(2)]
  note r2 = wrote_runs [OF w2 assms(1,2)]
  note f2 = bio_frame_log [OF r2(4)] and g2 = bio_frame_geom [OF r2(4)]
  have b2: "blk s2 (log_at s k) = blk s (L ! k)" if "k < length L" for k
    using w2 that len apply_writes_map(1) [OF inj, of k] by (auto simp: wrote_def)
  obtain s3 where s3: "install_trans s2 = Inr s3" "wrote s2 s3 (map (\<lambda>k. (L ! k, blk s2 (log_at s2 k))) ?ts)"
    using install_from_ok [OF r2(1-3) wrote_room [OF w2 assms(4)] _ ts] assms(5,6) bl f2 g2 by (auto simp: install_trans_def)
  have m3: "map (\<lambda>k. (L ! k, blk s2 (log_at s2 k))) ?ts = map (\<lambda>k. (L ! k, blk s (L ! k))) ?ts"
    using b2 g2(1) by auto
  note w3 = wrote_trans [OF w2 s3(2) [unfolded m3]]
  note r3 = wrote_runs [OF w3 assms(1,2)]
  note f3 = bio_frame_log [OF r3(4)] and g3 = bio_frame_geom [OF r3(4)]
  have "log_start s \<notin> fst ` set (map (\<lambda>k. (L ! k, blk s (L ! k))) ?ts)"
    using log_geomD(2) [OF assms(5)] by fastforce
  then have b3: "blk s3 (log_start s) = ?h" using w3 apply_writes_other by (fastforce simp: wrote_def)
  obtain s4 where s4: "write_head (s3\<lparr>lh_n := 0\<rparr>) = Inr s4" "wrote (s3\<lparr>lh_n := 0\<rparr>) s4 [(log_start s, head_block [] ?h)]"
    using write_head_ok [of i "s3\<lparr>lh_n := 0\<rparr>" L 0] r3 wrote_room [OF w3 assms(4)] assms(5) f3 g3 b3 by auto
  have "commit s = Inr s4" using s1(1) s2(1) s3(1) s4(1) assms(6,7) by (simp add: commit_def)
  moreover have "wrote (s\<lparr>lh_n := 0\<rparr>) s4 (commit_writes s L)"
    using wrote_trans [OF wrote_lh_n [OF w3, of 0] s4(2)] by (simp add: commit_writes_def)
  ultimately show ?thesis by blast
qed

lemma read_head_ok:
  assumes "runs_in i s" and "held s = []" and "bc_ok {} s" and "room s" and "log_geom [] s"
    and "sint (get32 (blk s (log_start s)) 0) = int N" and "N \<le> LOGSIZE"
  shows "\<exists>s'. read_head s = Inr s' \<and>
    wrote (s\<lparr>lh_n := int N, lh_block := get32s (blk s (log_start s)) 4 N @ drop N (lh_block s)\<rparr>) s' []"
proof -
  obtain D where D: "finite D" "\<forall>m. bdirty s m \<longrightarrow> m \<in> D" "card D + 2 \<le> NBUF" using assms(4) by (auto simp: room_def)
  have "\<exists>b < NBUF. b \<notin> {} \<and> \<not> b_dirty (bufs s b)" using not_all_dirty [OF assms(3) D(1)] D(2,3) by simp
  then obtain a s1 where s1: "bread 1 (log_start s) s = Inr (a, s1)" "bio_frame s s1" "bc_ok {a} s1" "b_blockno (bufs s1 a) = log_start s"
      "b_data (bufs s1 a) = blk s (log_start s)" "disk s1 = disk s" "dwrites s1 = dwrites s" "\<forall>m. blk s1 m = blk s m" "\<forall>m. bdirty s1 m = bdirty s m"
    using bread_ok [OF assms(1-3) log_region_in_disk(1) [OF assms(5)]] by blast
  note r1 = bio_frame_runs [OF s1(2) assms(1)] and f1 = bio_frame_log [OF s1(2)]
  let ?u = "\<lambda>t. t\<lparr>lh_n := int N, lh_block := get32s (blk s (log_start s)) 4 N @ drop N (lh_block s)\<rparr>"
  have clean: "b_dirty (bufs s1 a) \<or> b_data (bufs s1 a) = disk s1 (b_blockno (bufs s1 a))"
  proof (cases "bdirty s (log_start s)")
    case True
    then have "bdirty s1 (log_start s)" using s1(9) by simp
    then show ?thesis using bc_okD(4) [OF s1(3) held_caches(1) [OF s1(3)]] s1(4) by (auto simp: bdirty_def)
  next
    case False
    then have "blk s (log_start s) = disk s (log_start s)" by (intro blk_free [OF assms(3)]) auto
    with s1(4-6) show ?thesis by simp
  qed
  obtain s2 where s2: "brelse a (?u s1) = Inr s2" "bio_frame (?u s1) s2" "bc_ok {} s2" "disk s2 = disk s1" "dwrites s2 = dwrites s1"
      "\<forall>c. same_contents (bufs s1 c) (bufs s2 c)"
    using brelse_ok [of i "?u s1" "{a}" a] r1 assms(2) s1(3) clean by auto
  have "bio_frame (?u s) (?u s1)"
  proof -
    have e: "s1 = s\<lparr>ptable := ptable s1, slocks := slocks s1, bufs := bufs s1, disk := disk s1, dwrites := dwrites s1\<rparr>"
      and w: "woke s (s\<lparr>ptable := ptable s1\<rparr>)" and j: "\<forall>j. slocks s1 (SInode j) = slocks s (SInode j)"
      using s1(2) unfolding bio_frame_def by blast+
    have "?u s1 = (?u s)\<lparr>ptable := ptable s1, slocks := slocks s1, bufs := bufs s1, disk := disk s1, dwrites := dwrites s1\<rparr>"
      by (subst e) simp
    moreover have "woke (?u s) ((?u s)\<lparr>ptable := ptable s1\<rparr>)" using w by (simp add: woke_def)
    ultimately show ?thesis using j by (simp add: bio_frame_def)
  qed
  with s2(2) have "bio_frame (?u s) s2" by (rule bio_frame_trans [rotated])
  moreover have "blk s2 = blk s" "bdirty s2 = bdirty s"
    using view_cong [of s1 s2, OF s2(6) [rule_format]] s2(4) s1(8,9) by (auto simp: fun_eq_iff)
  ultimately have "wrote (?u s) s2 []" using s2(3-5) s1(6,7) by (simp add: wrote_def)
  moreover have "read_head s = Inr s2"
    using s1(1,5) s2(1) f1 assms(5-7) by (simp add: read_head_def Let_def log_geom_def)
  ultimately show ?thesis by blast
qed

lemma clean_blk:
  assumes "bc_ok {} s" and "\<forall>m. \<not> bdirty s m"
  shows "blk s = disk s" "room s"
  using assms blk_free [OF assms(1)] by (auto simp: room_def intro!: exI [of _ "{}"])

text \<open>The log that a disk holds: the header counts the blocks \<open>L\<close> and lists them.\<close>

definition logged :: "'a log_state_scheme \<Rightarrow> uint list \<Rightarrow> bool" where
  "logged s L \<longleftrightarrow> sint (get32 (disk s (log_start s)) 0) = int (length L) \<and> get32s (disk s (log_start s)) 4 (length L) = L"

lemma recover_ok:
  assumes "runs_in i s" and "held s = []" and "bc_ok {} s" and "\<forall>m. \<not> bdirty s m" and "log_geom L s" and "logged s L"
  shows "\<exists>s'. recover_from_log s = Inr s' \<and> disk s' = apply_writes (recover_writes s L) (disk s) \<and>
    dwrites s' = dwrites s @ recover_writes s L \<and> bc_ok {} s' \<and> runs_in i s' \<and> (\<forall>m. \<not> bdirty s' m)"
proof -
  note c = clean_blk [OF assms(3,4)]
  let ?d = "disk s (log_start s)" and ?ts = "[0..<length L]"
  have len: "length L \<le> LOGSIZE" and g0: "log_geom [] s" using assms(5) by (auto simp: log_geom_def)
  define u where "u = s\<lparr>lh_n := int (length L), lh_block := L @ drop (length L) (lh_block s)\<rparr>"
  obtain s1 where s1: "read_head s = Inr s1" "wrote u s1 []"
    using read_head_ok [OF assms(1-3) c(2) g0, of "length L"] assms(6) len by (auto simp: logged_def c(1) u_def)
  have u: "runs_in i u" "held u = []" "bc_ok {} u" "room u" "log_geom L u" "blk u = disk s" "disk u = disk s" "log_at u = log_at s"
    "dwrites u = dwrites s" "log_start u = log_start s" "lh_n u = int (length L)" "\<forall>m. \<not> bdirty u m"
    using assms c by (simp_all add: u_def)
  note r1 = wrote_runs [OF s1(2) u(1,2)]
  note f1 = bio_frame_log [OF r1(4)] and g1 = bio_frame_geom [OF r1(4)]
  have ts: "set ?ts \<subseteq> {..<length L}" "distinct ?ts" by auto
  have bl: "\<forall>k < length L. lh_block s1 ! k = L ! k" using f1(7) by (simp add: u_def nth_append)
  have v1: "blk s1 = disk s" "disk s1 = disk s" using s1(2) u(6,7) by (auto simp: wrote_def)
  obtain s2 where s2: "install_trans s1 = Inr s2" "wrote s1 s2 (map (\<lambda>k. (L ! k, disk s (log_at s k))) ?ts)"
    using install_from_ok [OF r1(1-3) wrote_room [OF s1(2) u(4)] _ ts bl] u(5,8,11) f1 g1 v1
    by (auto simp: install_trans_def)
  note w2 = wrote_trans [OF s1(2) s2(2)]
  note r2 = wrote_runs [OF w2 u(1,2)]
  note f2 = bio_frame_log [OF r2(4)] and g2 = bio_frame_geom [OF r2(4)]
  have "log_start s \<notin> fst ` set (map (\<lambda>k. (L ! k, disk s (log_at s k))) ?ts)"
    using log_geomD(2) [OF assms(5)] by fastforce
  then have v2: "blk s2 (log_start s) = ?d" using w2 u(6) apply_writes_other by (fastforce simp: wrote_def)
  obtain s3 where s3: "write_head (s2\<lparr>lh_n := 0\<rparr>) = Inr s3" "wrote (s2\<lparr>lh_n := 0\<rparr>) s3 [(log_start s, head_block [] ?d)]"
    using write_head_ok [of i "s2\<lparr>lh_n := 0\<rparr>" L 0] r2 wrote_room [OF w2 u(4)] u(5,10) f2 g2 v2 by auto
  note w3 = wrote_trans [OF wrote_lh_n [OF w2, of 0] s3(2)]
  have "recover_from_log s = Inr s3" using s1(1) s2(1) s3(1) by (simp add: recover_from_log_def)
  moreover have "runs_in i s3" using wrote_runs(1) [OF w3] u(1,2) by simp
  ultimately show ?thesis using w3 u(7,9,12) by (auto simp: wrote_def recover_writes_def)
qed

text \<open>What the recovered disk holds outside the log.\<close>

lemma recovered_disk:
  assumes "log_geom L s" and "m \<notin> log_region s"
  shows "apply_writes (recover_writes s L) (disk s) m =
    (if m \<in> set L then disk s (log_at s (the (scan (\<lambda>x. x = m) L))) else disk s m)"
proof -
  have d: "distinct L" using assms(1) by (simp add: log_geom_def)
  have inj: "inj_on ((!) L) (set [0..<length L])" using d by (auto simp: inj_on_def nth_eq_iff_index_eq)
  have ne: "m \<noteq> log_start s" using assms(2) by (auto simp: log_region_def)
  show ?thesis
  proof (cases "m \<in> set L")
    case True
    then obtain k where k: "k < length L" "L ! k = m" by (auto simp: in_set_conv_nth)
    have "scan (\<lambda>x. x = m) L = Some k" using k d by (auto simp: scan_Some_iff nth_eq_iff_index_eq)
    with k ne True apply_writes_map(1) [OF inj, of k "\<lambda>k. disk s (log_at s k)"] show ?thesis by (auto simp: recover_writes_def)
  next
    case False
    then have "m \<notin> (!) L ` set [0..<length L]" by auto
    with ne False apply_writes_map(2) [OF inj, of m "\<lambda>k. disk s (log_at s k)"] show ?thesis by (auto simp: recover_writes_def)
  qed
qed

lemma recovered_at:
  assumes "log_geom L s" and "k < length L"
  shows "apply_writes (recover_writes s L) (disk s) (L ! k) = disk s (log_at s k)"
proof -
  have d: "distinct L" and "L ! k \<notin> log_region s" using assms nth_mem [OF assms(2)] unfolding log_geom_def by blast+
  moreover have "scan (\<lambda>x. x = L ! k) L = Some k" using assms(2) d by (auto simp: scan_Some_iff nth_eq_iff_index_eq)
  ultimately show ?thesis using recovered_disk [OF assms(1)] assms(2) by simp
qed

section \<open>Crashes\<close>

text \<open>The disk after the first \<open>k\<close> writes of a commit, in the three phases of the commit.\<close>

lemma commit_prefix:
  fixes L :: "uint list" and k :: nat
  assumes "log_geom L s"
  defines "d \<equiv> apply_writes (take k (commit_writes s L)) (disk s)"
    and "h \<equiv> head_block L (blk s (log_start s))"
  shows "k \<le> length L \<Longrightarrow> d (log_start s) = disk s (log_start s) \<and> (\<forall>m. m \<notin> log_region s \<longrightarrow> d m = disk s m)"
    "length L < k \<Longrightarrow> k \<le> 2 * length L + 1 \<Longrightarrow> d (log_start s) = h \<and> (\<forall>j < length L. d (log_at s j) = blk s (L ! j)) \<and>
       (\<forall>m. m \<notin> log_region s \<longrightarrow> m \<notin> set L \<longrightarrow> d m = disk s m)"
    "2 * length L + 1 < k \<Longrightarrow> d (log_start s) = head_block [] h \<and> (\<forall>j < length L. d (L ! j) = blk s (L ! j)) \<and>
       (\<forall>m. m \<notin> log_region s \<longrightarrow> m \<notin> set L \<longrightarrow> d m = disk s m)"
proof -
  let ?n = "length L" and ?ts = "[0..<length L]"
  have len: "?n \<le> LOGSIZE" and dist: "distinct L" using assms(1) by (auto simp: log_geom_def)
  define A where "A = map (\<lambda>k. (log_at s k, blk s (L ! k))) ?ts"
  define I where "I = map (\<lambda>k. (L ! k, blk s (L ! k))) ?ts"
  have w: "commit_writes s L = A @ (log_start s, h) # I @ [(log_start s, head_block [] h)]"
    by (simp add: commit_writes_def A_def I_def h_def)
  have keysA: "x \<in> log_at s ` {..<LOGSIZE}" if "x \<in> fst ` set A" for x using that len by (auto simp: A_def)
  have keysI: "x \<in> set L" if "x \<in> fst ` set I" for x using that by (auto simp: I_def)
  have injA: "inj_on (log_at s) (set ?ts)" using len by (auto simp: inj_on_def)
  have injI: "inj_on ((!) L) (set ?ts)" using dist by (auto simp: inj_on_def nth_eq_iff_index_eq)
  have atA: "apply_writes A x (log_at s j) = blk s (L ! j)" if "j < ?n" for j x
    using apply_writes_map(1) [OF injA, of j] that by (simp add: A_def)
  have atI: "apply_writes I x (L ! j) = blk s (L ! j)" if "j < ?n" for j x
    using apply_writes_map(1) [OF injI, of j] that by (simp add: I_def)
  have skip: "apply_writes (take j ws) x m = x m" if "m \<notin> fst ` set ws" for j ws x and m :: uint
    by (rule apply_writes_other) (use that set_take_subset [of j ws] in blast)
  have st: "log_start s \<notin> fst ` set A" "log_start s \<notin> fst ` set I"
    using keysA keysI assms(1) by (fastforce simp: log_geom_def log_region_def)+
  have outA: "m \<notin> fst ` set A" if "m \<notin> log_region s" for m using that keysA by (auto simp: log_region_def)
  have logI: "log_at s j \<notin> fst ` set I" if "j < ?n" for j
    using keysI assms(1) that len by (fastforce simp: log_geom_def log_region_def)
  show "k \<le> ?n \<Longrightarrow> d (log_start s) = disk s (log_start s) \<and> (\<forall>m. m \<notin> log_region s \<longrightarrow> d m = disk s m)"
    unfolding d_def w using skip [OF st(1)] skip [OF outA] by (simp add: A_def [symmetric]) (simp add: A_def)
  have tk: "take k (commit_writes s L) = A @ (log_start s, h) # take (k - Suc ?n) (I @ [(log_start s, head_block [] h)])" if "?n < k"
    using that by (cases k) (auto simp: w A_def Suc_diff_le)
  show "d (log_start s) = h \<and> (\<forall>j < ?n. d (log_at s j) = blk s (L ! j)) \<and>
       (\<forall>m. m \<notin> log_region s \<longrightarrow> m \<notin> set L \<longrightarrow> d m = disk s m)" if k: "?n < k" "k \<le> 2 * ?n + 1"
  proof -
    have e: "d = apply_writes (take (k - Suc ?n) I) ((apply_writes A (disk s))(log_start s := h))"
      using k by (simp add: d_def tk I_def)
    have "m \<notin> fst ` set I" if "m \<notin> set L" for m using that keysI by blast
    note skip' = skip [OF this]
    have "d (log_start s) = h" by (simp add: e skip [OF st(2)])
    moreover have "d (log_at s j) = blk s (L ! j)" if "j < ?n" for j
      using that len by (simp add: e skip [OF logI [OF that]] atA)
    moreover have "d m = disk s m" if "m \<notin> log_region s" "m \<notin> set L" for m
      using that(1) apply_writes_other [OF outA [OF that(1)]] by (simp add: e skip' [OF that(2)] log_region_def)
    ultimately show ?thesis by blast
  qed
  show "d (log_start s) = head_block [] h \<and> (\<forall>j < ?n. d (L ! j) = blk s (L ! j)) \<and>
       (\<forall>m. m \<notin> log_region s \<longrightarrow> m \<notin> set L \<longrightarrow> d m = disk s m)" if k: "2 * ?n + 1 < k"
  proof -
    have e: "d = (apply_writes I ((apply_writes A (disk s))(log_start s := h)))(log_start s := head_block [] h)"
      using k by (simp add: d_def tk I_def)
    have "d m = disk s m" if "m \<notin> log_region s" "m \<notin> set L" for m
    proof -
      have "m \<notin> fst ` set I" using that(2) keysI by blast
      then show ?thesis using that(1) apply_writes_other [OF outA [OF that(1)]] by (simp add: e log_region_def apply_writes_other)
    qed
    then show ?thesis using atI log_geomD(2) [OF assms(1)] by (auto simp: e)
  qed
qed

lemma recover_disk:
  assumes "runs_in i r" and "held r = []" and "bc_ok {} r" and "\<forall>m. \<not> bdirty r m" and "log_geom L r" and "logged r L"
  shows "\<exists>r'. recover_from_log r = Inr r' \<and> disk r' (log_start r) = head_block [] (disk r (log_start r)) \<and> (\<forall>k < length L. disk r' (L ! k) = disk r (log_at r k)) \<and>
    (\<forall>m. m \<notin> log_region r \<longrightarrow> m \<notin> set L \<longrightarrow> disk r' m = disk r m)"
proof -
  obtain r' where r': "recover_from_log r = Inr r'" "disk r' = apply_writes (recover_writes r L) (disk r)"
    using recover_ok [OF assms] by blast
  have "apply_writes (recover_writes r L) (disk r) (log_start r) = head_block [] (disk r (log_start r))"
    by (simp add: recover_writes_def)
  then show ?thesis using r' recovered_at [OF assms(5)] recovered_disk [OF assms(5)] by simp
qed

lemma geom_cong:
  assumes "log_start r = log_start s" and "log_dev r = log_dev s" and "disksize r = disksize s"
  shows "log_at r = log_at s" "log_region r = log_region s" "log_geom L r = log_geom L s"
  using assms by (auto simp: log_at_def log_region_def log_geom_def fun_eq_iff)

lemma head_block_logged:
  assumes "length d = BSIZE" and "length L \<le> LOGSIZE" and "disk r (log_start r) = head_block L d"
  shows "logged r L"
  using head_block_count [OF assms(1,2)] assms(3) by (simp add: logged_def)

text \<open>
  C1. A transaction is atomic across a crash. \<open>commit\<close> is run by a process that holds no spin
  lock and no buffer, on a log \<open>L\<close> of distinct blocks outside the log area, with the header on
  disk empty and no dirty block outside \<open>L\<close>. It returns; and if the machine stops after any
  number \<open>k\<close> of its disk writes and boots again with a cache that has nothing dirty, then
  \<open>recover_from_log\<close> succeeds and leaves every block outside the log area as it was before the
  transaction when the header had not been written, and as the transaction made it otherwise.
\<close>

theorem crash_during_commit:
  assumes "runs_in i s" and "held s = []" and "bc_ok {} s" and "room s" and "log_geom L s"
    and "lh_n s = int (length L)" and "L \<noteq> []" and "length L \<le> length (lh_block s)" and "take (length L) (lh_block s) = L"
    and "logged s []" and "\<forall>m. bdirty s m \<longrightarrow> m \<in> set L"
  shows "\<exists>s' ws. commit s = Inr s' \<and> dwrites s' = dwrites s @ ws \<and> length ws = 2 * length L + 2 \<and> (\<forall>w \<in> set ws. length (snd w) = BSIZE) \<and>
    (\<forall>k r. runs_in j r \<and> held r = [] \<and> bc_ok {} r \<and> (\<forall>m. \<not> bdirty r m) \<and> log_start r = log_start s \<and> log_dev r = log_dev s \<and>
       disksize r = disksize s \<and> disk r = apply_writes (take k ws) (disk s) \<longrightarrow>
       (\<exists>r'. recover_from_log r = Inr r' \<and>
          (\<forall>m. m \<notin> log_region s \<longrightarrow> disk r' m = (if k \<le> length L then disk s m else blk s m))))"
proof -
  obtain s' where s': "commit s = Inr s'" "dwrites s' = dwrites s @ commit_writes s L"
    using commit_ok [OF assms(1-9)] by (auto simp: wrote_def)
  have lb: "length (blk s (log_start s)) = BSIZE" and len: "length L \<le> LOGSIZE" and g0: "log_geom [] s"
    using length_blk [OF assms(3)] assms(5) by (auto simp: log_geom_def)
  have old: "blk s m = disk s m" if "m \<notin> set L" for m using blk_free [OF assms(3), of m] assms(11) that by auto
  have "\<exists>r'. recover_from_log r = Inr r' \<and> (\<forall>m. m \<notin> log_region s \<longrightarrow> disk r' m = (if k \<le> length L then disk s m else blk s m))"
    if r: "runs_in j r" "held r = []" "bc_ok {} r" "\<forall>m. \<not> bdirty r m" "log_start r = log_start s" "log_dev r = log_dev s"
      "disksize r = disksize s" "disk r = apply_writes (take k (commit_writes s L)) (disk s)" for k r
  proof -
    note g = geom_cong [OF r(5-7)] and p = commit_prefix [OF assms(5), of k, folded r(8)]
    consider "k \<le> length L" | "length L < k" "k \<le> 2 * length L + 1" | "2 * length L + 1 < k" by linarith
    then show ?thesis
    proof cases
      case 1
      then have "logged r []" using p(1) assms(10) r(5) by (simp add: logged_def)
      from recover_disk [OF r(1-4) _ this] g0 g p(1) [OF 1] 1 show ?thesis by auto
    next
      case 2
      then have "logged r L" using p(2) by (intro head_block_logged [OF lb len]) (simp add: r(5))
      from recover_disk [OF r(1-4) _ this] assms(5) g p(2) [OF 2] obtain r' where
        r': "recover_from_log r = Inr r'" "\<forall>k < length L. disk r' (L ! k) = blk s (L ! k)" "\<forall>m. m \<notin> log_region s \<longrightarrow> m \<notin> set L \<longrightarrow> disk r' m = disk s m"
        by auto
      have "disk r' m = blk s m" if "m \<notin> log_region s" for m
        using r'(2,3) that old by (cases "m \<in> set L") (auto simp: in_set_conv_nth)
      with r'(1) 2 show ?thesis by auto
    next
      case 3
      have "logged r []" using p(3) [OF 3] lb len
        by (intro head_block_logged [of "head_block L (blk s (log_start s))"]) (simp_all add: r(5))
      from recover_disk [OF r(1-4) _ this] g0 g p(3) [OF 3] obtain r' where
        r': "recover_from_log r = Inr r'" "\<forall>m. m \<notin> log_region s \<longrightarrow> disk r' m = disk r m" by auto
      have "disk r' m = blk s m" if "m \<notin> log_region s" for m
        using r'(2) that old p(3) [OF 3] by (cases "m \<in> set L") (auto simp: in_set_conv_nth)
      with r'(1) 3 show ?thesis by auto
    qed
  qed
  moreover have "length (commit_writes s L) = 2 * length L + 2" by (simp add: commit_writes_def)
  moreover have "\<forall>w \<in> set (commit_writes s L). length (snd w) = BSIZE"
    using lb len length_blk [OF assms(3)] by (auto simp: commit_writes_def)
  ultimately show ?thesis using s' by blast
qed

text \<open>
  C14. Recovery may itself be interrupted: if the machine stops after any number of the disk writes
  of \<open>recover_from_log\<close> and boots again, the second recovery leaves every block outside the log
  area as the first one would have.
\<close>

theorem recovery_restartable:
  assumes "runs_in i r" and "held r = []" and "bc_ok {} r" and "\<forall>m. \<not> bdirty r m" and "log_geom L r" and "logged r L"
  shows "\<exists>r' ws. recover_from_log r = Inr r' \<and> dwrites r' = dwrites r @ ws \<and> (\<forall>w \<in> set ws. length (snd w) = BSIZE) \<and>
    (\<forall>k q. runs_in j q \<and> held q = [] \<and> bc_ok {} q \<and> (\<forall>m. \<not> bdirty q m) \<and> log_start q = log_start r \<and> log_dev q = log_dev r \<and>
       disksize q = disksize r \<and> disk q = apply_writes (take k ws) (disk r) \<longrightarrow>
       (\<exists>q'. recover_from_log q = Inr q' \<and> (\<forall>m. m \<notin> log_region r \<longrightarrow> disk q' m = disk r' m)))"
proof -
  obtain r' where r': "recover_from_log r = Inr r'" "disk r' = apply_writes (recover_writes r L) (disk r)" "dwrites r' = dwrites r @ recover_writes r L"
    using recover_ok [OF assms] by blast
  note first = recovered_at [OF assms(5), folded r'(2)] recovered_disk [OF assms(5), folded r'(2)]
  have ld: "length (disk r (log_start r)) = BSIZE" and g0: "log_geom [] r"
    using length_blk [OF assms(3)] clean_blk(1) [OF assms(3,4)] assms(5) by (auto simp: log_geom_def)
  define I where "I = map (\<lambda>k. (L ! k, disk r (log_at r k))) [0..<length L]"
  have keys: "fst ` set I \<subseteq> set L" by (auto simp: I_def)
  have "\<exists>q'. recover_from_log q = Inr q' \<and> (\<forall>m. m \<notin> log_region r \<longrightarrow> disk q' m = disk r' m)"
    if q: "runs_in j q" "held q = []" "bc_ok {} q" "\<forall>m. \<not> bdirty q m" "log_start q = log_start r" "log_dev q = log_dev r"
      "disksize q = disksize r" "disk q = apply_writes (take k (recover_writes r L)) (disk r)" for k q
  proof -
    note g = geom_cong [OF q(5-7)]
    show ?thesis
    proof (cases "k \<le> length L")
      case True
      then have d: "disk q = apply_writes (take k I) (disk r)" using q(8) by (simp add: recover_writes_def I_def)
      have same: "disk q m = disk r m" if "m \<notin> set L" for m
        unfolding d by (rule apply_writes_other) (use that keys set_take_subset [of k I] in blast)
      have "log_start r \<notin> set L" using assms(5) by (auto simp: log_geom_def log_region_def)
      then have "logged q L" using assms(6) same q(5) by (simp add: logged_def)
      moreover have log: "disk q (log_at r n) = disk r (log_at r n)" if "n < length L" for n
        using assms(5) that by (intro same) (auto simp: log_geom_def log_region_def)
      ultimately obtain q' where q': "recover_from_log q = Inr q'" "\<forall>n < length L. disk q' (L ! n) = disk r (log_at r n)"
          "\<forall>m. m \<notin> log_region r \<longrightarrow> m \<notin> set L \<longrightarrow> disk q' m = disk r m"
        using recover_disk [OF q(1-4), of L] g assms(5) same by auto
      have "disk q' m = disk r' m" if "m \<notin> log_region r" for m
      proof (cases "m \<in> set L")
        case True
        then obtain n where "n < length L" "m = L ! n" by (auto simp: in_set_conv_nth)
        then show ?thesis using q'(2) first(1) by simp
      next
        case False
        then show ?thesis using that q'(3) first(2) by simp
      qed
      with q'(1) show ?thesis by blast
    next
      case False
      then have d: "disk q = disk r'" using q(8) r'(2) by (simp add: recover_writes_def)
      have "logged q []"
        by (rule head_block_logged [OF ld]) (simp_all add: d r'(2) q(5) recover_writes_def)
      from recover_disk [OF q(1-4) _ this] g g0 d show ?thesis by auto
    qed
  qed
  moreover have "\<forall>w \<in> set (recover_writes r L). length (snd w) = BSIZE"
    using ld bc_okD(2) [OF assms(3)] by (auto simp: recover_writes_def)
  ultimately show ?thesis using r'(1,3) by blast
qed

section \<open>Inside a transaction\<close>

text \<open>
  \<open>in_tx i B L s\<close>: process \<open>i\<close> runs between \<open>begin_op\<close> and \<open>end_op\<close>, holds the buffers \<open>B\<close>, and the
  log header lists the blocks \<open>L\<close>; only they are dirty. \<open>tx_frame B s s'\<close>: only the process table (by
  waking), the buffers, their locks and the log header changed, and the buffers \<open>B\<close> hold the same.
\<close>

definition in_tx :: "nat \<Rightarrow> nat set \<Rightarrow> uint list \<Rightarrow> 'a log_state_scheme \<Rightarrow> bool" where
  "in_tx i B L s \<longleftrightarrow> runs_in i s \<and> held s = [] \<and> bc_ok B s \<and> log_geom L s \<and> log_outstanding s \<ge> 1 \<and>
     lh_n s = int (length L) \<and> length (lh_block s) = LOGSIZE \<and> take (length L) (lh_block s) = L \<and>
     (\<forall>m. bdirty s m \<longrightarrow> m \<in> set L) \<and> (\<forall>b \<in> B. b_dirty (bufs s b) \<or> b_data (bufs s b) = disk s (b_blockno (bufs s b)))"

definition tx_frame :: "nat set \<Rightarrow> 'a log_state_scheme \<Rightarrow> 'a log_state_scheme \<Rightarrow> bool" where
  "tx_frame B s s' \<longleftrightarrow>
     s' = s\<lparr>ptable := ptable s', slocks := slocks s', bufs := bufs s', lh_n := lh_n s', lh_block := lh_block s'\<rparr> \<and>
     woke s (s\<lparr>ptable := ptable s'\<rparr>) \<and> (\<forall>j. slocks s' (SInode j) = slocks s (SInode j)) \<and>
     (\<forall>b \<in> B. same_contents (bufs s b) (bufs s' b))"

definition tx_room :: "nat \<Rightarrow> uint list \<Rightarrow> 'a log_state_scheme \<Rightarrow> bool" where
  "tx_room k L s \<longleftrightarrow> length L + k + 4 \<le> LOGSIZE \<and> int (length L + k) \<le> log_size s - 1"

definition tx_add :: "uint \<Rightarrow> uint list \<Rightarrow> uint list" where
  "tx_add n L = (if n \<in> set L then L else L @ [n])"

lemma in_txD:
  assumes "in_tx i B L s"
  shows "runs_in i s" "held s = []" "bc_ok B s" "log_geom L s" "lh_n s = int (length L)" "length (lh_block s) = LOGSIZE"
    "take (length L) (lh_block s) = L" "\<And>m. bdirty s m \<Longrightarrow> m \<in> set L" "length L \<le> LOGSIZE" "distinct L"
    "\<And>b. b \<in> B \<Longrightarrow> b_dirty (bufs s b) \<or> b_data (bufs s b) = disk s (b_blockno (bufs s b))"
  using assms by (auto simp: in_tx_def log_geom_def)

lemma tx_room_le: "tx_room k L s \<Longrightarrow> j \<le> k \<Longrightarrow> tx_room j L s"
  by (simp add: tx_room_def)

lemma tx_room_add: "tx_room (Suc k) L s \<Longrightarrow> tx_room k (tx_add n L) s"
  by (simp add: tx_room_def tx_add_def)

lemma tx_frame_refl [simp]: "tx_frame B s s"
  by (simp add: tx_frame_def)

lemma tx_frame_sub: "tx_frame B s s' \<Longrightarrow> A \<subseteq> B \<Longrightarrow> tx_frame A s s'"
  by (auto simp: tx_frame_def)

lemma same_contents_trans: "same_contents x y \<Longrightarrow> same_contents y z \<Longrightarrow> same_contents x z"
  by (simp add: same_contents_def)

lemma tx_frame_trans:
  assumes "tx_frame B s s'" and "tx_frame B s' s''"
  shows "tx_frame B s s''"
proof -
  have e: "s' = s\<lparr>ptable := ptable s', slocks := slocks s', bufs := bufs s', lh_n := lh_n s', lh_block := lh_block s'\<rparr>"
    "s'' = s'\<lparr>ptable := ptable s'', slocks := slocks s'', bufs := bufs s'', lh_n := lh_n s'', lh_block := lh_block s''\<rparr>"
    and w: "woke s (s\<lparr>ptable := ptable s'\<rparr>)" "woke s' (s'\<lparr>ptable := ptable s''\<rparr>)"
    and c: "\<forall>b \<in> B. same_contents (bufs s b) (bufs s' b)" "\<forall>b \<in> B. same_contents (bufs s' b) (bufs s'' b)"
    using assms unfolding tx_frame_def by blast+
  have "s'' = s\<lparr>ptable := ptable s'', slocks := slocks s'', bufs := bufs s'', lh_n := lh_n s'', lh_block := lh_block s''\<rparr>"
    by (subst e(2), subst e(1)) simp
  moreover have "woke (s\<lparr>ptable := ptable s'\<rparr>) (s\<lparr>ptable := ptable s''\<rparr>)" using w(2) by (simp add: woke_def)
  with w(1) have "woke s (s\<lparr>ptable := ptable s''\<rparr>)" by (rule woke_trans)
  moreover have "\<forall>b \<in> B. same_contents (bufs s b) (bufs s'' b)" using c same_contents_trans by blast
  ultimately show ?thesis using assms unfolding tx_frame_def by simp
qed

lemma tx_frame_fields:
  assumes "tx_frame B s s'"
  shows "disk s' = disk s" "dwrites s' = dwrites s" "disksize s' = disksize s" "held s' = held s" "log_start s' = log_start s"
    "log_size s' = log_size s" "log_dev s' = log_dev s" "log_outstanding s' = log_outstanding s" "log_committing s' = log_committing s"
    "mem s' = mem s" "curproc s' = curproc s" "log_state.more s' = log_state.more s" "pipes s' = pipes s"
    "log_region s' = log_region s" "log_at s' = log_at s" "tx_room k L s' = tx_room k L s" "log_geom L s' = log_geom L s"
proof -
  have e: "s' = s\<lparr>ptable := ptable s', slocks := slocks s', bufs := bufs s', lh_n := lh_n s', lh_block := lh_block s'\<rparr>"
    using assms unfolding tx_frame_def by blast
  show f: "disk s' = disk s" "dwrites s' = dwrites s" "disksize s' = disksize s" "held s' = held s" "log_start s' = log_start s"
    "log_size s' = log_size s" "log_dev s' = log_dev s" "log_outstanding s' = log_outstanding s" "log_committing s' = log_committing s"
    "mem s' = mem s" "curproc s' = curproc s" "log_state.more s' = log_state.more s" "pipes s' = pipes s"
    by (subst e, simp)+
  show "log_region s' = log_region s" "log_at s' = log_at s" "log_geom L s' = log_geom L s" using geom_cong [OF f(5,7,3)] by blast+
  show "tx_room k L s' = tx_room k L s" by (simp add: tx_room_def f)
qed

lemma bio_frame_tx:
  assumes "bio_frame s s'" and "disk s' = disk s" and "dwrites s' = dwrites s" and "\<forall>b \<in> B. same_contents (bufs s b) (bufs s' b)"
  shows "tx_frame B s s'"
proof -
  have e: "s' = s\<lparr>ptable := ptable s', slocks := slocks s', bufs := bufs s', disk := disk s', dwrites := dwrites s'\<rparr>"
    using assms(1) unfolding bio_frame_def by blast
  have "s' = s\<lparr>ptable := ptable s', slocks := slocks s', bufs := bufs s'\<rparr>"
    by (subst e, unfold assms(2,3)) simp
  moreover have "lh_n s' = lh_n s" "lh_block s' = lh_block s" by (subst e, simp)+
  ultimately have "s' = s\<lparr>ptable := ptable s', slocks := slocks s', bufs := bufs s', lh_n := lh_n s', lh_block := lh_block s'\<rparr>" by simp
  then show ?thesis using assms(1,4) unfolding bio_frame_def tx_frame_def by blast
qed

lemma tx_bio_step:
  assumes "in_tx i B L s" and "bio_frame s s'" and "disk s' = disk s" and "bc_ok B' s'" and "\<forall>m. bdirty s' m = bdirty s m"
    and "\<And>b. b \<in> B' \<Longrightarrow> b_dirty (bufs s' b) \<or> b_data (bufs s' b) = disk s (b_blockno (bufs s' b))"
  shows "in_tx i B' L s'"
  using assms(1,3-6) bio_frame_log [OF assms(2)] bio_frame_geom [OF assms(2)] bio_frame_runs [OF assms(2) in_txD(1) [OF assms(1)]]
  by (simp add: in_tx_def)

lemma tx_bread:
  assumes "in_tx i B L s" and "n < disksize s" and "\<And>b. b \<in> B \<Longrightarrow> b_blockno (bufs s b) \<noteq> n" and "tx_room k L s" and "card B \<le> 3"
  shows "\<exists>b s'. bread 1 n s = Inr (b, s') \<and> in_tx i (insert b B) L s' \<and> tx_frame B s s' \<and> b \<notin> B \<and>
    b_blockno (bufs s' b) = n \<and> b_data (bufs s' b) = blk s n \<and> blk s' = blk s"
proof -
  note t = in_txD [OF assms(1)]
  have "\<exists>b < NBUF. b \<notin> B \<and> \<not> b_dirty (bufs s b)"
  proof (rule not_all_dirty [OF t(3), of "set L"])
    show "card (set L) + card B < NBUF" using assms(4,5) card_length [of L] by (simp add: tx_room_def)
  qed (use t(8) in auto)
  then obtain b s' where b: "bread 1 n s = Inr (b, s')" "bio_frame s s'" "bc_ok (insert b B) s'" "b \<notin> B" "b_blockno (bufs s' b) = n"
      "b_data (bufs s' b) = blk s n" "disk s' = disk s" "dwrites s' = dwrites s" "\<forall>m. blk s' m = blk s m"
      "\<forall>m. bdirty s' m = bdirty s m" "\<forall>c \<in> B. bufs s' c = bufs s c"
    using bread_ok [OF t(1-3) assms(2,3)] by blast
  have "b_dirty (bufs s' b) \<or> b_data (bufs s' b) = disk s n"
  proof (cases "bdirty s n")
    case True
    then have "bdirty s' n" using b(10) by simp
    then show ?thesis using bc_okD(4) [OF b(3) held_caches(1) [OF b(3) insertI1]] b(5) by (auto simp: bdirty_def)
  next
    case False
    then have "blk s n = disk s n" using blk_free [OF t(3)] assms(3) by blast
    with b(6) show ?thesis by simp
  qed
  then have "in_tx i (insert b B) L s'"
    using t(11) b(5,11) by (intro tx_bio_step [OF assms(1) b(2,7,3,10)]) (metis insertE)
  moreover have "tx_frame B s s'" using b(11) by (intro bio_frame_tx [OF b(2,7,8)]) simp
  ultimately show ?thesis using b by blast
qed

lemma tx_brelse:
  assumes "in_tx i B L s" and "b \<in> B"
  shows "\<exists>s'. brelse b s = Inr s' \<and> in_tx i (B - {b}) L s' \<and> tx_frame (B - {b}) s s' \<and> blk s' = blk s"
proof -
  note t = in_txD [OF assms(1)]
  obtain s' where s': "brelse b s = Inr s'" "bio_frame s s'" "bc_ok (B - {b}) s'" "disk s' = disk s" "dwrites s' = dwrites s"
      "\<forall>c. same_contents (bufs s c) (bufs s' c)"
    using brelse_ok [OF t(1-3) assms(2) t(11) [OF assms(2)]] by blast
  have "bdirty s' m = bdirty s m" "blk s' m = blk s m" for m
    using view_cong [of s s', OF s'(6) [rule_format]] s'(4) by simp_all
  moreover have "b_dirty (bufs s' c) \<or> b_data (bufs s' c) = disk s (b_blockno (bufs s' c))" if "c \<in> B - {b}" for c
    using t(11) [of c] that s'(6) by (auto simp: same_contents_def b_dirty_def)
  ultimately show ?thesis
    using s' tx_bio_step [OF assms(1) s'(2,4,3)] bio_frame_tx [OF s'(2,4,5)] by (auto simp: fun_eq_iff)
qed

lemma scan_in_list: "scan (\<lambda>k. k = n) L = None \<longleftrightarrow> n \<notin> set L"
  by (auto simp: scan_None_iff)

text \<open>What \<open>log_write\<close> does to the header: a block that is already there is absorbed.\<close>

lemma log_write_eq:
  fixes s :: "'a log_state_scheme"
  assumes "held s = []" and "lh_n s = int (length L)" and "length (lh_block s) = LOGSIZE" and "take (length L) (lh_block s) = L"
    and "tx_room 1 L s" and "log_outstanding s \<ge> 1"
  shows "\<exists>bl. log_write b (set_data b d s) =
      Inr ((upd_buf b (\<lambda>x. x\<lparr>b_data := d, b_flags := b_flags x OR B_DIRTY\<rparr>) s)
        \<lparr>lh_n := int (length (tx_add (b_blockno (bufs s b)) L)), lh_block := bl\<rparr>) \<and>
    length bl = LOGSIZE \<and> take (length (tx_add (b_blockno (bufs s b)) L)) bl = tx_add (b_blockno (bufs s b)) L"
proof -
  let ?n = "b_blockno (bufs s b)" and ?s = "set_data b d s"
  let ?i = "case scan (\<lambda>k. k = ?n) L of Some i \<Rightarrow> i | None \<Rightarrow> length L"
  let ?bl = "(lh_block s)[?i := ?n]"
  have len: "length L < LOGSIZE" using assms(5) by (simp add: tx_room_def)
  have f: "bufs ?s b = (bufs s b)\<lparr>b_data := d\<rparr>" "held ?s = held s" "lh_n ?s = lh_n s" "lh_block ?s = lh_block s" "log_size ?s = log_size s"
    "log_outstanding ?s = log_outstanding s"
    by (simp_all add: set_data_def upd_buf_def)
  show ?thesis
  proof (cases "?n \<in> set L")
    case True
    then obtain k where k: "scan (\<lambda>k. k = ?n) L = Some k" using scan_in_list [of ?n L] by blast
    then have kL: "k < length L" "L ! k = ?n" by (auto simp: scan_Some_iff)
    then have "lh_block s ! k = ?n" using assms(4) by (metis nth_take)
    then have same: "(lh_block s)[k := ?n] = lh_block s" by (metis list_update_id)
    show ?thesis
      using assms len True kL k same f by (intro exI [of _ "lh_block s"]) (simp add: log_write_def Let_def tx_add_def tx_room_def, intro log_state.equality, simp_all add: upd_buf_def set_data_def)
  next
    case False
    then have k: "scan (\<lambda>k. k = ?n) L = None" by (simp add: scan_in_list)
    have "take (Suc (length L)) ((lh_block s)[length L := ?n]) = L @ [?n]"
      using assms(3,4) len by (simp add: take_Suc_conv_app_nth)
    then show ?thesis
      using assms len False k f by (intro exI [of _ ?bl]) (simp add: log_write_def Let_def tx_add_def tx_room_def, intro log_state.equality, simp_all add: upd_buf_def set_data_def)
  qed
qed

lemma buf_data_flags: "x\<lparr>b_data := d, b_flags := f\<rparr> = x\<lparr>b_flags := f, b_data := d\<rparr>"
  by (cases x) simp

lemma tx_store:
  assumes "in_tx i B L s" and "b \<in> B" and "length d = BSIZE" and "tx_room (Suc k) L s" and "b_blockno (bufs s b) \<notin> log_region s"
  shows "\<exists>s'. log_write b (set_data b d s) = Inr s' \<and> in_tx i B (tx_add (b_blockno (bufs s b)) L) s' \<and> tx_frame (B - {b}) s s' \<and>
    tx_room k (tx_add (b_blockno (bufs s b)) L) s' \<and> bufs s' b = (bufs s b)\<lparr>b_data := d, b_flags := b_flags (bufs s b) OR B_DIRTY\<rparr> \<and>
    blk s' = (blk s)(b_blockno (bufs s b) := d)"
proof -
  note t = in_txD [OF assms(1)] and h = held_caches [OF in_txD(3) [OF assms(1)] assms(2)]
  let ?n = "b_blockno (bufs s b)"
  let ?L = "tx_add ?n L" and ?f = "b_flags (bufs s b) OR B_DIRTY"
  have "tx_room 1 L s" using assms(4) by (rule tx_room_le) simp
  then obtain bl where s': "log_write b (set_data b d s) =
      Inr ((upd_buf b (\<lambda>x. x\<lparr>b_data := d, b_flags := b_flags x OR B_DIRTY\<rparr>) s)\<lparr>lh_n := int (length ?L), lh_block := bl\<rparr>)"
      "length bl = LOGSIZE" "take (length ?L) bl = ?L"
    using log_write_eq [OF t(2,5-7), of b d] assms(1) by (auto simp: in_tx_def)
  let ?u = "upd_buf b (\<lambda>x. x\<lparr>b_data := d, b_flags := b_flags x OR B_DIRTY\<rparr>) s"
  have u: "?u = (upd_buf b (\<lambda>x. x\<lparr>b_flags := ?f, b_data := d\<rparr>) s)\<lparr>disk := (disk s)(?n := disk s ?n), dwrites := dwrites s\<rparr>"
    by (simp add: upd_buf_def buf_data_flags)
  have f: "bit ?f (Suc 0)" using h(2) by (simp add: b_valid_def and_2_iff)
  note v = held_upd [OF t(3) assms(2) refl u f assms(3) bc_okD(2) [OF t(3)]]
  have fl: "disk ?u = disk s" "held ?u = held s" "disksize ?u = disksize s" "dwrites ?u = dwrites s" "log_start ?u = log_start s" "log_dev ?u = log_dev s"
      "log_outstanding ?u = log_outstanding s" "log_size ?u = log_size s" by (simp_all add: upd_buf_def)
  note g = geom_cong [OF fl(5,6,3)]
  have geom: "log_geom ?L s" using t(4) assms(4,5) h(4) by (auto simp: log_geom_def tx_add_def tx_room_def)
  have dirty: "bdirty ?u m \<longrightarrow> m \<in> set ?L" for m using v(4) t(8) by (auto simp: tx_add_def split: if_splits)
  let ?s = "?u\<lparr>lh_n := int (length ?L), lh_block := bl\<rparr>"
  have bs: "bufs ?s c = (if c = b then (bufs s b)\<lparr>b_data := d, b_flags := ?f\<rparr> else bufs s c)" for c by (simp add: upd_buf_def)
  have "b_dirty (bufs ?s c) \<or> b_data (bufs ?s c) = disk ?s (b_blockno (bufs ?s c))" if "c \<in> B" for c
    using t(11) [OF that] fl(1) unfolding bs by (simp add: b_dirty_def and_4_iff)
  then have "in_tx i B ?L ?s"
    using v(1) dirty geom g s'(2,3) fl(2,7) t(2) assms(1) bio_frame_runs(1) [OF v(2) t(1)] by (simp add: in_tx_def)
  moreover have "tx_frame (B - {b}) s ?s"
    by (simp add: tx_frame_def upd_buf_def)
  moreover have "tx_room k ?L ?s" using tx_room_add [OF assms(4)] fl(8) by (simp add: tx_room_def)
  moreover have "blk ?s = (blk s)(?n := d)" using v(3) by (simp add: fun_eq_iff)
  ultimately show ?thesis using s'(1) bs by (intro exI [of _ ?s]) simp
qed

text \<open>Reading a block, and reading, changing and logging it.\<close>

lemma tx_read:
  fixes s :: "'a log_state_scheme"
  assumes "in_tx i B L s" and "n < disksize s" and "\<And>b. b \<in> B \<Longrightarrow> b_blockno (bufs s b) \<noteq> n" and "tx_room k L s" and "card B \<le> 3"
  shows "\<exists>s'. (\<forall>f. seq (bread 1 n s) (\<lambda>(b, s). seq (brelse b s) (f (b_data (bufs s b)))) = (f (blk s n) s' :: ('a, 'b) lres)) \<and>
    in_tx i B L s' \<and> tx_frame B s s' \<and> blk s' = blk s"
proof -
  obtain b s1 where s1: "bread 1 n s = Inr (b, s1)" "in_tx i (insert b B) L s1" "tx_frame B s s1" "b \<notin> B" "b_data (bufs s1 b) = blk s n" "blk s1 = blk s"
    using tx_bread [OF assms] by blast
  obtain s2 where "brelse b s1 = Inr s2" "in_tx i B L s2" "tx_frame B s1 s2" "blk s2 = blk s1"
    using tx_brelse [OF s1(2) insertI1] s1(4) by auto
  with s1 tx_frame_trans [OF s1(3)] show ?thesis by (intro exI [of _ s2]) simp
qed

lemma tx_update:
  fixes s :: "'a log_state_scheme"
  assumes "in_tx i B L s" and "n < disksize s" and "\<And>b. b \<in> B \<Longrightarrow> b_blockno (bufs s b) \<noteq> n" and "tx_room (Suc k) L s" and "card B \<le> 3"
    and "n \<notin> log_region s" and "length (g (blk s n)) = BSIZE"
  shows "\<exists>s'. (\<forall>f. seq (bread 1 n s) (\<lambda>(b, s). seq (log_write b (set_data b (g (b_data (bufs s b))) s)) (\<lambda>s. seq (brelse b s) f)) = (f s' :: ('a, 'b) lres)) \<and>
    in_tx i B (tx_add n L) s' \<and> tx_room k (tx_add n L) s' \<and> tx_frame B s s' \<and> blk s' = (blk s)(n := g (blk s n))"
proof -
  obtain b s1 where s1: "bread 1 n s = Inr (b, s1)" "in_tx i (insert b B) L s1" "tx_frame B s s1" "b \<notin> B" "b_blockno (bufs s1 b) = n"
      "b_data (bufs s1 b) = blk s n" "blk s1 = blk s"
    using tx_bread [OF assms(1-5)] by blast
  note f1 = tx_frame_fields [OF s1(3)]
  obtain s2 where s2: "log_write b (set_data b (g (blk s n)) s1) = Inr s2" "in_tx i (insert b B) (tx_add n L) s2" "tx_frame B s1 s2"
      "tx_room k (tx_add n L) s2" "blk s2 = (blk s)(n := g (blk s n))"
    using tx_store [OF s1(2) insertI1 assms(7), of k] assms(4,6) f1 s1(4,5,7) by auto
  obtain s3 where s3: "brelse b s2 = Inr s3" "in_tx i B (tx_add n L) s3" "tx_frame B s2 s3" "blk s3 = blk s2"
    using tx_brelse [OF s2(2) insertI1] s1(4) by auto
  have fr: "tx_frame B s s3" using s1(3) s2(3) s3(3) by (blast intro: tx_frame_trans)
  show ?thesis
    using s1(1,6) s2(1,5) s3 fr s2(4) tx_frame_fields(16) [OF s3(3)] by (intro exI [of _ s3]) simp
qed

lemma binit_more: "bio_state.more (binit s) = bio_state.more s"
proof -
  have "bio_state.more (binit_from bs s) = bio_state.more s" for bs and s :: "'a bio_state_scheme"
    by (induction bs arbitrary: s) (simp_all add: link_first_def Let_def initsleeplock_def upd_slock_def upd_buf_def)
  then show ?thesis by (simp add: binit_def Let_def upd_buf_def)
qed

definition log_world :: "'a \<Rightarrow> (uint \<Rightarrow> block) \<Rightarrow> 'a log_state_scheme" where
  "log_world x d = bio_world (log_state_ext 2 30 1 False 1 0 (replicate LOGSIZE 0) x) d 1000"

lemma log_more:
  "bio_state.more s = log_state_ext st lsz out com dev n bl x \<Longrightarrow>
     log_start s = st \<and> log_size s = lsz \<and> log_outstanding s = out \<and> log_committing s = com \<and> log_dev s = dev \<and> lh_n s = n \<and> lh_block s = bl \<and> log_state.more s = x"
  by (cases s) simp

lemma log_world_fields:
  "log_start (log_world x d) = 2" "log_size (log_world x d) = 30" "log_outstanding (log_world x d) = 1" "\<not> log_committing (log_world x d)"
  "log_dev (log_world x d) = 1" "lh_n (log_world x d) = 0" "lh_block (log_world x d) = replicate LOGSIZE 0" "log_state.more (log_world x d) = x"
proof -
  have "bio_state.more (log_world x d) = log_state_ext 2 30 1 False 1 0 (replicate LOGSIZE 0) x"
    by (simp add: log_world_def bio_world_def binit_more booted_def four_procs_def proc_state.defs)
  from log_more [OF this] show "log_start (log_world x d) = 2" "log_size (log_world x d) = 30" "log_outstanding (log_world x d) = 1" "\<not> log_committing (log_world x d)"
    "log_dev (log_world x d) = 1" "lh_n (log_world x d) = 0" "lh_block (log_world x d) = replicate LOGSIZE 0" "log_state.more (log_world x d) = x"
    by simp_all
qed

lemma log_world_ok:
  assumes "\<And>m. length (d m) = BSIZE"
  shows "in_tx 0 {} [] (log_world x d)" "disk (log_world x d) = d" "disksize (log_world x d) = 1000" "tx_room 20 [] (log_world x d)"
    "blk (log_world x d) = d" "\<not> bdirty (log_world x d) m" "room (log_world x d)"
proof -
  note w = bio_world_ok [of d "log_state_ext 2 30 1 False 1 0 (replicate LOGSIZE 0) x" 1000, OF assms, folded log_world_def]
  show "in_tx 0 {} [] (log_world x d)" "disk (log_world x d) = d" "disksize (log_world x d) = 1000" "tx_room 20 [] (log_world x d)" "\<not> bdirty (log_world x d) m"
    using w by (simp_all add: in_tx_def log_geom_def tx_room_def log_world_fields)
  show "blk (log_world x d) = d" "room (log_world x d)" using w clean_blk [of "log_world x d"] by simp_all
qed

lemma woke_cache:
  assumes "woke s s'" and "runs_in i s"
  shows "bc_ok B s' = bc_ok B s" "blk s' = blk s" "bdirty s' = bdirty s" "disk s' = disk s" "dwrites s' = dwrites s" "bufs s' = bufs s"
    "slocks s' = slocks s" "disksize s' = disksize s"
proof -
  have e: "s' = s\<lparr>ptable := ptable s'\<rparr>" using assms(1) unfolding woke_def by blast
  show f: "disk s' = disk s" "dwrites s' = dwrites s" "bufs s' = bufs s" "slocks s' = slocks s" "disksize s' = disksize s" by (subst e, simp)+
  show "bc_ok B s' = bc_ok B s" "blk s' = blk s" "bdirty s' = bdirty s"
    using cache_cong [OF f(3,4,1,5) woke_runs_in(2) [OF assms]] by blast+
qed

lemma woke_log:
  assumes "woke s s'"
  shows "log_start s' = log_start s" "log_outstanding s' = log_outstanding s" "log_committing s' = log_committing s" "lh_n s' = lh_n s"
    "log_dev s' = log_dev s" "log_size s' = log_size s" "lh_block s' = lh_block s" "log_state.more s' = log_state.more s"
proof -
  have e: "s' = s\<lparr>ptable := ptable s'\<rparr>" using assms(1) unfolding woke_def by blast
  show "log_start s' = log_start s" "log_outstanding s' = log_outstanding s" "log_committing s' = log_committing s" "lh_n s' = lh_n s"
    "log_dev s' = log_dev s" "log_size s' = log_size s" "lh_block s' = lh_block s" "log_state.more s' = log_state.more s"
    by (subst e, simp)+
qed

lemma tx_room_room: "in_tx i {} L s \<Longrightarrow> tx_room k L s \<Longrightarrow> room s"
  using card_length [of L] by (auto simp: room_def tx_room_def dest: in_txD(8) intro!: exI [of _ "set L"])

lemma apply_writes_const:
  "(\<And>v. (m, v) \<in> set ws \<Longrightarrow> v = c) \<Longrightarrow> apply_writes ws x m = (if m \<in> fst ` set ws then c else x m)"
proof (induction ws arbitrary: x)
  case (Cons w ws)
  have "apply_writes ws y m = (if m \<in> fst ` set ws then c else y m)" for y using Cons by simp
  then show ?case using Cons.prems [of "snd w"] by (cases w) auto
qed simp

lemma commit_writes_at:
  assumes "log_geom L s" and "m \<notin> log_region s"
  shows "apply_writes (commit_writes s L) x m = (if m \<in> set L then blk s m else x m)"
proof -
  have len: "length L \<le> LOGSIZE" using assms(1) by (simp add: log_geom_def)
  have o: "m \<noteq> log_start s" "k < length L \<Longrightarrow> m \<noteq> log_at s k" for k using assms(2) len by (auto simp: log_region_def)
  have "v = blk s m" if "(m, v) \<in> set (commit_writes s L)" for v
    using that o by (fastforce simp: commit_writes_def)
  moreover have "m \<in> fst ` set (commit_writes s L) \<longleftrightarrow> m \<in> set L"
  proof
    assume "m \<in> fst ` set (commit_writes s L)"
    then show "m \<in> set L" using o by (fastforce simp: commit_writes_def)
  next
    assume "m \<in> set L"
    then obtain k where "k < length L" "L ! k = m" by (auto simp: in_set_conv_nth)
    then show "m \<in> fst ` set (commit_writes s L)"
      by (intro image_eqI [of _ _ "(m, blk s m)"]) (auto simp: commit_writes_def)
  qed
  ultimately show ?thesis using apply_writes_const [of m "commit_writes s L" "blk s m" x] by presburger
qed

text \<open>
  C15. The last operation of a group commits it: when a process that is the only one inside a
  transaction calls \<open>end_op\<close>, every block outside the log area is on disk as the transaction left
  it in the cache, nothing is dirty any more, and the log is empty and open again. When other
  operations are still outstanding, nothing is written to the disk.
\<close>

theorem end_op_commits:
  assumes "in_tx i {} L s" and "tx_room 0 L s" and "L \<noteq> []" and "\<not> log_committing s"
  shows "\<exists>s'. end_op s = Inr s' \<and> log_outstanding s' = log_outstanding s - 1 \<and> \<not> log_committing s' \<and> (m \<notin> log_region s \<longrightarrow> blk s' m = blk s m) \<and>
    (if log_outstanding s = 1
     then lh_n s' = 0 \<and> (m \<notin> log_region s \<longrightarrow> disk s' m = blk s m) \<and> \<not> bdirty s' m
     else lh_n s' = lh_n s \<and> disk s' = disk s \<and> dwrites s' = dwrites s)"
proof (cases "log_outstanding s = 1")
  case True
  note t = in_txD [OF assms(1)]
  let ?s = "s\<lparr>log_outstanding := 0, log_committing := True\<rparr>"
  obtain s2 where s2: "commit ?s = Inr s2" "wrote (?s\<lparr>lh_n := 0\<rparr>) s2 (commit_writes ?s L)"
    using commit_ok [of i ?s L] t tx_room_room [OF assms(1,2)] assms(3) by auto
  note w2 = wrote_runs [OF s2(2)]
  have r2: "runs_in i s2" "held s2 = []" and f2: "bio_frame (?s\<lparr>lh_n := 0\<rparr>) s2" using w2 t(1,2) by auto
  let ?s3 = "s2\<lparr>held := [L_log], log_committing := False\<rparr>"
  have r3: "runs_in i ?s3" using r2(1) by (simp add: runs_in_def ptable_ok_def)
  obtain s4 where s4: "wakeup ChLog ?s3 = Inr s4" "woke ?s3 s4" using wakeup_runs [OF r3, of ChLog] by auto
  note f4 = woke_log [OF s4(2)] and c4 = woke_cache [OF s4(2) r3] and h4 = woke_frame(1) [OF s4(2)]
  have e: "end_op s = Inr (s4\<lparr>held := []\<rparr>)"
    using True t(2) assms(4) s2(1) r2(2) s4(1) h4 by (simp add: end_op_def Let_def)
  have d: "\<not> bdirty s2 n" for n
  proof
    assume "bdirty s2 n"
    then have "bdirty s n" "n \<notin> fst ` set (commit_writes ?s L)" using s2(2) by (auto simp: wrote_def)
    with t(4,8) commit_writes_at [of L ?s n "\<lambda>_. []"] show False by (force simp: commit_writes_def in_set_conv_nth image_iff)
  qed
  have "blk s2 m = blk s m" "disk s2 m = blk s m" if "m \<notin> log_region s"
  proof -
    have m: "m \<notin> log_region ?s" using that by (simp add: log_region_def log_at_def)
    have free: "m \<notin> set L \<Longrightarrow> blk s m = disk s m" using blk_free [OF t(3)] t(8) by blast
    show "blk s2 m = blk s m" "disk s2 m = blk s m"
      using s2(2) commit_writes_at [of L ?s m] t(4) m free by (simp_all add: wrote_def)
  qed
  with d show ?thesis using e True f4 c4 bio_frame_log [OF f2] by simp
next
  case False
  note t = in_txD [OF assms(1)]
  let ?s = "s\<lparr>held := [L_log], log_outstanding := log_outstanding s - 1\<rparr>"
  have r: "runs_in i ?s" using t(1) by (simp add: runs_in_def ptable_ok_def)
  obtain s4 where s4: "wakeup ChLog ?s = Inr s4" "woke ?s s4" using wakeup_runs [OF r, of ChLog] by auto
  note f4 = woke_log [OF s4(2)] and c4 = woke_cache [OF s4(2) r] and h4 = woke_frame(1) [OF s4(2)]
  have "end_op s = Inr (s4\<lparr>held := []\<rparr>)"
    using False t(2) assms(4) s4(1) h4 by (simp add: end_op_def Let_def)
  then show ?thesis using False f4 c4 assms(4) by simp
qed

text \<open>One block, 40, written in a transaction on a disk of zeros.\<close>

definition one_write :: "('a, 'a log_state_scheme) lres \<Rightarrow> ('a, 'a log_state_scheme) lres" where
  "one_write s =
     seq s (\<lambda>s. seq (bread 1 40 s) (\<lambda>(b, s). seq (log_write b (set_data b (replicate 512 7) s)) (\<lambda>s. brelse b s)))"

lemma length_apply_writes:
  "\<forall>w \<in> set us. length (snd w) = BSIZE \<Longrightarrow> length (x m) = BSIZE \<Longrightarrow> length (apply_writes us x m) = BSIZE"
  by (induction us arbitrary: x) auto

lemma not_in_log: "log_start s = 2 \<Longrightarrow> m = 40 \<Longrightarrow> m \<notin> log_region s"
proof -
  have "(of_nat x :: uint) \<noteq> of_nat 37" if "x < 30" for x using that by (simp only: word_of_nat_eq_iff) (simp add: take_bit_eq_mod)
  then show "log_start s = 2 \<Longrightarrow> m = 40 \<Longrightarrow> m \<notin> log_region s" by (auto simp: log_region_def log_at_def)
qed

lemma seq_Inr_right [simp]: "seq x Inr = x"
  by (cases x) simp_all

lemma one_write_ok:
  "\<exists>s. one_write (Inr (log_world () (\<lambda>_. replicate 512 0))) = Inr s \<and> in_tx 0 {} [40] s \<and> tx_room 10 [40] s \<and> log_outstanding s = 1 \<and>
    \<not> log_committing s \<and> log_start s = 2 \<and> disk s = (\<lambda>_. replicate 512 0) \<and> disksize s = 1000 \<and> blk s = (\<lambda>_. replicate 512 0)(40 := replicate 512 7)"
proof -
  let ?w = "log_world () (\<lambda>_. replicate 512 0)"
  have d: "length (replicate 512 (0 :: uchar)) = BSIZE" by simp
  note w = log_world_ok [of "\<lambda>_. replicate 512 0" "()", OF d] and f = log_world_fields [of "()" "\<lambda>_. replicate 512 0"]
  have r: "tx_room (Suc 10) [] ?w" using w(4) by (rule tx_room_le) simp
  have n: "40 \<notin> log_region ?w" by (rule not_in_log) (simp_all add: f)
  have "\<exists>s'. (\<forall>f. seq (bread 1 40 ?w) (\<lambda>(b, s). seq (log_write b (set_data b (replicate 512 7) s)) (\<lambda>s. seq (brelse b s) f)) = (f s' :: (unit, log_state) lres)) \<and>
    in_tx 0 {} (tx_add 40 []) s' \<and> tx_room 10 (tx_add 40 []) s' \<and> tx_frame {} ?w s' \<and> blk s' = (blk ?w)(40 := replicate 512 7)"
    by (rule tx_update [OF w(1), where n = 40 and k = 10 and g = "\<lambda>_. replicate 512 7"]) (use w r n in simp_all)
  then obtain s' where s': "\<forall>f. seq (bread 1 40 ?w) (\<lambda>(b, s). seq (log_write b (set_data b (replicate 512 7) s)) (\<lambda>s. seq (brelse b s) f)) = (f s' :: (unit, log_state) lres)"
    "in_tx 0 {} [40] s'" "tx_room 10 [40] s'" "tx_frame {} ?w s'" "blk s' = (blk ?w)(40 := replicate 512 7)" by (auto simp: tx_add_def)
  have "one_write (Inr ?w) = Inr s'" using s'(1) [rule_format, of Inr] by (simp add: one_write_def)
  then show ?thesis using s' tx_frame_fields [OF s'(4)] w f by (intro exI [of _ s']) simp
qed

theorem end_op_commits_witness:
  "\<exists>s'. seq (one_write (Inr (log_world () (\<lambda>_. replicate 512 0)))) (\<lambda>s. end_op s) = Inr s' \<and> log_outstanding s' = 0 \<and> lh_n s' = 0 \<and>
     disk s' 40 = replicate 512 7"
proof -
  obtain s where s: "one_write (Inr (log_world () (\<lambda>_. replicate 512 0))) = Inr s" "in_tx 0 {} [40] s" "tx_room 10 [40] s" "log_outstanding s = 1"
      "\<not> log_committing s" "blk s = (\<lambda>_. replicate 512 0)(40 := replicate 512 7)"
    using one_write_ok by blast
  have "40 \<notin> log_region s" using in_txD(4) [OF s(2)] by (simp add: log_geom_def)
  with end_op_commits [OF s(2) tx_room_le [OF s(3)] _ s(5), of 40] s show ?thesis by auto
qed

lemma zero_header: "log_start s = 2 \<Longrightarrow> disk s = (\<lambda>_. replicate 512 0) \<Longrightarrow> logged s []"
  by (simp add: logged_def get32_def get16_def get32s_def)

theorem crash_during_commit_witness:
  "\<exists>s s' r'. one_write (Inr (log_world () (\<lambda>_. replicate 512 0))) = Inr s \<and> commit s = Inr s' \<and>
     recover_from_log (log_world () (apply_writes (take 2 (drop (length (dwrites s)) (dwrites s'))) (disk s))) = Inr r' \<and> disk r' 40 = replicate 512 7"
proof -
  obtain s where s: "one_write (Inr (log_world () (\<lambda>_. replicate 512 0))) = Inr s" "in_tx 0 {} [40] s" "tx_room 10 [40] s" "log_start s = 2"
      "disk s = (\<lambda>_. replicate 512 0)" "disksize s = 1000" "blk s = (\<lambda>_. replicate 512 0)(40 := replicate 512 7)"
    using one_write_ok by blast
  note t = in_txD [OF s(2)]
  have g: "40 \<notin> log_region s" "log_dev s = 1" using t(4) by (simp_all add: log_geom_def)
  have p: "[40 :: uint] \<noteq> []" "length [40 :: uint] \<le> length (lh_block s)" "\<forall>m. bdirty s m \<longrightarrow> m \<in> set [40]"
    using t(6,8) by simp_all
  obtain s' ws where c: "commit s = Inr s'" "dwrites s' = dwrites s @ ws"
    and c3: "\<forall>k (r :: log_state). runs_in 0 r \<and> held r = [] \<and> bc_ok {} r \<and> (\<forall>m. \<not> bdirty r m) \<and> log_start r = log_start s \<and> log_dev r = log_dev s \<and>
       disksize r = disksize s \<and> disk r = apply_writes (take k ws) (disk s) \<longrightarrow>
       (\<exists>r'. recover_from_log r = Inr r' \<and>
          (\<forall>m. m \<notin> log_region s \<longrightarrow> disk r' m = (if k \<le> length [40 :: uint] then disk s m else blk s m)))"
    and c4: "\<forall>w \<in> set ws. length (snd w) = BSIZE"
    using crash_during_commit [OF t(1-3) tx_room_room [OF s(2,3)] t(4,5) p(1,2) t(7) zero_header [OF s(4,5)] p(3), of 0] by (elim exE conjE) (rule that)
  let ?d = "apply_writes (take 2 ws) (disk s)"
  have l: "length (?d m) = BSIZE" for m
  proof (rule length_apply_writes)
    show "\<forall>w \<in> set (take 2 ws). length (snd w) = BSIZE" using c4 set_take_subset [of 2 ws] by blast
  qed (simp add: s(5))
  note w = log_world_ok [of ?d "()", OF l]
  have "\<exists>r'. recover_from_log (log_world () ?d) = Inr r' \<and> (\<forall>m. m \<notin> log_region s \<longrightarrow> disk r' m = blk s m)"
    using c3 [rule_format, of "log_world () ?d" 2] in_txD [OF w(1)] w s(4,6) g(2) by (auto simp: log_world_fields)
  then show ?thesis using s(1,7) c(1,2) g(1) by fastforce
qed

theorem recovery_restartable_witness:
  "\<exists>r' ws q'. let d = (\<lambda>_. replicate 512 0)(2 := head_block [40] (replicate 512 0), 3 := replicate 512 7) in
     recover_from_log (log_world () d) = Inr r' \<and> dwrites r' = dwrites (log_world () d) @ ws \<and>
     recover_from_log (log_world () (apply_writes (take 1 ws) d)) = Inr q' \<and> disk q' 40 = disk r' 40"
proof -
  let ?d = "(\<lambda>_. replicate 512 0)(2 := head_block [40] (replicate 512 0), 3 := replicate 512 7) :: uint \<Rightarrow> block"
  have l: "length (?d m) = BSIZE" for m by simp
  note w = log_world_ok [of ?d "()", OF l] and f = log_world_fields [of "()" ?d]
  note t = in_txD [OF w(1)]
  have n: "40 \<notin> log_region (log_world () ?d)" by (rule not_in_log) (simp_all add: f)
  have g: "log_geom [40] (log_world () ?d)" using t(4) w(3) n by (simp add: log_geom_def)
  have h: "logged (log_world () ?d) [40]"
    by (rule head_block_logged [of "replicate 512 0"]) (simp_all add: w(2) f)
  have cl: "\<forall>m. \<not> bdirty (log_world () ?d) m" using w(6) by blast
  obtain r' ws where c: "recover_from_log (log_world () ?d) = Inr r'" "dwrites r' = dwrites (log_world () ?d) @ ws" "\<forall>w \<in> set ws. length (snd w) = BSIZE"
    "\<forall>k (q :: log_state). runs_in 0 q \<and> held q = [] \<and> bc_ok {} q \<and> (\<forall>m. \<not> bdirty q m) \<and> log_start q = log_start (log_world () ?d) \<and>
       log_dev q = log_dev (log_world () ?d) \<and> disksize q = disksize (log_world () ?d) \<and> disk q = apply_writes (take k ws) (disk (log_world () ?d)) \<longrightarrow>
       (\<exists>q'. recover_from_log q = Inr q' \<and> (\<forall>m. m \<notin> log_region (log_world () ?d) \<longrightarrow> disk q' m = disk r' m))"
    using recovery_restartable [OF t(1-3) cl g h, of 0] by (elim exE conjE) (rule that)
  let ?e = "apply_writes (take 1 ws) ?d"
  have l': "length (?e m) = BSIZE" for m
  proof (rule length_apply_writes)
    show "\<forall>w \<in> set (take 1 ws). length (snd w) = BSIZE" using c(3) set_take_subset [of 1 ws] by blast
  qed (rule l)
  note w' = log_world_ok [of ?e "()", OF l']
  have "\<exists>q'. recover_from_log (log_world () ?e) = Inr q' \<and> (\<forall>m. m \<notin> log_region (log_world () ?d) \<longrightarrow> disk q' m = disk r' m)"
    using c(4) [rule_format, of "log_world () ?e" 1] in_txD [OF w'(1)] w w' by (auto simp: log_world_fields)
  then show ?thesis using c(1,2) n by (auto simp: Let_def)
qed

end
