(* ===== verification/Console.thy ===== *)
theory Console
  imports Log
begin

text \<open>
  The console (\<open>console.c\<close>, \<open>uartputc\<close> of \<open>uart.c\<close>) and what the kernel prints on it (\<open>procdump\<close>
  and \<open>ps\<close> of \<open>proc.c\<close>). The state has the bytes sent to the serial port, the CGA text memory with
  its cursor register, and the input line buffer. Waiting for the transmitter changes no state.
  The characters that the keyboard or serial driver delivers to \<open>consoleintr\<close> are a list, the
  values that \<open>getc\<close> returns before the first negative one. The variable arguments of \<open>cprintf\<close>
  are words or strings, and taking an argument that is not there is a \<open>Fault\<close>.
\<close>

section \<open>State\<close>

datatype devfun = Consoleread | Consolewrite

record cons_state = log_state +
  cons_locking :: bool
  panicked :: bool
  uart :: bool
  serial :: "uchar list"
  crt :: "nat \<Rightarrow> ushort"
  crt_pos :: ushort
  in_buf :: "uchar list"
  in_r :: uint
  in_w :: uint
  in_e :: uint
  devsw_read :: "int \<Rightarrow> devfun option"
  devsw_write :: "int \<Rightarrow> devfun option"

type_synonym ('a, 'b) cres = "('a cons_state_scheme, 'b) kres"

abbreviation (input) BACKSPACE :: int where "BACKSPACE \<equiv> 256"
abbreviation (input) INPUT_BUF :: nat where "INPUT_BUF \<equiv> 128"

section \<open>Output\<close>

definition uartputc :: "int \<Rightarrow> 'a cons_state_scheme \<Rightarrow> 'a cons_state_scheme" where
  "uartputc c s = (if uart s then s\<lparr>serial := serial s @ [word_of_int c]\<rparr> else s)"

text \<open>The scroll of \<open>cgaputc\<close>: one line up, and blank from the new position to the end of line 24.\<close>

definition scroll_up :: "nat \<Rightarrow> (nat \<Rightarrow> ushort) \<Rightarrow> (nat \<Rightarrow> ushort)" where
  "scroll_up pos m = (\<lambda>i. if pos \<le> i \<and> i < 24 * 80 then 0 else if i < 23 * 80 then m (i + 80) else m i)"

definition cgaputc :: "int \<Rightarrow> 'a cons_state_scheme \<Rightarrow> ('a, 'a cons_state_scheme) cres" where
  "cgaputc c s =
     (let pos = unat (crt_pos s);
          (pos, s) =
            (if c = 10 then (pos + (80 - pos mod 80), s)
             else if c = BACKSPACE then ((if pos > 0 then pos - 1 else pos), s)
             else (pos + 1, s\<lparr>crt := (crt s)(pos := ucast (word_of_int c :: uchar) OR 0x0700)\<rparr>))
      in if pos > 25 * 80 then Inl (Panic ''pos under/overflow'')
         else
           let (pos, s) =
                 (if pos div 80 \<ge> 24 then (pos - 80, s\<lparr>crt := scroll_up (pos - 80) (crt s)\<rparr>) else (pos, s))
           in Inr (s\<lparr>crt_pos := of_nat pos, crt := (crt s)(pos := 0x0720)\<rparr>))"

definition consputc :: "int \<Rightarrow> 'a cons_state_scheme \<Rightarrow> ('a, 'a cons_state_scheme) cres" where
  "consputc c s =
     (if panicked s then Inl Diverge
      else if c = BACKSPACE then cgaputc c (uartputc 8 (uartputc 32 (uartputc 8 s)))
      else cgaputc c (uartputc c s))"

fun putchars :: "int list \<Rightarrow> 'a cons_state_scheme \<Rightarrow> ('a, 'a cons_state_scheme) cres" where
  "putchars [] s = Inr s"
| "putchars (c # cs) s = seq (consputc c s) (\<lambda>s. putchars cs s)"

text \<open>\<open>printint\<close>: the digits, least significant first; the base is 10 or 16 at every call.\<close>

function print_digits :: "nat \<Rightarrow> nat \<Rightarrow> nat list" where
  "print_digits base x = x mod base # (if base < 2 \<or> x div base = 0 then [] else print_digits base (x div base))"
  by pat_completeness auto

termination
  by (relation "measure snd") (auto intro!: div_less_dividend intro: gr0I)

declare print_digits.simps [simp del]

definition digit_char :: "nat \<Rightarrow> int" where
  "digit_char d = (if d < 10 then 48 + int d else 87 + int d)"

definition printint_chars :: "uint \<Rightarrow> nat \<Rightarrow> bool \<Rightarrow> int list" where
  "printint_chars xx base sg =
     (let neg = (sg \<and> sint xx < 0);
          x = (if neg then - xx else xx);
          buf = map digit_char (print_digits base (unat x));
          buf = (if neg then buf @ [45] else buf)
      in rev buf)"

definition printint :: "uint \<Rightarrow> nat \<Rightarrow> bool \<Rightarrow> 'a cons_state_scheme \<Rightarrow> ('a, 'a cons_state_scheme) cres" where
  "printint xx base sg s = putchars (printint_chars xx base sg) s"

datatype carg = CW uint | CS "uchar list option"

definition lit :: "string \<Rightarrow> uchar list" where
  "lit x = map of_char x"

text \<open>The characters of a string argument, up to its terminator; \<open>char\<close> is signed.\<close>

definition cstr_chars :: "uchar list option \<Rightarrow> int list" where
  "cstr_chars x = map sint (takeWhile (\<lambda>b. b \<noteq> 0) (case x of None \<Rightarrow> lit ''(null)'' | Some b \<Rightarrow> b))"

fun cprintf_from :: "string \<Rightarrow> carg list \<Rightarrow> 'a cons_state_scheme \<Rightarrow> ('a, 'a cons_state_scheme) cres" where
  "cprintf_from [] args s = Inr s"
| "cprintf_from (c # f) args s =
     (if c \<noteq> CHR ''%'' then seq (consputc (of_char c) s) (\<lambda>s. cprintf_from f args s)
      else case f of
        [] \<Rightarrow> Inr s
      | c # f \<Rightarrow>
          if c = CHR ''d'' then
            (case args of CW x # args \<Rightarrow> seq (printint x 10 True s) (\<lambda>s. cprintf_from f args s) | _ \<Rightarrow> Inl (Fault ''cprintf''))
          else if c = CHR ''x'' \<or> c = CHR ''p'' then
            (case args of CW x # args \<Rightarrow> seq (printint x 16 False s) (\<lambda>s. cprintf_from f args s) | _ \<Rightarrow> Inl (Fault ''cprintf''))
          else if c = CHR ''s'' then
            (case args of CS x # args \<Rightarrow> seq (putchars (cstr_chars x) s) (\<lambda>s. cprintf_from f args s) | _ \<Rightarrow> Inl (Fault ''cprintf''))
          else if c = CHR ''%'' then seq (consputc 37 s) (\<lambda>s. cprintf_from f args s)
          else seq (consputc 37 s) (\<lambda>s. seq (consputc (of_char c) s) (\<lambda>s. cprintf_from f args s)))"

definition cprintf :: "string \<Rightarrow> carg list \<Rightarrow> 'a cons_state_scheme \<Rightarrow> ('a, 'a cons_state_scheme) cres" where
  "cprintf fmt args s =
     (let locking = cons_locking s
      in seq (if locking then lock L_cons s else Inr s) (\<lambda>s.
         seq (cprintf_from fmt args s) (\<lambda>s.
         if locking then unlock L_cons s else Inr s)))"

text \<open>
  What \<open>panic\<close> prints before it loops for ever: the result is the state in which the machine
  hangs. \<open>lapicid\<close> and the return addresses are arguments.
\<close>

fun print_pcs :: "string \<Rightarrow> uint list \<Rightarrow> 'a cons_state_scheme \<Rightarrow> ('a, 'a cons_state_scheme) cres" where
  "print_pcs f [] s = Inr s"
| "print_pcs f (x # xs) s = seq (cprintf f [CW x] s) (\<lambda>s. print_pcs f xs s)"

definition panic_print :: "uint \<Rightarrow> uint list \<Rightarrow> string \<Rightarrow> 'a cons_state_scheme \<Rightarrow> ('a, 'a cons_state_scheme) cres" where
  "panic_print lapicid ra msg s =
     seq (cprintf ''lapicid %d: panic: '' [CW lapicid] (s\<lparr>cons_locking := False\<rparr>)) (\<lambda>s.
     seq (cprintf msg [] s) (\<lambda>s.
     seq (cprintf ''\<newline>'' [] s) (\<lambda>s.
     seq (print_pcs '' %p'' ra s) (\<lambda>s. Inr (s\<lparr>panicked := True\<rparr>)))))"

section \<open>Process listings\<close>

abbreviation (input) TAB :: string where "TAB \<equiv> [CHR 0x09]"

fun state_name :: "procstate \<Rightarrow> string" where
  "state_name UNUSED = ''unused''"
| "state_name EMBRYO = ''embryo''"
| "state_name SLEEPING = ''sleep ''"
| "state_name RUNNABLE = ''runble''"
| "state_name RUNNING = ''run   ''"
| "state_name ZOMBIE = ''zombie''"

fun procdump_from :: "proc list \<Rightarrow> 'a cons_state_scheme \<Rightarrow> ('a, 'a cons_state_scheme) cres" where
  "procdump_from [] s = Inr s"
| "procdump_from (p # t) s =
     (if state p = UNUSED then procdump_from t s
      else
        seq (cprintf ''%d %s %s'' [CW (word_of_int (pid p)), CS (Some (lit (state_name (state p)))), CS (Some (p_name p))] s) (\<lambda>s.
        seq (if state p = SLEEPING then
               let pc = getcallerpcs (ld32 (mem s) (ctxt p + 12) + 8) (mem s)
               in print_pcs '' %p'' (takeWhile (\<lambda>x. x \<noteq> 0) pc) s
             else Inr s) (\<lambda>s.
        seq (cprintf ''\<newline>'' [] s) (\<lambda>s. procdump_from t s))))"

definition procdump :: "'a cons_state_scheme \<Rightarrow> ('a, 'a cons_state_scheme) cres" where
  "procdump s = procdump_from (ptable s) s"

fun ps_state :: "procstate \<Rightarrow> bool \<Rightarrow> string" where
  "ps_state UNUSED all = (if all then ''UNUSED  '' else ''UNUSED'') @ TAB"
| "ps_state EMBRYO all = (if all then ''EMBRYO  '' else ''EMBRYO'') @ TAB"
| "ps_state SLEEPING all = ''SLEEPING'' @ TAB"
| "ps_state RUNNABLE all = ''RUNNABLE'' @ TAB"
| "ps_state RUNNING all = (if all then ''RUNNING '' else ''RUNNING'') @ TAB"
| "ps_state ZOMBIE all = (if all then ''ZOMBIE  '' else ''ZOMBIE'') @ TAB"

text \<open>The line of one process, the same for all processes and for one but for the padding of the state.\<close>

definition ps_line :: "bool \<Rightarrow> proc \<Rightarrow> 'a cons_state_scheme \<Rightarrow> ('a, 'a cons_state_scheme) cres" where
  "ps_line all p s =
     seq (cprintf (''%s'' @ TAB @ ''%d'' @ TAB) [CS (Some (p_name p)), CW (word_of_int (pid p))] s) (\<lambda>s.
     seq (cprintf (ps_state (state p) all) [] s) (\<lambda>s.
     if weight p = 0 then Inl (Fault ''ps'')
     else
       let args = [CW (word_of_int (nice p)), CW (actual_runtime p div weight p), CW (actual_runtime p), CW (vruntime p)]
       in if actual_runtime p = 0 then cprintf (''%d'' @ TAB @ ''        %d'' @ TAB @ TAB @ '' %d   '' @ TAB @ TAB @ ''%d\<newline>'') args s
          else cprintf (''%d'' @ TAB @ ''        %d'' @ TAB @ TAB @ '' %d   '' @ TAB @ ''%d\<newline>'') args s))"

fun ps_all :: "proc list \<Rightarrow> 'a cons_state_scheme \<Rightarrow> ('a, 'a cons_state_scheme) cres" where
  "ps_all [] s = Inr s"
| "ps_all (p # t) s = (if state p = UNUSED then ps_all t s else seq (ps_line True p s) (\<lambda>s. ps_all t s))"

definition ps :: "int \<Rightarrow> 'a cons_state_scheme \<Rightarrow> ('a, 'a cons_state_scheme) cres" where
  "ps n s =
     seq (lock L_ptable s) (\<lambda>s.
     seq (cprintf (''name'' @ TAB @ ''pid'' @ TAB @ ''state'' @ TAB @ TAB @ ''priority'' @ TAB @ ''runtime/weight   runtime   '' @ TAB @
            ''vruntime'' @ TAB @ ''tick %d\<newline>'') [CW (1000 * ticks s)] s) (\<lambda>s.
     seq (if n = 0 then ps_all (ptable s) s
          else case scan (\<lambda>p. state p \<noteq> UNUSED \<and> pid p = n) (ptable s) of
                 Some i \<Rightarrow> ps_line False (pr s i) s
               | None \<Rightarrow> Inr s) (\<lambda>s.
     unlock L_ptable s)))"

section \<open>Input\<close>

text \<open>The loop of Control-U, back to the last line or to what has already been handed over.\<close>

lemma consputc_input:
  "post (\<lambda>s'. in_e s' = in_e s \<and> in_w s' = in_w s \<and> in_r s' = in_r s \<and> in_buf s' = in_buf s) (consputc c s)"
  by (simp add: consputc_def cgaputc_def uartputc_def Let_def split: prod.splits if_splits)

function kill_line :: "'a cons_state_scheme \<Rightarrow> ('a, 'a cons_state_scheme) cres" where
  "kill_line s =
     (if in_e s \<noteq> in_w s \<and> in_buf s ! (unat (in_e s - 1) mod INPUT_BUF) \<noteq> 10
      then seq (consputc BACKSPACE (s\<lparr>in_e := in_e s - 1\<rparr>)) (\<lambda>s. kill_line s)
      else Inr s)"
  by pat_completeness auto

termination
proof (relation "measure (\<lambda>s. unat (in_e s - in_w s))")
  fix s s' :: "'a cons_state_scheme"
  assume ne: "in_e s \<noteq> in_w s \<and> in_buf s ! (unat (in_e s - 1) mod INPUT_BUF) \<noteq> 10" and s': "consputc BACKSPACE (s\<lparr>in_e := in_e s - 1\<rparr>) = Inr s'"
  have f: "in_e s' = in_e s - 1" "in_w s' = in_w s" using postD [OF consputc_input s'] by simp_all
  have "in_e s - in_w s \<noteq> 0" using ne by simp
  then have "unat (in_e s - in_w s - 1) < unat (in_e s - in_w s)" by (simp add: unat_minus_one unat_gt_0)
  then show "(s', s) \<in> measure (\<lambda>s. unat (in_e s - in_w s))" by (simp add: f algebra_simps)
qed simp

declare kill_line.simps [simp del]

fun consoleintr_from :: "int list \<Rightarrow> bool \<Rightarrow> 'a cons_state_scheme \<Rightarrow> ('a, bool \<times> 'a cons_state_scheme) cres" where
  "consoleintr_from [] dump s = Inr (dump, s)"
| "consoleintr_from (c # cs) dump s =
     (if c = 16 then consoleintr_from cs True s
      else if c = 21 then seq (kill_line s) (\<lambda>s. consoleintr_from cs dump s)
      else if c = 8 \<or> c = 127 then
        seq (if in_e s \<noteq> in_w s then consputc BACKSPACE (s\<lparr>in_e := in_e s - 1\<rparr>) else Inr s) (\<lambda>s. consoleintr_from cs dump s)
      else if c \<noteq> 0 \<and> unat (in_e s - in_r s) < INPUT_BUF then
        let c = (if c = 13 then 10 else c);
            s = s\<lparr>in_buf := (in_buf s)[unat (in_e s) mod INPUT_BUF := word_of_int c], in_e := in_e s + 1\<rparr>
        in seq (consputc c s) (\<lambda>s.
           seq (if c = 10 \<or> c = 4 \<or> in_e s = in_r s + of_nat INPUT_BUF then wakeup ChInput (s\<lparr>in_w := in_e s\<rparr>) else Inr s) (\<lambda>s.
           consoleintr_from cs dump s))
      else consoleintr_from cs dump s)"

definition consoleintr :: "int list \<Rightarrow> 'a cons_state_scheme \<Rightarrow> ('a, 'a cons_state_scheme) cres" where
  "consoleintr cs s =
     seq (lock L_cons s) (\<lambda>s.
     seq (consoleintr_from cs False s) (\<lambda>(dump, s).
     seq (unlock L_cons s) (\<lambda>s.
     if dump then procdump s else Inr s)))"

definition consoleinit :: "'a cons_state_scheme \<Rightarrow> 'a cons_state_scheme" where
  "consoleinit s =
     s\<lparr>devsw_write := (devsw_write s)(1 := Some Consolewrite), devsw_read := (devsw_read s)(1 := Some Consoleread), cons_locking := True\<rparr>"

section \<open>What is printed\<close>

text \<open>
  The bytes that \<open>consputc\<close> sends to the serial port for one character. With the cursor on the
  first 24 lines and before any panic, output always returns, leaves the cursor there, and touches
  only the output devices.
\<close>

definition sent :: "int \<Rightarrow> uchar list" where
  "sent c = (if c = BACKSPACE then [8, 32, 8] else [word_of_int c])"

definition can_print :: "'a cons_state_scheme \<Rightarrow> bool" where
  "can_print s \<longleftrightarrow> \<not> panicked s \<and> unat (crt_pos s) < 24 * 80"

definition printed :: "int list \<Rightarrow> 'a cons_state_scheme \<Rightarrow> 'a cons_state_scheme \<Rightarrow> bool" where
  "printed cs s s' \<longleftrightarrow>
     s' = s\<lparr>serial := serial s @ (if uart s then concat (map sent cs) else []), crt_pos := crt_pos s', crt := crt s'\<rparr> \<and>
     unat (crt_pos s') < 24 * 80 \<and> (\<forall>j \<ge> 24 * 80. crt s' j = crt s j)"

lemma newline_pos:
  assumes "p < (1920 :: nat)"
  shows "p + (80 - p mod 80) = 80 * (p div 80 + 1)" "p div 80 < 24"
proof -
  have "q + (80 - r) = 80 * (d + 1)" if "q = 80 * d + r" "r < 80" for q d r :: nat using that by simp
  from this [of p "p div 80" "p mod 80"] show "p + (80 - p mod 80) = 80 * (p div 80 + 1)" by simp
  show "p div 80 < 24" using assms by (simp add: div_less_iff_less_mult)
qed

text \<open>The end of \<open>cgaputc\<close>, from a position that may be at the start of line 24.\<close>

lemma cga_scrolled:
  assumes "q \<le> 24 * 80" and "\<forall>j \<ge> 24 * 80. m j = crt s j"
  shows "\<exists>p m'. (let (pos, t) = (if q div 80 \<ge> 24 then (q - 80, s\<lparr>crt := scroll_up (q - 80) m\<rparr>) else (q, s\<lparr>crt := m\<rparr>))
      in t\<lparr>crt_pos := of_nat pos, crt := (crt t)(pos := 0x0720)\<rparr>) = s\<lparr>crt_pos := p, crt := m'\<rparr> \<and>
    unat p < 24 * 80 \<and> (\<forall>j \<ge> 24 * 80. m' j = crt s j)"
proof (cases "q = 1920")
  case True
  have "s\<lparr>crt := scroll_up 1840 m, crt_pos := 1840, crt := (scroll_up 1840 m)(1840 := 0x0720)\<rparr> =
      s\<lparr>crt_pos := 1840, crt := (scroll_up 1840 m)(1840 := 0x0720)\<rparr>" by simp
  with True assms(2) show ?thesis
    by (intro exI [of _ 1840] exI [of _ "(scroll_up 1840 m)(1840 := 0x0720)"]) (simp add: scroll_up_def)
next
  case False
  with assms(1) have q: "q < 1920" by simp
  then have "\<not> q div 80 \<ge> 24" by (simp add: not_le div_less_iff_less_mult)
  moreover have "unat (of_nat q :: ushort) = q" using q by (simp add: unat_of_nat take_bit_eq_mod)
  ultimately show ?thesis
    using q assms(2) by (intro exI [of _ "of_nat q"] exI [of _ "m(q := 0x0720)"]) simp
qed

lemma cgaputc_runs:
  assumes "unat (crt_pos s) < 24 * 80"
  shows "\<exists>p m. cgaputc c s = Inr (s\<lparr>crt_pos := p, crt := m\<rparr>) \<and> unat p < 24 * 80 \<and> (\<forall>j \<ge> 24 * 80. m j = crt s j)"
proof -
  let ?p = "unat (crt_pos s)"
  define q where "q = (if c = 10 then ?p + (80 - ?p mod 80) else if c = BACKSPACE then (if ?p > 0 then ?p - 1 else ?p) else ?p + 1)"
  define m where "m = (if c = 10 \<or> c = BACKSPACE then crt s else (crt s)(?p := ucast (word_of_int c :: uchar) OR 0x0700))"
  have p: "?p < 1920" using assms by simp
  have "?p + (80 - ?p mod 80) \<le> 1920" unfolding newline_pos(1) [OF p] using newline_pos(2) [OF p] by simp
  with p have q: "q \<le> 24 * 80" by (simp add: q_def) linarith
  have m: "\<forall>j \<ge> 24 * 80. m j = crt s j" using p by (simp add: m_def)
  have "cgaputc c s = Inr (let (pos, t) = (if q div 80 \<ge> 24 then (q - 80, s\<lparr>crt := scroll_up (q - 80) m\<rparr>) else (q, s\<lparr>crt := m\<rparr>))
      in t\<lparr>crt_pos := of_nat pos, crt := (crt t)(pos := 0x0720)\<rparr>)"
    using q unfolding cgaputc_def Let_def q_def m_def by (cases "c = 10"; cases "c = BACKSPACE") simp_all
  then show ?thesis
    using cga_scrolled [OF q m] by (elim exE conjE, intro exI conjI) (erule trans, erule arg_cong, assumption+)
qed

lemma printed_fields:
  assumes "printed cs s s'"
  shows "in_e s' = in_e s" "in_w s' = in_w s" "in_r s' = in_r s" "in_buf s' = in_buf s" "uart s' = uart s" "panicked s' = panicked s"
    "held s' = held s" "ptable s' = ptable s" "curproc s' = curproc s" "nextpid s' = nextpid s"
    "serial s' = serial s @ (if uart s then concat (map sent cs) else [])"
proof -
  have e: "s' = s\<lparr>serial := serial s @ (if uart s then concat (map sent cs) else []), crt_pos := crt_pos s', crt := crt s'\<rparr>"
    using assms unfolding printed_def by blast
  show "in_e s' = in_e s" "in_w s' = in_w s" "in_r s' = in_r s" "in_buf s' = in_buf s" "uart s' = uart s" "panicked s' = panicked s"
    "held s' = held s" "ptable s' = ptable s" "curproc s' = curproc s" "nextpid s' = nextpid s"
    "serial s' = serial s @ (if uart s then concat (map sent cs) else [])"
    by (subst e, simp)+
qed

lemma printed_can_print: "printed cs s s' \<Longrightarrow> can_print s \<Longrightarrow> can_print s'"
  using printed_fields(6) [of cs s s'] by (simp add: can_print_def) (simp add: printed_def)

lemma printed_Nil: "can_print s \<Longrightarrow> printed [] s s"
  by (simp add: printed_def can_print_def)

lemma printed_trans:
  assumes "printed cs s s'" and "printed ds s' s''"
  shows "printed (cs @ ds) s s''"
proof -
  have e: "s' = s\<lparr>serial := serial s @ (if uart s then concat (map sent cs) else []), crt_pos := crt_pos s', crt := crt s'\<rparr>"
      "s'' = s'\<lparr>serial := serial s' @ (if uart s' then concat (map sent ds) else []), crt_pos := crt_pos s'', crt := crt s''\<rparr>"
    using assms unfolding printed_def by blast+
  have "s'' = s\<lparr>serial := serial s @ (if uart s then concat (map sent (cs @ ds)) else []), crt_pos := crt_pos s'', crt := crt s''\<rparr>"
    by (subst e(2), subst (1) e(1)) (simp add: printed_fields(5,11) [OF assms(1)])
  then show ?thesis using assms unfolding printed_def by simp
qed

lemma consputc_runs:
  assumes "can_print s"
  shows "\<exists>s'. consputc c s = Inr s' \<and> printed [c] s s'"
proof -
  let ?u = "if c = BACKSPACE then uartputc 8 (uartputc 32 (uartputc 8 s)) else uartputc c s"
  have u: "?u = s\<lparr>serial := serial s @ (if uart s then sent c else [])\<rparr>" by (simp add: uartputc_def sent_def)
  have "unat (crt_pos ?u) < 24 * 80" using assms by (simp add: uartputc_def can_print_def)
  from cgaputc_runs [OF this, of c] obtain p m where
    pm: "cgaputc c ?u = Inr (?u\<lparr>crt_pos := p, crt := m\<rparr>)" "unat p < 24 * 80" "\<forall>j \<ge> 24 * 80. m j = crt ?u j" by blast
  let ?s' = "?u\<lparr>crt_pos := p, crt := m\<rparr>"
  have "consputc c s = cgaputc c ?u" using assms by (simp add: consputc_def can_print_def)
  then have "consputc c s = Inr ?s'" by (simp only: pm(1))
  moreover have "printed [c] s ?s'"
    using pm(2,3) unfolding u printed_def by simp
  ultimately show ?thesis by blast
qed

lemma putchars_runs:
  assumes "can_print s"
  shows "\<exists>s'. putchars cs s = Inr s' \<and> printed cs s s'"
  using assms
proof (induction cs arbitrary: s)
  case (Cons c cs)
  obtain s1 where s1: "consputc c s = Inr s1" "printed [c] s s1" using consputc_runs [OF Cons.prems] by blast
  obtain s2 where "putchars cs s1 = Inr s2" "printed cs s1 s2" using Cons.IH printed_can_print [OF s1(2) Cons.prems] by blast
  with s1 printed_trans [OF s1(2)] show ?case by fastforce
qed (simp add: printed_Nil)

section \<open>Numbers\<close>

text \<open>Reading a printed number back: digits in the given base, with a minus sign in front of a negative one.\<close>

definition digit_val :: "int \<Rightarrow> nat" where
  "digit_val c = (if c < 58 then nat (c - 48) else nat (c - 87))"

definition read_num :: "nat \<Rightarrow> int list \<Rightarrow> int" where
  "read_num base cs =
     (if cs \<noteq> [] \<and> hd cs = 45 then - int (foldl (\<lambda>n c. base * n + digit_val c) 0 (tl cs))
      else int (foldl (\<lambda>n c. base * n + digit_val c) 0 cs))"

lemma digit_val_char: "d < 16 \<Longrightarrow> digit_val (digit_char d) = d" "digit_char d \<noteq> 45"
  by (auto simp: digit_val_def digit_char_def)

lemma print_digits_value:
  assumes "1 < base"
  shows "foldr (\<lambda>d n. base * n + d) (print_digits base x) 0 = x"
proof (induction x rule: less_induct)
  case (less x)
  show ?case
  proof (cases "x div base = 0")
    case True
    then show ?thesis using assms by (subst print_digits.simps) (simp add: div_eq_0_iff)
  next
    case False
    then have "x div base < x" using assms by (intro div_less_dividend) (auto intro: gr0I)
    from less [OF this] show ?thesis using assms False by (subst print_digits.simps) simp
  qed
qed

lemma print_digits_less: "1 < base \<Longrightarrow> d \<in> set (print_digits base x) \<Longrightarrow> d < base"
proof (induction base x rule: print_digits.induct)
  case (1 base x)
  from 1(3) have "d = x mod base \<or> \<not> (base < 2 \<or> x div base = 0) \<and> d \<in> set (print_digits base (x div base))"
    by (subst (asm) print_digits.simps) (simp split: if_splits)
  with 1(1,2) show ?case by auto
qed

lemma print_digits_length: "1 < base \<Longrightarrow> x < base ^ Suc k \<Longrightarrow> length (print_digits base x) \<le> Suc k"
proof (induction k arbitrary: x)
  case 0
  then show ?case by (subst print_digits.simps) simp
next
  case (Suc k)
  then have "x div base < base ^ Suc k" by (simp add: div_less_iff_less_mult mult.commute)
  with Suc show ?case by (subst print_digits.simps) simp
qed

lemma read_digits:
  assumes "1 < base" and "base \<le> 16"
  shows "foldl (\<lambda>n c. base * n + digit_val c) 0 (rev (map digit_char (print_digits base x))) = x"
proof -
  have "foldl (\<lambda>n c. base * n + digit_val c) 0 (rev (map digit_char (print_digits base x))) =
      foldr (\<lambda>d n. base * n + digit_val (digit_char d)) (print_digits base x) 0"
    by (simp add: foldl_conv_foldr foldr_map o_def)
  also have "\<dots> = foldr (\<lambda>d n. base * n + d) (print_digits base x) 0"
  proof (rule foldr_cong [OF refl refl])
    fix d n
    assume "d \<in> set (print_digits base x)"
    with print_digits_less assms have "d < 16" by fastforce
    then show "base * n + digit_val (digit_char d) = base * n + d" by (simp add: digit_val_char)
  qed
  finally show ?thesis by (simp add: print_digits_value [OF assms(1)])
qed

lemma unat_of_sint:
  fixes x :: uint
  shows "sint x < 0 \<Longrightarrow> int (unat (- x)) = - sint x" "0 \<le> sint x \<Longrightarrow> int (unat x) = sint x"
proof -
  have r: "- (2 ^ 31) \<le> sint x" "sint x < 2 ^ 31" using sint_greater_eq [of x] sint_less [of x] by simp_all
  have m: "int (unat y) = k mod 2 ^ 32" if "y = word_of_int k" for y :: uint and k
    unfolding that unsigned_of_int by (simp add: take_bit_eq_mod)
  show "int (unat (- x)) = - sint x" if "sint x < 0"
    using m [of "- x" "- sint x"] r that by simp
  show "int (unat x) = sint x" if "0 \<le> sint x"
    using m [of x "sint x"] r that by simp
qed

lemma printint_chars_value:
  assumes "base = 10 \<or> base = 16"
  shows "read_num base (printint_chars xx base sg) = (if sg then sint xx else uint xx)" "length (printint_chars xx base sg) \<le> 16"
    "c \<in> set (printint_chars xx base sg) \<Longrightarrow> 0 \<le> c \<and> c < 128"
proof -
  define neg where "neg = (sg \<and> sint xx < 0)"
  define x where "x = unat (if neg then - xx else xx)"
  let ?ds = "rev (map digit_char (print_digits base x))"
  have b: "1 < base" "base \<le> 16" using assms by auto
  have cs: "printint_chars xx base sg = (if neg then 45 # ?ds else ?ds)"
    by (simp add: printint_chars_def Let_def neg_def x_def)
  have x: "(if neg then - int x else int x) = (if sg then sint xx else uint xx)"
    using unat_of_sint [of xx] by (auto simp: neg_def x_def)
  have ne: "?ds \<noteq> []" by (subst print_digits.simps) simp
  then have "hd ?ds \<noteq> 45" using hd_in_set [of ?ds] digit_val_char(2) by force
  then show "read_num base (printint_chars xx base sg) = (if sg then sint xx else uint xx)"
    using x ne read_digits [OF b, of x] unfolding cs read_num_def by (simp split: if_splits)
  have "x < 2 ^ 32" by (simp add: x_def unat_lt_2_32)
  also have "(2 :: nat) ^ 32 \<le> base ^ Suc 9" using assms by auto
  finally have "length (print_digits base x) \<le> Suc 9" by (rule print_digits_length [OF b(1)])
  then show "length (printint_chars xx base sg) \<le> 16" unfolding cs by simp
  have "d < 16" if "d \<in> set (print_digits base x)" for d using print_digits_less [OF b(1) that] b(2) by simp
  then show "c \<in> set (printint_chars xx base sg) \<Longrightarrow> 0 \<le> c \<and> c < 128"
    unfolding cs by (fastforce simp: digit_char_def split: if_splits)
qed

lemma sent_plain: "256 \<notin> set cs \<Longrightarrow> concat (map sent cs) = map word_of_int cs"
  by (induction cs) (auto simp: sent_def)

text \<open>A machine at the console: the log as set up at boot, the serial port there, an empty screen and no input.\<close>

definition cons_world :: "'a \<Rightarrow> (uint \<Rightarrow> block) \<Rightarrow> 'a cons_state_scheme" where
  "cons_world x d = log_world (cons_state_ext True False True [] (\<lambda>_. 0) 0 (replicate INPUT_BUF 0) 0 0 0 (\<lambda>_. None) (\<lambda>_. None) x) d"

lemma cons_more:
  "log_state.more s = cons_state_ext a b c d e f g h i j k l x \<Longrightarrow>
     panicked s = b \<and> uart s = c \<and> serial s = d \<and> crt_pos s = f \<and> in_buf s = g \<and> in_r s = h \<and> in_w s = i \<and> in_e s = j \<and> cons_state.more s = x"
  by (cases s) simp

lemma cons_world_fields:
  "can_print (cons_world x d)" "uart (cons_world x d)" "serial (cons_world x d) = []" "in_buf (cons_world x d) = replicate INPUT_BUF 0"
  "in_r (cons_world x d) = 0" "in_w (cons_world x d) = 0" "in_e (cons_world x d) = 0" "cons_state.more (cons_world x d) = x"
proof -
  have "log_state.more (cons_world x d) =
      cons_state_ext True False True [] (\<lambda>_. 0) 0 (replicate INPUT_BUF 0) 0 0 0 (\<lambda>_. None) (\<lambda>_. None) x"
    by (simp add: cons_world_def log_world_fields(8))
  from cons_more [OF this] show "can_print (cons_world x d)" "uart (cons_world x d)" "serial (cons_world x d) = []"
    "in_buf (cons_world x d) = replicate INPUT_BUF 0" "in_r (cons_world x d) = 0" "in_w (cons_world x d) = 0" "in_e (cons_world x d) = 0"
    "cons_state.more (cons_world x d) = x"
    by (simp_all add: can_print_def)
qed

abbreviation (input) zeros :: "uint \<Rightarrow> block" where "zeros \<equiv> \<lambda>_. replicate BSIZE 0"

lemma cons_world_runs: "runs_in 0 (cons_world x zeros)" "held (cons_world x zeros) = []"
  using in_txD(1,2) [OF log_world_ok(1) [of zeros]] unfolding cons_world_def by simp_all

text \<open>
  C26. Console output is bounded: with the cursor on the 24 lines of text that the kernel uses, any
  sequence of characters, line ends and backspaces is printed without reaching the panic of
  \<open>cgaputc\<close>; the cursor stays on these lines, no cell of the text memory behind them is written,
  the bytes go to the serial port in order, and no other state changes.
\<close>

theorem console_output_bounds:
  assumes "\<not> panicked s" and "unat (crt_pos s) < 24 * 80"
  shows "\<exists>s'. putchars cs s = Inr s' \<and> unat (crt_pos s') < 24 * 80 \<and> (\<forall>j \<ge> 24 * 80. crt s' j = crt s j) \<and>
    s' = s\<lparr>serial := serial s @ (if uart s then concat (map sent cs) else []), crt_pos := crt_pos s', crt := crt s'\<rparr>"
  using putchars_runs [of s cs] assms unfolding can_print_def printed_def by blast

theorem console_output_bounds_witness:
  "\<exists>s'. putchars [72, 105, 10, BACKSPACE] (cons_world () zeros) = Inr s' \<and> unat (crt_pos s') < 24 * 80 \<and>
     serial s' = [72, 105, 10, 8, 32, 8]"
proof -
  have "\<not> panicked (cons_world () zeros)" "unat (crt_pos (cons_world () zeros)) < 24 * 80"
    using cons_world_fields(1) [of "()" zeros] by (simp_all add: can_print_def)
  from console_output_bounds [OF this, of "[72, 105, 10, BACKSPACE]"] obtain s' where
    s': "putchars [72, 105, 10, BACKSPACE] (cons_world () zeros) = Inr s'" "unat (crt_pos s') < 24 * 80"
      "s' = (cons_world () zeros)\<lparr>serial := serial (cons_world () zeros) @ (if uart (cons_world () zeros) then concat (map sent [72, 105, 10, BACKSPACE]) else []),
         crt_pos := crt_pos s', crt := crt s'\<rparr>" by blast
  have "serial s' = [72, 105, 10, 8, 32, 8]" by (subst s'(3)) (simp add: cons_world_fields sent_def)
  with s'(1,2) show ?thesis by blast
qed

text \<open>
  C27. Numbers print as they are: reading what \<open>printint\<close> sends to the serial port in base 10 or 16
  gives the argument back, as a signed number when \<open>sign\<close> is set (the least integer included) and
  as an unsigned one otherwise, and the digits fit in the 16 bytes of its buffer.
\<close>

theorem printint_reads_back:
  assumes "can_print s" and "uart s" and "base = 10 \<or> base = 16"
  shows "\<exists>s' out. printint xx base sg s = Inr s' \<and> serial s' = serial s @ map word_of_int out \<and> length out \<le> 16 \<and>
    read_num base out = (if sg then sint xx else uint xx)"
proof -
  let ?out = "printint_chars xx base sg"
  obtain s' where s': "putchars ?out s = Inr s'" "printed ?out s s'" using putchars_runs [OF assms(1)] by blast
  have "serial s' = serial s @ map word_of_int ?out"
    using printed_fields(11) [OF s'(2)] assms(2) sent_plain [of ?out] printint_chars_value(3) [OF assms(3), of 256 xx sg] by auto
  with s'(1) printint_chars_value(1,2) [OF assms(3)] show ?thesis unfolding printint_def by blast
qed

theorem printint_reads_back_witness:
  "\<exists>s' out. printint 0x80000000 10 True (cons_world () zeros) = Inr s' \<and> serial s' = map word_of_int out \<and> read_num 10 out = - 2147483648"
proof -
  have "sint (0x80000000 :: uint) = - 2147483648" by simp
  with printint_reads_back [OF cons_world_fields(1,2) [of "()" zeros], of 10 "0x80000000" True] show ?thesis
    by (auto simp: cons_world_fields)
qed

section \<open>The line editor\<close>

text \<open>
  The bytes in the ring buffer from \<open>r\<close> to \<open>e\<close>: those before \<open>w\<close> are ready to be read, the rest is
  the line being edited.
\<close>

definition in_bytes :: "'a cons_state_scheme \<Rightarrow> uchar list" where
  "in_bytes s = map (\<lambda>j. in_buf s ! ((unat (in_r s) + j) mod INPUT_BUF)) [0..<unat (in_e s - in_r s)]"

definition in_lines :: "'a cons_state_scheme \<Rightarrow> uchar list \<times> uchar list" where
  "in_lines s = (take (unat (in_w s - in_r s)) (in_bytes s), drop (unat (in_w s - in_r s)) (in_bytes s))"

definition input_ok :: "'a cons_state_scheme \<Rightarrow> bool" where
  "input_ok s \<longleftrightarrow> length (in_buf s) = INPUT_BUF \<and> unat (in_w s - in_r s) \<le> unat (in_e s - in_r s) \<and>
     unat (in_e s - in_r s) \<le> INPUT_BUF \<and> 10 \<notin> set (snd (in_lines s))"

text \<open>The editor as it is meant: what is ready, and the line being typed.\<close>

definition edit :: "uchar list \<times> uchar list \<Rightarrow> int \<Rightarrow> uchar list \<times> uchar list" where
  "edit rl c =
     (let (rd, l) = rl
      in if c = 16 \<or> c = 0 then (rd, l)
         else if c = 21 then (rd, [])
         else if c = 8 \<or> c = 127 then (rd, butlast l)
         else if length rd + length l \<ge> INPUT_BUF then (rd, l)
         else
           let l = l @ [if c = 13 then 10 else word_of_int c]
           in if c = 13 \<or> c = 10 \<or> c = 4 \<or> length rd + length l = INPUT_BUF then (rd @ l, []) else (rd, l))"

lemma unat_succ_diff:
  fixes e r :: uint
  assumes "unat (e - r) \<le> 128"
  shows "unat (e + 1 - r) = Suc (unat (e - r))"
proof -
  have "unat (e - r + 1) = Suc (unat (e - r))"
    using assms by (simp add: unat_word_ariths(1) del: unat_sub_if_size)
  then show ?thesis by (simp add: algebra_simps)
qed

lemma unat_pred_diff:
  fixes e r :: uint
  assumes "e \<noteq> r"
  shows "unat (e - r) = Suc (unat (e - 1 - r))"
proof -
  have "e - r \<noteq> 0" using assms by simp
  then have "unat (e - r) = Suc (unat (e - r - 1))" by (simp add: unat_minus_one unat_gt_0)
  then show ?thesis by (simp add: algebra_simps)
qed

lemma in_index: "unat (in_e s) mod 128 = (unat (in_r s) + unat (in_e s - in_r s)) mod 128"
  using unat_add_mod [of 128 "in_r s" "in_e s - in_r s"] by simp

lemma length_in_bytes [simp]: "length (in_bytes s) = unat (in_e s - in_r s)"
  by (simp add: in_bytes_def)

lemma in_bytes_put:
  assumes "length (in_buf s) = INPUT_BUF" and "unat (in_e s - in_r s) < INPUT_BUF"
  shows "in_bytes (s\<lparr>in_buf := (in_buf s)[unat (in_e s) mod INPUT_BUF := b], in_e := in_e s + 1\<rparr>) = in_bytes s @ [b]"
proof -
  let ?n = "unat (in_e s - in_r s)" and ?i = "\<lambda>i. (unat (in_r s) + i) mod 128"
  have "(in_buf s)[?i ?n := b] ! ?i i = in_buf s ! ?i i" if "i < ?n" for i
    using ring_index_neq [of i ?n 128 "unat (in_r s)"] that assms(2) by (intro nth_list_update_neq) linarith
  moreover have "(in_buf s)[?i ?n := b] ! ?i ?n = b" using assms(1) by simp
  moreover have "unat (in_e s + 1 - in_r s) = Suc ?n" using assms(2) by (intro unat_succ_diff) simp
  ultimately show ?thesis
    unfolding in_bytes_def by (simp add: in_index del: unat_sub_if_size)
qed

lemma in_bytes_drop:
  assumes "in_e s \<noteq> in_r s"
  shows "in_bytes (s\<lparr>in_e := in_e s - 1\<rparr>) = butlast (in_bytes s)"
  using unat_pred_diff [OF assms] unfolding in_bytes_def by (simp add: butlast_append del: unat_sub_if_size)

lemma in_bytes_cong:
  "in_buf s' = in_buf s \<Longrightarrow> in_r s' = in_r s \<Longrightarrow> in_e s' = in_e s \<Longrightarrow> in_bytes s' = in_bytes s"
  "in_buf s' = in_buf s \<Longrightarrow> in_r s' = in_r s \<Longrightarrow> in_e s' = in_e s \<Longrightarrow> in_w s' = in_w s \<Longrightarrow> in_lines s' = in_lines s"
  "in_buf s' = in_buf s \<Longrightarrow> in_r s' = in_r s \<Longrightarrow> in_e s' = in_e s \<Longrightarrow> in_w s' = in_w s \<Longrightarrow> input_ok s' = input_ok s"
  by (simp_all add: in_bytes_def in_lines_def input_ok_def)

text \<open>The three changes that a character makes to the buffer.\<close>

lemma input_put:
  assumes "input_ok s" and "unat (in_e s - in_r s) < INPUT_BUF"
    and "s' = s\<lparr>in_buf := (in_buf s)[unat (in_e s) mod INPUT_BUF := b], in_e := in_e s + 1\<rparr>"
  shows "in_lines s' = (fst (in_lines s), snd (in_lines s) @ [b])" "b \<noteq> 10 \<Longrightarrow> input_ok s'"
proof -
  have ok: "length (in_buf s) = INPUT_BUF" "unat (in_w s - in_r s) \<le> unat (in_e s - in_r s)" using assms(1) by (simp_all add: input_ok_def)
  have b: "in_bytes s' = in_bytes s @ [b]" unfolding assms(3) using ok(1) assms(2) by (rule in_bytes_put)
  have f: "in_w s' = in_w s" "in_r s' = in_r s" "in_e s' = in_e s + 1" "length (in_buf s') = length (in_buf s)" by (simp_all add: assms(3))
  show l: "in_lines s' = (fst (in_lines s), snd (in_lines s) @ [b])" using ok(2) unfolding in_lines_def b f by simp
  have "unat (in_e s + 1 - in_r s) = Suc (unat (in_e s - in_r s))" using assms(2) by (intro unat_succ_diff) simp
  then show "input_ok s'" if "b \<noteq> 10"
    using assms(1,2) that unfolding input_ok_def l f by (simp del: unat_sub_if_size)
qed

lemma input_flush:
  assumes "length (in_buf s) = INPUT_BUF" and "unat (in_w s - in_r s) \<le> unat (in_e s - in_r s)" and "unat (in_e s - in_r s) \<le> INPUT_BUF"
  shows "in_lines (s\<lparr>in_w := in_e s\<rparr>) = (fst (in_lines s) @ snd (in_lines s), [])" "input_ok (s\<lparr>in_w := in_e s\<rparr>)"
proof -
  have b: "in_bytes (s\<lparr>in_w := in_e s\<rparr>) = in_bytes s" by (rule in_bytes_cong) simp_all
  show l: "in_lines (s\<lparr>in_w := in_e s\<rparr>) = (fst (in_lines s) @ snd (in_lines s), [])" unfolding in_lines_def b by simp
  show "input_ok (s\<lparr>in_w := in_e s\<rparr>)" using assms unfolding input_ok_def l by simp
qed

lemma input_back:
  assumes "input_ok s" and "in_e s \<noteq> in_w s"
  shows "in_lines (s\<lparr>in_e := in_e s - 1\<rparr>) = (fst (in_lines s), butlast (snd (in_lines s)))" "input_ok (s\<lparr>in_e := in_e s - 1\<rparr>)"
proof -
  let ?k = "unat (in_w s - in_r s)"
  have "?k \<noteq> unat (in_e s - in_r s)" using assms(2) by (metis word_unat_eq_iff diff_add_cancel)
  then have k: "?k < unat (in_e s - in_r s)" using assms(1) by (simp add: input_ok_def)
  then have e: "in_e s \<noteq> in_r s" by auto
  have b: "in_bytes (s\<lparr>in_e := in_e s - 1\<rparr>) = butlast (in_bytes s)" using e by (rule in_bytes_drop)
  have n: "unat (in_e s - in_r s) = Suc (unat (in_e s - 1 - in_r s))" using e by (rule unat_pred_diff)
  show l: "in_lines (s\<lparr>in_e := in_e s - 1\<rparr>) = (fst (in_lines s), butlast (snd (in_lines s)))"
    using k unfolding in_lines_def b by (simp add: take_butlast drop_butlast)
  show "input_ok (s\<lparr>in_e := in_e s - 1\<rparr>)"
    using assms(1) k n in_set_butlastD [of 10 "snd (in_lines s)"] unfolding input_ok_def l by (auto simp del: unat_sub_if_size)
qed

lemma input_put_flush:
  assumes "input_ok s" and "unat (in_e s - in_r s) < INPUT_BUF"
    and "s' = s\<lparr>in_buf := (in_buf s)[unat (in_e s) mod INPUT_BUF := b], in_e := in_e s + 1\<rparr>"
  shows "in_lines (s'\<lparr>in_w := in_e s'\<rparr>) = (fst (in_lines s) @ snd (in_lines s) @ [b], [])" "input_ok (s'\<lparr>in_w := in_e s'\<rparr>)"
    "in_e s' = in_r s' + of_nat INPUT_BUF \<longleftrightarrow> Suc (unat (in_e s - in_r s)) = INPUT_BUF"
proof -
  have n: "unat (in_e s + 1 - in_r s) = Suc (unat (in_e s - in_r s))" using assms(2) by (intro unat_succ_diff) simp
  have ok: "length (in_buf s') = INPUT_BUF" "unat (in_w s' - in_r s') \<le> unat (in_e s' - in_r s')" "unat (in_e s' - in_r s') \<le> INPUT_BUF"
    using assms(1,2) n unfolding assms(3) by (simp_all add: input_ok_def del: unat_sub_if_size)
  show "in_lines (s'\<lparr>in_w := in_e s'\<rparr>) = (fst (in_lines s) @ snd (in_lines s) @ [b], [])"
    using input_flush(1) [OF ok] input_put(1) [OF assms] by simp
  show "input_ok (s'\<lparr>in_w := in_e s'\<rparr>)" using ok by (rule input_flush(2))
  have "in_e s + 1 = in_r s + 128 \<longleftrightarrow> in_e s + 1 - in_r s = 128" by (auto simp: algebra_simps)
  also have "\<dots> \<longleftrightarrow> unat (in_e s + 1 - in_r s) = 128" by (simp only: word_unat_eq_iff) simp
  finally show "in_e s' = in_r s' + of_nat INPUT_BUF \<longleftrightarrow> Suc (unat (in_e s - in_r s)) = INPUT_BUF"
    using n by (simp add: assms(3) del: unat_sub_if_size)
qed

lemma printed_edit:
  assumes "printed cs (s\<lparr>in_e := a\<rparr>) s'"
  shows "printed cs (s\<lparr>in_e := b\<rparr>) (s'\<lparr>in_e := b\<rparr>)"
proof -
  let ?o = "serial s @ (if uart s then concat (map sent cs) else [])"
  have e: "s' = s\<lparr>in_e := a, serial := ?o, crt_pos := crt_pos s', crt := crt s'\<rparr>"
    using assms unfolding printed_def by simp
  have "s'\<lparr>in_e := b\<rparr> = s\<lparr>in_e := b, serial := ?o, crt_pos := crt_pos s', crt := crt s'\<rparr>"
    by (subst (1) e, rule cons_state.equality) simp_all
  with assms show ?thesis unfolding printed_def by simp
qed

definition kill_spec :: "nat \<Rightarrow> 'a cons_state_scheme \<Rightarrow> bool" where
  "kill_spec k s \<longleftrightarrow> k \<le> unat (in_e s - in_w s) \<and>
     (\<forall>j < k. in_buf s ! (unat (in_e s - of_nat (Suc j)) mod INPUT_BUF) \<noteq> 10) \<and>
     (k < unat (in_e s - in_w s) \<longrightarrow> in_buf s ! (unat (in_e s - of_nat (Suc k)) mod INPUT_BUF) = 10)"

lemma kill_spec_Suc:
  assumes "kill_spec k s1" and "in_e s1 = in_e s - 1" "in_w s1 = in_w s" "in_buf s1 = in_buf s"
    and "in_e s \<noteq> in_w s" and "in_buf s ! (unat (in_e s - 1) mod INPUT_BUF) \<noteq> 10"
  shows "kill_spec (Suc k) s"
proof -
  have e: "in_e s - of_nat (Suc j) = in_e s1 - of_nat j" for j by (simp add: assms(2))
  have n: "unat (in_e s - in_w s) = Suc (unat (in_e s1 - in_w s1))" using unat_pred_diff [OF assms(5)] assms(2,3) by simp
  have "in_buf s1 ! (unat (in_e s1 - of_nat j) mod INPUT_BUF) \<noteq> 10" if "j < Suc k" for j
    using that assms(1,2,4,6) by (cases j) (auto simp: kill_spec_def)
  then show ?thesis using assms(1,4) unfolding kill_spec_def e n by simp
qed

lemma kill_line_runs:
  assumes "can_print s"
  shows "\<exists>k s'. kill_line s = Inr s' \<and> kill_spec k s \<and> printed (replicate k BACKSPACE) (s\<lparr>in_e := in_e s - of_nat k\<rparr>) s'"
  using assms
proof (induction "unat (in_e s - in_w s)" arbitrary: s)
  case 0
  then have "in_e s = in_w s" by (simp add: unat_eq_0)
  then have "kill_line s = Inr s" by (subst kill_line.simps) simp
  moreover have "kill_spec 0 s" unfolding kill_spec_def 0(1) [symmetric] by simp
  ultimately show ?case using printed_Nil [OF 0(2)] by (intro exI [of _ 0] exI [of _ s]) simp
next
  case (Suc n)
  then have ne: "in_e s \<noteq> in_w s" by auto
  show ?case
  proof (cases "in_buf s ! (unat (in_e s - 1) mod INPUT_BUF) = 10")
    case True
    then have "kill_line s = Inr s" by (subst kill_line.simps) simp
    moreover have "kill_spec 0 s" using True by (simp add: kill_spec_def)
    ultimately show ?thesis using printed_Nil [OF Suc(3)] by (intro exI [of _ 0] exI [of _ s]) simp
  next
    case False
    let ?t = "s\<lparr>in_e := in_e s - 1\<rparr>"
    obtain s1 where s1: "consputc BACKSPACE ?t = Inr s1" "printed [BACKSPACE] ?t s1"
      using consputc_runs [of ?t] Suc(3) by (auto simp: can_print_def)
    have f: "in_e s1 = in_e s - 1" "in_w s1 = in_w s" "in_buf s1 = in_buf s" using printed_fields(1,2,4) [OF s1(2)] by simp_all
    have n: "n = unat (in_e s1 - in_w s1)" using Suc(2) unat_pred_diff [OF ne] f by simp
    have c: "can_print s1" using printed_can_print [OF s1(2)] Suc(3) by (simp add: can_print_def)
    obtain k s' where k: "kill_line s1 = Inr s'" "kill_spec k s1" "printed (replicate k BACKSPACE) (s1\<lparr>in_e := in_e s1 - of_nat k\<rparr>) s'"
      using Suc(1) [OF n c] by blast
    have "in_e s1 - of_nat k = in_e s - of_nat (Suc k)" by (simp add: f(1))
    with printed_edit [OF s1(2)] have "printed [BACKSPACE] (s\<lparr>in_e := in_e s - of_nat (Suc k)\<rparr>) (s1\<lparr>in_e := in_e s1 - of_nat k\<rparr>)" by metis
    from printed_trans [OF this k(3)] have "printed (replicate (Suc k) BACKSPACE) (s\<lparr>in_e := in_e s - of_nat (Suc k)\<rparr>) s'" by simp
    moreover have "kill_line s = Inr s'" using ne False s1(1) k(1) by (subst kill_line.simps) simp
    ultimately show ?thesis using kill_spec_Suc [OF k(2) f ne False] by blast
  qed
qed

text \<open>No line end is in the line being edited, so that Control-U erases all of it.\<close>

lemma nth_in_drop: "w \<le> j \<Longrightarrow> j < length xs \<Longrightarrow> xs ! j \<in> set (drop w xs)"
  by (auto simp: in_set_conv_nth intro!: exI [of _ "j - w"])

lemma kill_spec_all:
  assumes "input_ok s" and "kill_spec k s"
  shows "in_e s - of_nat k = in_w s"
proof -
  let ?w = "unat (in_w s - in_r s)" and ?e = "unat (in_e s - in_r s)"
  have ok: "?w \<le> ?e" "?e \<le> 128" "10 \<notin> set (drop ?w (in_bytes s))" using assms(1) by (simp_all add: input_ok_def in_lines_def)
  have d: "in_e s - in_w s = (in_e s - in_r s) - (in_w s - in_r s)" by simp
  have n: "unat (in_e s - in_w s) = ?e - ?w" unfolding d using ok(1) by (subst unat_diff_word) (rule if_P)
  have "\<not> k < ?e - ?w"
  proof
    assume k: "k < ?e - ?w"
    let ?j = "?e - Suc k"
    have j: "?w \<le> ?j" "?j < ?e" using k by simp_all
    have "unat (of_nat ?j :: uint) = ?j" using ok(2) j(2) by (simp add: unat_of_nat take_bit_eq_mod del: unat_sub_if_size)
    moreover have "in_e s - of_nat (Suc k) = in_r s + of_nat ?j"
      using of_nat_diff [of "Suc k" ?e, where 'a = "32 word"] k by (simp del: unat_sub_if_size of_nat_Suc)
    ultimately have i: "unat (in_e s - of_nat (Suc k)) mod 128 = (unat (in_r s) + ?j) mod 128"
      by (simp only: unat_add_mod [of 128, simplified])
    have "in_bytes s ! ?j = in_buf s ! (unat (in_e s - of_nat (Suc k)) mod 128)"
      unfolding i using j(2) by (simp add: in_bytes_def del: unat_sub_if_size)
    also have "\<dots> = 10" using assms(2) k n by (simp add: kill_spec_def del: unat_sub_if_size)
    finally have "in_bytes s ! ?j = 10" .
    moreover have "in_bytes s ! ?j \<in> set (drop ?w (in_bytes s))"
      using j by (intro nth_in_drop) (simp_all del: unat_sub_if_size)
    ultimately show False using ok(3) by simp
  qed
  then have "k = unat (in_e s - in_w s)" using assms(2) n by (simp add: kill_spec_def)
  then show ?thesis by simp
qed

lemma input_kill:
  assumes "input_ok s"
  shows "in_lines (s\<lparr>in_e := in_w s\<rparr>) = (fst (in_lines s), [])" "input_ok (s\<lparr>in_e := in_w s\<rparr>)"
proof -
  have b: "in_bytes (s\<lparr>in_e := in_w s\<rparr>) = take (unat (in_w s - in_r s)) (in_bytes s)"
    using assms by (simp add: in_bytes_def input_ok_def take_map del: unat_sub_if_size)
  show l: "in_lines (s\<lparr>in_e := in_w s\<rparr>) = (fst (in_lines s), [])" unfolding in_lines_def b by simp
  show "input_ok (s\<lparr>in_e := in_w s\<rparr>)" using assms unfolding input_ok_def l by simp
qed

text \<open>One character, with \<open>cons.lock\<close> held, in a process or in an interrupt of one.\<close>

definition editing :: "nat \<Rightarrow> 'a cons_state_scheme \<Rightarrow> bool" where
  "editing i s \<longleftrightarrow> runs_in i s \<and> held s = [L_cons] \<and> can_print s \<and> input_ok s"

lemma editing_printed:
  assumes "editing i t" and "printed cs s s'" and "runs_in i s" "held s = held t" "can_print s" "input_ok s"
  shows "editing i s' \<and> in_lines s' = in_lines s"
  using assms printed_fields [OF assms(2)] printed_can_print [OF assms(2,5)] runs_in_cong [OF assms(3)] in_bytes_cong(2,3) [of s' s]
  by (simp add: editing_def)

lemma woke_cons:
  assumes "woke s s'" and "editing i s"
  shows "editing i s'" "in_lines s' = in_lines s"
proof -
  have e: "s' = s\<lparr>ptable := ptable s'\<rparr>" using assms(1) unfolding woke_def by blast
  have f: "held s' = held s" "can_print s' = can_print s" "in_buf s' = in_buf s" "in_r s' = in_r s" "in_e s' = in_e s" "in_w s' = in_w s"
    by (subst e, simp add: can_print_def)+
  show "editing i s'" "in_lines s' = in_lines s"
    using assms(2) f woke_runs_in(1) [OF assms(1)] in_bytes_cong(2,3) [OF f(3-6)] by (simp_all add: editing_def)
qed

lemma byte_eq_10: "0 \<le> c \<Longrightarrow> c < 256 \<Longrightarrow> (word_of_int c :: uchar) = 10 \<longleftrightarrow> c = 10"
  by (simp add: word_uint_eq_iff unsigned_of_int take_bit_eq_mod)

lemma edit_kill:
  assumes "editing i s"
  shows "\<exists>s'. kill_line s = Inr s' \<and> editing i s' \<and> in_lines s' = edit (in_lines s) 21"
proof -
  have e: "can_print s" "input_ok s" "runs_in i s" using assms by (simp_all add: editing_def)
  obtain k s' where k: "kill_line s = Inr s'" "kill_spec k s" "printed (replicate k BACKSPACE) (s\<lparr>in_e := in_e s - of_nat k\<rparr>) s'"
    using kill_line_runs [OF e(1)] by blast
  have "runs_in i (s\<lparr>in_e := in_w s\<rparr>)" using e(3) by (rule runs_in_cong) simp_all
  then have "editing i s' \<and> in_lines s' = in_lines (s\<lparr>in_e := in_w s\<rparr>)"
    using editing_printed [OF assms k(3)] kill_spec_all [OF e(2) k(2)] e input_kill(2) [OF e(2)] by (simp add: can_print_def)
  with k(1) input_kill(1) [OF e(2)] show ?thesis by (auto simp: edit_def split_beta)
qed

lemma edit_back:
  assumes "editing i s" and "c = 8 \<or> c = 127"
  shows "\<exists>s'. (if in_e s \<noteq> in_w s then consputc BACKSPACE (s\<lparr>in_e := in_e s - 1\<rparr>) else Inr s) = Inr s' \<and>
    editing i s' \<and> in_lines s' = edit (in_lines s) c"
proof (cases "in_e s = in_w s")
  case True
  then have "snd (in_lines s) = []" by (simp add: in_lines_def)
  with True assms show ?thesis by (auto simp: edit_def split_beta prod_eq_iff)
next
  case False
  have e: "can_print s" "input_ok s" "runs_in i s" using assms(1) by (simp_all add: editing_def)
  let ?t = "s\<lparr>in_e := in_e s - 1\<rparr>"
  have t: "can_print ?t" "runs_in i ?t" using e runs_in_cong [OF e(3), of ?t] by (simp_all add: can_print_def)
  obtain s' where s': "consputc BACKSPACE ?t = Inr s'" "printed [BACKSPACE] ?t s'" using consputc_runs [OF t(1)] by blast
  have "editing i s' \<and> in_lines s' = in_lines ?t"
    using editing_printed [OF assms(1) s'(2) t(2)] t(1) input_back(2) [OF e(2) False] by simp
  with s'(1) False assms(2) input_back(1) [OF e(2) False] show ?thesis by (auto simp: edit_def split_beta)
qed

lemma edit_type:
  assumes "editing i s" and "0 < c" "c < 256" "c \<notin> {16, 21, 8, 127}" and "unat (in_e s - in_r s) < INPUT_BUF"
    and c': "c' = (if c = 13 then 10 else c)"
    and s1: "s1 = s\<lparr>in_buf := (in_buf s)[unat (in_e s) mod INPUT_BUF := word_of_int c'], in_e := in_e s + 1\<rparr>"
  shows "\<exists>s'. seq (consputc c' s1) (\<lambda>s. if c' = 10 \<or> c' = 4 \<or> in_e s = in_r s + of_nat INPUT_BUF then wakeup ChInput (s\<lparr>in_w := in_e s\<rparr>) else Inr s) = Inr s' \<and>
    editing i s' \<and> in_lines s' = edit (in_lines s) c"
proof -
  have e: "can_print s" "input_ok s" "runs_in i s" "held s = [L_cons]" using assms(1) by (simp_all add: editing_def)
  let ?b = "word_of_int c' :: uchar"
  have len: "length (fst (in_lines s)) + length (snd (in_lines s)) = unat (in_e s - in_r s)"
    using e(2) by (simp add: in_lines_def input_ok_def del: unat_sub_if_size)
  have b: "?b = (if c = 13 then 10 else word_of_int c)" by (simp add: c')
  let ?full = "c = 13 \<or> c = 10 \<or> c = 4 \<or> Suc (unat (in_e s - in_r s)) = INPUT_BUF"
  have ed: "edit (in_lines s) c = (if ?full then (fst (in_lines s) @ snd (in_lines s) @ [?b], []) else (fst (in_lines s), snd (in_lines s) @ [?b]))"
    using assms(2,4,5) len unfolding edit_def split_beta Let_def b by (simp del: unat_sub_if_size)
  have t: "can_print s1" "runs_in i s1" "held s1 = held s" using e runs_in_cong [OF e(3), of s1] by (simp_all add: can_print_def s1)
  obtain s2 where s2: "consputc c' s1 = Inr s2" "printed [c'] s1 s2" using consputc_runs [OF t(1)] by blast
  note f = printed_fields [OF s2(2)]
  note pf = input_put_flush [OF e(2) assms(5) s1]
  have full: "c' = 10 \<or> c' = 4 \<or> in_e s2 = in_r s2 + of_nat INPUT_BUF \<longleftrightarrow> ?full" using pf(3) f(1,3) by (auto simp: c' split: if_splits)
  show ?thesis
  proof (cases ?full)
    case True
    let ?t = "s2\<lparr>in_w := in_e s2\<rparr>"
    have l: "in_lines ?t = in_lines (s1\<lparr>in_w := in_e s1\<rparr>)" "input_ok ?t = input_ok (s1\<lparr>in_w := in_e s1\<rparr>)"
      by (rule in_bytes_cong; simp add: f)+
    have "runs_in i ?t" using t(2) by (rule runs_in_cong) (simp_all add: f)
    with l pf(2) e(4) t(3) f(7) printed_can_print [OF s2(2) t(1)] have ok: "editing i ?t" by (simp add: editing_def can_print_def)
    then have "runs_in i ?t" "L_ptable \<notin> set (held ?t)" by (simp_all add: editing_def)
    from wakeup_runs [OF this, of ChInput] obtain s3 where s3: "wakeup ChInput ?t = Inr s3" "woke ?t s3" by blast
    then show ?thesis using True full s2(1) woke_cons [OF s3(2) ok] l(1) pf(1) by (intro exI [of _ s3]) (simp add: ed)
  next
    case False
    then have "?b \<noteq> 10" using assms(2,3) byte_eq_10 [of c] by (simp add: b)
    with input_put [OF e(2) assms(5) s1] editing_printed [OF assms(1) s2(2) t(2,3,1)]
    have "editing i s2 \<and> in_lines s2 = (fst (in_lines s), snd (in_lines s) @ [?b])" by simp
    then show ?thesis using False full s2(1) by (intro exI [of _ s2]) (simp add: ed)
  qed
qed

lemma consoleintr_from_edits:
  assumes "editing i s" and "\<forall>c \<in> set cs. 0 \<le> c \<and> c < 256"
  shows "\<exists>s'. consoleintr_from cs d s = Inr (d \<or> 16 \<in> set cs, s') \<and> editing i s' \<and> in_lines s' = foldl edit (in_lines s) cs"
  using assms
proof (induction cs arbitrary: s d)
  case (Cons c cs)
  have r: "0 \<le> c" "c < 256" "\<forall>c \<in> set cs. 0 \<le> c \<and> c < 256" using Cons.prems(2) by simp_all
  have go: ?case if "consoleintr_from (c # cs) d s = consoleintr_from cs (d \<or> c = 16) s1" "editing i s1" "in_lines s1 = edit (in_lines s) c" for s1
    using Cons.IH [OF that(2) r(3), of "d \<or> c = 16"] that(1,3) by (auto simp: eq_commute)
  consider (ctrl_p) "c = 16" | (ctrl_u) "c = 21" | (backspace) "c = 8 \<or> c = 127"
    | (typed) "c \<notin> {16, 21, 8, 127}" "c \<noteq> 0" "unat (in_e s - in_r s) < INPUT_BUF"
    | (ignored) "c \<notin> {16, 21, 8, 127}" "c = 0 \<or> \<not> unat (in_e s - in_r s) < INPUT_BUF" by blast
  then show ?case
  proof cases
    case ctrl_p
    then show ?thesis using Cons.prems(1) by (intro go [of s]) (simp_all add: edit_def split_beta)
  next
    case ctrl_u
    then show ?thesis using edit_kill [OF Cons.prems(1)] by (elim exE conjE) (rule go; simp)
  next
    case backspace
    then show ?thesis using edit_back [OF Cons.prems(1) backspace] by (elim exE conjE) (rule go; auto)
  next
    case typed
    have c: "0 < c" using r(1) typed(2) by simp
    obtain s1 where s1: "seq (consputc (if c = 13 then 10 else c) (s\<lparr>in_buf := (in_buf s)[unat (in_e s) mod INPUT_BUF := word_of_int (if c = 13 then 10 else c)], in_e := in_e s + 1\<rparr>))
         (\<lambda>s. if (if c = 13 then 10 else c) = 10 \<or> (if c = 13 then 10 else c) = 4 \<or> in_e s = in_r s + of_nat INPUT_BUF then wakeup ChInput (s\<lparr>in_w := in_e s\<rparr>) else Inr s) = Inr s1"
        "editing i s1" "in_lines s1 = edit (in_lines s) c"
      using edit_type [OF Cons.prems(1) c r(2) typed(1,3) refl refl] by (elim exE conjE) (rule that)
    have "consoleintr_from (c # cs) d s = consoleintr_from cs (d \<or> c = 16) s1"
      using typed s1(1) by (simp add: Let_def flip: seq_assoc)
    then show ?thesis using s1(2,3) by (rule go)
  next
    case ignored
    have "length (fst (in_lines s)) + length (snd (in_lines s)) = unat (in_e s - in_r s)"
      using Cons.prems(1) by (simp add: in_lines_def input_ok_def editing_def del: unat_sub_if_size)
    with ignored Cons.prems(1) show ?thesis by (intro go [of s]) (auto simp: edit_def split_beta simp del: unat_sub_if_size)
  qed
qed simp

text \<open>
  C25. The line discipline: for any sequence of typed characters (other than Control-P, which asks
  for a process listing) the interrupt handler returns, and the ring buffer holds what an editor
  on plain lists holds: a character is appended to the line unless 128 bytes are waiting, backspace
  removes the last one, Control-U all of them, and a line end, Control-D or a full buffer makes the
  line ready for readers. This holds also when the 32-bit indices wrap around.
\<close>

theorem consoleintr_edits_lines:
  assumes "runs_in i s" and "held s = []" and "can_print s" and "input_ok s"
    and "\<forall>c \<in> set cs. 0 \<le> c \<and> c < 256 \<and> c \<noteq> 16"
  shows "\<exists>s'. consoleintr cs s = Inr s' \<and> input_ok s' \<and> in_lines s' = foldl edit (in_lines s) cs \<and> runs_in i s' \<and> held s' = []"
proof -
  let ?t = "s\<lparr>held := [L_cons]\<rparr>"
  have "in_lines ?t = in_lines s" "input_ok ?t = input_ok s" by (rule in_bytes_cong; simp)+
  with assms(1,3,4) have t: "editing i ?t" "in_lines ?t = in_lines s" by (simp_all add: editing_def can_print_def)
  obtain s1 where s1: "consoleintr_from cs False ?t = Inr (False, s1)" "editing i s1" "in_lines s1 = foldl edit (in_lines s) cs"
    using consoleintr_from_edits [OF t(1), of cs False] assms(5) t(2) by auto
  have "held s1 = [L_cons]" "runs_in i s1" "input_ok s1" using s1(2) by (simp_all add: editing_def)
  moreover have "in_lines (s1\<lparr>held := []\<rparr>) = in_lines s1" "input_ok (s1\<lparr>held := []\<rparr>) = input_ok s1" by (rule in_bytes_cong; simp)+
  ultimately show ?thesis
    using s1(1,3) assms(2) by (intro exI [of _ "s1\<lparr>held := []\<rparr>"]) (simp add: consoleintr_def lock_def unlock_def)
qed

lemma cons_world_input: "input_ok (cons_world x d)" "in_lines (cons_world x d) = ([], [])"
  by (simp_all add: input_ok_def in_lines_def in_bytes_def cons_world_fields)

theorem consoleintr_edits_lines_witness:
  "\<exists>s'. consoleintr [108, 120, 127, 115, 13, 97] (cons_world () zeros) = Inr s' \<and> in_lines s' = ([108, 115, 10], [97])"
  using consoleintr_edits_lines [OF cons_world_runs cons_world_fields(1) cons_world_input(1), of "[108, 120, 127, 115, 13, 97]" "()"]
  unfolding cons_world_input(2) by (auto simp: edit_def)

text \<open>
  C33. The loop of Control-U ends, for every value of the indices: it goes back over at most the
  characters since the last one handed to readers, erases each of them on the screen, and stops
  behind the last line end among them.
\<close>

theorem kill_line_terminates:
  assumes "can_print s"
  shows "\<exists>k s'. kill_line s = Inr s' \<and> k \<le> unat (in_e s - in_w s) \<and> in_e s' = in_e s - of_nat k \<and> in_w s' = in_w s \<and> in_buf s' = in_buf s \<and>
    (\<forall>j < k. in_buf s ! (unat (in_e s - of_nat (Suc j)) mod INPUT_BUF) \<noteq> 10) \<and>
    (k < unat (in_e s - in_w s) \<longrightarrow> in_buf s ! (unat (in_e s - of_nat (Suc k)) mod INPUT_BUF) = 10) \<and>
    serial s' = serial s @ (if uart s then concat (replicate k [8, 32, 8]) else [])"
proof -
  obtain k s' where k: "kill_line s = Inr s'" "kill_spec k s" "printed (replicate k BACKSPACE) (s\<lparr>in_e := in_e s - of_nat k\<rparr>) s'"
    using kill_line_runs [OF assms] by blast
  have "sent BACKSPACE = [8, 32, 8]" by (simp add: sent_def)
  with k(1) printed_fields [OF k(3)] k(2) show ?thesis
    unfolding kill_spec_def by (intro exI [of _ k] exI [of _ s']) simp
qed

theorem kill_line_terminates_witness:
  "\<exists>s'. kill_line ((cons_world () zeros)\<lparr>in_e := 1, in_w := 0xFFFFFFFE, in_buf := (replicate INPUT_BUF 65)[127 := 10]\<rparr>) = Inr s' \<and> in_e s' = 0"
proof -
  let ?s = "(cons_world () zeros)\<lparr>in_e := 1, in_w := 0xFFFFFFFE, in_buf := (replicate INPUT_BUF 65)[127 := 10]\<rparr>"
  have "can_print ?s" using cons_world_fields(1) [of "()" zeros] by (simp add: can_print_def)
  from kill_line_terminates [OF this] obtain k s' where k: "kill_line ?s = Inr s'" "k \<le> 3" "in_e s' = 1 - of_nat k"
      "\<forall>j < k. in_buf ?s ! (unat (1 - of_nat (Suc j) :: uint) mod INPUT_BUF) \<noteq> 10"
      "k < 3 \<longrightarrow> in_buf ?s ! (unat (1 - of_nat (Suc k) :: uint) mod INPUT_BUF) = 10" by auto
  have "k \<noteq> 0"
  proof
    assume "k = 0"
    then show False using k(5) by simp
  qed
  moreover have "unat (- 1 :: uint) mod 128 = 127" by (simp add: unsigned_minus_1_eq_mask mask_eq_exp_minus_1)
  then have "\<not> 1 < k" using k(4) [rule_format, of 1] by auto
  ultimately have "k = 1" by simp
  with k(1,3) show ?thesis by auto
qed

end
