(* ===== verification/Inode.thy ===== *)
theory Inode
  imports Console
begin

text \<open>
  Blocks and inodes of the file system (\<open>fs.c\<close> up to \<open>stati\<close>): the free-block bitmap, the inode
  table on disk, the inode cache, and the map from file blocks to disk blocks. A pointer to a
  cached inode is its index in \<open>icache\<close>, \<open>None\<close> where the source tests for null; the sleeping lock of
  an inode is in \<open>slocks\<close>. Signed 16-bit fields are words, read with \<open>sint\<close> where the sign matters.
\<close>

section \<open>State\<close>

record inode =
  i_dev :: uint
  i_inum :: uint
  i_ref :: int
  i_valid :: bool
  i_type :: ushort
  i_major :: ushort
  i_minor :: ushort
  i_nlink :: ushort
  i_size :: uint
  i_addrs :: "uint list"

record fs_state = cons_state +
  sb :: superblock
  icache :: "nat \<Rightarrow> inode"

type_synonym ('a, 'b) fres = "('a fs_state_scheme, 'b) kres"

abbreviation (input) NDIRECT :: nat where "NDIRECT \<equiv> 12"
abbreviation (input) NINDIRECT :: nat where "NINDIRECT \<equiv> 128"
abbreviation (input) MAXFILE :: nat where "MAXFILE \<equiv> 140"
abbreviation (input) BPB :: nat where "BPB \<equiv> 4096"
abbreviation (input) T_DIR :: ushort where "T_DIR \<equiv> 1"
abbreviation (input) T_FILE :: ushort where "T_FILE \<equiv> 2"
abbreviation (input) T_DEV :: ushort where "T_DEV \<equiv> 3"
abbreviation (input) ROOTINO :: uint where "ROOTINO \<equiv> 1"

definition IBLOCK :: "uint \<Rightarrow> superblock \<Rightarrow> uint" where
  "IBLOCK i x = i div 8 + sb_inodestart x"

definition BBLOCK :: "uint \<Rightarrow> superblock \<Rightarrow> uint" where
  "BBLOCK b x = b div 4096 + sb_bmapstart x"

abbreviation ino :: "'a fs_state_scheme \<Rightarrow> nat \<Rightarrow> inode" where
  "ino s ip \<equiv> icache s ip"

definition upd_inode :: "nat \<Rightarrow> (inode \<Rightarrow> inode) \<Rightarrow> 'a fs_state_scheme \<Rightarrow> 'a fs_state_scheme" where
  "upd_inode ip f s = s\<lparr>icache := (icache s)(ip := f (icache s ip))\<rparr>"

section \<open>Blocks\<close>

definition bzero :: "uint \<Rightarrow> uint \<Rightarrow> 'a log_state_scheme \<Rightarrow> ('a, 'a log_state_scheme) lres" where
  "bzero dev bno s =
     seq (bread dev bno s) (\<lambda>(bp, s).
     seq (log_write bp (set_data bp (replicate BSIZE 0) s)) (\<lambda>s.
     brelse bp s))"

definition bm_free :: "block \<Rightarrow> nat \<Rightarrow> bool" where
  "bm_free d bi \<longleftrightarrow> d ! (bi div 8) AND push_bit (bi mod 8) 1 = 0"

definition bm_set :: "block \<Rightarrow> nat \<Rightarrow> block" where
  "bm_set d bi = d[bi div 8 := d ! (bi div 8) OR push_bit (bi mod 8) 1]"

definition bm_clear :: "block \<Rightarrow> nat \<Rightarrow> block" where
  "bm_clear d bi = d[bi div 8 := d ! (bi div 8) AND NOT (push_bit (bi mod 8) 1)]"

text \<open>The outer loop of \<open>balloc\<close> over the first block \<open>b\<close> of each bitmap block; the inner loop is \<open>find\<close>.\<close>

fun balloc_from :: "uint \<Rightarrow> nat list \<Rightarrow> 'a fs_state_scheme \<Rightarrow> ('a, uint \<times> 'a fs_state_scheme) fres" where
  "balloc_from dev [] s = Inl (Panic ''balloc: out of blocks'')"
| "balloc_from dev (b # bs) s =
     seq (bread dev (BBLOCK (of_nat b) (sb s)) s) (\<lambda>(bp, s).
     let d = b_data (bufs s bp)
     in case find (\<lambda>bi. b + bi < unat (sb_size (sb s)) \<and> bm_free d bi) [0..<BPB] of
          Some bi \<Rightarrow>
            seq (log_write bp (set_data bp (bm_set d bi) s)) (\<lambda>s.
            seq (brelse bp s) (\<lambda>s.
            seq (bzero dev (of_nat (b + bi)) s) (\<lambda>s.
            Inr (of_nat (b + bi), s))))
        | None \<Rightarrow> seq (brelse bp s) (\<lambda>s. balloc_from dev bs s))"

definition balloc :: "uint \<Rightarrow> 'a fs_state_scheme \<Rightarrow> ('a, uint \<times> 'a fs_state_scheme) fres" where
  "balloc dev s = balloc_from dev (map (\<lambda>k. k * BPB) [0..<(unat (sb_size (sb s)) + BPB - 1) div BPB]) s"

definition bfree :: "uint \<Rightarrow> uint \<Rightarrow> 'a fs_state_scheme \<Rightarrow> ('a, 'a fs_state_scheme) fres" where
  "bfree dev b s =
     seq (bread dev (BBLOCK b (sb s)) s) (\<lambda>(bp, s).
     let d = b_data (bufs s bp); bi = unat b mod BPB
     in if bm_free d bi then Inl (Panic ''freeing free block'')
        else seq (log_write bp (set_data bp (bm_clear d bi) s)) (\<lambda>s. brelse bp s))"

section \<open>Inodes\<close>

text \<open>A \<open>struct dinode\<close> in a block: eight to a block, 64 bytes each.\<close>

definition dinode_off :: "uint \<Rightarrow> nat" where
  "dinode_off inum = unat inum mod 8 * 64"

definition put_dinode :: "nat \<Rightarrow> inode \<Rightarrow> block \<Rightarrow> block" where
  "put_dinode i x d =
     (let d = put16 i (i_type x) d;
          d = put16 (i + 2) (i_major x) d;
          d = put16 (i + 4) (i_minor x) d;
          d = put16 (i + 6) (i_nlink x) d;
          d = put32 (i + 8) (i_size x) d
      in put32s (i + 12) (i_addrs x) d)"

definition get_dinode :: "nat \<Rightarrow> block \<Rightarrow> inode \<Rightarrow> inode" where
  "get_dinode i d x =
     x\<lparr>i_type := get16 d i, i_major := get16 d (i + 2), i_minor := get16 d (i + 4), i_nlink := get16 d (i + 6),
       i_size := get32 d (i + 8), i_addrs := get32s d (i + 12) (NDIRECT + 1)\<rparr>"

fun init_inode_locks :: "nat list \<Rightarrow> 'a fs_state_scheme \<Rightarrow> 'a fs_state_scheme" where
  "init_inode_locks [] s = s"
| "init_inode_locks (i # is') s = init_inode_locks is' (initsleeplock (SInode i) ''inode'' s)"

definition iinit :: "uint \<Rightarrow> 'a fs_state_scheme \<Rightarrow> ('a, 'a fs_state_scheme) fres" where
  "iinit dev s =
     seq (readsb dev (init_inode_locks [0..<NINODE] s)) (\<lambda>(x, s).
     cprintf ''sb: size %d nblocks %d ninodes %d nlog %d logstart %d inodestart %d bmap start %d\<newline>''
       [CW (sb_size x), CW (sb_nblocks x), CW (sb_ninodes x), CW (sb_nlog x), CW (sb_logstart x), CW (sb_inodestart x), CW (sb_bmapstart x)]
       (s\<lparr>sb := x\<rparr>))"

text \<open>\<open>iget\<close>: the entry that is already there, or the first entry that is not in use.\<close>

definition iget :: "uint \<Rightarrow> uint \<Rightarrow> 'a fs_state_scheme \<Rightarrow> ('a, nat \<times> 'a fs_state_scheme) fres" where
  "iget dev inum s =
     seq (lock L_icache s) (\<lambda>s.
     case find (\<lambda>ip. i_ref (ino s ip) > 0 \<and> i_dev (ino s ip) = dev \<and> i_inum (ino s ip) = inum) [0..<NINODE] of
       Some ip \<Rightarrow>
         let s = upd_inode ip (\<lambda>x. x\<lparr>i_ref := i_ref x + 1\<rparr>) s
         in seq (unlock L_icache s) (\<lambda>s. Inr (ip, s))
     | None \<Rightarrow>
         case find (\<lambda>ip. i_ref (ino s ip) = 0) [0..<NINODE] of
           None \<Rightarrow> Inl (Panic ''iget: no inodes'')
         | Some ip \<Rightarrow>
             let s = upd_inode ip (\<lambda>x. x\<lparr>i_dev := dev, i_inum := inum, i_ref := 1, i_valid := False\<rparr>) s
             in seq (unlock L_icache s) (\<lambda>s. Inr (ip, s)))"

fun ialloc_from :: "uint \<Rightarrow> ushort \<Rightarrow> nat list \<Rightarrow> 'a fs_state_scheme \<Rightarrow> ('a, nat \<times> 'a fs_state_scheme) fres" where
  "ialloc_from dev type [] s = Inl (Panic ''ialloc: no inodes'')"
| "ialloc_from dev type (n # ns) s =
     seq (bread dev (IBLOCK (of_nat n) (sb s)) s) (\<lambda>(bp, s).
     let d = b_data (bufs s bp); i = dinode_off (of_nat n)
     in if get16 d i = 0 then
          seq (log_write bp (set_data bp (put16 i type (put_bytes i (replicate 64 0) d)) s)) (\<lambda>s.
          seq (brelse bp s) (\<lambda>s. iget dev (of_nat n) s))
        else seq (brelse bp s) (\<lambda>s. ialloc_from dev type ns s))"

definition ialloc :: "uint \<Rightarrow> ushort \<Rightarrow> 'a fs_state_scheme \<Rightarrow> ('a, nat \<times> 'a fs_state_scheme) fres" where
  "ialloc dev type s = ialloc_from dev type [1..<unat (sb_ninodes (sb s))] s"

definition iupdate :: "nat \<Rightarrow> 'a fs_state_scheme \<Rightarrow> ('a, 'a fs_state_scheme) fres" where
  "iupdate ip s =
     seq (bread (i_dev (ino s ip)) (IBLOCK (i_inum (ino s ip)) (sb s)) s) (\<lambda>(bp, s).
     seq (log_write bp (set_data bp (put_dinode (dinode_off (i_inum (ino s ip))) (ino s ip) (b_data (bufs s bp))) s)) (\<lambda>s.
     brelse bp s))"

definition idup :: "nat \<Rightarrow> 'a fs_state_scheme \<Rightarrow> ('a, nat \<times> 'a fs_state_scheme) fres" where
  "idup ip s =
     seq (lock L_icache s) (\<lambda>s.
     seq (unlock L_icache (upd_inode ip (\<lambda>x. x\<lparr>i_ref := i_ref x + 1\<rparr>) s)) (\<lambda>s. Inr (ip, s)))"

definition ilock :: "nat option \<Rightarrow> 'a fs_state_scheme \<Rightarrow> ('a, 'a fs_state_scheme) fres" where
  "ilock p s =
     (case p of
        None \<Rightarrow> Inl (Panic ''ilock'')
      | Some ip \<Rightarrow>
          if i_ref (ino s ip) < 1 then Inl (Panic ''ilock'')
          else
            seq (acquiresleep (SInode ip) s) (\<lambda>s.
            if i_valid (ino s ip) then Inr s
            else
              seq (bread (i_dev (ino s ip)) (IBLOCK (i_inum (ino s ip)) (sb s)) s) (\<lambda>(bp, s).
              let s = upd_inode ip (get_dinode (dinode_off (i_inum (ino s ip))) (b_data (bufs s bp))) s
              in seq (brelse bp s) (\<lambda>s.
                 let s = upd_inode ip (\<lambda>x. x\<lparr>i_valid := True\<rparr>) s
                 in if i_type (ino s ip) = 0 then Inl (Panic ''ilock: no type'') else Inr s))))"

definition iunlock :: "nat option \<Rightarrow> 'a fs_state_scheme \<Rightarrow> ('a, 'a fs_state_scheme) fres" where
  "iunlock p s =
     (case p of
        None \<Rightarrow> Inl (Panic ''iunlock'')
      | Some ip \<Rightarrow>
          seq (holdingsleep (SInode ip) s) (\<lambda>(h, s).
          if \<not> h \<or> i_ref (ino s ip) < 1 then Inl (Panic ''iunlock'')
          else releasesleep (SInode ip) s))"

section \<open>Inode content\<close>

definition bmap :: "nat \<Rightarrow> uint \<Rightarrow> 'a fs_state_scheme \<Rightarrow> ('a, uint \<times> 'a fs_state_scheme) fres" where
  "bmap ip bn s =
     (if unat bn < NDIRECT then
        let addr = i_addrs (ino s ip) ! unat bn
        in if addr = 0 then
             seq (balloc (i_dev (ino s ip)) s) (\<lambda>(addr, s).
             Inr (addr, upd_inode ip (\<lambda>x. x\<lparr>i_addrs := (i_addrs x)[unat bn := addr]\<rparr>) s))
           else Inr (addr, s)
      else
        let bn = bn - of_nat NDIRECT
        in if unat bn < NINDIRECT then
             seq (if i_addrs (ino s ip) ! NDIRECT = 0 then
                    seq (balloc (i_dev (ino s ip)) s) (\<lambda>(addr, s).
                    Inr (addr, upd_inode ip (\<lambda>x. x\<lparr>i_addrs := (i_addrs x)[NDIRECT := addr]\<rparr>) s))
                  else Inr (i_addrs (ino s ip) ! NDIRECT, s)) (\<lambda>(addr, s).
             seq (bread (i_dev (ino s ip)) addr s) (\<lambda>(bp, s).
             let addr = get32 (b_data (bufs s bp)) (4 * unat bn)
             in seq (if addr = 0 then
                       seq (balloc (i_dev (ino s ip)) s) (\<lambda>(addr, s).
                       seq (log_write bp (set_data bp (put32 (4 * unat bn) addr (b_data (bufs s bp))) s)) (\<lambda>s.
                       Inr (addr, s)))
                     else Inr (addr, s)) (\<lambda>(addr, s).
                seq (brelse bp s) (\<lambda>s. Inr (addr, s)))))
           else Inl (Panic ''bmap: out of range''))"

fun itrunc_direct :: "nat \<Rightarrow> nat list \<Rightarrow> 'a fs_state_scheme \<Rightarrow> ('a, 'a fs_state_scheme) fres" where
  "itrunc_direct ip [] s = Inr s"
| "itrunc_direct ip (i # is') s =
     (if i_addrs (ino s ip) ! i \<noteq> 0 then
        seq (bfree (i_dev (ino s ip)) (i_addrs (ino s ip) ! i) s) (\<lambda>s.
        itrunc_direct ip is' (upd_inode ip (\<lambda>x. x\<lparr>i_addrs := (i_addrs x)[i := 0]\<rparr>) s))
      else itrunc_direct ip is' s)"

fun bfree_all :: "uint \<Rightarrow> uint list \<Rightarrow> 'a fs_state_scheme \<Rightarrow> ('a, 'a fs_state_scheme) fres" where
  "bfree_all dev [] s = Inr s"
| "bfree_all dev (a # as) s = seq (if a \<noteq> 0 then bfree dev a s else Inr s) (\<lambda>s. bfree_all dev as s)"

definition itrunc :: "nat \<Rightarrow> 'a fs_state_scheme \<Rightarrow> ('a, 'a fs_state_scheme) fres" where
  "itrunc ip s =
     seq (itrunc_direct ip [0..<NDIRECT] s) (\<lambda>s.
     seq (if i_addrs (ino s ip) ! NDIRECT \<noteq> 0 then
            seq (bread (i_dev (ino s ip)) (i_addrs (ino s ip) ! NDIRECT) s) (\<lambda>(bp, s).
            seq (bfree_all (i_dev (ino s ip)) (get32s (b_data (bufs s bp)) 0 NINDIRECT) s) (\<lambda>s.
            seq (brelse bp s) (\<lambda>s.
            seq (bfree (i_dev (ino s ip)) (i_addrs (ino s ip) ! NDIRECT) s) (\<lambda>s.
            Inr (upd_inode ip (\<lambda>x. x\<lparr>i_addrs := (i_addrs x)[NDIRECT := 0]\<rparr>) s)))))
          else Inr s) (\<lambda>s.
     iupdate ip (upd_inode ip (\<lambda>x. x\<lparr>i_size := 0\<rparr>) s)))"

definition iput :: "nat \<Rightarrow> 'a fs_state_scheme \<Rightarrow> ('a, 'a fs_state_scheme) fres" where
  "iput ip s =
     seq (acquiresleep (SInode ip) s) (\<lambda>s.
     seq (if i_valid (ino s ip) \<and> i_nlink (ino s ip) = 0 then
            seq (lock L_icache s) (\<lambda>s.
            let r = i_ref (ino s ip)
            in seq (unlock L_icache s) (\<lambda>s.
               if r = 1 then
                 seq (itrunc ip s) (\<lambda>s.
                 seq (iupdate ip (upd_inode ip (\<lambda>x. x\<lparr>i_type := 0\<rparr>) s)) (\<lambda>s.
                 Inr (upd_inode ip (\<lambda>x. x\<lparr>i_valid := False\<rparr>) s)))
               else Inr s))
          else Inr s) (\<lambda>s.
     seq (releasesleep (SInode ip) s) (\<lambda>s.
     seq (lock L_icache s) (\<lambda>s.
     unlock L_icache (upd_inode ip (\<lambda>x. x\<lparr>i_ref := i_ref x - 1\<rparr>) s)))))"

definition iunlockput :: "nat \<Rightarrow> 'a fs_state_scheme \<Rightarrow> ('a, 'a fs_state_scheme) fres" where
  "iunlockput ip s = seq (iunlock (Some ip) s) (\<lambda>s. iput ip s)"

record stat =
  st_type :: ushort
  st_dev :: uint
  st_ino :: uint
  st_nlink :: ushort
  st_size :: uint

definition stati :: "nat \<Rightarrow> 'a fs_state_scheme \<Rightarrow> stat" where
  "stati ip s =
     \<lparr>st_type = i_type (ino s ip), st_dev = i_dev (ino s ip), st_ino = i_inum (ino s ip), st_nlink = i_nlink (ino s ip), st_size = i_size (ino s ip)\<rparr>"

section \<open>The bitmap\<close>

lemma bm_free_bit: "bm_free d bi \<longleftrightarrow> \<not> bit (d ! (bi div 8)) (bi mod 8)"
  by (simp add: bm_free_def push_bit_eq_mult and_exp_eq_0_iff_not_bit)

lemma bm_index: "bi < BPB \<Longrightarrow> bi div 8 < BSIZE" "(i div 8 = j div 8 \<and> i mod 8 = j mod 8) \<longleftrightarrow> i = (j :: nat)"
  by (simp_all add: div_less_iff_less_mult) (metis div_mult_mod_eq)

lemma length_bm [simp]: "length (bm_set d bi) = length d" "length (bm_clear d bi) = length d"
  by (simp_all add: bm_set_def bm_clear_def)

lemma bm_free_set:
  assumes "length d = BSIZE" and "i < BPB"
  shows "bm_free (bm_set d i) j \<longleftrightarrow> j \<noteq> i \<and> bm_free d j"
proof (cases "j div 8 = i div 8")
  case True
  have "bit (push_bit (i mod 8) 1 :: uchar) (j mod 8) \<longleftrightarrow> j mod 8 = i mod 8" by (auto simp: bit_exp_iff)
  then show ?thesis
    using bm_index(1) [OF assms(2)] bm_index(2) [of j i] assms(1) True by (auto simp: bm_free_bit bm_set_def bit_or_iff)
next
  case False
  then show ?thesis by (auto simp: bm_free_bit bm_set_def)
qed

lemma bm_free_clear:
  assumes "length d = BSIZE" and "i < BPB"
  shows "bm_free (bm_clear d i) j \<longleftrightarrow> j = i \<or> bm_free d j"
proof (cases "j div 8 = i div 8")
  case True
  have "bit (push_bit (i mod 8) 1 :: uchar) (j mod 8) \<longleftrightarrow> j mod 8 = i mod 8" by (auto simp: bit_exp_iff)
  then show ?thesis
    using bm_index(1) [OF assms(2)] bm_index(2) [of j i] assms(1) True by (auto simp: bm_free_bit bm_clear_def bit_and_iff bit_not_iff)
next
  case False
  then show ?thesis by (auto simp: bm_free_bit bm_clear_def)
qed

section \<open>Steps inside a transaction\<close>

text \<open>
  \<open>in_fs i B k s\<close>: process \<open>i\<close> is inside a transaction with room for \<open>k\<close> more writes to the log, and
  holds the buffers \<open>B\<close>. \<open>held_blocks\<close> are the blocks in these buffers.
\<close>

definition in_fs :: "nat \<Rightarrow> nat set \<Rightarrow> nat \<Rightarrow> 'a log_state_scheme \<Rightarrow> bool" where
  "in_fs i B k s \<longleftrightarrow> card B \<le> 3 \<and> (\<exists>L. in_tx i B L s \<and> tx_room k L s)"

definition held_blocks :: "nat set \<Rightarrow> 'a bio_state_scheme \<Rightarrow> uint set" where
  "held_blocks B s = (\<lambda>b. b_blockno (bufs s b)) ` B"

lemma held_blocks_empty [simp]: "held_blocks {} s = {}"
  by (simp add: held_blocks_def)

lemma in_fs_le: "in_fs i B k s \<Longrightarrow> j \<le> k \<Longrightarrow> in_fs i B j s"
  unfolding in_fs_def using tx_room_le by blast

lemma in_fs_card: "in_fs i B k s \<Longrightarrow> card B \<le> 3"
  by (simp add: in_fs_def)

lemma in_fs_blk_length [simp]: "in_fs i B k s \<Longrightarrow> length (blk s n) = BSIZE"
  unfolding in_fs_def using length_blk in_txD(3) by blast

lemma tx_frame_fs:
  assumes "tx_frame B s s'"
  shows "sb s' = sb s" "icache s' = icache s" "disksize s' = disksize s" "log_region s' = log_region s" "fs_state.more s' = fs_state.more s"
    "slocks s' (SInode j) = slocks s (SInode j)"
proof -
  have e: "s' = s\<lparr>ptable := ptable s', slocks := slocks s', bufs := bufs s', lh_n := lh_n s', lh_block := lh_block s'\<rparr>"
    using assms unfolding tx_frame_def by blast
  show "sb s' = sb s" "icache s' = icache s" "fs_state.more s' = fs_state.more s" by (subst e, simp)+
  show "disksize s' = disksize s" "log_region s' = log_region s" using tx_frame_fields [OF assms] by blast+
  show "slocks s' (SInode j) = slocks s (SInode j)" using assms unfolding tx_frame_def by blast
qed

lemma tx_frame_held: "tx_frame B s s' \<Longrightarrow> held_blocks B s' = held_blocks B s"
  unfolding held_blocks_def by (rule image_cong [OF refl]) (auto simp: tx_frame_def same_contents_def)

lemma card_bufs: "in_tx i B L s \<Longrightarrow> finite B"
  by (rule finite_subset [OF bc_okD(1) [OF in_txD(3)]]) simp_all

lemma fs_bread:
  assumes "in_fs i B k s" and "n < disksize s" and "n \<notin> held_blocks B s" and "card B \<le> 2"
  shows "\<exists>b s'. bread 1 n s = Inr (b, s') \<and> in_fs i (insert b B) k s' \<and> tx_frame B s s' \<and> b \<notin> B \<and>
    b_blockno (bufs s' b) = n \<and> b_data (bufs s' b) = blk s n \<and> blk s' = blk s"
proof -
  obtain L where L: "in_tx i B L s" "tx_room k L s" using assms(1) unfolding in_fs_def by blast
  have nb: "b \<in> B \<Longrightarrow> b_blockno (bufs s b) \<noteq> n" for b using assms(3) by (auto simp: held_blocks_def)
  obtain b s' where s': "bread 1 n s = Inr (b, s')" "in_tx i (insert b B) L s'" "tx_frame B s s'" "b \<notin> B"
      "b_blockno (bufs s' b) = n" "b_data (bufs s' b) = blk s n" "blk s' = blk s"
    using tx_bread [OF L(1) assms(2) nb L(2)] assms(4) by auto
  have "card (insert b B) \<le> 3" using card_bufs [OF L(1)] s'(4) assms(4) by simp
  with s'(2) L(2) tx_frame_fields(16) [OF s'(3)] have "in_fs i (insert b B) k s'" unfolding in_fs_def by blast
  with s' show ?thesis by blast
qed

lemma fs_brelse:
  assumes "in_fs i (insert b B) k s" and "b \<notin> B"
  shows "\<exists>s'. brelse b s = Inr s' \<and> in_fs i B k s' \<and> tx_frame B s s' \<and> blk s' = blk s"
proof -
  obtain L where L: "in_tx i (insert b B) L s" "tx_room k L s" using assms(1) unfolding in_fs_def by blast
  have B: "insert b B - {b} = B" using assms(2) by simp
  obtain s' where s': "brelse b s = Inr s'" "in_tx i B L s'" "tx_frame B s s'" "blk s' = blk s"
    using tx_brelse [OF L(1) insertI1] unfolding B by blast
  have "card B \<le> 3" using in_fs_card [OF assms(1)] card_bufs [OF L(1)] assms(2) by simp
  with s'(2) L(2) tx_frame_fields(16) [OF s'(3)] have "in_fs i B k s'" unfolding in_fs_def by blast
  with s' show ?thesis by blast
qed

lemma fs_log_write:
  assumes "in_fs i (insert b B) (Suc k) s" and "b \<notin> B" and "length d = BSIZE" and "b_blockno (bufs s b) \<notin> log_region s"
  shows "\<exists>s'. log_write b (set_data b d s) = Inr s' \<and> in_fs i (insert b B) k s' \<and> tx_frame B s s' \<and>
    b_blockno (bufs s' b) = b_blockno (bufs s b) \<and> b_data (bufs s' b) = d \<and> blk s' = (blk s)(b_blockno (bufs s b) := d)"
proof -
  obtain L where L: "in_tx i (insert b B) L s" "tx_room (Suc k) L s" using assms(1) unfolding in_fs_def by blast
  have B: "insert b B - {b} = B" using assms(2) by simp
  obtain s' where s': "log_write b (set_data b d s) = Inr s'" "in_tx i (insert b B) (tx_add (b_blockno (bufs s b)) L) s'" "tx_frame B s s'"
      "tx_room k (tx_add (b_blockno (bufs s b)) L) s'" "bufs s' b = (bufs s b)\<lparr>b_data := d, b_flags := b_flags (bufs s b) OR B_DIRTY\<rparr>"
      "blk s' = (blk s)(b_blockno (bufs s b) := d)"
    using tx_store [OF L(1) insertI1 assms(3) L(2) assms(4)] unfolding B by blast
  then have "in_fs i (insert b B) k s'" using assms(1) unfolding in_fs_def by blast
  with s' show ?thesis by (intro exI [of _ s']) simp
qed

text \<open>Reading a block and giving it back; reading, changing, logging and giving back.\<close>

lemma fs_read:
  assumes "in_fs i B k s" and "n < disksize s" and "n \<notin> held_blocks B s" and "card B \<le> 2"
  shows "\<exists>b s1 s'. bread 1 n s = Inr (b, s1) \<and> b_data (bufs s1 b) = blk s n \<and> tx_frame B s s1 \<and> brelse b s1 = Inr s' \<and>
    in_fs i B k s' \<and> tx_frame B s s' \<and> blk s' = blk s"
proof -
  obtain b s1 where s1: "bread 1 n s = Inr (b, s1)" "in_fs i (insert b B) k s1" "tx_frame B s s1" "b \<notin> B" "b_data (bufs s1 b) = blk s n" "blk s1 = blk s"
    using fs_bread [OF assms] by blast
  obtain s' where "brelse b s1 = Inr s'" "in_fs i B k s'" "tx_frame B s1 s'" "blk s' = blk s1" using fs_brelse [OF s1(2,4)] by blast
  with s1 tx_frame_trans [OF s1(3)] show ?thesis by simp
qed

lemma fs_update:
  assumes "in_fs i B (Suc k) s" and "n < disksize s" and "n \<notin> held_blocks B s" and "card B \<le> 2" and "n \<notin> log_region s" and "length d = BSIZE"
  shows "\<exists>b s1 s2 s'. bread 1 n s = Inr (b, s1) \<and> b_data (bufs s1 b) = blk s n \<and> tx_frame B s s1 \<and>
    log_write b (set_data b d s1) = Inr s2 \<and> brelse b s2 = Inr s' \<and> in_fs i B k s' \<and> tx_frame B s s' \<and> blk s' = (blk s)(n := d)"
proof -
  obtain b s1 where s1: "bread 1 n s = Inr (b, s1)" "in_fs i (insert b B) (Suc k) s1" "tx_frame B s s1" "b \<notin> B" "b_blockno (bufs s1 b) = n"
      "b_data (bufs s1 b) = blk s n" "blk s1 = blk s"
    using fs_bread [OF assms(1-4)] by blast
  have n: "b_blockno (bufs s1 b) \<notin> log_region s1" using s1(5) assms(5) tx_frame_fields(14) [OF s1(3)] by simp
  obtain s2 where s2: "log_write b (set_data b d s1) = Inr s2" "in_fs i (insert b B) k s2" "tx_frame B s1 s2" "blk s2 = (blk s1)(b_blockno (bufs s1 b) := d)"
    using fs_log_write [OF s1(2,4) assms(6) n] by blast
  obtain s' where s': "brelse b s2 = Inr s'" "in_fs i B k s'" "tx_frame B s2 s'" "blk s' = blk s2" using fs_brelse [OF s2(2) s1(4)] by blast
  have "tx_frame B s s'" using s1(3) s2(3) s'(3) by (blast intro: tx_frame_trans)
  with s1 s2 s' show ?thesis by simp
qed

section \<open>Allocation of blocks\<close>

definition used :: "'a fs_state_scheme \<Rightarrow> uint \<Rightarrow> bool" where
  "used s n \<longleftrightarrow> \<not> bm_free (blk s (BBLOCK n (sb s))) (unat n mod BPB)"

text \<open>
  A file system that the kernel can work on: the bitmap and the inode blocks are on the disk, apart
  from each other and from the log, and the bitmap marks them, the log and block 0 as used.
\<close>

definition bitmap_block :: "superblock \<Rightarrow> uint \<Rightarrow> bool" where
  "bitmap_block x n \<longleftrightarrow> (\<exists>b < sb_size x. n = BBLOCK b x)"

definition inode_block :: "superblock \<Rightarrow> uint \<Rightarrow> bool" where
  "inode_block x n \<longleftrightarrow> (\<exists>i < sb_ninodes x. n = IBLOCK i x)"

definition reserved :: "'a fs_state_scheme \<Rightarrow> uint \<Rightarrow> bool" where
  "reserved s n \<longleftrightarrow> n = 0 \<or> n \<in> log_region s \<or> bitmap_block (sb s) n \<or> inode_block (sb s) n"

definition fs_ok :: "'a fs_state_scheme \<Rightarrow> bool" where
  "fs_ok s \<longleftrightarrow> sb_size (sb s) \<le> disksize s \<and> (\<forall>n. reserved s n \<longrightarrow> n < sb_size (sb s) \<and> used s n) \<and>
     (\<forall>n. bitmap_block (sb s) n \<longrightarrow> n \<notin> log_region s \<and> \<not> inode_block (sb s) n) \<and> (\<forall>n. inode_block (sb s) n \<longrightarrow> n \<notin> log_region s)"

lemma fs_okD:
  assumes "fs_ok s"
  shows "sb_size (sb s) \<le> disksize s" "\<And>n. reserved s n \<Longrightarrow> n < sb_size (sb s)" "\<And>n. reserved s n \<Longrightarrow> used s n"
    "\<And>b. b < sb_size (sb s) \<Longrightarrow> BBLOCK b (sb s) < disksize s \<and> BBLOCK b (sb s) \<notin> log_region s"
    "\<And>b. b < sb_ninodes (sb s) \<Longrightarrow> IBLOCK b (sb s) < disksize s \<and> IBLOCK b (sb s) \<notin> log_region s \<and> \<not> bitmap_block (sb s) (IBLOCK b (sb s))"
    "\<And>n. n < sb_size (sb s) \<Longrightarrow> n < disksize s"
proof -
  show a: "sb_size (sb s) \<le> disksize s" and b: "\<And>n. reserved s n \<Longrightarrow> n < sb_size (sb s)" and "\<And>n. reserved s n \<Longrightarrow> used s n"
    using assms unfolding fs_ok_def by blast+
  show "\<And>b. b < sb_size (sb s) \<Longrightarrow> BBLOCK b (sb s) < disksize s \<and> BBLOCK b (sb s) \<notin> log_region s"
    using assms a b unfolding fs_ok_def reserved_def bitmap_block_def by (blast intro: less_le_trans)
  show "\<And>b. b < sb_ninodes (sb s) \<Longrightarrow> IBLOCK b (sb s) < disksize s \<and> IBLOCK b (sb s) \<notin> log_region s \<and> \<not> bitmap_block (sb s) (IBLOCK b (sb s))"
    using assms a b unfolding fs_ok_def reserved_def inode_block_def by (blast intro: less_le_trans)
  show "\<And>n. n < sb_size (sb s) \<Longrightarrow> n < disksize s" using a by (blast intro: less_le_trans)
qed

lemma fs_ok_cong:
  assumes "fs_ok s" and "tx_frame B s s'" and "\<And>n. reserved s n \<Longrightarrow> used s' n"
  shows "fs_ok s'" "reserved s' n = reserved s n"
  using assms(1,3) unfolding fs_ok_def reserved_def tx_frame_fs [OF assms(2)] by blast+

lemma unat_of_nat_small: "n < 2 ^ 32 \<Longrightarrow> unat (of_nat n :: uint) = n"
  by (simp add: unat_of_nat take_bit_eq_mod)

text \<open>The bit of block \<open>b + bi\<close> is bit \<open>bi\<close> of the bitmap block of \<open>b\<close>.\<close>

lemma used_of_nat:
  assumes "b mod BPB = 0" and "bi < BPB" and "b + bi < 2 ^ 32"
  shows "BBLOCK (of_nat (b + bi)) x = BBLOCK (of_nat b) x"
    "used s (of_nat (b + bi)) \<longleftrightarrow> \<not> bm_free (blk s (BBLOCK (of_nat b) (sb s))) bi" "unat (of_nat (b + bi) :: uint) mod BPB = bi"
proof -
  have u: "unat (of_nat (b + bi) :: uint) = b + bi" "unat (of_nat b :: uint) = b" 
    using unat_of_nat_small [of "b + bi"] unat_of_nat_small [of b] assms(3) by (simp_all del: of_nat_add)
  obtain q where q: "b = 4096 * q" using assms(1) by auto
  have "(of_nat (b + bi) :: uint) div 4096 = of_nat b div 4096"
    using assms(2) u unfolding word_unat_eq_iff unat_div by (simp add: q del: of_nat_add of_nat_mult)
  then show B: "BBLOCK (of_nat (b + bi)) x = BBLOCK (of_nat b) x" for x by (simp add: BBLOCK_def)
  show m: "unat (of_nat (b + bi) :: uint) mod BPB = bi" using assms(2) unfolding u(1) by (simp add: q)
  show "used s (of_nat (b + bi)) \<longleftrightarrow> \<not> bm_free (blk s (BBLOCK (of_nat b) (sb s))) bi"
    unfolding used_def B m by simp
qed

lemma BBLOCK_inj: "BBLOCK m x = BBLOCK n x \<longleftrightarrow> m div 4096 = n div 4096"
  by (simp add: BBLOCK_def)

lemma same_bit:
  assumes "BBLOCK m x = BBLOCK n x" and "unat m mod 4096 = unat n mod 4096"
  shows "m = n"
proof -
  have "unat (m div 4096) = unat (n div 4096)" using assms(1) unfolding BBLOCK_inj by simp
  then have "unat m div 4096 = unat n div 4096" by (simp add: unat_div)
  with assms(2) have "unat m = unat n" by (metis div_mult_mod_eq)
  then show ?thesis by (rule unat_inject)
qed

text \<open>Marking one block and writing others that are not bitmap blocks.\<close>

lemma used_mark:
  assumes "length (blk s (BBLOCK n (sb s))) = BSIZE" and "sb s' = sb s"
    and "blk s' (BBLOCK n (sb s)) = bm_set (blk s (BBLOCK n (sb s))) (unat n mod BPB)"
    and "BBLOCK m (sb s) \<noteq> BBLOCK n (sb s) \<Longrightarrow> blk s' (BBLOCK m (sb s)) = blk s (BBLOCK m (sb s))"
  shows "used s' m \<longleftrightarrow> m = n \<or> used s m"
proof (cases "BBLOCK m (sb s) = BBLOCK n (sb s)")
  case True
  have "used s' m \<longleftrightarrow> unat m mod BPB = unat n mod BPB \<or> used s m"
    using assms(1) by (simp add: used_def assms(2,3) True bm_free_set)
  then show ?thesis using same_bit [OF True] by auto
next
  case False
  with assms(4) show ?thesis by (auto simp: used_def assms(2))
qed

definition no_held_bitmap :: "nat set \<Rightarrow> 'a fs_state_scheme \<Rightarrow> bool" where
  "no_held_bitmap B s \<longleftrightarrow> (\<forall>n \<in> held_blocks B s. used s n \<and> \<not> bitmap_block (sb s) n)"

definition balloc_effect :: "uint \<Rightarrow> 'a fs_state_scheme \<Rightarrow> 'a fs_state_scheme \<Rightarrow> bool" where
  "balloc_effect n s s' \<longleftrightarrow> n < sb_size (sb s) \<and> \<not> used s n \<and> (\<forall>m < n. used s m) \<and>
     blk s' = (blk s)(BBLOCK n (sb s) := bm_set (blk s (BBLOCK n (sb s))) (unat n mod BPB), n := replicate BSIZE 0)"

text \<open>What \<open>balloc\<close> does once it has found the bit \<open>bi\<close> of a free block.\<close>

lemma balloc_found:
  assumes "in_fs i B (Suc (Suc k)) s" and "card B \<le> 2" and "fs_ok s" and "no_held_bitmap B s"
    and "n < sb_size (sb s)" and "\<not> used s n"
  shows "\<exists>b s1 s2 s3 s'. bread 1 (BBLOCK n (sb s)) s = Inr (b, s1) \<and> b_data (bufs s1 b) = blk s (BBLOCK n (sb s)) \<and> tx_frame B s s1 \<and>
    log_write b (set_data b (bm_set (blk s (BBLOCK n (sb s))) (unat n mod BPB)) s1) = Inr s2 \<and> brelse b s2 = Inr s3 \<and>
    bzero 1 n s3 = Inr s' \<and> in_fs i B k s' \<and> tx_frame B s s' \<and>
    blk s' = (blk s)(BBLOCK n (sb s) := bm_set (blk s (BBLOCK n (sb s))) (unat n mod BPB), n := replicate BSIZE 0)"
proof -
  let ?m = "BBLOCK n (sb s)"
  let ?d = "bm_set (blk s ?m) (unat n mod BPB)"
  note ok = fs_okD [OF assms(3)]
  have m: "?m < disksize s" "?m \<notin> log_region s" using ok(4) [OF assms(5)] by simp_all
  have bm: "bitmap_block (sb s) ?m" using assms(5) unfolding bitmap_block_def by blast
  then have h: "?m \<notin> held_blocks B s" using assms(4) by (auto simp: no_held_bitmap_def)
  have "length ?d = BSIZE" using in_fs_blk_length [OF assms(1)] by simp
  from fs_update [OF assms(1) m(1) h assms(2) m(2) this]
  obtain b s1 s2 s3 where u: "bread 1 ?m s = Inr (b, s1)" "b_data (bufs s1 b) = blk s ?m" "tx_frame B s s1"
      "log_write b (set_data b ?d s1) = Inr s2" "brelse b s2 = Inr s3" "in_fs i B (Suc k) s3" "tx_frame B s s3" "blk s3 = (blk s)(?m := ?d)" by blast
  have nr: "\<not> reserved s n" using ok(3) assms(6) by blast
  have n: "n < disksize s3" "n \<notin> held_blocks B s3" "n \<notin> log_region s3"
    using ok(6) [OF assms(5)] assms(4,6) nr tx_frame_fs(3,4) [OF u(7)] tx_frame_held [OF u(7)]
    by (auto simp: no_held_bitmap_def reserved_def)
  obtain b' s4 s5 s' where z: "bread 1 n s3 = Inr (b', s4)" "log_write b' (set_data b' (replicate BSIZE 0) s4) = Inr s5" "brelse b' s5 = Inr s'"
      "in_fs i B k s'" "tx_frame B s3 s'" "blk s' = (blk s3)(n := replicate BSIZE 0)"
    using fs_update [OF u(6) n(1,2) assms(2) n(3), of "replicate BSIZE 0"] by auto
  have "bzero 1 n s3 = Inr s'" using z by (simp add: bzero_def)
  with u z(4-6) tx_frame_trans [OF u(7) z(5)] show ?thesis by (metis fun_upd_apply)
qed

lemma bitmap_blocks:
  assumes "K = (S + BPB - 1) div (BPB :: nat)"
  shows "S \<le> K * BPB" "j < K \<Longrightarrow> j * BPB < S"
proof -
  have "S + 4095 = (S + 4095) div 4096 * 4096 + (S + 4095) mod 4096" "(S + 4095) mod 4096 < 4096" by simp_all
  moreover have "K = (S + 4095) div 4096" using assms by simp
  ultimately have "S + 4095 = K * 4096 + (S + 4095) mod 4096" "(S + 4095) mod 4096 < 4096" by simp_all
  then have "S \<le> K * 4096" "K * 4096 \<le> S + 4095" by linarith+
  then show "S \<le> K * BPB" by simp
  assume "j < K"
  then have "Suc j * 4096 \<le> K * 4096" by simp
  with \<open>K * 4096 \<le> S + 4095\<close> show "j * BPB < S" by simp
qed

lemma balloc_from_runs:
  assumes "in_fs i B (Suc (Suc k)) s" and "card B \<le> 2" and "fs_ok s" and "no_held_bitmap B s"
    and "K = (unat (sb_size (sb s)) + BPB - 1) div BPB" and "\<forall>m < j * BPB. m < unat (sb_size (sb s)) \<longrightarrow> used s (of_nat m)"
  shows "(\<forall>m < sb_size (sb s). used s m) \<and> balloc_from 1 (map (\<lambda>k. k * BPB) [j..<K]) s = Inl (Panic ''balloc: out of blocks'') \<or>
    (\<exists>n s'. balloc_from 1 (map (\<lambda>k. k * BPB) [j..<K]) s = Inr (n, s') \<and> balloc_effect n s s' \<and> in_fs i B k s' \<and> tx_frame B s s')"
  using assms
proof (induction "K - j" arbitrary: j s)
  case 0
  have "used s m" if "m < sb_size (sb s)" for m
  proof -
    have "unat m < unat (sb_size (sb s))" using that by (simp add: word_less_nat_alt)
    also have "\<dots> \<le> j * BPB" using bitmap_blocks(1) [OF 0(6)] 0(1) by (simp add: le_trans)
    finally show ?thesis using 0(7) that by (auto simp: word_less_nat_alt)
  qed
  then show ?case using 0(1) by simp
next
  case (Suc d)
  let ?S = "unat (sb_size (sb s))" and ?b = "j * BPB"
  let ?m = "BBLOCK (of_nat ?b) (sb s)"
  let ?P = "\<lambda>bi. ?b + bi < ?S \<and> bm_free (blk s ?m) bi"
  have j: "j < K" "?b < ?S" using Suc(2) bitmap_blocks(2) [OF Suc(7), of j] by simp_all
  have S: "?S < 2 ^ 32" using unat_lt_2_32 by simp
  have u: "used s (of_nat (?b + bi)) \<longleftrightarrow> \<not> bm_free (blk s ?m) bi" if "bi < BPB" "?b + bi < ?S" for bi
    using used_of_nat(2) [of ?b bi s] that S by (simp del: of_nat_add of_nat_mult)
  have l: "map (\<lambda>k. k * BPB) [j..<K] = ?b # map (\<lambda>k. k * BPB) [Suc j..<K]" using j(1) by (simp add: upt_conv_Cons)
  show ?case
  proof (cases "find ?P [0..<BPB]")
    case None
    then have all: "used s (of_nat (?b + bi))" if "bi < BPB" "?b + bi < ?S" for bi
      using that u by (auto simp: find_None_iff)
    have m: "(of_nat ?b :: uint) < sb_size (sb s)"
      using j(2) S by (simp add: word_less_nat_alt unat_of_nat_small del: of_nat_mult)
    have "?m < disksize s" using fs_okD(4) [OF Suc(5) m] by blast
    moreover have "?m \<notin> held_blocks B s" using Suc(6) m by (auto simp: no_held_bitmap_def bitmap_block_def)
    ultimately obtain b s1 s' where r: "bread 1 ?m s = Inr (b, s1)" "b_data (bufs s1 b) = blk s ?m" "tx_frame B s s1" "brelse b s1 = Inr s'"
        "in_fs i B (Suc (Suc k)) s'" "tx_frame B s s'" "blk s' = blk s"
      using fs_read [OF Suc(3) _ _ Suc(4)] by blast
    note f = tx_frame_fs [OF r(6)]
    have us: "used s' = used s" unfolding used_def fun_eq_iff by (simp add: f r(7))
    have ok: "fs_ok s'" "no_held_bitmap B s'"
      using fs_ok_cong(1) [OF Suc(5) r(6)] fs_okD(3) [OF Suc(5)] Suc(6) tx_frame_held [OF r(6)] f(1) by (simp_all add: us no_held_bitmap_def)
    have pre: "\<forall>m < Suc j * BPB. m < unat (sb_size (sb s')) \<longrightarrow> used s' (of_nat m)"
    proof (intro allI impI)
      fix m
      assume "m < Suc j * BPB" "m < unat (sb_size (sb s'))"
      then show "used s' (of_nat m)" using Suc(8) all [of "m - ?b"] f(1) unfolding us by (cases "m < ?b") simp_all
    qed
    have skip: "balloc_from 1 (?b # map (\<lambda>k. k * BPB) [Suc j..<K]) s = balloc_from 1 (map (\<lambda>k. k * BPB) [Suc j..<K]) s'"
      using r(1,2,4) None tx_frame_fs(1) [OF r(3)] by (simp add: Let_def del: of_nat_mult)
    have eff: "balloc_effect n s' = balloc_effect n s" for n unfolding balloc_effect_def fun_eq_iff us f(1) r(7) by simp
    have d: "d = K - Suc j" and K: "K = (unat (sb_size (sb s')) + BPB - 1) div BPB" using Suc(2,7) f(1) by simp_all
    show ?thesis
      using Suc(1) [OF d r(5) Suc(4) ok K pre] tx_frame_trans [OF r(6)] unfolding l us f(1) skip eff by blast
  next
    case (Some bi)
    then have bi: "bi < BPB" "?b + bi < ?S" "bm_free (blk s ?m) bi" "\<forall>j < bi. \<not> ?P j" by (auto simp: find_Some_iff)
    define n :: uint where "n = of_nat (?b + bi)"
    have n: "unat n = ?b + bi" "BBLOCK n (sb s) = ?m" "unat n mod BPB = bi"
      using used_of_nat(1,3) [of ?b bi] unat_of_nat_small [of "?b + bi"] bi S unfolding n_def by simp_all
    have nu: "n < sb_size (sb s)" "\<not> used s n" using n(1) bi u [OF bi(1,2)] by (simp_all add: word_less_nat_alt n_def del: of_nat_add of_nat_mult)
    have below: "used s m" if "m < n" for m
    proof (cases "unat m < ?b")
      case True
      then show ?thesis using Suc(8) j(2) by auto
    next
      case False
      then have "unat m - ?b < bi" "unat m = ?b + (unat m - ?b)" using that n(1) by (auto simp: word_less_nat_alt)
      then show ?thesis using bi u [of "unat m - ?b"] by auto
    qed
    obtain b s1 s2 s3 s' where r: "bread 1 ?m s = Inr (b, s1)" "b_data (bufs s1 b) = blk s ?m" "tx_frame B s s1"
        "log_write b (set_data b (bm_set (blk s ?m) bi) s1) = Inr s2" "brelse b s2 = Inr s3" "bzero 1 n s3 = Inr s'" "in_fs i B k s'" "tx_frame B s s'"
        "blk s' = (blk s)(?m := bm_set (blk s ?m) bi, n := replicate BSIZE 0)"
      using balloc_found [OF Suc(3-6) nu] unfolding n(2,3) by blast
    have "balloc_effect n s s'" using nu below r(9) n by (simp add: balloc_effect_def)
    moreover have "balloc_from 1 (?b # map (\<lambda>k. k * BPB) [Suc j..<K]) s = Inr (n, s')"
      using r Some tx_frame_fs(1) [OF r(3)] by (simp add: Let_def n_def del: of_nat_mult of_nat_add)
    ultimately show ?thesis using r(7,8) unfolding l by blast
  qed
qed

definition nfree :: "'a fs_state_scheme \<Rightarrow> nat" where
  "nfree s = card {n. n < sb_size (sb s) \<and> \<not> used s n}"

lemma nfree_pos: "0 < nfree s \<longleftrightarrow> (\<exists>n < sb_size (sb s). \<not> used s n)"
  by (auto simp: nfree_def card_gt_0_iff)

lemma balloc_effectD:
  assumes "balloc_effect n s s'" and "fs_ok s" and "tx_frame B s s'" and "\<And>n. length (blk s n) = BSIZE"
  shows "n \<noteq> 0" "n < sb_size (sb s)" "\<not> used s n" "\<not> reserved s n" "\<And>m. m < sb_size (sb s) \<Longrightarrow> used s' m \<longleftrightarrow> m = n \<or> used s m"
    "blk s' n = replicate BSIZE 0" "\<And>m. m \<noteq> n \<Longrightarrow> \<not> bitmap_block (sb s) m \<Longrightarrow> blk s' m = blk s m" "fs_ok s'" "Suc (nfree s') = nfree s"
proof -
  have e: "blk s' = (blk s)(BBLOCK n (sb s) := bm_set (blk s (BBLOCK n (sb s))) (unat n mod BPB), n := replicate BSIZE 0)"
    using assms(1) by (simp add: balloc_effect_def)
  note f = tx_frame_fs [OF assms(3)]
  show n: "n < sb_size (sb s)" "\<not> used s n" "blk s' n = replicate BSIZE 0" using assms(1) by (simp_all add: balloc_effect_def)
  show nr: "\<not> reserved s n" using n(2) fs_okD(3) [OF assms(2)] by blast
  then show "n \<noteq> 0" by (auto simp: reserved_def)
  have nb: "\<not> bitmap_block (sb s) n" using nr by (simp add: reserved_def)
  show "blk s' m = blk s m" if "m \<noteq> n" "\<not> bitmap_block (sb s) m" for m
  proof -
    have "m \<noteq> BBLOCK n (sb s)" using that(2) n(1) unfolding bitmap_block_def by blast
    with that(1) show ?thesis by (simp add: e)
  qed
  have nm: "BBLOCK m (sb s) \<noteq> n" if "m < sb_size (sb s)" for m using nb that unfolding bitmap_block_def by auto
  show us: "used s' m \<longleftrightarrow> m = n \<or> used s m" if m: "m < sb_size (sb s)" for m
    using used_mark [of s n s' m, OF assms(4) f(1)] nm [OF m] nm [OF n(1)] by (simp add: e)
  show "fs_ok s'" using fs_ok_cong(1) [OF assms(2,3)] us fs_okD(2,3) [OF assms(2)] by blast
  have "{m. m < sb_size (sb s) \<and> \<not> used s m} = insert n {m. m < sb_size (sb s') \<and> \<not> used s' m}"
    using us n(1,2) f(1) by auto
  moreover have "n \<notin> {m. m < sb_size (sb s') \<and> \<not> used s' m}" using us n(1) by simp
  ultimately show "Suc (nfree s') = nfree s" unfolding nfree_def by (simp add: card_insert_disjoint)
qed

lemma balloc_runs:
  assumes "in_fs i B (Suc (Suc k)) s" and "card B \<le> 2" and "fs_ok s" and "no_held_bitmap B s" and "0 < nfree s"
  shows "\<exists>n s'. balloc 1 s = Inr (n, s') \<and> balloc_effect n s s' \<and> in_fs i B k s' \<and> tx_frame B s s'"
  using balloc_from_runs [OF assms(1-4) refl, of 0] assms(5) nfree_pos [of s] unfolding balloc_def by auto


section \<open>A small file system\<close>

text \<open>
  1000 blocks, the log in 2 to 32, 200 inodes in 40 to 64, the bitmap in 70, and the blocks from 100
  on free; the inode cache and the other blocks are arguments.
\<close>

definition small_sb :: superblock where
  "small_sb = \<lparr>sb_size = 1000, sb_nblocks = 900, sb_ninodes = 200, sb_nlog = 31, sb_logstart = 2, sb_inodestart = 40, sb_bmapstart = 70\<rparr>"

definition small_bitmap :: block where
  "small_bitmap = replicate 12 255 @ [15] @ replicate 499 0"

definition blank_inode :: inode where
  "blank_inode = \<lparr>i_dev = 0, i_inum = 0, i_ref = 0, i_valid = False, i_type = 0, i_major = 0, i_minor = 0, i_nlink = 0, i_size = 0, i_addrs = replicate 13 0\<rparr>"

definition fs_world :: "(nat \<Rightarrow> inode) \<Rightarrow> (uint \<Rightarrow> block) \<Rightarrow> 'a \<Rightarrow> 'a fs_state_scheme" where
  "fs_world ic d x = cons_world (fs_state_ext small_sb ic x) (d(70 := small_bitmap))"

lemma small_bitmap_free:
  assumes "k < 1000"
  shows "bm_free small_bitmap k \<longleftrightarrow> 100 \<le> k"
proof -
  have m: "(255 :: uchar) = mask 8" "(15 :: uchar) = mask 4" by (simp_all add: mask_eq_exp_minus_1)
  have j: "k mod 8 < 8" by simp
  have b: "bit (255 :: uchar) (k mod 8)" "bit (15 :: uchar) (k mod 8) \<longleftrightarrow> k mod 8 < 4"
    unfolding m bit_mask_iff using j by auto
  consider "k < 96" | "96 \<le> k" "k < 104" | "104 \<le> k" by linarith
  then show ?thesis
  proof cases
    case 1
    then have "k div 8 < 12" by (simp add: div_less_iff_less_mult)
    then show ?thesis using 1 b by (simp add: bm_free_bit small_bitmap_def nth_append)
  next
    case 2
    then have "k div 8 = 12" "k mod 8 = k - 96" by (auto simp: div_nat_eqI mod_nat_eqI intro!: div_nat_eqI mod_nat_eqI)
    then show ?thesis using 2 b by (auto simp: bm_free_bit small_bitmap_def nth_append)
  next
    case 3
    then have "13 \<le> k div 8" "k div 8 < 512" using assms by (auto simp: less_eq_div_iff_mult_less_eq div_less_iff_less_mult)
    then show ?thesis using 3 by (simp add: bm_free_bit small_bitmap_def nth_append)
  qed
qed

lemma fs_world_fields:
  "sb (fs_world ic d x) = small_sb" "icache (fs_world ic d x) = ic" "fs_state.more (fs_world ic d x) = x"
proof -
  have "cons_state.more (fs_world ic d x) = fs_state_ext small_sb ic x"
    by (simp add: fs_world_def cons_world_fields(8))
  then show "sb (fs_world ic d x) = small_sb" "icache (fs_world ic d x) = ic" "fs_state.more (fs_world ic d x) = x"
    by (cases "fs_world ic d x"; simp)+
qed

lemma fs_world_tx:
  assumes "\<And>n. length (d n) = BSIZE"
  shows "in_fs 0 {} 20 (fs_world ic d x)" "blk (fs_world ic d x) = d(70 := small_bitmap)" "disksize (fs_world ic d x) = 1000" "log_start (fs_world ic d x) = 2"
proof -
  have "length ((d(70 := small_bitmap)) n) = BSIZE" for n using assms by (simp add: small_bitmap_def)
  note w = log_world_ok [of "d(70 := small_bitmap)", OF this]
  have "in_tx 0 {} [] (fs_world ic d x) \<and> tx_room 20 [] (fs_world ic d x)" unfolding fs_world_def cons_world_def by (simp add: w(1,4))
  then show "in_fs 0 {} 20 (fs_world ic d x)" unfolding in_fs_def by auto
  show "blk (fs_world ic d x) = d(70 := small_bitmap)" "disksize (fs_world ic d x) = 1000"
    unfolding fs_world_def cons_world_def by (simp_all add: w(3,5))
  show "log_start (fs_world ic d x) = 2" by (simp add: fs_world_def cons_world_def log_world_fields)
qed

lemma fs_world_used:
  assumes "\<And>n. length (d n) = BSIZE" and "n < 1000"
  shows "used (fs_world ic d x) n \<longleftrightarrow> unat n < 100"
proof -
  have n: "unat n < 1000" using assms(2) by (simp add: word_less_nat_alt)
  then have "n div 4096 = 0" by (simp add: word_unat_eq_iff unat_div)
  then have "BBLOCK n small_sb = 70" by (simp add: BBLOCK_def small_sb_def)
  then show ?thesis
    using n small_bitmap_free [of "unat n"] unfolding used_def fs_world_fields fs_world_tx(2) [OF assms(1)] by (simp add: not_le)
qed

lemma fs_world_ok:
  assumes "\<And>n. length (d n) = BSIZE"
  shows "fs_ok (fs_world ic d x)"
proof -
  let ?s = "fs_world ic d x"
  have log: "unat n \<le> 32 \<and> unat n \<noteq> 0" if "n \<in> log_region ?s" for n
    using that by (auto simp: log_region_def log_at_def fs_world_tx(4) [OF assms] unat_word_ariths unat_of_nat_small)
  have bm: "n = 70" if a: "bitmap_block small_sb n" for n
  proof -
    obtain b where b: "b < 1000" "n = b div 4096 + 70" using a by (auto simp: bitmap_block_def BBLOCK_def small_sb_def)
    have "unat b < 1000" using b(1) by (simp add: word_less_nat_alt)
    then have "b div 4096 = 0" by (simp add: word_unat_eq_iff unat_div)
    with b(2) show ?thesis by simp
  qed
  have ib: "40 \<le> unat n \<and> unat n < 65" if a: "inode_block small_sb n" for n
  proof -
    obtain b where b: "b < 200" "n = b div 8 + 40" using a by (auto simp: inode_block_def IBLOCK_def small_sb_def)
    have "unat b < 200" using b(1) by (simp add: word_less_nat_alt)
    then have "unat (b div 8) < 25" by (simp add: unat_div)
    with b(2) show ?thesis by (simp add: unat_word_ariths(1))
  qed
  have "unat n < 100" if "reserved ?s n" for n
    using that log [of n] bm [of n] ib [of n] unfolding reserved_def fs_world_fields by auto
  then have "n < 1000 \<and> used ?s n" if "reserved ?s n" for n
    using that fs_world_used [of d n, OF assms] by (fastforce simp: word_less_nat_alt)
  then show ?thesis
    unfolding fs_ok_def fs_world_fields fs_world_tx(3) [OF assms] using log bm ib by (fastforce simp: small_sb_def)
qed


end
