(* ===== verification/Filemap.thy ===== *)
theory Filemap
  imports Inode
begin

text \<open>
  The map from the blocks of a file to disk blocks, as \<open>bmap\<close> of \<open>fs.c\<close> keeps it, and the inode table
  on disk, as \<open>iupdate\<close> and \<open>ilock\<close> keep it (the operations are in \<open>Inode\<close>). \<open>faddr\<close>, \<open>fbyte\<close> and \<open>own\<close> say
  what an inode means over a set of blocks; \<open>layout_ok\<close> and \<open>inode_ok\<close> are the invariant; \<open>fgrown\<close> is
  what allocating on the way may change.
\<close>

section \<open>The blocks of a file\<close>

text \<open>
  \<open>faddr bk x n\<close> is the disk block of block \<open>n\<close> of the file with inode \<open>x\<close> over the blocks \<open>bk\<close>, 0 where
  there is none; \<open>fbyte\<close> is a byte of the file, and \<open>own\<close> the blocks that belong to it. In a good
  layout no block is used twice, and all of them are in a given set.
\<close>

definition faddr :: "(uint \<Rightarrow> block) \<Rightarrow> inode \<Rightarrow> nat \<Rightarrow> uint" where
  "faddr bk x n =
     (if n < NDIRECT then i_addrs x ! n
      else if i_addrs x ! NDIRECT = 0 then 0
      else get32 (bk (i_addrs x ! NDIRECT)) (4 * (n - NDIRECT)))"

definition fbyte :: "(uint \<Rightarrow> block) \<Rightarrow> inode \<Rightarrow> nat \<Rightarrow> uchar" where
  "fbyte bk x k = (if faddr bk x (k div BSIZE) = 0 then 0 else bk (faddr bk x (k div BSIZE)) ! (k mod BSIZE))"

definition own :: "(uint \<Rightarrow> block) \<Rightarrow> inode \<Rightarrow> uint set" where
  "own bk x = insert (i_addrs x ! NDIRECT) (faddr bk x ` {..<MAXFILE}) - {0}"

definition layout_ok :: "uint set \<Rightarrow> (uint \<Rightarrow> block) \<Rightarrow> inode \<Rightarrow> bool" where
  "layout_ok U bk x \<longleftrightarrow> length (i_addrs x) = NDIRECT + 1 \<and> own bk x \<subseteq> U \<and>
     (\<forall>m < MAXFILE. \<forall>n < MAXFILE. faddr bk x m = faddr bk x n \<longrightarrow> faddr bk x m \<noteq> 0 \<longrightarrow> m = n) \<and>
     (\<forall>m < MAXFILE. faddr bk x m = i_addrs x ! NDIRECT \<longrightarrow> faddr bk x m = 0)"

lemma layout_okD:
  assumes "layout_ok U bk x"
  shows "length (i_addrs x) = NDIRECT + 1" "own bk x \<subseteq> U"
    "\<And>m n. m < MAXFILE \<Longrightarrow> n < MAXFILE \<Longrightarrow> faddr bk x m = faddr bk x n \<Longrightarrow> faddr bk x m \<noteq> 0 \<Longrightarrow> m = n"
    "\<And>m. m < MAXFILE \<Longrightarrow> faddr bk x m \<noteq> 0 \<Longrightarrow> faddr bk x m \<noteq> i_addrs x ! NDIRECT"
  using assms unfolding layout_ok_def by blast+

lemma layout_ok_mono: "layout_ok U bk x \<Longrightarrow> U \<subseteq> V \<Longrightarrow> layout_ok V bk x"
  unfolding layout_ok_def by blast

lemma faddr_own: "n < MAXFILE \<Longrightarrow> faddr bk x n \<noteq> 0 \<Longrightarrow> faddr bk x n \<in> own bk x"
  by (auto simp: own_def)

lemma indirect_own: "i_addrs x ! NDIRECT \<noteq> 0 \<Longrightarrow> i_addrs x ! NDIRECT \<in> own bk x"
  by (simp add: own_def)

text \<open>The file depends only on its own blocks.\<close>

lemma layout_cong:
  assumes "\<forall>a \<in> own bk x. bk' a = bk a"
  shows "faddr bk' x n = faddr bk x n" "own bk' x = own bk x" "layout_ok U bk' x = layout_ok U bk x" "k < MAXFILE * BSIZE \<Longrightarrow> fbyte bk' x k = fbyte bk x k"
proof -
  have f: "faddr bk' x = faddr bk x" using assms indirect_own [of x bk] by (auto simp: faddr_def fun_eq_iff)
  then show "faddr bk' x n = faddr bk x n" by simp
  show o: "own bk' x = own bk x" by (simp add: own_def f)
  show "layout_ok U bk' x = layout_ok U bk x" unfolding layout_ok_def f o by (rule refl)
  assume "k < MAXFILE * BSIZE"
  then have "k div BSIZE < MAXFILE" by (simp add: div_less_iff_less_mult)
  then show "fbyte bk' x k = fbyte bk x k" using assms faddr_own [of "k div BSIZE" bk x] by (auto simp: fbyte_def f)
qed

lemma get32_zeros: "i + 4 \<le> n \<Longrightarrow> get32 (replicate n 0) i = 0"
  by (simp add: get32_def)

text \<open>
  A new block \<open>n\<close>, filled with zeros, comes into a file in three ways: as a direct block, as the
  indirect block, and as an entry of the indirect block. The bytes of the file do not change.
\<close>

lemma layout_ext:
  assumes "layout_ok U bk x" and "n \<in> U" and "n \<noteq> 0" and "n \<notin> own bk x" and "m < MAXFILE" and "faddr bk x m = 0"
    and "length (i_addrs x') = NDIRECT + 1" and "\<And>j. j < MAXFILE \<Longrightarrow> faddr bk' x' j = (if j = m then n else faddr bk x j)"
    and "i_addrs x' ! NDIRECT = i_addrs x ! NDIRECT" and "bk' n = replicate BSIZE 0" and "\<And>j. j < MAXFILE \<Longrightarrow> faddr bk x j \<noteq> 0 \<Longrightarrow> bk' (faddr bk x j) = bk (faddr bk x j)"
  shows "layout_ok U bk' x'" "own bk' x' = insert n (own bk x)" "k < MAXFILE * BSIZE \<Longrightarrow> fbyte bk' x' k = fbyte bk x k"
proof -
  have "faddr bk' x' ` {..<MAXFILE} - {0} = insert n (faddr bk x ` {..<MAXFILE}) - {0}"
    using assms(5,6,8) by (auto simp: image_iff split: if_splits) 
  then show o: "own bk' x' = insert n (own bk x)" using assms(3,9) unfolding own_def by auto
  note l = layout_okD [OF assms(1)]
  have nf: "j < MAXFILE \<Longrightarrow> faddr bk x j \<noteq> n" for j using assms(3,4) faddr_own [of j bk x] by auto
  show "layout_ok U bk' x'"
    unfolding layout_ok_def o assms(9)
  proof (intro conjI allI impI)
    show "insert n (own bk x) \<subseteq> U" using l(2) assms(2) by blast
    fix j assume j: "j < MAXFILE"
    show "faddr bk' x' j = 0" if "faddr bk' x' j = i_addrs x ! NDIRECT"
      using that l(4) [OF j] assms(3,4) assms(8) [OF j] indirect_own [of x bk] by (auto split: if_splits)
    fix j' assume j': "j' < MAXFILE" and "faddr bk' x' j = faddr bk' x' j'" "faddr bk' x' j \<noteq> 0"
    then show "j = j'" using l(3) [OF j j'] nf [OF j] nf [OF j'] assms(8) [OF j] assms(8) [OF j'] by (auto split: if_splits)
  qed (fact assms(7))
  assume k: "k < MAXFILE * BSIZE"
  then have "k div BSIZE < MAXFILE" by (simp add: div_less_iff_less_mult)
  then show "fbyte bk' x' k = fbyte bk x k" using assms(3,6,8,10,11) by (auto simp: fbyte_def)
qed

definition fresh_block :: "uint set \<Rightarrow> (uint \<Rightarrow> block) \<Rightarrow> inode \<Rightarrow> uint \<Rightarrow> bool" where
  "fresh_block U bk x n \<longleftrightarrow> n \<in> U \<and> n \<noteq> 0 \<and> n \<notin> own bk x \<and> bk n = replicate BSIZE 0"

lemma link_direct:
  assumes "layout_ok U bk x" and "fresh_block U bk x n" and "m < NDIRECT" and "faddr bk x m = 0" and "x' = x\<lparr>i_addrs := (i_addrs x)[m := n]\<rparr>"
  shows "layout_ok U bk x'" "own bk x' = insert n (own bk x)" "k < MAXFILE * BSIZE \<Longrightarrow> fbyte bk x' k = fbyte bk x k"
    "faddr bk x' j = (if j = m then n else faddr bk x j)"
proof -
  have len: "length (i_addrs x) = 13" using layout_okD(1) [OF assms(1)] by simp
  show f: "faddr bk x' j = (if j = m then n else faddr bk x j)" for j using assms(3,5) len by (simp add: faddr_def)
  have n: "n \<in> U" "n \<noteq> 0" "n \<notin> own bk x" "bk n = replicate BSIZE 0" using assms(2) by (auto simp: fresh_block_def)
  have m: "m < MAXFILE" and l: "length (i_addrs x') = NDIRECT + 1" and i: "i_addrs x' ! NDIRECT = i_addrs x ! NDIRECT"
    using assms(3,5) len by simp_all
  note e = layout_ext [where m = m, OF assms(1) n(1-3) m assms(4) l f i n(4) refl]
  show "layout_ok U bk x'" "own bk x' = insert n (own bk x)" "k < MAXFILE * BSIZE \<Longrightarrow> fbyte bk x' k = fbyte bk x k"
    by (fact e)+
qed

lemma link_indirect:
  assumes "layout_ok U bk x" and "fresh_block U bk x n" and "i_addrs x ! NDIRECT = 0" and "x' = x\<lparr>i_addrs := (i_addrs x)[NDIRECT := n]\<rparr>"
  shows "layout_ok U bk x'" "own bk x' = insert n (own bk x)" "k < MAXFILE * BSIZE \<Longrightarrow> fbyte bk x' k = fbyte bk x k"
    "j < MAXFILE \<Longrightarrow> faddr bk x' j = faddr bk x j" "i_addrs x' ! NDIRECT = n"
proof -
  have n: "n \<in> U" "n \<noteq> 0" "n \<notin> own bk x" "bk n = replicate BSIZE 0" using assms(2) by (auto simp: fresh_block_def)
  note l = layout_okD [OF assms(1)]
  show i: "i_addrs x' ! NDIRECT = n" using l(1) by (simp add: assms(4))
  show f: "faddr bk x' j = faddr bk x j" if "j < MAXFILE" for j
    using that l(1) assms(3) n(4) by (auto simp: assms(4) faddr_def get32_zeros)
  then have im: "faddr bk x' ` {..<MAXFILE} = faddr bk x ` {..<MAXFILE}" by auto
  show o: "own bk x' = insert n (own bk x)" unfolding own_def im i assms(3) using n(2) by auto
  have nf: "faddr bk x j \<noteq> n" if "j < MAXFILE" for j using n faddr_own [OF that, of bk x] by auto
  show "layout_ok U bk x'"
    unfolding layout_ok_def o i
  proof (intro conjI allI impI)
    show "length (i_addrs x') = NDIRECT + 1" using l(1) by (simp add: assms(4))
    show "insert n (own bk x) \<subseteq> U" using n(1) l(2) by blast
    show "faddr bk x' j = 0" if "j < MAXFILE" "faddr bk x' j = n" for j using that nf f by auto
    show "j = j'" if "j < MAXFILE" "j' < MAXFILE" "faddr bk x' j = faddr bk x' j'" "faddr bk x' j \<noteq> 0" for j j'
      using that l(3) f by simp
  qed
  assume "k < MAXFILE * BSIZE"
  then have "k div BSIZE < MAXFILE" by (simp add: div_less_iff_less_mult)
  then show "fbyte bk x' k = fbyte bk x k" using f by (simp add: fbyte_def)
qed

lemma link_entry:
  assumes "layout_ok U bk x" and "fresh_block U bk x n" and "i_addrs x ! NDIRECT \<noteq> 0" and "NDIRECT \<le> m" "m < MAXFILE" and "faddr bk x m = 0"
    and "bk' = bk(i_addrs x ! NDIRECT := put32 (4 * (m - NDIRECT)) n (bk (i_addrs x ! NDIRECT)))" and "\<And>a. length (bk a) = BSIZE"
  shows "layout_ok U bk' x" "own bk' x = insert n (own bk x)" "k < MAXFILE * BSIZE \<Longrightarrow> fbyte bk' x k = fbyte bk x k"
    "j < MAXFILE \<Longrightarrow> faddr bk' x j = (if j = m then n else faddr bk x j)"
proof -
  let ?a = "i_addrs x ! NDIRECT"
  show f: "faddr bk' x j = (if j = m then n else faddr bk x j)" if "j < MAXFILE" for j
  proof -
    have "get32 (put32 (4 * (m - 12)) n (bk ?a)) (4 * (j - 12)) = get32 (bk ?a) (4 * (j - 12))" if "12 \<le> j" "j \<noteq> m"
      using that \<open>j < MAXFILE\<close> assms(4,5,8) by (intro get_put_apart) (simp_all, linarith)
    moreover have "get32 (put32 (4 * (m - 12)) n (bk ?a)) (4 * (m - 12)) = n"
      using assms(4,5,8) by (intro get32_put32_same) simp
    ultimately show ?thesis using assms(3,4) by (auto simp: faddr_def assms(7))
  qed
  have n: "n \<in> U" "n \<noteq> 0" "n \<notin> own bk x" "bk n = replicate BSIZE 0" using assms(2) by (auto simp: fresh_block_def)
  have "?a \<noteq> n" using n(3) indirect_own [OF assms(3)] by auto
  then have b: "bk' n = replicate BSIZE 0" using n(4) by (simp add: assms(7))
  have d: "bk' (faddr bk x j) = bk (faddr bk x j)" if "j < MAXFILE" "faddr bk x j \<noteq> 0" for j
    using layout_okD(4) [OF assms(1) that] by (simp add: assms(7))
  note e = layout_ext [where m = m, OF assms(1) n(1-3) assms(5,6) layout_okD(1) [OF assms(1)] f refl b d]
  show "layout_ok U bk' x" "own bk' x = insert n (own bk x)" "k < MAXFILE * BSIZE \<Longrightarrow> fbyte bk' x k = fbyte bk x k"
    by (rule e; assumption?)+
qed

section \<open>Growing a file\<close>

definition data_blocks :: "'a fs_state_scheme \<Rightarrow> uint set" where
  "data_blocks s = {a. a < sb_size (sb s) \<and> used s a \<and> \<not> reserved s a}"

definition inode_ok :: "'a fs_state_scheme \<Rightarrow> nat \<Rightarrow> bool" where
  "inode_ok s ip \<longleftrightarrow> layout_ok (data_blocks s) (blk s) (ino s ip) \<and> i_dev (ino s ip) = 1 \<and> i_inum (ino s ip) < sb_ninodes (sb s)"

abbreviation fown :: "'a fs_state_scheme \<Rightarrow> nat \<Rightarrow> uint set" where
  "fown s ip \<equiv> own (blk s) (ino s ip)"

text \<open>Only the inode cache changed besides what a transaction changes.\<close>

definition fs_frame :: "nat set \<Rightarrow> 'a fs_state_scheme \<Rightarrow> 'a fs_state_scheme \<Rightarrow> bool" where
  "fs_frame B s s' \<longleftrightarrow> tx_frame B (s\<lparr>icache := icache s'\<rparr>) s'"

lemma icache_upd [simp]:
  "blk (s\<lparr>icache := c\<rparr>) = blk s" "in_fs i B k (s\<lparr>icache := c\<rparr>) = in_fs i B k s" "used (s\<lparr>icache := c\<rparr>) = used s"
  "log_region (s\<lparr>icache := c\<rparr>) = log_region s" "reserved (s\<lparr>icache := c\<rparr>) = reserved s" "fs_ok (s\<lparr>icache := c\<rparr>) = fs_ok s"
  "nfree (s\<lparr>icache := c\<rparr>) = nfree s" "data_blocks (s\<lparr>icache := c\<rparr>) = data_blocks s"
proof -
  have cc: "bc_ok B (s\<lparr>icache := c\<rparr>) = bc_ok B s" "blk (s\<lparr>icache := c\<rparr>) = blk s" "bdirty (s\<lparr>icache := c\<rparr>) = bdirty s"
    by (rule cache_cong; simp add: mypid_def)+
  then show b: "blk (s\<lparr>icache := c\<rparr>) = blk s" by blast
  show u: "used (s\<lparr>icache := c\<rparr>) = used s" by (simp add: used_def b fun_eq_iff)
  show l: "log_region (s\<lparr>icache := c\<rparr>) = log_region s" by (simp add: log_region_def log_at_def)
  show r: "reserved (s\<lparr>icache := c\<rparr>) = reserved s" by (simp add: reserved_def l fun_eq_iff)
  show "fs_ok (s\<lparr>icache := c\<rparr>) = fs_ok s" by (simp add: fs_ok_def r u l)
  show "nfree (s\<lparr>icache := c\<rparr>) = nfree s" by (simp add: nfree_def u)
  show "data_blocks (s\<lparr>icache := c\<rparr>) = data_blocks s" by (simp add: data_blocks_def u r)
  have g: "log_geom L (s\<lparr>icache := c\<rparr>) = log_geom L s" for L by (rule geom_cong) simp_all
  show "in_fs i B k (s\<lparr>icache := c\<rparr>) = in_fs i B k s"
    by (simp add: in_fs_def in_tx_def tx_room_def runs_in_def ptable_ok_def cc g)
qed

lemma tx_frame_icache:
  assumes "tx_frame B s s'"
  shows "tx_frame B (s\<lparr>icache := c\<rparr>) (s'\<lparr>icache := c\<rparr>)"
proof -
  have e: "s' = s\<lparr>ptable := ptable s', slocks := slocks s', bufs := bufs s', lh_n := lh_n s', lh_block := lh_block s'\<rparr>"
    using assms unfolding tx_frame_def by blast
  have "s'\<lparr>icache := c\<rparr> = s\<lparr>icache := c, ptable := ptable s', slocks := slocks s', bufs := bufs s', lh_n := lh_n s', lh_block := lh_block s'\<rparr>"
    by (subst (1) e, rule fs_state.equality) simp_all
  moreover have "woke (s\<lparr>icache := c\<rparr>) (s\<lparr>icache := c, ptable := ptable s'\<rparr>)" using assms by (simp add: tx_frame_def woke_def)
  ultimately show ?thesis using assms by (simp add: tx_frame_def)
qed

lemma fs_frame_trans: "fs_frame B s s' \<Longrightarrow> fs_frame B s' s'' \<Longrightarrow> fs_frame B s s''"
  using tx_frame_icache [of B "s\<lparr>icache := icache s'\<rparr>" s' "icache s''"] tx_frame_trans unfolding fs_frame_def by simp blast

lemma fs_frame_tx: "tx_frame B s s' \<Longrightarrow> fs_frame B s s'"
  using tx_frame_fs(2) [of B s s'] by (simp add: fs_frame_def)

lemma fs_frame_icache [simp]: "fs_frame B s (s\<lparr>icache := c\<rparr>)"
  by (simp add: fs_frame_def)

lemma fs_frame_fields:
  assumes "fs_frame B s s'"
  shows "sb s' = sb s" "disksize s' = disksize s" "log_region s' = log_region s" "fs_state.more s' = fs_state.more s"
    "slocks s' (SInode j) = slocks s (SInode j)"
  using tx_frame_fs [OF assms [unfolded fs_frame_def]] by simp_all

text \<open>
  \<open>kept X s s'\<close>: used blocks stay used, and those outside \<open>X\<close> keep their contents, but for the
  bitmap. \<open>fgrown ip c s s'\<close>: the file may have more blocks than before, with the same bytes, and at
  most \<open>c\<close> blocks were taken for it.
\<close>

definition kept :: "uint set \<Rightarrow> 'a fs_state_scheme \<Rightarrow> 'a fs_state_scheme \<Rightarrow> bool" where
  "kept X s s' \<longleftrightarrow> (\<forall>m < sb_size (sb s). used s m \<longrightarrow> used s' m \<and> (m \<notin> X \<longrightarrow> \<not> bitmap_block (sb s) m \<longrightarrow> blk s' m = blk s m))"

definition same_file :: "nat \<Rightarrow> 'a fs_state_scheme \<Rightarrow> 'a fs_state_scheme \<Rightarrow> bool" where
  "same_file ip s s' \<longleftrightarrow>
     (\<forall>k < MAXFILE * BSIZE. fbyte (blk s') (ino s' ip) k = fbyte (blk s) (ino s ip) k) \<and>
     (\<forall>j < MAXFILE. faddr (blk s) (ino s ip) j \<noteq> 0 \<longrightarrow> faddr (blk s') (ino s' ip) j = faddr (blk s) (ino s ip) j)"

definition fgrown :: "nat \<Rightarrow> nat \<Rightarrow> 'a fs_state_scheme \<Rightarrow> 'a fs_state_scheme \<Rightarrow> bool" where
  "fgrown ip c s s' \<longleftrightarrow> fs_frame {} s s' \<and> fs_ok s' \<and> inode_ok s' ip \<and> nfree s \<le> nfree s' + c \<and>
     icache s' = (icache s)(ip := (ino s ip)\<lparr>i_addrs := i_addrs (ino s' ip)\<rparr>) \<and> same_file ip s s' \<and>
     kept (fown s ip) s s' \<and> fown s' ip \<subseteq> fown s ip \<union> {m. \<not> used s m}"

lemma fgrownD:
  assumes "fgrown ip c s s'"
  shows "fs_frame {} s s'" "fs_ok s'" "inode_ok s' ip" "nfree s \<le> nfree s' + c"
    "icache s' = (icache s)(ip := (ino s ip)\<lparr>i_addrs := i_addrs (ino s' ip)\<rparr>)" "same_file ip s s'"
    "kept (fown s ip) s s'" "fown s' ip \<subseteq> fown s ip \<union> {m. \<not> used s m}" "sb s' = sb s"
  using assms fs_frame_fields(1) [of "{}" s s'] unfolding fgrown_def by blast+

lemma fown_used:
  assumes "inode_ok s ip"
  shows "fown s ip \<subseteq> data_blocks s"
  using assms by (simp add: inode_ok_def layout_ok_def)

lemma fgrown_refl: "fs_ok s \<Longrightarrow> inode_ok s ip \<Longrightarrow> fgrown ip 0 s s"
  using fs_frame_tx [OF tx_frame_refl, of "{}" s] by (simp add: fgrown_def same_file_def kept_def)

lemma kept_trans:
  assumes "kept X s s'" and "kept Y s' s''" and "sb s' = sb s" and "Y \<subseteq> X \<union> {m. \<not> used s m}"
  shows "kept X s s''"
  unfolding kept_def
proof (intro allI impI)
  fix m assume m: "m < sb_size (sb s)" "used s m"
  then have 1: "used s' m" "m \<notin> X \<Longrightarrow> \<not> bitmap_block (sb s) m \<Longrightarrow> blk s' m = blk s m" using assms(1) unfolding kept_def by blast+
  with m(1) assms(2,3) have 2: "used s'' m" "m \<notin> Y \<Longrightarrow> \<not> bitmap_block (sb s) m \<Longrightarrow> blk s'' m = blk s' m" unfolding kept_def by auto
  have "m \<notin> Y" if "m \<notin> X" using that m(2) assms(4) by blast
  with 1 2 show "used s'' m \<and> (m \<notin> X \<longrightarrow> \<not> bitmap_block (sb s) m \<longrightarrow> blk s'' m = blk s m)" by simp
qed

lemma inode_addrs_trans:
  fixes c c' c'' :: "nat \<Rightarrow> inode"
  assumes "c' = c(ip := (c ip)\<lparr>i_addrs := i_addrs (c' ip)\<rparr>)" and "c'' = c'(ip := (c' ip)\<lparr>i_addrs := i_addrs (c'' ip)\<rparr>)"
  shows "c'' = c(ip := (c ip)\<lparr>i_addrs := i_addrs (c'' ip)\<rparr>)"
proof
  have t: "z = x\<lparr>i_addrs := i_addrs z\<rparr>" if "y = x\<lparr>i_addrs := i_addrs y\<rparr>" "z = y\<lparr>i_addrs := i_addrs z\<rparr>" for x y z :: inode
    using that by (cases x; cases y; cases z) simp
  fix j
  show "c'' j = (c(ip := (c ip)\<lparr>i_addrs := i_addrs (c'' ip)\<rparr>)) j"
  proof (cases "j = ip")
    case True
    then show ?thesis using t [of "c' ip" "c ip" "c'' ip"] fun_cong [OF assms(1), of ip] fun_cong [OF assms(2), of ip] by (metis fun_upd_same)
  next
    case False
    then show ?thesis using fun_cong [OF assms(1), of j] fun_cong [OF assms(2), of j] by (metis fun_upd_other)
  qed
qed

lemma fgrown_trans:
  assumes "fgrown ip c s s'" and "fgrown ip d s' s''"
  shows "fgrown ip (c + d) s s''"
proof -
  note a = fgrownD [OF assms(1)] and b = fgrownD [OF assms(2)]
  have "fown s'' ip \<subseteq> fown s ip \<union> {m. \<not> used s m}"
  proof
    fix m assume m: "m \<in> fown s'' ip"
    have "m < sb_size (sb s)" using fown_used [OF b(3)] m a(9) b(9) by (auto simp: data_blocks_def)
    then have "\<not> used s' m \<Longrightarrow> \<not> used s m" using a(7) unfolding kept_def by blast
    then show "m \<in> fown s ip \<union> {m. \<not> used s m}" using m a(8) b(8) by blast
  qed
  moreover have "icache s'' = (icache s)(ip := (ino s ip)\<lparr>i_addrs := i_addrs (ino s'' ip)\<rparr>)"
    by (rule inode_addrs_trans [OF a(5) b(5)])
  moreover have "same_file ip s s''" using a(6) b(6) unfolding same_file_def by simp
  ultimately show ?thesis
    unfolding fgrown_def using a(4) b fs_frame_trans [OF a(1) b(1)] kept_trans [OF a(7) b(7) a(9,8)] by auto
qed

text \<open>The new block is in the data area, and no file has it yet.\<close>

lemma fgrown_balloc:
  assumes "balloc_effect n s s'" and "tx_frame B s s'" and "fs_ok s" and "inode_ok s ip" and "\<And>n. length (blk s n) = BSIZE"
  shows "fgrown ip 1 s s'" "fresh_block (data_blocks s') (blk s') (ino s' ip) n" "icache s' = icache s"
proof -
  note e = balloc_effectD [OF assms(1,3,2,5)] and f = tx_frame_fs [OF assms(2)]
  show ic: "icache s' = icache s" by (fact f(2))
  have res: "reserved s' = reserved s" using fs_ok_cong(2) [OF assms(3,2)] e(5) fs_okD(2,3) [OF assms(3)] by blast
  have o: "fown s ip \<subseteq> data_blocks s" using assms(4) by (rule fown_used)
  have bk: "\<forall>a \<in> fown s ip. blk s' a = blk s a"
  proof
    fix a assume "a \<in> fown s ip"
    then have "a \<in> data_blocks s" using o by blast
    then have "a \<noteq> n" "\<not> bitmap_block (sb s) a" using e(3) by (auto simp: data_blocks_def reserved_def)
    then show "blk s' a = blk s a" by (rule e(7))
  qed
  note c = layout_cong [OF bk]
  have D: "data_blocks s' = insert n (data_blocks s)" using e(2-5) unfolding data_blocks_def res f(1) by auto
  have own: "own (blk s') (ino s ip) = fown s ip" by (fact c(2))
  have ok: "inode_ok s' ip"
    using assms(4) layout_ok_mono [of "data_blocks s" "blk s'" "ino s ip" "data_blocks s'"] c(3) unfolding inode_ok_def ic f(1) D by blast
  have ne: "used s m \<Longrightarrow> m \<noteq> n" for m using e(3) by auto
  have "kept (fown s ip) s s'" unfolding kept_def using ne e(5,7) by blast
  moreover have "same_file ip s s'" using c(1,4) unfolding same_file_def ic by simp
  ultimately show "fgrown ip 1 s s'"
    unfolding fgrown_def using e(8,9) ok fs_frame_tx [OF tx_frame_sub [OF assms(2), of "{}"]] own by (simp add: ic)
  have "n \<notin> fown s ip" using o e(3) by (auto simp: data_blocks_def)
  then show "fresh_block (data_blocks s') (blk s') (ino s' ip) n" unfolding fresh_block_def ic own D using e(1,6) by simp
qed

lemma used_same:
  assumes "fs_ok s" and "sb s' = sb s" and "\<forall>a. a \<notin> X \<longrightarrow> blk s' a = blk s a" and "X \<subseteq> data_blocks s" and "m < sb_size (sb s)"
  shows "used s' m = used s m"
proof -
  have "reserved s (BBLOCK m (sb s))" using assms(5) by (auto simp: reserved_def bitmap_block_def)
  then have "BBLOCK m (sb s) \<notin> X" using assms(4) by (auto simp: data_blocks_def)
  with assms(2,3) show ?thesis by (simp add: used_def)
qed

lemma fs_ok_data:
  assumes "fs_ok s" and "fs_frame B s s'" and "\<forall>a. a \<notin> X \<longrightarrow> blk s' a = blk s a" and "X \<subseteq> data_blocks s"
  shows "fs_ok s'" "data_blocks s' = data_blocks s" "nfree s' = nfree s" "reserved s' = reserved s"
proof -
  note f = fs_frame_fields [OF assms(2)]
  note us = used_same [OF assms(1) f(1) assms(3,4)]
  show r: "reserved s' = reserved s" by (simp add: reserved_def f fun_eq_iff)
  show "fs_ok s'" unfolding fs_ok_def r f(1-3) using assms(1) us unfolding fs_ok_def by blast
  show "data_blocks s' = data_blocks s" unfolding data_blocks_def r f(1) using us by blast
  have "{n. n < sb_size (sb s) \<and> \<not> used s' n} = {n. n < sb_size (sb s) \<and> \<not> used s n}" using us by blast
  then show "nfree s' = nfree s" by (simp add: nfree_def f(1))
qed

lemma fgrown_link:
  assumes "fgrown ip c s s1" and "\<not> used s n" and "fs_frame {} s1 s'"
    and "icache s' = (icache s1)(ip := (ino s1 ip)\<lparr>i_addrs := i_addrs (ino s' ip)\<rparr>)" and "\<forall>a. a \<notin> fown s1 ip \<longrightarrow> blk s' a = blk s1 a"
    and "fown s' ip = insert n (fown s1 ip)" and "layout_ok (data_blocks s1) (blk s') (ino s' ip)" and "same_file ip s1 s'"
  shows "fgrown ip c s s'"
proof -
  note g = fgrownD [OF assms(1)] and f = fs_frame_fields [OF assms(3)]
  have o: "fown s1 ip \<subseteq> data_blocks s1" using g(3) by (rule fown_used)
  note d = fs_ok_data [OF g(2) assms(3,5) o]
  have "i_dev (ino s' ip) = i_dev (ino s1 ip)" "i_inum (ino s' ip) = i_inum (ino s1 ip)" by (subst assms(4), simp)+
  then have ok: "inode_ok s' ip" using g(3) assms(7) d(2) f(1) by (simp add: inode_ok_def)
  have "kept (fown s1 ip) s1 s'" unfolding kept_def using assms(5) used_same [OF g(2) f(1) assms(5) o] by blast
  then have k: "kept (fown s ip) s s'" by (rule kept_trans [OF g(7) _ g(9,8)])
  have "same_file ip s s'" using g(6) assms(8) unfolding same_file_def by simp
  moreover have "fown s' ip \<subseteq> fown s ip \<union> {m. \<not> used s m}" unfolding assms(6) using g(8) assms(2) by blast
  ultimately show ?thesis
    unfolding fgrown_def using d(1,3) g(4) ok k fs_frame_trans [OF g(1) assms(3)] inode_addrs_trans [OF g(5) assms(4)] by simp
qed

lemma upd_inode_frame [simp]: "fs_frame B s (upd_inode ip f s)" "blk (upd_inode ip f s) = blk s" "in_fs i B k (upd_inode ip f s) = in_fs i B k s"
  by (simp_all add: upd_inode_def)

lemma fgrown_direct:
  assumes "fgrown ip c s s1" and "\<not> used s n" and "fresh_block (data_blocks s1) (blk s1) (ino s1 ip) n" and "m < NDIRECT" and "faddr (blk s1) (ino s1 ip) m = 0"
    and "s' = upd_inode ip (\<lambda>x. x\<lparr>i_addrs := (i_addrs x)[m := n]\<rparr>) s1"
  shows "fgrown ip c s s'" "faddr (blk s') (ino s' ip) m = n"
proof -
  have l: "layout_ok (data_blocks s1) (blk s1) (ino s1 ip)" using fgrownD(3) [OF assms(1)] by (simp add: inode_ok_def)
  have i: "ino s' ip = (ino s1 ip)\<lparr>i_addrs := (i_addrs (ino s1 ip))[m := n]\<rparr>" by (simp add: assms(6) upd_inode_def)
  have b: "blk s' = blk s1" by (simp add: assms(6))
  note e = link_direct [OF l assms(3-5) i]
  show "faddr (blk s') (ino s' ip) m = n" using e(4) by (simp add: b)
  have "same_file ip s1 s'" using e(3,4) assms(5) by (simp add: same_file_def b)
  moreover have "icache s' = (icache s1)(ip := (ino s1 ip)\<lparr>i_addrs := i_addrs (ino s' ip)\<rparr>)" by (simp add: assms(6) upd_inode_def)
  ultimately show "fgrown ip c s s'"
    using e(1,2) by (intro fgrown_link [OF assms(1,2)]) (simp_all add: b, simp add: assms(6))
qed

lemma fgrown_indirect:
  assumes "fgrown ip c s s1" and "\<not> used s n" and "fresh_block (data_blocks s1) (blk s1) (ino s1 ip) n" and "i_addrs (ino s1 ip) ! NDIRECT = 0"
    and "s' = upd_inode ip (\<lambda>x. x\<lparr>i_addrs := (i_addrs x)[NDIRECT := n]\<rparr>) s1"
  shows "fgrown ip c s s'" "i_addrs (ino s' ip) ! NDIRECT = n"
proof -
  have l: "layout_ok (data_blocks s1) (blk s1) (ino s1 ip)" using fgrownD(3) [OF assms(1)] by (simp add: inode_ok_def)
  have i: "ino s' ip = (ino s1 ip)\<lparr>i_addrs := (i_addrs (ino s1 ip))[NDIRECT := n]\<rparr>" by (simp add: assms(5) upd_inode_def)
  have b: "blk s' = blk s1" by (simp add: assms(5))
  note e = link_indirect [OF l assms(3,4) i]
  show "i_addrs (ino s' ip) ! NDIRECT = n" by (fact e(5))
  have "same_file ip s1 s'" using e(3,4) by (simp add: same_file_def b)
  moreover have "icache s' = (icache s1)(ip := (ino s1 ip)\<lparr>i_addrs := i_addrs (ino s' ip)\<rparr>)" by (simp add: assms(5) upd_inode_def)
  ultimately show "fgrown ip c s s'"
    using e(1,2) by (intro fgrown_link [OF assms(1,2)]) (simp_all add: b, simp add: assms(5))
qed

lemma fgrown_entry:
  assumes "fgrown ip c s s1" and "\<not> used s n" and "fresh_block (data_blocks s1) (blk s1) (ino s1 ip) n" and "i_addrs (ino s1 ip) ! NDIRECT \<noteq> 0"
    and "NDIRECT \<le> m" "m < MAXFILE" and "faddr (blk s1) (ino s1 ip) m = 0" and "tx_frame {} s1 s'" and "\<And>a. length (blk s1 a) = BSIZE"
    and "blk s' = (blk s1)(i_addrs (ino s1 ip) ! NDIRECT := put32 (4 * (m - NDIRECT)) n (blk s1 (i_addrs (ino s1 ip) ! NDIRECT)))"
  shows "fgrown ip c s s'" "faddr (blk s') (ino s' ip) m = n"
proof -
  have l: "layout_ok (data_blocks s1) (blk s1) (ino s1 ip)" using fgrownD(3) [OF assms(1)] by (simp add: inode_ok_def)
  have ic: "icache s' = icache s1" using tx_frame_fs(2) [OF assms(8)] .
  note e = link_entry [OF l assms(3-7,10,9)]
  show "faddr (blk s') (ino s' ip) m = n" using e(4) [of m] assms(6) by (simp add: ic)
  have "same_file ip s1 s'" using e(3,4) assms(7) by (simp add: same_file_def ic)
  moreover have "a \<notin> fown s1 ip \<Longrightarrow> blk s' a = blk s1 a" for a using indirect_own [OF assms(4), of "blk s1"] by (auto simp: assms(10))
  ultimately show "fgrown ip c s s'"
    using e(1,2) fs_frame_tx [OF assms(8)] by (intro fgrown_link [OF assms(1,2)]) (simp_all add: ic)
qed

lemma fgrown_read:
  assumes "tx_frame B s s'" and "blk s' = blk s" and "fs_ok s" and "inode_ok s ip"
  shows "fgrown ip 0 s s'" "icache s' = icache s"
proof -
  show ic: "icache s' = icache s" using tx_frame_fs(2) [OF assms(1)] .
  have fr: "fs_frame {} s s'" by (rule fs_frame_tx [OF tx_frame_sub [OF assms(1)]]) simp
  note d = fs_ok_data [OF assms(3) fr, of "{}"]
  have u: "used s' = used s" using fs_frame_fields(1) [OF fr] assms(2) by (simp add: used_def fun_eq_iff)
  show "fgrown ip 0 s s'"
    unfolding fgrown_def using d assms(2,4) fr fs_frame_fields(1) [OF fr] by (simp add: ic same_file_def kept_def inode_ok_def u)
qed

lemma in_fs_no_held: "no_held_bitmap {} s"
  by (simp add: no_held_bitmap_def)

text \<open>A block that is there is found without a change.\<close>

lemma fown_on_disk: "fs_ok s \<Longrightarrow> inode_ok s ip \<Longrightarrow> a \<in> fown s ip \<Longrightarrow> a < disksize s \<and> used s a \<and> \<not> reserved s a"
  using fown_used [of s ip] fs_okD(6) [of s a] by (auto simp: data_blocks_def)

lemma bn_indirect:
  fixes bn :: uint
  assumes "\<not> unat bn < 12" and "unat bn < 140"
  shows "unat (bn - of_nat NDIRECT) = unat bn - 12" "unat (bn - of_nat NDIRECT) < 128"
  using assms by (simp_all add: unat_diff_word del: unat_sub_if_size)

lemma bmap_mapped:
  assumes "in_fs i {} k s" and "fs_ok s" and "inode_ok s ip" and "unat bn < MAXFILE" and "faddr (blk s) (ino s ip) (unat bn) \<noteq> 0"
  shows "\<exists>s'. bmap ip bn s = Inr (faddr (blk s) (ino s ip) (unat bn), s') \<and> in_fs i {} k s' \<and> tx_frame {} s s' \<and> blk s' = blk s"
proof (cases "unat bn < 12")
  case True
  then show ?thesis using assms(1,5) by (intro exI [of _ s]) (simp add: bmap_def faddr_def)
next
  case False
  let ?a = "i_addrs (ino s ip) ! 12"
  have a: "?a \<noteq> 0" using assms(5) False by (auto simp: faddr_def)
  have ad: "?a < disksize s" using fown_on_disk [OF assms(2,3) indirect_own [OF a]] by blast
  have dev: "i_dev (ino s ip) = 1" using assms(3) by (simp add: inode_ok_def)
  obtain b s1 s' where r: "bread 1 ?a s = Inr (b, s1)" "b_data (bufs s1 b) = blk s ?a" "tx_frame {} s s1" "brelse b s1 = Inr s'"
      "in_fs i {} k s'" "tx_frame {} s s'" "blk s' = blk s"
    using fs_read [OF assms(1) ad] by auto
  note n = bn_indirect [OF False assms(4)]
  have "get32 (blk s ?a) (4 * unat (bn - of_nat NDIRECT)) = faddr (blk s) (ino s ip) (unat bn)" using False a by (simp only: n(1) faddr_def) simp
  then show ?thesis
    using False a dev r n(2) assms(5) by (intro exI [of _ s']) (simp add: bmap_def Let_def del: unat_sub_if_size)
qed

lemma bmap_hole_direct:
  assumes "in_fs i {} (k + 2) s" and "fs_ok s" and "inode_ok s ip" and "unat bn < NDIRECT" and "faddr (blk s) (ino s ip) (unat bn) = 0" and "0 < nfree s"
  shows "\<exists>a s'. bmap ip bn s = Inr (a, s') \<and> fgrown ip 1 s s' \<and> in_fs i {} k s' \<and> a = faddr (blk s') (ino s' ip) (unat bn) \<and> a \<noteq> 0"
proof -
  have dev: "i_dev (ino s ip) = 1" using assms(3) by (simp add: inode_ok_def)
  have "in_fs i {} (Suc (Suc k)) s" using assms(1) by simp
  from balloc_runs [OF this _ assms(2) in_fs_no_held assms(6)] obtain n s1 where
    s1: "balloc 1 s = Inr (n, s1)" "balloc_effect n s s1" "in_fs i {} k s1" "tx_frame {} s s1" by auto
  note g = fgrown_balloc [OF s1(2,4) assms(2,3) in_fs_blk_length [OF assms(1)]]
  have n: "\<not> used s n" "n \<noteq> 0" using balloc_effectD(1,3) [OF s1(2) assms(2) s1(4) in_fs_blk_length [OF assms(1)]] by simp_all
  have h: "i_addrs (ino s ip) ! unat bn = 0" using assms(4,5) by (simp add: faddr_def)
  have h1: "faddr (blk s1) (ino s1 ip) (unat bn) = 0" using h assms(4) by (simp add: faddr_def g(3))
  let ?s' = "upd_inode ip (\<lambda>x. x\<lparr>i_addrs := (i_addrs x)[unat bn := n]\<rparr>) s1"
  note d = fgrown_direct [OF g(1) n(1) g(2) assms(4) h1 refl]
  have "bmap ip bn s = Inr (n, ?s')" using assms(4) h dev s1(1) by (simp add: bmap_def)
  with d n(2) s1(3) show ?thesis by (intro exI [of _ n] exI [of _ ?s']) simp
qed

text \<open>The first half of the indirect case: the indirect block is there or comes into the file.\<close>

lemma bmap_indirect:
  assumes "in_fs i {} (k + 2) s" and "fs_ok s" and "inode_ok s ip" and "0 < nfree s"
  shows "\<exists>a s'. (if i_addrs (ino s ip) ! NDIRECT = 0 then
                    seq (balloc (i_dev (ino s ip)) s) (\<lambda>(addr, s).
                    Inr (addr, upd_inode ip (\<lambda>x. x\<lparr>i_addrs := (i_addrs x)[NDIRECT := addr]\<rparr>) s))
                  else Inr (i_addrs (ino s ip) ! NDIRECT, s)) = Inr (a, s') \<and>
    fgrown ip 1 s s' \<and> in_fs i {} k s' \<and> a = i_addrs (ino s' ip) ! NDIRECT \<and> a \<noteq> 0"
proof (cases "i_addrs (ino s ip) ! NDIRECT = 0")
  case True
  have dev: "i_dev (ino s ip) = 1" using assms(3) by (simp add: inode_ok_def)
  have "in_fs i {} (Suc (Suc k)) s" using assms(1) by simp
  from balloc_runs [OF this _ assms(2) in_fs_no_held assms(4)] obtain n s1 where
    s1: "balloc 1 s = Inr (n, s1)" "balloc_effect n s s1" "in_fs i {} k s1" "tx_frame {} s s1" by auto
  note g = fgrown_balloc [OF s1(2,4) assms(2,3) in_fs_blk_length [OF assms(1)]]
  have n: "\<not> used s n" "n \<noteq> 0" using balloc_effectD(1,3) [OF s1(2) assms(2) s1(4) in_fs_blk_length [OF assms(1)]] by simp_all
  have h1: "i_addrs (ino s1 ip) ! NDIRECT = 0" using True by (simp add: g(3))
  note d = fgrown_indirect [OF g(1) n(1) g(2) h1 refl]
  show ?thesis
    using True dev s1(1,3) n(2) d by (intro exI [of _ n] exI [of _ "upd_inode ip (\<lambda>x. x\<lparr>i_addrs := (i_addrs x)[NDIRECT := n]\<rparr>) s1"]) simp
next
  case False
  have "fgrown ip (0 + 1) s s" using fgrown_refl [OF assms(2,3)] by (simp add: fgrown_def)
  with False show ?thesis using in_fs_le [OF assms(1)] by (intro exI [of _ "i_addrs (ino s ip) ! NDIRECT"] exI [of _ s]) simp
qed

text \<open>The second half: the entry of the indirect block is missing.\<close>

lemma bmap_entry:
  assumes "in_fs i {} (k + 3) s" and "fs_ok s" and "inode_ok s ip" and "0 < nfree s"
    and "a = i_addrs (ino s ip) ! NDIRECT" and "a \<noteq> 0" and "NDIRECT \<le> m" "m < MAXFILE" and "faddr (blk s) (ino s ip) m = 0"
  shows "\<exists>b s1 n s2 s3 s'. bread 1 a s = Inr (b, s1) \<and> b_data (bufs s1 b) = blk s a \<and> icache s1 = icache s \<and> balloc 1 s1 = Inr (n, s2) \<and>
    log_write b (set_data b (put32 (4 * (m - NDIRECT)) n (b_data (bufs s2 b))) s2) = Inr s3 \<and> brelse b s3 = Inr s' \<and>
    fgrown ip 1 s s' \<and> in_fs i {} k s' \<and> n = faddr (blk s') (ino s' ip) m \<and> n \<noteq> 0"
proof -
  have own: "a \<in> fown s ip" using indirect_own assms(5,6) by blast
  have a: "a < disksize s" "used s a" "\<not> reserved s a" using fown_on_disk [OF assms(2,3) own] by simp_all
  obtain b s1 where s1: "bread 1 a s = Inr (b, s1)" "in_fs i {b} (k + 3) s1" "tx_frame {} s s1" "b_blockno (bufs s1 b) = a"
      "b_data (bufs s1 b) = blk s a" "blk s1 = blk s"
    using fs_bread [OF assms(1) a(1)] by auto
  note g1 = fgrown_read [OF s1(3,6) assms(2,3)]
  note gd = fgrownD [OF g1(1)]
  have h: "no_held_bitmap {b} s1"
    using a(2,3) s1(4,6) gd(9) by (simp add: no_held_bitmap_def held_blocks_def used_def reserved_def)
  have "in_fs i {b} (Suc (Suc (k + 1))) s1" using s1(2) by (simp add: eval_nat_numeral)
  from balloc_runs [OF this _ gd(2) h] obtain n s2 where
    s2: "balloc 1 s1 = Inr (n, s2)" "balloc_effect n s1 s2" "in_fs i {b} (k + 1) s2" "tx_frame {b} s1 s2" using gd(4) assms(4) by auto
  note len = in_fs_blk_length [OF s1(2)]
  note e = balloc_effectD [OF s2(2) gd(2) s2(4) len]
  note g2 = fgrown_balloc [OF s2(2,4) gd(2,3) len]
  have sc: "b_blockno (bufs s2 b) = a" "b_data (bufs s2 b) = blk s a" using s2(4) s1(4,5) by (simp_all add: tx_frame_def same_contents_def)
  have "a \<noteq> n" "\<not> bitmap_block (sb s1) a" using e(3) h a(3) gd(9) s1(4) by (auto simp: no_held_bitmap_def held_blocks_def reserved_def)
  then have ba: "blk s2 a = blk s a" using e(7) s1(6) by simp
  have lr: "b_blockno (bufs s2 b) \<notin> log_region s2"
    using a(3) sc(1) tx_frame_fs(4) [OF s2(4)] tx_frame_fs(4) [OF s1(3)] by (simp add: reserved_def)
  have ld: "length (put32 (4 * (m - NDIRECT)) n (b_data (bufs s2 b))) = BSIZE"
    using in_fs_blk_length [OF assms(1), of a] assms(7,8) by (simp add: sc)
  obtain s3 where s3: "log_write b (set_data b (put32 (4 * (m - NDIRECT)) n (b_data (bufs s2 b))) s2) = Inr s3" "in_fs i {b} k s3" "tx_frame {} s2 s3"
      "blk s3 = (blk s2)(a := put32 (4 * (m - NDIRECT)) n (b_data (bufs s2 b)))"
    using fs_log_write [of i b "{}" k s2, OF _ _ ld lr] s2(3) sc(1) by auto
  obtain s' where s': "brelse b s3 = Inr s'" "in_fs i {} k s'" "tx_frame {} s3 s'" "blk s' = blk s3" using fs_brelse [OF s3(2)] by auto
  have ai: "a = i_addrs (ino s2 ip) ! NDIRECT" and hole: "faddr (blk s2) (ino s2 ip) m = 0"
    using assms(5,9) ba by (simp_all add: g1(2) g2(3) faddr_def split: if_splits)
  have bk: "blk s' = (blk s2)(i_addrs (ino s2 ip) ! NDIRECT := put32 (4 * (m - NDIRECT)) n (blk s2 (i_addrs (ino s2 ip) ! NDIRECT)))"
    using s3(4) s'(4) sc(2) ba by (simp add: ai [symmetric])
  have f: "tx_frame {} s2 s'" using s3(3) s'(3) by (rule tx_frame_trans)
  have ng: "\<not> used s n" using e(3) s1(6) gd(9) by (simp add: used_def)
  have "i_addrs (ino s2 ip) ! NDIRECT \<noteq> 0" using assms(6) ai by simp
  note fin = fgrown_entry [OF fgrown_trans [OF g1(1) g2(1)] ng g2(2) this assms(7,8) hole f in_fs_blk_length [OF s2(3)] bk]
  show ?thesis using s1(1,5) g1(2) s2(1) s3(1) s'(1,2) fin e(1) by simp
qed

lemma fgrown_le: "fgrown ip c s s' \<Longrightarrow> c \<le> d \<Longrightarrow> fgrown ip d s s'"
  by (auto simp: fgrown_def)

lemma bmap_hole_indirect:
  assumes "in_fs i {} (k + 5) s" and "fs_ok s" and "inode_ok s ip" and "unat bn < MAXFILE" and "2 \<le> nfree s" and "\<not> unat bn < NDIRECT"
  shows "\<exists>a s'. bmap ip bn s = Inr (a, s') \<and> fgrown ip 2 s s' \<and> in_fs i {} k s' \<and> a = faddr (blk s') (ino s' ip) (unat bn) \<and> a \<noteq> 0"
proof -
  note n = bn_indirect [OF assms(6) assms(4)]
  obtain a s1 where s1: "(if i_addrs (ino s ip) ! NDIRECT = 0 then
                  seq (balloc (i_dev (ino s ip)) s) (\<lambda>(addr, s).
                  Inr (addr, upd_inode ip (\<lambda>x. x\<lparr>i_addrs := (i_addrs x)[NDIRECT := addr]\<rparr>) s))
                else Inr (i_addrs (ino s ip) ! NDIRECT, s)) = Inr (a, s1)"
      "fgrown ip 1 s s1" "in_fs i {} (k + 3) s1" "a = i_addrs (ino s1 ip) ! NDIRECT" "a \<noteq> 0"
    using bmap_indirect [of i "k + 3" s, OF _ assms(2,3)] assms(1,5) by (auto simp: algebra_simps)
  note g = fgrownD [OF s1(2)]
  have dev1: "i_dev (ino s1 ip) = 1" using g(3) by (simp add: inode_ok_def)
  have bm: "bmap ip bn s = seq (bread 1 a s1) (\<lambda>(bp, s).
           let addr = get32 (b_data (bufs s bp)) (4 * (unat bn - 12))
           in seq (if addr = 0 then
                     seq (balloc (i_dev (ino s ip)) s) (\<lambda>(addr, s).
                     seq (log_write bp (set_data bp (put32 (4 * (unat bn - 12)) addr (b_data (bufs s bp))) s)) (\<lambda>s.
                     Inr (addr, s)))
                   else Inr (addr, s)) (\<lambda>(addr, s).
              seq (brelse bp s) (\<lambda>s. Inr (addr, s))))"
    using assms(6) n(2) s1(1) dev1 unfolding bmap_def Let_def n(1) by simp
  have fa: "get32 (blk s1 a) (4 * (unat bn - 12)) = faddr (blk s1) (ino s1 ip) (unat bn)" using assms(6) s1(4,5) by (simp add: faddr_def)
  show ?thesis
  proof (cases "faddr (blk s1) (ino s1 ip) (unat bn) = 0")
    case True
    from bmap_entry [OF s1(3) g(2,3) _ s1(4,5) _ assms(4) True] g(4) assms(5) assms(6)
    obtain b s2 n s3 s4 s' where e: "bread 1 a s1 = Inr (b, s2)" "b_data (bufs s2 b) = blk s1 a" "icache s2 = icache s1" "balloc 1 s2 = Inr (n, s3)"
        "log_write b (set_data b (put32 (4 * (unat bn - 12)) n (b_data (bufs s3 b))) s3) = Inr s4" "brelse b s4 = Inr s'"
        "fgrown ip 1 s1 s'" "in_fs i {} k s'" "n = faddr (blk s') (ino s' ip) (unat bn)" "n \<noteq> 0" by auto
    have "bmap ip bn s = Inr (n, s')" using e True dev1 fa by (simp add: bm)
    then show ?thesis using e(8-10) fgrown_le [OF fgrown_trans [OF s1(2) e(7)], of 2] by auto
  next
    case False
    have ad: "a < disksize s1" using fown_on_disk [OF g(2,3)] indirect_own [of "ino s1 ip"] s1(4,5) by blast
    obtain b s2 s' where r: "bread 1 a s1 = Inr (b, s2)" "b_data (bufs s2 b) = blk s1 a" "brelse b s2 = Inr s'" "in_fs i {} (k + 3) s'"
        "tx_frame {} s1 s'" "blk s' = blk s1" using fs_read [OF s1(3) ad] by auto
    note gr = fgrown_read [OF r(5,6) g(2,3)]
    have "bmap ip bn s = Inr (faddr (blk s1) (ino s1 ip) (unat bn), s')" using r False fa by (simp add: bm)
    then show ?thesis using r(6) False in_fs_le [OF r(4), of k] fgrown_le [OF fgrown_trans [OF s1(2) gr(1)], of 2] by (auto simp: gr(2))
  qed
qed

lemma bmap_runs:
  assumes "in_fs i {} (k + 5) s" and "fs_ok s" and "inode_ok s ip" and "unat bn < MAXFILE" and "2 \<le> nfree s"
  shows "\<exists>a s'. bmap ip bn s = Inr (a, s') \<and> fgrown ip 2 s s' \<and> in_fs i {} k s' \<and> a = faddr (blk s') (ino s' ip) (unat bn) \<and> a \<noteq> 0"
proof -
  have dev: "i_dev (ino s ip) = 1" using assms(3) by (simp add: inode_ok_def)
  have tx: "in_fs i {} k s" "in_fs i {} (k + 2) s" using in_fs_le [OF assms(1)] by simp_all
  consider (mapped) "faddr (blk s) (ino s ip) (unat bn) \<noteq> 0" | (direct) "faddr (blk s) (ino s ip) (unat bn) = 0" "unat bn < NDIRECT"
    | (indirect) "faddr (blk s) (ino s ip) (unat bn) = 0" "\<not> unat bn < NDIRECT" by blast
  then show ?thesis
  proof cases
    case mapped
    from bmap_mapped [OF tx(1) assms(2-4) mapped] obtain s' where
      s': "bmap ip bn s = Inr (faddr (blk s) (ino s ip) (unat bn), s')" "in_fs i {} k s'" "tx_frame {} s s'" "blk s' = blk s" by auto
    note g = fgrown_read [OF s'(3,4) assms(2,3)]
    show ?thesis using s' fgrown_le [OF g(1), of 2] mapped by (intro exI [of _ "faddr (blk s) (ino s ip) (unat bn)"] exI [of _ s']) (simp add: g(2))
  next
    case direct
    from bmap_hole_direct [OF tx(2) assms(2,3) direct(2,1)] assms(5)
    obtain a s' where "bmap ip bn s = Inr (a, s')" "fgrown ip 1 s s'" "in_fs i {} k s'" "a = faddr (blk s') (ino s' ip) (unat bn)" "a \<noteq> 0" by auto
    then show ?thesis using fgrown_le [of ip 1 s s' 2] by auto
  next
    case indirect
    then show ?thesis using bmap_hole_indirect [OF assms] by blast
  qed
qed

section \<open>The inode on disk\<close>

lemma dinode_fits: "dinode_off n + 64 \<le> BSIZE"
proof -
  have "unat n mod 8 < 8" by simp
  then have "unat n mod 8 * 64 \<le> 7 * 64" by (intro mult_right_mono) simp_all
  then show ?thesis by (simp add: dinode_off_def)
qed

lemma length_put_dinode [simp]: "length (i_addrs x) = 13 \<Longrightarrow> i + 64 \<le> length d \<Longrightarrow> length (put_dinode i x d) = length d"
  by (simp add: put_dinode_def Let_def)

lemma get16_put32s_before: "i + 4 * length ws \<le> length d \<Longrightarrow> j + 2 \<le> i \<Longrightarrow> get16 (put32s i ws d) j = get16 d j"
  by (induction ws arbitrary: i d) (simp_all add: get_put_apart)

lemma get_put_dinode:
  assumes "length (i_addrs x) = 13" and "i + 64 \<le> length d"
  shows "get_dinode i (put_dinode i x d) y =
    y\<lparr>i_type := i_type x, i_major := i_major x, i_minor := i_minor x, i_nlink := i_nlink x, i_size := i_size x, i_addrs := i_addrs x\<rparr>"
proof -
  let ?d = "put32 (i + 8) (i_size x) (put16 (i + 6) (i_nlink x) (put16 (i + 4) (i_minor x) (put16 (i + 2) (i_major x) (put16 i (i_type x) d))))"
  have len: "length ?d = length d" using assms(2) by simp
  have p: "put_dinode i x d = put32s (i + 12) (i_addrs x) ?d" by (simp add: put_dinode_def Let_def)
  have b: "i + 12 + 4 * length (i_addrs x) \<le> length ?d" using assms len by simp
  have "get16 (put_dinode i x d) i = i_type x" "get16 (put_dinode i x d) (i + 2) = i_major x" "get16 (put_dinode i x d) (i + 4) = i_minor x"
    "get16 (put_dinode i x d) (i + 6) = i_nlink x" "get32 (put_dinode i x d) (i + 8) = i_size x"
    unfolding p using b assms(2) by (simp_all add: get16_put32s_before get32_put32s_before get_put_apart)
  moreover have "get32s (put_dinode i x d) (i + 12) 13 = i_addrs x" unfolding p using get32s_put32s [OF b] assms(1) by simp
  ultimately show ?thesis by (simp add: get_dinode_def)
qed

lemma get32_put32s_after: "i + 4 * length ws \<le> length d \<Longrightarrow> i + 4 * length ws \<le> j \<Longrightarrow> j + 4 \<le> length d \<Longrightarrow> get32 (put32s i ws d) j = get32 d j"
  by (induction ws arbitrary: i d) (simp_all add: get_put_apart)

lemma get16_put32s_after: "i + 4 * length ws \<le> length d \<Longrightarrow> i + 4 * length ws \<le> j \<Longrightarrow> j + 2 \<le> length d \<Longrightarrow> get16 (put32s i ws d) j = get16 d j"
  by (induction ws arbitrary: i d) (simp_all add: get_put_apart)

lemma get_put_dinode_apart:
  assumes "length (i_addrs x) = 13" and "i + 64 \<le> length d" and "j + 64 \<le> length d" and "j + 64 \<le> i \<or> i + 64 \<le> j"
  shows "get_dinode j (put_dinode i x d) y = get_dinode j d y"
proof -
  have g: "get32 (put_dinode i x d) k = get32 d k" if "j \<le> k" "k + 4 \<le> j + 64" for k
    using that assms unfolding put_dinode_def Let_def
    by (auto simp: get32_put32s_before get32_put32s_after get_put_apart)
  have h: "get16 (put_dinode i x d) k = get16 d k" if "j \<le> k" "k + 2 \<le> j + 64" for k
    using that assms unfolding put_dinode_def Let_def
    by (auto simp: get16_put32s_before get16_put32s_after get_put_apart)
  have "get32s (put_dinode i x d) (j + 12) 13 = get32s d (j + 12) 13" unfolding get32s_def by (rule map_cong [OF refl]) (simp add: g)
  then show ?thesis by (simp add: get_dinode_def g h)
qed

lemma dinode_off_apart: "dinode_off m \<noteq> dinode_off n \<Longrightarrow> dinode_off m + 64 \<le> dinode_off n \<or> dinode_off n + 64 \<le> dinode_off m"
  by (simp add: dinode_off_def) linarith

lemma iupdate_runs:
  assumes "in_fs i {} (Suc k) s" and "fs_ok s" and "length (i_addrs (ino s ip)) = 13" and "i_dev (ino s ip) = 1" and "i_inum (ino s ip) < sb_ninodes (sb s)"
  shows "\<exists>s'. iupdate ip s = Inr s' \<and> in_fs i {} k s' \<and> tx_frame {} s s' \<and>
    blk s' = (blk s)(IBLOCK (i_inum (ino s ip)) (sb s) := put_dinode (dinode_off (i_inum (ino s ip))) (ino s ip) (blk s (IBLOCK (i_inum (ino s ip)) (sb s))))"
proof -
  let ?n = "IBLOCK (i_inum (ino s ip)) (sb s)"
  let ?d = "put_dinode (dinode_off (i_inum (ino s ip))) (ino s ip) (blk s ?n)"
  have n: "?n < disksize s" "?n \<notin> log_region s" using fs_okD(5) [OF assms(2,5)] by simp_all
  have "length ?d = BSIZE" using in_fs_blk_length [OF assms(1)] assms(3) dinode_fits by simp
  from fs_update [OF assms(1) n(1) _ _ n(2) this] obtain b s1 s2 s' where
    u: "bread 1 ?n s = Inr (b, s1)" "b_data (bufs s1 b) = blk s ?n" "tx_frame {} s s1" "log_write b (set_data b ?d s1) = Inr s2" "brelse b s2 = Inr s'"
      "in_fs i {} k s'" "tx_frame {} s s'" "blk s' = (blk s)(?n := ?d)" by auto
  then show ?thesis using assms(4) tx_frame_fs(2) [OF u(3)] by (intro exI [of _ s']) (simp add: iupdate_def)
qed

lemma slock_upd [simp]:
  "blk (upd_slock (SInode j) f s) = blk s" "in_fs i B k (upd_slock (SInode j) f t) = in_fs i B k t"
proof -
  have e: "bufs (upd_slock (SInode j) f s) = bufs s" "disk (upd_slock (SInode j) f s) = disk s" by (simp_all add: upd_slock_def)
  show "blk (upd_slock (SInode j) f s) = blk s" by (rule ext) (simp only: blk_def e)
  let ?t = "upd_slock (SInode j) f t"
  have f: "bufs ?t = bufs t" "disk ?t = disk t" "disksize ?t = disksize t" "log_start ?t = log_start t" "log_dev ?t = log_dev t"
    "log_outstanding ?t = log_outstanding t" "lh_n ?t = lh_n t" "lh_block ?t = lh_block t" "log_size ?t = log_size t"
    by (simp_all add: upd_slock_def)
  have c: "caches ?t = caches t" by (simp add: caches_def f fun_eq_iff)
  have "buf_ok B ?t b = buf_ok B t b" for b using mypid_cong [of ?t t] by (simp add: buf_ok_def f)
  then have bc: "bc_ok B ?t = bc_ok B t" by (simp add: bc_ok_def f c)
  have bd: "bdirty ?t = bdirty t" by (rule ext) (simp add: bdirty_def c f)
  have g: "log_geom L ?t = log_geom L t" for L by (rule geom_cong) (simp_all add: f)
  show "in_fs i B k ?t = in_fs i B k t"
    by (simp add: in_fs_def in_tx_def tx_room_def runs_in_def ptable_ok_def bc bd g f)
qed


text \<open>An inode without blocks.\<close>

definition empty_inode :: "uint \<Rightarrow> ushort \<Rightarrow> inode" where
  "empty_inode n t = blank_inode\<lparr>i_dev := 1, i_inum := n, i_ref := 1, i_valid := True, i_type := t, i_nlink := 1\<rparr>"

lemma empty_inode_fields:
  "i_dev (empty_inode n t) = 1" "i_inum (empty_inode n t) = n" "i_ref (empty_inode n t) = 1" "i_valid (empty_inode n t)" "i_type (empty_inode n t) = t"
  "i_size (empty_inode n t) = 0" "i_addrs (empty_inode n t) = replicate 13 0"
  by (simp_all add: empty_inode_def blank_inode_def)

lemma empty_inode_layout: "faddr bk (empty_inode n t) m = 0" if "m < MAXFILE"
  using that by (simp add: faddr_def empty_inode_fields)

lemma empty_inode_ok: "n < sb_ninodes (sb s) \<Longrightarrow> ino s ip = empty_inode n t \<Longrightarrow> inode_ok s ip"
  using empty_inode_layout [of _ "blk s" n t] by (auto simp: inode_ok_def layout_ok_def own_def empty_inode_fields)

lemma binit_inode_locks: "slocks (binit_from bs s) (SInode j) = slocks s (SInode j)"
  by (induction bs arbitrary: s) (simp_all add: link_first_def Let_def initsleeplock_def upd_slock_def upd_buf_def)

lemma fs_world_unlocked: "sl_locked (slocks (fs_world ic d x) (SInode j)) = 0"
  by (simp add: fs_world_def cons_world_def log_world_def bio_world_def binit_def Let_def upd_buf_def booted_def four_procs_def proc_state.defs
      slock_state.defs binit_inode_locks)


end
