(* ===== verification/Fs.thy ===== *)
theory Fs
  imports Filemap Cstring
begin

text \<open>
  Reading and writing inodes, directories and path names (\<open>fs.c\<close> from \<open>readi\<close> on), and the console
  as a device (\<open>consoleread\<close> and \<open>consolewrite\<close> of \<open>console.c\<close>), which \<open>readi\<close> and \<open>writei\<close> call
  through \<open>devsw\<close>. A buffer that is read into is returned as the list of bytes stored in it; a buffer
  that is written from is the list of its bytes, whose length is the count. Path names are the
  bytes before the terminator, and a path element has at most \<open>DIRSIZ\<close> bytes.
\<close>

abbreviation (input) DIRSIZ :: nat where "DIRSIZ \<equiv> 14"

definition zstr :: "uchar list \<Rightarrow> nat \<Rightarrow> uchar" where
  "zstr x i = (if i < length x then x ! i else 0)"

section \<open>The console as a device\<close>

text \<open>
  The loop of \<open>consoleread\<close>, with \<open>cons.lock\<close> held, \<open>n\<close> bytes wanted still and \<open>acc\<close> stored so far;
  \<open>consoleread_resume\<close> goes on after a sleep.
\<close>

definition consoleread_end :: "nat \<Rightarrow> int \<Rightarrow> uchar list \<Rightarrow> 'a fs_state_scheme \<Rightarrow> ('a, int \<times> uchar list \<times> 'a fs_state_scheme) fres" where
  "consoleread_end ip r acc s =
     seq (unlock L_cons s) (\<lambda>s.
     seq (ilock (Some ip) s) (\<lambda>s. Inr (r, acc, s)))"

fun consoleread_loop :: "nat \<Rightarrow> nat \<Rightarrow> nat \<Rightarrow> uchar list \<Rightarrow> 'a fs_state_scheme \<Rightarrow> ('a, int \<times> uchar list \<times> 'a fs_state_scheme) fres" where
  "consoleread_loop ip target 0 acc s = consoleread_end ip (int target) acc s"
| "consoleread_loop ip target (Suc n) acc s =
     (if in_r s = in_w s then
        seq (myp s) (\<lambda>i.
        if killed (pr s i) then consoleread_end ip (-1) acc s
        else sleep ChInput (Some L_cons) s)
      else
        let c = in_buf s ! (unat (in_r s) mod INPUT_BUF);
            s = s\<lparr>in_r := in_r s + 1\<rparr>
        in if c = 4 then
             consoleread_end ip (int target - int (Suc n)) acc (if Suc n < target then s\<lparr>in_r := in_r s - 1\<rparr> else s)
           else if c = 10 then consoleread_end ip (int target - int n) (acc @ [c]) s
           else consoleread_loop ip target n (acc @ [c]) s)"

definition consoleread :: "nat \<Rightarrow> int \<Rightarrow> 'a fs_state_scheme \<Rightarrow> ('a, int \<times> uchar list \<times> 'a fs_state_scheme) fres" where
  "consoleread ip n s =
     seq (iunlock (Some ip) s) (\<lambda>s.
     seq (lock L_cons s) (\<lambda>s. consoleread_loop ip (nat n) (nat n) [] s))"

definition consoleread_resume :: "nat \<Rightarrow> nat \<Rightarrow> nat \<Rightarrow> uchar list \<Rightarrow> 'a fs_state_scheme \<Rightarrow> ('a, int \<times> uchar list \<times> 'a fs_state_scheme) fres" where
  "consoleread_resume ip target n acc s = seq (sleep_resume L_cons s) (\<lambda>s. consoleread_loop ip target n acc s)"

definition consolewrite :: "nat \<Rightarrow> uchar list \<Rightarrow> 'a fs_state_scheme \<Rightarrow> ('a, int \<times> 'a fs_state_scheme) fres" where
  "consolewrite ip buf s =
     seq (iunlock (Some ip) s) (\<lambda>s.
     seq (lock L_cons s) (\<lambda>s.
     seq (putchars (map (\<lambda>b. int (unat b)) buf) s) (\<lambda>s.
     seq (unlock L_cons s) (\<lambda>s.
     seq (ilock (Some ip) s) (\<lambda>s. Inr (int (length buf), s))))))"

section \<open>Reading and writing\<close>

text \<open>The part of a transfer of \<open>n\<close> bytes at \<open>off\<close> that lies in one block.\<close>

definition chunk :: "uint \<Rightarrow> nat \<Rightarrow> nat" where
  "chunk off n = min n (BSIZE - unat off mod BSIZE)"

lemma chunk_pos: "n \<noteq> 0 \<Longrightarrow> chunk off n \<noteq> 0"
  by (simp add: chunk_def)

function readi_loop :: "nat \<Rightarrow> uint \<Rightarrow> nat \<Rightarrow> 'a fs_state_scheme \<Rightarrow> ('a, uchar list \<times> 'a fs_state_scheme) fres" where
  "readi_loop ip off n s =
     (if n = 0 then Inr ([], s)
      else
        seq (bmap ip (off div of_nat BSIZE) s) (\<lambda>(addr, s).
        seq (bread (i_dev (ino s ip)) addr s) (\<lambda>(bp, s).
        let m = chunk off n; bs = take m (drop (unat off mod BSIZE) (b_data (bufs s bp)))
        in seq (brelse bp s) (\<lambda>s.
           seq (readi_loop ip (off + of_nat m) (n - m) s) (\<lambda>(cs, s). Inr (bs @ cs, s))))))"
  by pat_completeness auto

termination
  by (relation "measure (\<lambda>(ip, off, n, s). n)") (use chunk_pos in \<open>auto intro!: diff_less gr0I\<close>)

declare readi_loop.simps [simp del]

definition devsw_ok :: "ushort \<Rightarrow> (int \<Rightarrow> devfun option) \<Rightarrow> bool" where
  "devsw_ok major d \<longleftrightarrow> sint major \<ge> 0 \<and> sint major < NDEV \<and> d (sint major) \<noteq> None"

definition readi :: "nat \<Rightarrow> uint \<Rightarrow> uint \<Rightarrow> 'a fs_state_scheme \<Rightarrow> ('a, int \<times> uchar list \<times> 'a fs_state_scheme) fres" where
  "readi ip off n s =
     (if i_type (ino s ip) = T_DEV then
        if \<not> devsw_ok (i_major (ino s ip)) (devsw_read s) then Inr (-1, [], s)
        else consoleread ip (sint n) s
      else if off > i_size (ino s ip) \<or> off + n < off then Inr (-1, [], s)
      else
        let n = (if off + n > i_size (ino s ip) then i_size (ino s ip) - off else n)
        in seq (readi_loop ip off (unat n) s) (\<lambda>(bs, s). Inr (sint n, bs, s)))"

function writei_loop :: "nat \<Rightarrow> uchar list \<Rightarrow> uint \<Rightarrow> 'a fs_state_scheme \<Rightarrow> ('a, uint \<times> 'a fs_state_scheme) fres" where
  "writei_loop ip src off s =
     (if src = [] then Inr (off, s)
      else
        seq (bmap ip (off div of_nat BSIZE) s) (\<lambda>(addr, s).
        seq (bread (i_dev (ino s ip)) addr s) (\<lambda>(bp, s).
        let m = chunk off (length src)
        in seq (log_write bp (set_data bp (put_bytes (unat off mod BSIZE) (take m src) (b_data (bufs s bp))) s)) (\<lambda>s.
           seq (brelse bp s) (\<lambda>s. writei_loop ip (drop m src) (off + of_nat m) s)))))"
  by pat_completeness auto

termination
  by (relation "measure (\<lambda>(ip, src, off, s). length src)") (use chunk_pos in \<open>auto intro!: diff_less gr0I\<close>)

declare writei_loop.simps [simp del]

definition writei :: "nat \<Rightarrow> uchar list \<Rightarrow> uint \<Rightarrow> 'a fs_state_scheme \<Rightarrow> ('a, int \<times> 'a fs_state_scheme) fres" where
  "writei ip src off s =
     (let n = of_nat (length src) :: uint
      in if i_type (ino s ip) = T_DEV then
           if \<not> devsw_ok (i_major (ino s ip)) (devsw_write s) then Inr (-1, s)
           else consolewrite ip src s
         else if off > i_size (ino s ip) \<or> off + n < off then Inr (-1, s)
         else if off + n > of_nat (MAXFILE * BSIZE) then Inr (-1, s)
         else
           seq (writei_loop ip src off s) (\<lambda>(off, s).
           seq (if n > 0 \<and> off > i_size (ino s ip) then iupdate ip (upd_inode ip (\<lambda>x. x\<lparr>i_size := off\<rparr>) s) else Inr s) (\<lambda>s.
           Inr (sint n, s))))"

section \<open>Directories\<close>

definition namecmp :: "uchar list \<Rightarrow> uchar list \<Rightarrow> int" where
  "namecmp s t = strncmp (zstr s) (zstr t) (of_nat DIRSIZ)"

text \<open>The offsets of the entries of a directory of a given size, and reading one entry.\<close>

definition dirent_offs :: "uint \<Rightarrow> uint list" where
  "dirent_offs n = map (\<lambda>k. of_nat (16 * k)) [0..<(unat n + 15) div 16]"

definition read_dirent :: "string \<Rightarrow> nat \<Rightarrow> uint \<Rightarrow> 'a fs_state_scheme \<Rightarrow> ('a, (ushort \<times> uchar list) \<times> 'a fs_state_scheme) fres" where
  "read_dirent msg dp off s =
     seq (readi dp off 16 s) (\<lambda>(r, bs, s).
     if r \<noteq> 16 then Inl (Panic msg) else Inr ((get16 bs 0, take DIRSIZ (drop 2 bs)), s))"

fun dirlookup_from :: "nat \<Rightarrow> uchar list \<Rightarrow> uint list \<Rightarrow> 'a fs_state_scheme \<Rightarrow> ('a, (nat \<times> uint) option \<times> 'a fs_state_scheme) fres" where
  "dirlookup_from dp name [] s = Inr (None, s)"
| "dirlookup_from dp name (off # offs) s =
     seq (read_dirent ''dirlookup read'' dp off s) (\<lambda>((inum, nm), s).
     if inum = 0 then dirlookup_from dp name offs s
     else if namecmp name nm = 0 then seq (iget (i_dev (ino s dp)) (ucast inum) s) (\<lambda>(ip, s). Inr (Some (ip, off), s))
     else dirlookup_from dp name offs s)"

definition dirlookup :: "nat \<Rightarrow> uchar list \<Rightarrow> 'a fs_state_scheme \<Rightarrow> ('a, (nat \<times> uint) option \<times> 'a fs_state_scheme) fres" where
  "dirlookup dp name s =
     (if i_type (ino s dp) \<noteq> T_DIR then Inl (Panic ''dirlookup not DIR'')
      else dirlookup_from dp name (dirent_offs (i_size (ino s dp))) s)"

text \<open>The search of \<open>dirlink\<close> for a free entry; it ends behind the last one.\<close>

fun dirlink_free :: "nat \<Rightarrow> uint list \<Rightarrow> uint \<Rightarrow> 'a fs_state_scheme \<Rightarrow> ('a, uint \<times> 'a fs_state_scheme) fres" where
  "dirlink_free dp [] e s = Inr (e, s)"
| "dirlink_free dp (off # offs) e s =
     seq (read_dirent ''dirlink read'' dp off s) (\<lambda>((inum, nm), s).
     if inum = 0 then Inr (off, s) else dirlink_free dp offs (off + 16) s)"

definition dirent_bytes :: "uchar list \<Rightarrow> uint \<Rightarrow> uchar list" where
  "dirent_bytes name inum = enc16 (ucast inum) @ strncpy (replicate DIRSIZ 0) (zstr name) (int DIRSIZ)"

definition dirlink :: "nat \<Rightarrow> uchar list \<Rightarrow> uint \<Rightarrow> 'a fs_state_scheme \<Rightarrow> ('a, int \<times> 'a fs_state_scheme) fres" where
  "dirlink dp name inum s =
     seq (dirlookup dp name s) (\<lambda>(r, s).
     case r of
       Some (ip, off) \<Rightarrow> seq (iput ip s) (\<lambda>s. Inr (-1, s))
     | None \<Rightarrow>
         seq (dirlink_free dp (dirent_offs (i_size (ino s dp))) 0 s) (\<lambda>(off, s).
         seq (writei dp (dirent_bytes name inum) off s) (\<lambda>(r, s).
         if r \<noteq> 16 then Inl (Panic ''dirlink'') else Inr (0, s))))"

section \<open>Paths\<close>

definition skipelem :: "uchar list \<Rightarrow> (uchar list \<times> uchar list) option" where
  "skipelem path =
     (let path = dropWhile (\<lambda>c. c = 47) path
      in if path = [] then None
         else
           let s = takeWhile (\<lambda>c. c \<noteq> 47) path;
               path = dropWhile (\<lambda>c. c \<noteq> 47) path;
               name = (if length s \<ge> DIRSIZ then take DIRSIZ s else s)
           in Some (dropWhile (\<lambda>c. c = 47) path, name))"

lemma skipelem_shorter:
  assumes "skipelem path = Some (rest, name)"
  shows "length rest < length path"
proof -
  define p where "p = dropWhile (\<lambda>c. c = 47) path"
  have p: "p \<noteq> []" "rest = dropWhile (\<lambda>c. c = 47) (dropWhile (\<lambda>c. c \<noteq> 47) p)"
    using assms by (auto simp: skipelem_def Let_def p_def split: if_splits)
  obtain c cs where c: "p = c # cs" using p(1) by (cases p) auto
  have "c \<noteq> 47" using hd_dropWhile [of "\<lambda>c. c = 47" path] p(1) c by (auto simp: p_def)
  then have "length rest \<le> length cs"
    using p(2) c by (simp add: le_trans [OF length_dropWhile_le length_dropWhile_le])
  also have "length cs < length p" by (simp add: c)
  also have "length p \<le> length path" by (simp add: p_def length_dropWhile_le)
  finally show ?thesis .
qed

function namex_loop :: "nat \<Rightarrow> uchar list \<Rightarrow> bool \<Rightarrow> uchar list \<Rightarrow> 'a fs_state_scheme \<Rightarrow> ('a, (nat \<times> uchar list) option \<times> 'a fs_state_scheme) fres" where
  "namex_loop ip path par name s =
     (case skipelem path of
        None \<Rightarrow> if par then seq (iput ip s) (\<lambda>s. Inr (None, s)) else Inr (Some (ip, name), s)
      | Some (rest, name) \<Rightarrow>
          seq (ilock (Some ip) s) (\<lambda>s.
          if i_type (ino s ip) \<noteq> T_DIR then seq (iunlockput ip s) (\<lambda>s. Inr (None, s))
          else if par \<and> rest = [] then seq (iunlock (Some ip) s) (\<lambda>s. Inr (Some (ip, name), s))
          else
            seq (dirlookup ip name s) (\<lambda>(r, s).
            case r of
              None \<Rightarrow> seq (iunlockput ip s) (\<lambda>s. Inr (None, s))
            | Some (next, off) \<Rightarrow> seq (iunlockput ip s) (\<lambda>s. namex_loop next rest par name s))))"
  by pat_completeness auto

termination
  by (relation "measure (\<lambda>(ip, path, par, name, s). length path)") (auto dest: skipelem_shorter)

declare namex_loop.simps [simp del]

definition namex :: "uchar list \<Rightarrow> bool \<Rightarrow> 'a fs_state_scheme \<Rightarrow> ('a, (nat \<times> uchar list) option \<times> 'a fs_state_scheme) fres" where
  "namex path par s =
     seq (if path \<noteq> [] \<and> hd path = 47 then iget ROOTDEV ROOTINO s
          else seq (myp s) (\<lambda>i. case cwd (pr s i) of None \<Rightarrow> Inl (Fault ''namex'') | Some ip \<Rightarrow> idup ip s)) (\<lambda>(ip, s).
     namex_loop ip path par [] s)"

definition namei :: "uchar list \<Rightarrow> 'a fs_state_scheme \<Rightarrow> ('a, nat option \<times> 'a fs_state_scheme) fres" where
  "namei path s = seq (namex path False s) (\<lambda>(r, s). Inr (map_option fst r, s))"

definition nameiparent :: "uchar list \<Rightarrow> 'a fs_state_scheme \<Rightarrow> ('a, (nat \<times> uchar list) option \<times> 'a fs_state_scheme) fres" where
  "nameiparent path s = namex path True s"

end
