(* ===== verification/File.thy ===== *)
theory File
  imports Fs
begin

text \<open>
  The file table (\<open>file.c\<close>) and \<open>pipealloc\<close> of \<open>pipe.c\<close>. A pointer to an open file is its index in
  \<open>ftable\<close>; the data of a new pipe is what the page had at the offset of \<open>data\<close> in \<open>struct pipe\<close>.
\<close>

section \<open>State\<close>

datatype ftype = FD_NONE | FD_PIPE | FD_INODE

record kfile =
  f_type :: ftype
  f_ref :: int
  f_readable :: bool
  f_writable :: bool
  f_pipe :: uint
  f_ip :: "nat option"
  f_off :: uint

record file_state = fs_state +
  ftable :: "nat \<Rightarrow> kfile"

type_synonym ('a, 'b) flres = "('a file_state_scheme, 'b) kres"

definition upd_file :: "nat \<Rightarrow> (kfile \<Rightarrow> kfile) \<Rightarrow> 'a file_state_scheme \<Rightarrow> 'a file_state_scheme" where
  "upd_file f g s = s\<lparr>ftable := (ftable s)(f := g (ftable s f))\<rparr>"

section \<open>Operations\<close>

definition filealloc :: "'a file_state_scheme \<Rightarrow> ('a, nat option \<times> 'a file_state_scheme) flres" where
  "filealloc s =
     seq (lock L_ftable s) (\<lambda>s.
     case find (\<lambda>f. f_ref (ftable s f) = 0) [0..<NFILE] of
       Some f \<Rightarrow> seq (unlock L_ftable (upd_file f (\<lambda>x. x\<lparr>f_ref := 1\<rparr>) s)) (\<lambda>s. Inr (Some f, s))
     | None \<Rightarrow> seq (unlock L_ftable s) (\<lambda>s. Inr (None, s)))"

definition filedup :: "nat \<Rightarrow> 'a file_state_scheme \<Rightarrow> ('a, nat \<times> 'a file_state_scheme) flres" where
  "filedup f s =
     seq (lock L_ftable s) (\<lambda>s.
     if f_ref (ftable s f) < 1 then Inl (Panic ''filedup'')
     else seq (unlock L_ftable (upd_file f (\<lambda>x. x\<lparr>f_ref := f_ref x + 1\<rparr>) s)) (\<lambda>s. Inr (f, s)))"

text \<open>\<open>iput\<close> of a pointer that may be null: \<open>iput\<close> itself does not test it.\<close>

definition iput_ptr :: "nat option \<Rightarrow> 'a fs_state_scheme \<Rightarrow> ('a, 'a fs_state_scheme) fres" where
  "iput_ptr p s = (case p of Some ip \<Rightarrow> iput ip s | None \<Rightarrow> Inl (Fault ''iput''))"

definition fileclose :: "nat \<Rightarrow> 'a file_state_scheme \<Rightarrow> ('a, 'a file_state_scheme) flres" where
  "fileclose f s =
     seq (lock L_ftable s) (\<lambda>s.
     if f_ref (ftable s f) < 1 then Inl (Panic ''fileclose'')
     else
       let s = upd_file f (\<lambda>x. x\<lparr>f_ref := f_ref x - 1\<rparr>) s
       in if f_ref (ftable s f) > 0 then unlock L_ftable s
          else
            let ff = ftable s f; s = upd_file f (\<lambda>x. x\<lparr>f_ref := 0, f_type := FD_NONE\<rparr>) s
            in seq (unlock L_ftable s) (\<lambda>s.
               case f_type ff of
                 FD_PIPE \<Rightarrow> pipeclose (f_pipe ff) (f_writable ff) s
               | FD_INODE \<Rightarrow> seq (begin_op s) (\<lambda>s. seq (iput_ptr (f_ip ff) s) (\<lambda>s. end_op s))
               | FD_NONE \<Rightarrow> Inr s))"

definition filestat :: "nat \<Rightarrow> 'a file_state_scheme \<Rightarrow> ('a, stat option \<times> 'a file_state_scheme) flres" where
  "filestat f s =
     (if f_type (ftable s f) = FD_INODE then
        seq (ilock (f_ip (ftable s f)) s) (\<lambda>s.
        let st = stati (the (f_ip (ftable s f))) s
        in seq (iunlock (f_ip (ftable s f)) s) (\<lambda>s. Inr (Some st, s)))
      else Inr (None, s))"

definition fileread :: "nat \<Rightarrow> int \<Rightarrow> 'a file_state_scheme \<Rightarrow> ('a, int \<times> uchar list \<times> 'a file_state_scheme) flres" where
  "fileread f n s =
     (if \<not> f_readable (ftable s f) then Inr (-1, [], s)
      else
        case f_type (ftable s f) of
          FD_PIPE \<Rightarrow> piperead (f_pipe (ftable s f)) n s
        | FD_INODE \<Rightarrow>
            seq (ilock (f_ip (ftable s f)) s) (\<lambda>s.
            seq (readi (the (f_ip (ftable s f))) (f_off (ftable s f)) (word_of_int n) s) (\<lambda>(r, bs, s).
            let s = (if r > 0 then upd_file f (\<lambda>x. x\<lparr>f_off := f_off x + word_of_int r\<rparr>) s else s)
            in seq (iunlock (f_ip (ftable s f)) s) (\<lambda>s. Inr (r, bs, s))))
        | FD_NONE \<Rightarrow> Inl (Panic ''fileread''))"

text \<open>The loop of \<open>filewrite\<close>: at most three blocks in one transaction.\<close>

function filewrite_loop :: "nat \<Rightarrow> uchar list \<Rightarrow> 'a file_state_scheme \<Rightarrow> ('a, bool \<times> 'a file_state_scheme) flres" where
  "filewrite_loop f bs s =
     (if bs = [] then Inr (True, s)
      else
        let n1 = min (length bs) (3 * 512)
        in seq (begin_op s) (\<lambda>s.
           seq (ilock (f_ip (ftable s f)) s) (\<lambda>s.
           seq (writei (the (f_ip (ftable s f))) (take n1 bs) (f_off (ftable s f)) s) (\<lambda>(r, s).
           let s = (if r > 0 then upd_file f (\<lambda>x. x\<lparr>f_off := f_off x + word_of_int r\<rparr>) s else s)
           in seq (iunlock (f_ip (ftable s f)) s) (\<lambda>s.
              seq (end_op s) (\<lambda>s.
              if r < 0 then Inr (False, s)
              else if r \<noteq> int n1 then Inl (Panic ''short filewrite'')
              else filewrite_loop f (drop n1 bs) s)))))) "
  by pat_completeness auto

termination
  by (relation "measure (\<lambda>(f, bs, s). length bs)") (auto simp: min_def intro!: diff_less gr0I)

declare filewrite_loop.simps [simp del]

definition filewrite :: "nat \<Rightarrow> uchar list \<Rightarrow> int \<Rightarrow> 'a file_state_scheme \<Rightarrow> ('a, int \<times> 'a file_state_scheme) flres" where
  "filewrite f bs n s =
     (if \<not> f_writable (ftable s f) then Inr (-1, s)
      else
        case f_type (ftable s f) of
          FD_PIPE \<Rightarrow> pipewrite (f_pipe (ftable s f)) bs n s
        | FD_INODE \<Rightarrow> seq (filewrite_loop f bs s) (\<lambda>(ok, s). Inr (if ok \<and> n \<ge> 0 then n else -1, s))
        | FD_NONE \<Rightarrow> Inl (Panic ''filewrite''))"

section \<open>Making a pipe\<close>

definition close_opt :: "nat option \<Rightarrow> 'a file_state_scheme \<Rightarrow> ('a, 'a file_state_scheme) flres" where
  "close_opt f s = (case f of Some f \<Rightarrow> fileclose f s | None \<Rightarrow> Inr s)"

definition pipealloc :: "'a file_state_scheme \<Rightarrow> ('a, (nat \<times> nat) option \<times> 'a file_state_scheme) flres" where
  "pipealloc s =
     seq (filealloc s) (\<lambda>(f0, s).
     seq (case f0 of None \<Rightarrow> Inr (None, s) | Some _ \<Rightarrow> filealloc s) (\<lambda>(f1, s).
     seq (case f1 of None \<Rightarrow> Inr (0, s) | Some _ \<Rightarrow> kalloc s) (\<lambda>(p, s).
     case (f0, f1) of
       (Some a, Some b) \<Rightarrow>
         if p = 0 then seq (close_opt f0 s) (\<lambda>s. seq (close_opt f1 s) (\<lambda>s. Inr (None, s)))
         else
           let s = s\<lparr>pipes := (pipes s)(p \<mapsto> \<lparr>pdata = peek (mem s) (p + 52) 512, nread = 0, nwrite = 0, readopen = True, writeopen = True\<rparr>)\<rparr>;
               s = upd_file a (\<lambda>x. x\<lparr>f_type := FD_PIPE, f_readable := True, f_writable := False, f_pipe := p\<rparr>) s;
               s = upd_file b (\<lambda>x. x\<lparr>f_type := FD_PIPE, f_readable := False, f_writable := True, f_pipe := p\<rparr>) s
           in Inr (Some (a, b), s)
     | _ \<Rightarrow> seq (close_opt f0 s) (\<lambda>s. seq (close_opt f1 s) (\<lambda>s. Inr (None, s))))))"

end
