(* ===== verification/Mmap.thy ===== *)
theory Mmap
  imports File
begin

text \<open>
  The memory-mapped areas of \<open>proc.c\<close>: \<open>mmap\<close>, \<open>page_fault_handler\<close> and \<open>munmap\<close>, and the access of
  kernel code to user addresses through the page table in \<open>cr3\<close>. The address that faulted, in the
  source read from \<open>cr2\<close>, is an argument. A user address that is not mapped is a \<open>Fault\<close>; so are the
  null file pointer of a descriptor that is not open and a descriptor past the end of \<open>ofile\<close>.
\<close>

section \<open>User addresses\<close>

text \<open>
  The translation of the memory management unit in supervisor mode, with write protection on; the
  model's memory is indexed by kernel virtual addresses, so the frame of a page is at \<open>P2V\<close> of its
  physical address.
\<close>

definition mmu :: "'a vm_state_scheme \<Rightarrow> bool \<Rightarrow> uint \<Rightarrow> uint option" where
  "mmu s wr va =
     (if va \<ge> KERNBASE then Some va
      else
        let pde = ld32 (mem s) (P2V (cr3 s) + 4 * PDX va);
            pte = ld32 (mem s) (P2V (PTE_ADDR pde) + 4 * PTX va)
        in if pde AND PTE_P = 0 \<or> pte AND PTE_P = 0 \<or> wr \<and> (pde AND PTE_W = 0 \<or> pte AND PTE_W = 0) then None
           else Some (P2V (PTE_ADDR pte) + va mod PGSIZE))"

fun load_user :: "'a vm_state_scheme \<Rightarrow> uint \<Rightarrow> nat \<Rightarrow> ('a vm_state_scheme, uchar list) kres" where
  "load_user s va 0 = Inr []"
| "load_user s va (Suc n) =
     (case mmu s False va of
        None \<Rightarrow> Inl (Fault ''load'')
      | Some a \<Rightarrow> seq (load_user s (va + 1) n) (\<lambda>bs. Inr (mem s a # bs)))"

fun store_user :: "uint \<Rightarrow> uchar list \<Rightarrow> 'a vm_state_scheme \<Rightarrow> ('a vm_state_scheme, 'a vm_state_scheme) kres" where
  "store_user va [] s = Inr s"
| "store_user va (b # bs) s =
     (case mmu s True va of
        None \<Rightarrow> Inl (Fault ''store'')
      | Some a \<Rightarrow> store_user (va + 1) bs (s\<lparr>mem := (mem s)(a := b)\<rparr>))"

section \<open>State\<close>

record mmap_area =
  ma_f :: "nat option"
  ma_addr :: uint
  ma_length :: int
  ma_offset :: int
  ma_prot :: int
  ma_flags :: int
  ma_p :: "nat option"

record mmap_state = file_state +
  mmap_areas :: "nat \<Rightarrow> mmap_area"
  mmap_status_flag :: "nat \<Rightarrow> int"

type_synonym ('a, 'b) mmres = "('a mmap_state_scheme, 'b) kres"

abbreviation (input) NMMAP :: nat where "NMMAP \<equiv> 64"

section \<open>mmap\<close>

text \<open>The tests on the arguments, up to the file; \<open>None\<close> is the return of 0.\<close>

definition mmap_args_ok :: "uint \<Rightarrow> int \<Rightarrow> int \<Rightarrow> int \<Rightarrow> int \<Rightarrow> int \<Rightarrow> bool" where
  "mmap_args_ok addr len prot flags fd offset \<longleftrightarrow>
     addr mod PGSIZE = 0 \<and> len \<noteq> 0 \<and> len mod 4096 = 0 \<and> (prot = 1 \<or> prot = 3) \<and>
     (flags = 0 \<or> flags = 1 \<or> flags = 2 \<or> flags = 3) \<and>
     \<not> (flags AND 1 = 0 \<and> fd = -1) \<and> (fd = -1 \<or> fd \<ge> 0 \<and> offset \<ge> 0)"

text \<open>The file of the descriptor, and the test of its type and modes for a file mapping.\<close>

definition mmap_file :: "int \<Rightarrow> proc \<Rightarrow> 's stop + nat option" where
  "mmap_file fd p =
     (if fd = -1 then Inr None
      else if fd \<ge> int NOFILE then Inl (Fault ''mmap'')
      else Inr (ofile p ! nat fd))"

definition mmap_file_ok :: "int \<Rightarrow> int \<Rightarrow> nat option \<Rightarrow> 'a file_state_scheme \<Rightarrow> ('a, bool) flres" where
  "mmap_file_ok prot flags pf s =
     (if flags AND 1 \<noteq> 0 then Inr True
      else
        case pf of
          None \<Rightarrow> Inl (Fault ''mmap'')
        | Some f \<Rightarrow>
            Inr (f_type (ftable s f) = FD_INODE \<and> (prot AND 1 = 1 \<longrightarrow> f_readable (ftable s f)) \<and> (prot AND 2 = 2 \<longrightarrow> f_writable (ftable s f))))"

text \<open>The test for overlap, against the areas of all processes.\<close>

definition mmap_clear :: "uint \<Rightarrow> int \<Rightarrow> 'a mmap_state_scheme \<Rightarrow> bool" where
  "mmap_clear addr len s \<longleftrightarrow>
     (\<forall>k \<in> set [0..<NMMAP]. mmap_status_flag s k \<noteq> 0 \<longrightarrow>
        addr + word_of_int len \<le> ma_addr (mmap_areas s k) \<or>
        ma_addr (mmap_areas s k) + word_of_int (ma_length (mmap_areas s k)) \<le> addr)"

definition mmap_record :: "nat \<Rightarrow> mmap_area \<Rightarrow> int \<Rightarrow> 'a mmap_state_scheme \<Rightarrow> 'a mmap_state_scheme" where
  "mmap_record k a st s =
     s\<lparr>mmap_areas := (mmap_areas s)(k := a), mmap_status_flag := (mmap_status_flag s)(k := st)\<rparr>"

definition set_status :: "nat \<Rightarrow> int \<Rightarrow> 'a mmap_state_scheme \<Rightarrow> 'a mmap_state_scheme" where
  "set_status k st s = s\<lparr>mmap_status_flag := (mmap_status_flag s)(k := st)\<rparr>"

definition page_offs :: "int \<Rightarrow> uint list" where
  "page_offs len = map (\<lambda>k. of_nat (4096 * k)) [0..<(nat len + 4095) div 4096]"

text \<open>The loops that fill the whole area; the result says whether they got to the end.\<close>

fun populate :: "uint \<Rightarrow> uint \<Rightarrow> uint \<Rightarrow> nat option \<Rightarrow> uint list \<Rightarrow> 'a mmap_state_scheme \<Rightarrow> ('a, bool \<times> 'a mmap_state_scheme) mmres" where
  "populate dir addr perm pf [] s = Inr (True, s)"
| "populate dir addr perm pf (i # is') s =
     seq (kalloc s) (\<lambda>(v, s).
     if v = 0 then Inr (False, s)
     else
       let s = s\<lparr>mem := memset v 0 PGSIZE (mem s)\<rparr>
       in seq (case pf of None \<Rightarrow> Inr s | Some f \<Rightarrow> seq (fileread f 4096 s) (\<lambda>(r, bs, s). Inr (s\<lparr>mem := poke v bs (mem s)\<rparr>))) (\<lambda>s.
          seq (mappages dir (addr + i) PGSIZE (V2P v) perm s) (\<lambda>(r, s).
          if r = -1 then Inr (False, s) else populate dir addr perm pf is' s)))"

definition mmap :: "uint \<Rightarrow> int \<Rightarrow> int \<Rightarrow> int \<Rightarrow> int \<Rightarrow> int \<Rightarrow> 'a mmap_state_scheme \<Rightarrow> ('a, uint \<times> 'a mmap_state_scheme) mmres" where
  "mmap addr0 len prot flags fd offset s =
     (if \<not> mmap_args_ok addr0 len prot flags fd offset then Inr (0, s)
      else
        seq (myp s) (\<lambda>cp.
        let addr = addr0 + MMAPBASE
        in seq (mmap_file fd (pr s cp)) (\<lambda>pf.
           seq (mmap_file_ok prot flags pf s) (\<lambda>ok.
           if \<not> ok \<or> \<not> mmap_clear addr len s then Inr (0, s)
           else
             case find (\<lambda>k. mmap_status_flag s k = 0) [0..<NMMAP] of
               None \<Rightarrow> Inr (0, s)
             | Some k \<Rightarrow>
                 seq (case pf of None \<Rightarrow> Inr s | Some f \<Rightarrow> seq (filedup f s) (\<lambda>(_, s). Inr s)) (\<lambda>s.
                 let a = \<lparr>ma_f = pf, ma_addr = addr, ma_length = len, ma_offset = offset, ma_prot = prot, ma_flags = flags, ma_p = Some cp\<rparr>;
                     s = mmap_record k a (-1) s
                 in if flags = 0 \<or> flags = 1 then Inr (addr, s)
                    else
                      seq (if flags = 2 then
                             (case pf of
                                None \<Rightarrow> Inl (Fault ''mmap'')
                              | Some f \<Rightarrow> populate (pgdir (pr s cp)) addr (word_of_int prot OR PTE_U) pf (page_offs len)
                                  (upd_file f (\<lambda>x. x\<lparr>f_off := word_of_int offset\<rparr>) s))
                           else populate (pgdir (pr s cp)) addr (word_of_int prot OR PTE_U) None (page_offs len) s) (\<lambda>(ok, s).
                      if ok then Inr (addr, set_status k 1 s) else Inr (0, s)))))))"

section \<open>Page faults\<close>

definition page_fault_handler :: "uint \<Rightarrow> uint \<Rightarrow> 'a mmap_state_scheme \<Rightarrow> ('a, int \<times> 'a mmap_state_scheme) mmres" where
  "page_fault_handler va error s =
     seq (myp s) (\<lambda>cp.
     case find (\<lambda>k. ma_addr (mmap_areas s k) \<le> va \<and> va < ma_addr (mmap_areas s k) + word_of_int (ma_length (mmap_areas s k)) \<and>
                    ma_p (mmap_areas s k) = Some cp) [0..<NMMAP] of
       None \<Rightarrow> seq (cprintf ''Page fault: faulted address has no corresponding mmap_area\<newline>'' [] s) (\<lambda>s. Inr (-1, s))
     | Some k \<Rightarrow>
         let a = mmap_areas s k; va = ma_addr a
         in if ma_prot a AND 1 \<noteq> 1 \<and> error AND 2 = 0 then
              seq (cprintf ''Page fault: cannot read, but tried to read\<newline>'' [] s) (\<lambda>s. Inr (-1, s))
            else if ma_prot a AND 2 \<noteq> 2 \<and> error AND 2 = 2 then
              seq (cprintf ''Page fault: cannot write, but tried to write\<newline>'' [] s) (\<lambda>s. Inr (-1, s))
            else if mmap_status_flag s k \<noteq> -1 then Inr (-1, s)
            else
              seq (kalloc s) (\<lambda>(v, s).
              if v = 0 then Inr (-1, s)
              else
                let s = s\<lparr>mem := memset v 0 PGSIZE (mem s)\<rparr>
                in seq (if ma_flags a AND 1 = 0 then
                          (case ma_f a of
                             None \<Rightarrow> Inl (Fault ''page_fault_handler'')
                           | Some f \<Rightarrow>
                               seq (fileread f 4096 (upd_file f (\<lambda>x. x\<lparr>f_off := word_of_int (ma_offset a)\<rparr>) s)) (\<lambda>(r, bs, s).
                               Inr (r \<noteq> -1, s\<lparr>mem := poke v bs (mem s)\<rparr>)))
                        else Inr (True, s)) (\<lambda>(ok, s).
                   if \<not> ok then Inr (-1, s)
                   else
                     seq (mappages (pgdir (pr s cp)) va PGSIZE (V2P v) (word_of_int (ma_prot a) OR PTE_U) s) (\<lambda>(r, s).
                     if r = -1 then Inr (-1, s) else Inr (1, set_status k 1 s)))))"

section \<open>munmap\<close>

fun munmap_pages :: "uint \<Rightarrow> uint \<Rightarrow> uint list \<Rightarrow> 'a kmem_state_scheme \<Rightarrow> ('a kmem_state_scheme, bool \<times> 'a kmem_state_scheme) kres" where
  "munmap_pages dir addr [] s = Inr (True, s)"
| "munmap_pages dir addr (i # is') s =
     seq (walkpgdir dir (addr + i) False s) (\<lambda>(pte, s).
     if pte = 0 then Inr (False, s)
     else if ld32 (mem s) pte AND PTE_P \<noteq> 0 then
       let pa = PTE_ADDR (ld32 (mem s) pte) OR ((addr + i) AND 0xfff)
       in seq (kfree (P2V pa) s) (\<lambda>s. munmap_pages dir addr is' (s\<lparr>mem := st32 pte 0 (mem s)\<rparr>))
     else munmap_pages dir addr is' s)"

definition munmap :: "uint \<Rightarrow> 'a mmap_state_scheme \<Rightarrow> ('a, int \<times> 'a mmap_state_scheme) mmres" where
  "munmap addr s =
     (if addr mod PGSIZE \<noteq> 0 then Inr (-1, s)
      else
        seq (myp s) (\<lambda>cp.
        case find (\<lambda>k. ma_addr (mmap_areas s k) = addr \<and> ma_p (mmap_areas s k) = Some cp \<and> mmap_status_flag s k \<noteq> 0) [0..<NMMAP] of
          None \<Rightarrow> Inr (-1, s)
        | Some k \<Rightarrow>
            if mmap_status_flag s k = -1 then Inr (1, set_status k 0 s)
            else
              seq (munmap_pages (pgdir (pr s cp)) addr (page_offs (ma_length (mmap_areas s k))) s) (\<lambda>(ok, s).
              if ok then Inr (1, set_status k 0 s) else Inr (-1, s))))"

end
