(* ===== verification/Life.thy ===== *)
theory Life
  imports Mmap
begin

text \<open>
  The life of a process (\<open>proc.c\<close>): \<open>userinit\<close>, \<open>growproc\<close>, \<open>fork\<close> with its copy of the mapped
  areas, \<open>exit\<close>, \<open>wait\<close> and \<open>forkret\<close>. The bytes of \<open>initcode\<close> are an argument. \<open>exit\<close> ends in the
  scheduler; \<open>wait_resume\<close> is the loop of \<open>wait\<close> after a sleep. \<open>first\<close> is the static variable of
  \<open>forkret\<close>.
\<close>

record life_state = mmap_state +
  forkret_first :: bool

type_synonym ('a, 'b) lfres = "('a life_state_scheme, 'b) kres"

section \<open>The first process and growing\<close>

definition userinit :: "uchar list \<Rightarrow> 'a mmap_state_scheme \<Rightarrow> ('a, 'a mmap_state_scheme) mmres" where
  "userinit initcode s =
     seq (allocproc s) (\<lambda>(p, s).
     let s = s\<lparr>initproc := p\<rparr>
     in case p of
          None \<Rightarrow> Inl (Fault ''userinit'')
        | Some i \<Rightarrow>
            seq (setupkvm s) (\<lambda>(dir, s).
            let s = upd_proc i (\<lambda>p. p\<lparr>pgdir := dir\<rparr>) s
            in if dir = 0 then Inl (Panic ''userinit: out of memory?'')
               else
                 seq (inituvm dir initcode s) (\<lambda>s.
                 let s = upd_proc i (\<lambda>p. p\<lparr>sz := PGSIZE\<rparr>) s;
                     t = tf (pr s i);
                     m = memset t 0 76 (mem s);
                     m = st32 (t + 60) 27 m;
                     m = st32 (t + 44) 35 m;
                     m = st32 (t + 40) 35 m;
                     m = st32 (t + 72) 35 m;
                     m = st32 (t + 64) 0x200 m;
                     m = st32 (t + 68) PGSIZE m;
                     m = st32 (t + 56) 0 m;
                     s = s\<lparr>mem := m\<rparr>;
                     s = upd_proc i (\<lambda>p. p\<lparr>p_name := safestrcpy (p_name p) (zstr (lit ''initcode'')) 16\<rparr>) s
                 in seq (namei (lit ''/'') s) (\<lambda>(ip, s).
                    seq (lock L_ptable (upd_proc i (\<lambda>p. p\<lparr>cwd := ip\<rparr>) s)) (\<lambda>s.
                    unlock L_ptable (upd_proc i (\<lambda>p. p\<lparr>state := RUNNABLE\<rparr>) s))))))"

definition growproc :: "int \<Rightarrow> 'a mmap_state_scheme \<Rightarrow> ('a, int \<times> 'a mmap_state_scheme) mmres" where
  "growproc n s =
     seq (myp s) (\<lambda>i.
     let z = sz (pr s i); dir = pgdir (pr s i)
     in seq (if n > 0 then allocuvm dir z (z + word_of_int n) s
             else if n < 0 then deallocuvm dir z (z + word_of_int n) s
             else Inr (z, s)) (\<lambda>(r, s).
        if n \<noteq> 0 \<and> r = 0 then Inr (-1, s)
        else seq (switchuvm (Some i) (upd_proc i (\<lambda>p. p\<lparr>sz := r\<rparr>) s)) (\<lambda>s. Inr (0, s))))"

section \<open>fork\<close>

fun fork_files :: "nat \<Rightarrow> nat \<Rightarrow> nat list \<Rightarrow> 'a mmap_state_scheme \<Rightarrow> ('a, 'a mmap_state_scheme) mmres" where
  "fork_files cp np [] s = Inr s"
| "fork_files cp np (k # ks) s =
     (case ofile (pr s cp) ! k of
        None \<Rightarrow> fork_files cp np ks s
      | Some f \<Rightarrow> seq (filedup f s) (\<lambda>(f, s). fork_files cp np ks (upd_proc np (\<lambda>p. p\<lparr>ofile := (ofile p)[k := Some f]\<rparr>) s)))"

text \<open>The pages of one mapped area; \<open>False\<close> is the return of 0 when there is no memory.\<close>

fun fork_pages :: "nat \<Rightarrow> mmap_area \<Rightarrow> uint list \<Rightarrow> 'a mmap_state_scheme \<Rightarrow> ('a, bool \<times> 'a mmap_state_scheme) mmres" where
  "fork_pages np a [] s = Inr (True, s)"
| "fork_pages np a (i # is') s =
     seq (kalloc s) (\<lambda>(v, s).
     if v = 0 then Inr (False, s)
     else
       let s = s\<lparr>mem := memset v 0 PGSIZE (mem s)\<rparr>
       in seq (load_user s (ma_addr a + i) 4096) (\<lambda>bs.
          let s = s\<lparr>mem := poke v bs (mem s)\<rparr>
          in seq (mappages (pgdir (pr s np)) (ma_addr a + i) PGSIZE (V2P v) (word_of_int (ma_prot a) OR PTE_U) s) (\<lambda>(_, s).
             fork_pages np a is' s)))"

text \<open>The areas; \<open>Some r\<close> is an early return of \<open>r\<close>, which leaves the child as it is.\<close>

fun fork_areas :: "nat \<Rightarrow> nat \<Rightarrow> nat list \<Rightarrow> 'a mmap_state_scheme \<Rightarrow> ('a, int option \<times> 'a mmap_state_scheme) mmres" where
  "fork_areas cp np [] s = Inr (None, s)"
| "fork_areas cp np (i # is') s =
     (if ma_p (mmap_areas s i) = Some cp \<and> mmap_status_flag s i \<noteq> 0 then
        case find (\<lambda>k. mmap_status_flag s k = 0) [0..<NMMAP] of
          None \<Rightarrow> seq (cprintf ''Fork error: there is no empty mmap_area\<newline>'' [] s) (\<lambda>s. Inr (Some (-1), s))
        | Some k \<Rightarrow>
            let a = mmap_areas s i; st = mmap_status_flag s i;
                s = mmap_record k (a\<lparr>ma_p := Some np\<rparr>) st s
            in if st = 1 then
                 seq (if ma_flags a = 0 \<or> ma_flags a = 2 then
                        (case ma_f a of
                           None \<Rightarrow> Inl (Fault ''fork'')
                         | Some f \<Rightarrow> Inr (upd_file f (\<lambda>x. x\<lparr>f_off := word_of_int (ma_offset a)\<rparr>) s))
                      else Inr s) (\<lambda>s.
                 seq (fork_pages np a (page_offs (ma_length a)) s) (\<lambda>(ok, s).
                 if \<not> ok then Inr (Some 0, s) else fork_areas cp np is' (set_status k 1 s)))
               else fork_areas cp np is' s
      else fork_areas cp np is' s)"

definition fork :: "'a mmap_state_scheme \<Rightarrow> ('a, int \<times> 'a mmap_state_scheme) mmres" where
  "fork s =
     seq (myp s) (\<lambda>cp.
     seq (allocproc s) (\<lambda>(r, s).
     case r of
       None \<Rightarrow> Inr (-1, s)
     | Some np \<Rightarrow>
         seq (copyuvm (pgdir (pr s cp)) (sz (pr s cp)) s) (\<lambda>(dir, s).
         let s = upd_proc np (\<lambda>p. p\<lparr>pgdir := dir\<rparr>) s
         in if dir = 0 then
              seq (kfree (kstack (pr s np)) s) (\<lambda>s.
              Inr (-1, upd_proc np (\<lambda>p. p\<lparr>kstack := 0, state := UNUSED\<rparr>) s))
            else
              let c = pr s cp;
                  s = upd_proc np (\<lambda>p. p\<lparr>sz := sz c, parent := Some cp\<rparr>) s;
                  s = s\<lparr>mem := poke (tf (pr s np)) (peek (mem s) (tf c) 76) (mem s)\<rparr>;
                  s = upd_proc np (\<lambda>p. p\<lparr>nice := nice c, weight := weight_of (nice c), vruntime := vruntime c, int_overflow := int_overflow c\<rparr>) s;
                  s = s\<lparr>mem := st32 (tf (pr s np) + 28) 0 (mem s)\<rparr>
              in seq (fork_files cp np [0..<NOFILE] s) (\<lambda>s.
                 seq (case cwd (pr s cp) of None \<Rightarrow> Inl (Fault ''idup'') | Some ip \<Rightarrow> idup ip s) (\<lambda>(ip, s).
                 let s = upd_proc np (\<lambda>p. p\<lparr>cwd := Some ip, p_name := safestrcpy (p_name p) (zstr (p_name (pr s cp))) 16\<rparr>) s
                 in seq (fork_areas cp np [0..<NMMAP] s) (\<lambda>(early, s).
                    case early of
                      Some r \<Rightarrow> Inr (r, s)
                    | None \<Rightarrow>
                        let n = pid (pr s np)
                        in seq (lock L_ptable s) (\<lambda>s.
                           seq (unlock L_ptable (upd_proc np (\<lambda>p. p\<lparr>state := RUNNABLE\<rparr>) s)) (\<lambda>s.
                           Inr (n, s)))))))))"

section \<open>exit and wait\<close>

definition proc_chan :: "nat option \<Rightarrow> chan" where
  "proc_chan p = (case p of None \<Rightarrow> ChNone | Some i \<Rightarrow> ChProc i)"

fun exit_files :: "nat \<Rightarrow> nat list \<Rightarrow> 'a mmap_state_scheme \<Rightarrow> ('a, 'a mmap_state_scheme) mmres" where
  "exit_files cp [] s = Inr s"
| "exit_files cp (fd # fds) s =
     (case ofile (pr s cp) ! fd of
        None \<Rightarrow> exit_files cp fds s
      | Some f \<Rightarrow> seq (fileclose f s) (\<lambda>s. exit_files cp fds (upd_proc cp (\<lambda>p. p\<lparr>ofile := (ofile p)[fd := None]\<rparr>) s)))"

fun exit_children :: "nat \<Rightarrow> nat list \<Rightarrow> 'a proc_state_scheme \<Rightarrow> ('a, 'a proc_state_scheme) pres" where
  "exit_children cp [] s = Inr s"
| "exit_children cp (k # ks) s =
     (if parent (pr s k) = Some cp then
        let s = upd_proc k (\<lambda>p. p\<lparr>parent := initproc s\<rparr>) s
        in seq (if state (pr s k) = ZOMBIE then wakeup1 (proc_chan (initproc s)) s else Inr s) (\<lambda>s.
           exit_children cp ks s)
      else exit_children cp ks s)"

definition kexit :: "'a mmap_state_scheme \<Rightarrow> ('a, 'b) mmres" where
  "kexit s =
     seq (myp s) (\<lambda>cp.
     if initproc s = Some cp then Inl (Panic ''init exiting'')
     else
       seq (exit_files cp [0..<NOFILE] s) (\<lambda>s.
       seq (begin_op s) (\<lambda>s.
       seq (iput_ptr (cwd (pr s cp)) s) (\<lambda>s.
       seq (end_op s) (\<lambda>s.
       seq (update_runtime cp (upd_proc cp (\<lambda>p. p\<lparr>cwd := None\<rparr>) s)) (\<lambda>s.
       seq (lock L_ptable s) (\<lambda>s.
       seq (wakeup1 (proc_chan (parent (pr s cp))) s) (\<lambda>s.
       seq (exit_children cp [0..<NPROC] s) (\<lambda>s.
       sched (upd_proc cp (\<lambda>p. p\<lparr>state := ZOMBIE\<rparr>) s))))))))))"

text \<open>Freeing the zombie that \<open>wait\<close> found.\<close>

definition reap :: "nat \<Rightarrow> 'a proc_state_scheme \<Rightarrow> ('a, int \<times> 'a proc_state_scheme) pres" where
  "reap k s =
     (let n = pid (pr s k)
      in seq (kfree (kstack (pr s k)) s) (\<lambda>s.
         seq (freevm (pgdir (pr s k)) (upd_proc k (\<lambda>p. p\<lparr>kstack := 0\<rparr>) s)) (\<lambda>s.
         let s = upd_proc k (\<lambda>p. p\<lparr>pid := 0, parent := None, p_name := (p_name p)[0 := 0], killed := False, state := UNUSED\<rparr>) s
         in seq (unlock L_ptable s) (\<lambda>s. Inr (n, s)))))"

definition wait_loop :: "'a proc_state_scheme \<Rightarrow> ('a, int \<times> 'a proc_state_scheme) pres" where
  "wait_loop s =
     seq (myp s) (\<lambda>cp.
     case scan (\<lambda>p. parent p = Some cp \<and> state p = ZOMBIE) (ptable s) of
       Some k \<Rightarrow> reap k s
     | None \<Rightarrow>
         if scan (\<lambda>p. parent p = Some cp) (ptable s) = None \<or> killed (pr s cp)
         then seq (unlock L_ptable s) (\<lambda>s. Inr (-1, s))
         else sleep (ChProc cp) (Some L_ptable) s)"

definition wait :: "'a proc_state_scheme \<Rightarrow> ('a, int \<times> 'a proc_state_scheme) pres" where
  "wait s = seq (lock L_ptable s) (\<lambda>s. wait_loop s)"

definition wait_resume :: "'a proc_state_scheme \<Rightarrow> ('a, int \<times> 'a proc_state_scheme) pres" where
  "wait_resume s = seq (sleep_resume L_ptable s) (\<lambda>s. wait_loop s)"

definition forkret :: "'a life_state_scheme \<Rightarrow> ('a, 'a life_state_scheme) lfres" where
  "forkret s =
     seq (unlock L_ptable s) (\<lambda>s.
     if forkret_first s then
       seq (iinit ROOTDEV (s\<lparr>forkret_first := False\<rparr>)) (\<lambda>s. initlog ROOTDEV s)
     else Inr s)"

end
