(* ===== verification/Exec.thy ===== *)
theory Exec
  imports Life
begin

text \<open>
  Running a program (\<open>exec.c\<close>, \<open>loaduvm\<close> of \<open>vm.c\<close>, the headers of \<open>elf.h\<close>). The path and the argument
  strings are byte lists. The label \<open>bad\<close> is the definition \<open>exec_bad\<close>.
\<close>

section \<open>Loading a segment\<close>

definition page_list :: "uint \<Rightarrow> uint list" where
  "page_list n = map (\<lambda>k. of_nat (4096 * k)) [0..<(unat n + 4095) div 4096]"

fun loaduvm_from :: "uint \<Rightarrow> uint \<Rightarrow> nat \<Rightarrow> uint \<Rightarrow> uint \<Rightarrow> uint list \<Rightarrow> 'a fs_state_scheme \<Rightarrow> ('a, int \<times> 'a fs_state_scheme) fres" where
  "loaduvm_from dir addr ip offset n [] s = Inr (0, s)"
| "loaduvm_from dir addr ip offset n (i # is') s =
     seq (walkpgdir dir (addr + i) False s) (\<lambda>(pte, s).
     if pte = 0 then Inl (Panic ''loaduvm: address should exist'')
     else
       let pa = PTE_ADDR (ld32 (mem s) pte);
           k = (if n - i < PGSIZE then n - i else PGSIZE)
       in seq (readi ip (offset + i) k s) (\<lambda>(r, bs, s).
          let s = s\<lparr>mem := poke (P2V pa) bs (mem s)\<rparr>
          in if word_of_int r \<noteq> k then Inr (-1, s) else loaduvm_from dir addr ip offset n is' s))"

definition loaduvm :: "uint \<Rightarrow> uint \<Rightarrow> nat \<Rightarrow> uint \<Rightarrow> uint \<Rightarrow> 'a fs_state_scheme \<Rightarrow> ('a, int \<times> 'a fs_state_scheme) fres" where
  "loaduvm dir addr ip offset n s =
     (if addr mod PGSIZE \<noteq> 0 then Inl (Panic ''loaduvm: addr must be page aligned'')
      else loaduvm_from dir addr ip offset n (page_list n) s)"

section \<open>Headers\<close>

record elfhdr =
  e_magic :: uint
  e_entry :: uint
  e_phoff :: uint
  e_phnum :: ushort

record proghdr =
  ph_type :: uint
  ph_off :: uint
  ph_vaddr :: uint
  ph_filesz :: uint
  ph_memsz :: uint

definition dec_elfhdr :: "uchar list \<Rightarrow> elfhdr" where
  "dec_elfhdr d = \<lparr>e_magic = get32 d 0, e_entry = get32 d 24, e_phoff = get32 d 28, e_phnum = get16 d 44\<rparr>"

definition dec_proghdr :: "uchar list \<Rightarrow> proghdr" where
  "dec_proghdr d =
     \<lparr>ph_type = get32 d 0, ph_off = get32 d 4, ph_vaddr = get32 d 8, ph_filesz = get32 d 16, ph_memsz = get32 d 20\<rparr>"

abbreviation (input) ELF_MAGIC :: uint where "ELF_MAGIC \<equiv> 0x464C457F"

section \<open>exec\<close>

text \<open>The loop over the program headers at the given offsets; \<open>None\<close> is a jump to \<open>bad\<close>.\<close>

fun exec_load :: "uint \<Rightarrow> nat \<Rightarrow> uint list \<Rightarrow> uint \<Rightarrow> 'a fs_state_scheme \<Rightarrow> ('a, uint option \<times> 'a fs_state_scheme) fres" where
  "exec_load dir ip [] z s = Inr (Some z, s)"
| "exec_load dir ip (off # offs) z s =
     seq (readi ip off 32 s) (\<lambda>(r, bs, s).
     if r \<noteq> 32 then Inr (None, s)
     else
       let ph = dec_proghdr bs
       in if ph_type ph \<noteq> 1 then exec_load dir ip offs z s
          else if ph_memsz ph < ph_filesz ph then Inr (None, s)
          else if ph_vaddr ph + ph_memsz ph < ph_vaddr ph then Inr (None, s)
          else
            seq (allocuvm dir z (ph_vaddr ph + ph_memsz ph) s) (\<lambda>(z, s).
            if z = 0 then Inr (None, s)
            else if ph_vaddr ph mod PGSIZE \<noteq> 0 then Inr (None, s)
            else
              seq (loaduvm dir (ph_vaddr ph) ip (ph_off ph) (ph_filesz ph) s) (\<lambda>(r, s).
              if r < 0 then Inr (None, s) else exec_load dir ip offs z s)))"

text \<open>Pushing the argument strings: the stack pointer and the addresses pushed so far.\<close>

fun exec_args :: "uint \<Rightarrow> nat \<Rightarrow> uchar list list \<Rightarrow> uint \<Rightarrow> uint list \<Rightarrow> 'a kmem_state_scheme \<Rightarrow>
    ('a kmem_state_scheme, (uint \<times> uint list) option \<times> 'a kmem_state_scheme) kres" where
  "exec_args dir argc [] sp us s = Inr (Some (sp, us), s)"
| "exec_args dir argc (a # as) sp us s =
     (if argc \<ge> MAXARG then Inr (None, s)
      else
        let sp = (sp - (of_nat (length a) + 1)) AND NOT 3
        in seq (copyout dir sp (a @ [0]) s) (\<lambda>(r, s).
           if r < 0 then Inr (None, s) else exec_args dir (Suc argc) as sp (us @ [sp]) s))"

definition exec_bad :: "uint \<Rightarrow> nat option \<Rightarrow> 'a fs_state_scheme \<Rightarrow> ('a, int \<times> 'a fs_state_scheme) fres" where
  "exec_bad dir ip s =
     seq (if dir \<noteq> 0 then freevm dir s else Inr s) (\<lambda>s.
     seq (case ip of None \<Rightarrow> Inr s | Some ip \<Rightarrow> seq (iunlockput ip s) (\<lambda>s. end_op s)) (\<lambda>s.
     Inr (-1, s)))"

text \<open>The part of a path behind its last slash.\<close>

definition last_elem :: "uchar list \<Rightarrow> uchar list" where
  "last_elem path = rev (takeWhile (\<lambda>c. c \<noteq> 47) (rev path))"

definition exec_commit :: "uchar list \<Rightarrow> uint \<Rightarrow> uint \<Rightarrow> uint \<Rightarrow> uint \<Rightarrow> 'a fs_state_scheme \<Rightarrow> ('a, int \<times> 'a fs_state_scheme) fres" where
  "exec_commit path dir z entry sp s =
     seq (myp s) (\<lambda>cp.
     let s = upd_proc cp (\<lambda>p. p\<lparr>p_name := safestrcpy (p_name p) (zstr (last_elem path)) 16\<rparr>) s;
         old = pgdir (pr s cp);
         s = upd_proc cp (\<lambda>p. p\<lparr>pgdir := dir, sz := z\<rparr>) s;
         s = s\<lparr>mem := st32 (tf (pr s cp) + 56) entry (mem s)\<rparr>;
         s = s\<lparr>mem := st32 (tf (pr s cp) + 68) sp (mem s)\<rparr>
     in seq (switchuvm (Some cp) s) (\<lambda>s.
        seq (freevm old s) (\<lambda>s. Inr (0, s))))"

text \<open>The user stack, in the new address space.\<close>

definition exec_stack :: "uchar list \<Rightarrow> uchar list list \<Rightarrow> uint \<Rightarrow> uint \<Rightarrow> uint \<Rightarrow> 'a fs_state_scheme \<Rightarrow> ('a, int \<times> 'a fs_state_scheme) fres" where
  "exec_stack path argv dir z entry s =
     (let z = PGROUNDUP z
      in seq (allocuvm dir z (z + 2 * PGSIZE) s) (\<lambda>(z, s).
         if z = 0 then exec_bad dir None s
         else
           seq (clearpteu dir (z - 2 * PGSIZE) s) (\<lambda>s.
           seq (exec_args dir 0 argv z [] s) (\<lambda>(r, s).
           case r of
             None \<Rightarrow> exec_bad dir None s
           | Some (sp, us) \<Rightarrow>
               let argc = of_nat (length us) :: uint;
                   ustack = [0xffffffff, argc, sp - (argc + 1) * 4] @ us @ [0];
                   sp = sp - (3 + argc + 1) * 4
               in seq (copyout dir sp (concat (map enc32 ustack)) s) (\<lambda>(r, s).
                  if r < 0 then exec_bad dir None s else exec_commit path dir z entry sp s)))))"

definition exec :: "uchar list \<Rightarrow> uchar list list \<Rightarrow> 'a fs_state_scheme \<Rightarrow> ('a, int \<times> 'a fs_state_scheme) fres" where
  "exec path argv s =
     seq (begin_op s) (\<lambda>s.
     seq (namei path s) (\<lambda>(r, s).
     case r of
       None \<Rightarrow> seq (end_op s) (\<lambda>s. seq (cprintf ''exec: fail\<newline>'' [] s) (\<lambda>s. Inr (-1, s)))
     | Some ip \<Rightarrow>
         seq (ilock (Some ip) s) (\<lambda>s.
         seq (readi ip 0 52 s) (\<lambda>(r, bs, s).
         if r \<noteq> 52 \<or> e_magic (dec_elfhdr bs) \<noteq> ELF_MAGIC then exec_bad 0 (Some ip) s
         else
           seq (setupkvm s) (\<lambda>(dir, s).
           if dir = 0 then exec_bad 0 (Some ip) s
           else
             let h = dec_elfhdr bs
             in seq (exec_load dir ip (map (\<lambda>k. e_phoff h + of_nat (32 * k)) [0..<unat (e_phnum h)]) 0 s) (\<lambda>(r, s).
                case r of
                  None \<Rightarrow> exec_bad dir (Some ip) s
                | Some z \<Rightarrow>
                    seq (iunlockput ip s) (\<lambda>s.
                    seq (end_op s) (\<lambda>s.
                    exec_stack path argv dir z (e_entry h) s))))))))"

end
