(* ===== verification/Syscall.thy ===== *)
theory Syscall
  imports Exec
begin

text \<open>
  Fetching the arguments of system calls (\<open>syscall.c\<close>) and the system calls of \<open>sysproc.c\<close>. The trap
  frame of the calling process is in kernel memory; its arguments are on the user stack. A
  fetch that returns -1 in the source gives \<open>None\<close>; a string is given as its bytes.
\<close>

section \<open>The trap frame\<close>

definition tf_get :: "uint \<Rightarrow> 'a proc_state_scheme \<Rightarrow> ('a, uint) pres" where
  "tf_get off s = seq (myp s) (\<lambda>i. Inr (ld32 (mem s) (tf (pr s i) + off)))"

definition tf_set :: "uint \<Rightarrow> uint \<Rightarrow> 'a proc_state_scheme \<Rightarrow> ('a, 'a proc_state_scheme) pres" where
  "tf_set off v s = seq (myp s) (\<lambda>i. Inr (s\<lparr>mem := st32 (tf (pr s i) + off) v (mem s)\<rparr>))"

abbreviation (input) TF_EAX :: uint where "TF_EAX \<equiv> 28"
abbreviation (input) TF_ESP :: uint where "TF_ESP \<equiv> 68"

section \<open>Arguments\<close>

definition fetchint :: "uint \<Rightarrow> 'a proc_state_scheme \<Rightarrow> ('a, uint option) pres" where
  "fetchint addr s =
     seq (myp s) (\<lambda>i.
     if addr \<ge> sz (pr s i) \<or> addr + 4 > sz (pr s i) then Inr None
     else seq (load_user s addr 4) (\<lambda>bs. Inr (Some (get32 bs 0))))"

text \<open>The loop of \<open>fetchstr\<close>, with the number of bytes before the end of the address space.\<close>

fun fetchstr_from :: "nat \<Rightarrow> uint \<Rightarrow> 'a vm_state_scheme \<Rightarrow> ('a vm_state_scheme, uchar list option) kres" where
  "fetchstr_from 0 a s = Inr None"
| "fetchstr_from (Suc n) a s =
     seq (load_user s a 1) (\<lambda>bs.
     if hd bs = 0 then Inr (Some [])
     else seq (fetchstr_from n (a + 1) s) (\<lambda>r. Inr (map_option (Cons (hd bs)) r)))"

definition fetchstr :: "uint \<Rightarrow> 'a proc_state_scheme \<Rightarrow> ('a, uchar list option) pres" where
  "fetchstr addr s =
     seq (myp s) (\<lambda>i.
     if addr \<ge> sz (pr s i) then Inr None else fetchstr_from (unat (sz (pr s i) - addr)) addr s)"

definition argint :: "nat \<Rightarrow> 'a proc_state_scheme \<Rightarrow> ('a, uint option) pres" where
  "argint n s = seq (tf_get TF_ESP s) (\<lambda>esp. fetchint (esp + 4 + 4 * of_nat n) s)"

definition argptr :: "nat \<Rightarrow> int \<Rightarrow> 'a proc_state_scheme \<Rightarrow> ('a, uint option) pres" where
  "argptr n len s =
     seq (argint n s) (\<lambda>r.
     case r of
       None \<Rightarrow> Inr None
     | Some a \<Rightarrow>
         seq (myp s) (\<lambda>i.
         if len < 0 \<or> a \<ge> sz (pr s i) \<or> a + word_of_int len > sz (pr s i) then Inr None else Inr (Some a)))"

definition argstr :: "nat \<Rightarrow> 'a proc_state_scheme \<Rightarrow> ('a, uchar list option) pres" where
  "argstr n s =
     seq (argint n s) (\<lambda>r.
     case r of None \<Rightarrow> Inr None | Some a \<Rightarrow> fetchstr a s)"

text \<open>A call whose first step is to fetch an argument and to return a value when that fails.\<close>

definition with_arg :: "('s stop + 'x option) \<Rightarrow> int \<Rightarrow> 's \<Rightarrow> ('x \<Rightarrow> 's stop + (int \<times> 's)) \<Rightarrow> 's stop + (int \<times> 's)" where
  "with_arg m e s f = seq m (\<lambda>r. case r of None \<Rightarrow> Inr (e, s) | Some x \<Rightarrow> f x)"

section \<open>System calls on processes\<close>

type_synonym ('a, 'b) scres = "('a life_state_scheme, 'b) kres"

definition sys_fork :: "'a life_state_scheme \<Rightarrow> ('a, int \<times> 'a life_state_scheme) scres" where
  "sys_fork s = fork s"

definition sys_exit :: "'a life_state_scheme \<Rightarrow> ('a, int \<times> 'a life_state_scheme) scres" where
  "sys_exit s = kexit s"

definition sys_wait :: "'a life_state_scheme \<Rightarrow> ('a, int \<times> 'a life_state_scheme) scres" where
  "sys_wait s = wait s"

definition sys_kill :: "'a life_state_scheme \<Rightarrow> ('a, int \<times> 'a life_state_scheme) scres" where
  "sys_kill s = with_arg (argint 0 s) (-1) s (\<lambda>n. kill (sint n) s)"

definition sys_getpid :: "'a life_state_scheme \<Rightarrow> ('a, int \<times> 'a life_state_scheme) scres" where
  "sys_getpid s = seq (myp s) (\<lambda>i. Inr (pid (pr s i), s))"

definition sys_sbrk :: "'a life_state_scheme \<Rightarrow> ('a, int \<times> 'a life_state_scheme) scres" where
  "sys_sbrk s =
     with_arg (argint 0 s) (-1) s (\<lambda>n.
     seq (myp s) (\<lambda>i.
     let addr = sint (sz (pr s i))
     in seq (growproc (sint n) s) (\<lambda>(r, s). Inr (if r < 0 then -1 else addr, s))))"

definition sleep_loop :: "uint \<Rightarrow> uint \<Rightarrow> 'a life_state_scheme \<Rightarrow> ('a, int \<times> 'a life_state_scheme) scres" where
  "sleep_loop ticks0 n s =
     (if ticks s - ticks0 < n then
        seq (myp s) (\<lambda>i.
        if killed (pr s i) then seq (unlock L_tickslock s) (\<lambda>s. Inr (-1, s))
        else sleep ChTicks (Some L_tickslock) s)
      else seq (unlock L_tickslock s) (\<lambda>s. Inr (0, s)))"

definition sys_sleep :: "'a life_state_scheme \<Rightarrow> ('a, int \<times> 'a life_state_scheme) scres" where
  "sys_sleep s =
     with_arg (argint 0 s) (-1) s (\<lambda>n.
     seq (lock L_tickslock s) (\<lambda>s. sleep_loop (ticks s) n s))"

definition sys_sleep_resume :: "uint \<Rightarrow> uint \<Rightarrow> 'a life_state_scheme \<Rightarrow> ('a, int \<times> 'a life_state_scheme) scres" where
  "sys_sleep_resume ticks0 n s = seq (sleep_resume L_tickslock s) (\<lambda>s. sleep_loop ticks0 n s)"

definition sys_uptime :: "'a life_state_scheme \<Rightarrow> ('a, int \<times> 'a life_state_scheme) scres" where
  "sys_uptime s =
     seq (lock L_tickslock s) (\<lambda>s.
     let x = ticks s in seq (unlock L_tickslock s) (\<lambda>s. Inr (sint x, s)))"

definition sys_getnice :: "'a life_state_scheme \<Rightarrow> ('a, int \<times> 'a life_state_scheme) scres" where
  "sys_getnice s = with_arg (argint 0 s) (-1) s (\<lambda>n. getnice (sint n) s)"

definition sys_setnice :: "'a life_state_scheme \<Rightarrow> ('a, int \<times> 'a life_state_scheme) scres" where
  "sys_setnice s =
     with_arg (argint 0 s) (-1) s (\<lambda>n.
     with_arg (argint 1 s) (-1) s (\<lambda>v. setnice (sint n) (sint v) s))"

definition sys_ps :: "'a life_state_scheme \<Rightarrow> ('a, int \<times> 'a life_state_scheme) scres" where
  "sys_ps s = with_arg (argint 0 s) (-1) s (\<lambda>n. seq (ps (sint n) s) (\<lambda>s. Inr (0, s)))"

definition sys_mmap :: "'a life_state_scheme \<Rightarrow> ('a, int \<times> 'a life_state_scheme) scres" where
  "sys_mmap s =
     with_arg (argint 0 s) 0 s (\<lambda>addr.
     with_arg (argint 1 s) 0 s (\<lambda>len.
     with_arg (argint 2 s) 0 s (\<lambda>prot.
     with_arg (argint 3 s) 0 s (\<lambda>flags.
     with_arg (argint 4 s) 0 s (\<lambda>fd.
     with_arg (argint 5 s) 0 s (\<lambda>offset.
     seq (mmap addr (sint len) (sint prot) (sint flags) (sint fd) (sint offset) s) (\<lambda>(r, s). Inr (sint r, s))))))))"

definition sys_munmap :: "'a life_state_scheme \<Rightarrow> ('a, int \<times> 'a life_state_scheme) scres" where
  "sys_munmap s = with_arg (argint 0 s) (-1) s (\<lambda>addr. munmap addr s)"

definition sys_freemem :: "'a life_state_scheme \<Rightarrow> ('a, int \<times> 'a life_state_scheme) scres" where
  "sys_freemem s = (case freemem s of None \<Rightarrow> Inl Diverge | Some n \<Rightarrow> Inr (sint n, s))"

end
