(* ===== verification/Sysfile.thy ===== *)
theory Sysfile
  imports Syscall
begin

text \<open>
  The system calls on files (\<open>sysfile.c\<close>). User buffers are copied through the page table: \<open>sys_read\<close>
  stores the bytes that \<open>fileread\<close> delivers, \<open>sys_write\<close> loads the bytes it hands to \<open>filewrite\<close>. The
  labels \<open>bad\<close> of \<open>sys_link\<close> and \<open>sys_unlink\<close> are definitions of their own.
\<close>

section \<open>Descriptors\<close>

definition argfd :: "nat \<Rightarrow> 'a proc_state_scheme \<Rightarrow> ('a, (nat \<times> nat) option) pres" where
  "argfd n s =
     seq (argint n s) (\<lambda>r.
     case r of
       None \<Rightarrow> Inr None
     | Some fd \<Rightarrow>
         seq (myp s) (\<lambda>i.
         if sint fd < 0 \<or> sint fd \<ge> int NOFILE then Inr None
         else Inr (map_option (\<lambda>f. (nat (sint fd), f)) (ofile (pr s i) ! nat (sint fd)))))"

definition fdalloc :: "nat \<Rightarrow> 'a proc_state_scheme \<Rightarrow> ('a, nat option \<times> 'a proc_state_scheme) pres" where
  "fdalloc f s =
     seq (myp s) (\<lambda>i.
     case find (\<lambda>fd. ofile (pr s i) ! fd = None) [0..<NOFILE] of
       None \<Rightarrow> Inr (None, s)
     | Some fd \<Rightarrow> Inr (Some fd, upd_proc i (\<lambda>p. p\<lparr>ofile := (ofile p)[fd := Some f]\<rparr>) s))"

definition set_ofile :: "nat \<Rightarrow> nat option \<Rightarrow> 'a proc_state_scheme \<Rightarrow> ('a, 'a proc_state_scheme) pres" where
  "set_ofile fd f s = seq (myp s) (\<lambda>i. Inr (upd_proc i (\<lambda>p. p\<lparr>ofile := (ofile p)[fd := f]\<rparr>) s))"

section \<open>Calls on open files\<close>

definition sys_dup :: "'a life_state_scheme \<Rightarrow> ('a, int \<times> 'a life_state_scheme) scres" where
  "sys_dup s =
     with_arg (argfd 0 s) (-1) s (\<lambda>(_, f).
     seq (fdalloc f s) (\<lambda>(r, s).
     case r of
       None \<Rightarrow> Inr (-1, s)
     | Some fd \<Rightarrow> seq (filedup f s) (\<lambda>(_, s). Inr (int fd, s))))"

definition sys_read :: "'a life_state_scheme \<Rightarrow> ('a, int \<times> 'a life_state_scheme) scres" where
  "sys_read s =
     with_arg (argfd 0 s) (-1) s (\<lambda>(_, f).
     with_arg (argint 2 s) (-1) s (\<lambda>n.
     with_arg (argptr 1 (sint n) s) (-1) s (\<lambda>p.
     seq (fileread f (sint n) s) (\<lambda>(r, bs, s).
     seq (store_user p bs s) (\<lambda>s. Inr (r, s))))))"

definition sys_write :: "'a life_state_scheme \<Rightarrow> ('a, int \<times> 'a life_state_scheme) scres" where
  "sys_write s =
     with_arg (argfd 0 s) (-1) s (\<lambda>(_, f).
     with_arg (argint 2 s) (-1) s (\<lambda>n.
     with_arg (argptr 1 (sint n) s) (-1) s (\<lambda>p.
     seq (load_user s p (nat (sint n))) (\<lambda>bs. filewrite f bs (sint n) s))))"

definition sys_close :: "'a life_state_scheme \<Rightarrow> ('a, int \<times> 'a life_state_scheme) scres" where
  "sys_close s =
     with_arg (argfd 0 s) (-1) s (\<lambda>(fd, f).
     seq (set_ofile fd None s) (\<lambda>s.
     seq (fileclose f s) (\<lambda>s. Inr (0, s))))"

text \<open>\<open>struct stat\<close> in user memory: 20 bytes, with two bytes of padding behind each short.\<close>

definition store_stat :: "uint \<Rightarrow> stat \<Rightarrow> 'a vm_state_scheme \<Rightarrow> ('a vm_state_scheme, 'a vm_state_scheme) kres" where
  "store_stat p st s =
     seq (store_user (p + 4) (enc32 (st_dev st)) s) (\<lambda>s.
     seq (store_user (p + 8) (enc32 (st_ino st)) s) (\<lambda>s.
     seq (store_user p (enc16 (st_type st)) s) (\<lambda>s.
     seq (store_user (p + 12) (enc16 (st_nlink st)) s) (\<lambda>s.
     store_user (p + 16) (enc32 (st_size st)) s))))"

definition sys_fstat :: "'a life_state_scheme \<Rightarrow> ('a, int \<times> 'a life_state_scheme) scres" where
  "sys_fstat s =
     with_arg (argfd 0 s) (-1) s (\<lambda>(_, f).
     with_arg (argptr 1 20 s) (-1) s (\<lambda>p.
     seq (filestat f s) (\<lambda>(r, s).
     case r of
       None \<Rightarrow> Inr (-1, s)
     | Some st \<Rightarrow> seq (store_stat p st s) (\<lambda>s. Inr (0, s)))))"

section \<open>Links\<close>

definition add_nlink :: "ushort \<Rightarrow> nat \<Rightarrow> 'a fs_state_scheme \<Rightarrow> ('a, 'a fs_state_scheme) fres" where
  "add_nlink d ip s = iupdate ip (upd_inode ip (\<lambda>x. x\<lparr>i_nlink := i_nlink x + d\<rparr>) s)"

definition link_bad :: "nat \<Rightarrow> 'a life_state_scheme \<Rightarrow> ('a, int \<times> 'a life_state_scheme) scres" where
  "link_bad ip s =
     seq (ilock (Some ip) s) (\<lambda>s.
     seq (add_nlink (-1) ip s) (\<lambda>s.
     seq (iunlockput ip s) (\<lambda>s.
     seq (end_op s) (\<lambda>s. Inr (-1, s)))))"

definition sys_link :: "'a life_state_scheme \<Rightarrow> ('a, int \<times> 'a life_state_scheme) scres" where
  "sys_link s =
     with_arg (argstr 0 s) (-1) s (\<lambda>old.
     with_arg (argstr 1 s) (-1) s (\<lambda>new.
     seq (begin_op s) (\<lambda>s.
     seq (namei old s) (\<lambda>(r, s).
     case r of
       None \<Rightarrow> seq (end_op s) (\<lambda>s. Inr (-1, s))
     | Some ip \<Rightarrow>
         seq (ilock (Some ip) s) (\<lambda>s.
         if i_type (ino s ip) = T_DIR then
           seq (iunlockput ip s) (\<lambda>s. seq (end_op s) (\<lambda>s. Inr (-1, s)))
         else
           seq (add_nlink 1 ip s) (\<lambda>s.
           seq (iunlock (Some ip) s) (\<lambda>s.
           seq (nameiparent new s) (\<lambda>(r, s).
           case r of
             None \<Rightarrow> link_bad ip s
           | Some (dp, name) \<Rightarrow>
               seq (ilock (Some dp) s) (\<lambda>s.
               seq (if i_dev (ino s dp) \<noteq> i_dev (ino s ip) then Inr (-1, s) else dirlink dp name (i_inum (ino s ip)) s) (\<lambda>(r, s).
               if r < 0 then seq (iunlockput dp s) (\<lambda>s. link_bad ip s)
               else
                 seq (iunlockput dp s) (\<lambda>s.
                 seq (iput ip s) (\<lambda>s.
                 seq (end_op s) (\<lambda>s. Inr (0, s))))))))))))))"

fun isdirempty_from :: "nat \<Rightarrow> uint list \<Rightarrow> 'a fs_state_scheme \<Rightarrow> ('a, bool \<times> 'a fs_state_scheme) fres" where
  "isdirempty_from dp [] s = Inr (True, s)"
| "isdirempty_from dp (off # offs) s =
     seq (read_dirent ''isdirempty: readi'' dp off s) (\<lambda>((inum, _), s).
     if inum \<noteq> 0 then Inr (False, s) else isdirempty_from dp offs s)"

definition isdirempty :: "nat \<Rightarrow> 'a fs_state_scheme \<Rightarrow> ('a, bool \<times> 'a fs_state_scheme) fres" where
  "isdirempty dp s = isdirempty_from dp (drop 2 (dirent_offs (i_size (ino s dp)))) s"

definition unlink_bad :: "nat \<Rightarrow> 'a life_state_scheme \<Rightarrow> ('a, int \<times> 'a life_state_scheme) scres" where
  "unlink_bad dp s =
     seq (iunlockput dp s) (\<lambda>s.
     seq (end_op s) (\<lambda>s. Inr (-1, s)))"

definition sys_unlink :: "'a life_state_scheme \<Rightarrow> ('a, int \<times> 'a life_state_scheme) scres" where
  "sys_unlink s =
     with_arg (argstr 0 s) (-1) s (\<lambda>path.
     seq (begin_op s) (\<lambda>s.
     seq (nameiparent path s) (\<lambda>(r, s).
     case r of
       None \<Rightarrow> seq (end_op s) (\<lambda>s. Inr (-1, s))
     | Some (dp, name) \<Rightarrow>
         seq (ilock (Some dp) s) (\<lambda>s.
         if namecmp name (lit ''.'') = 0 \<or> namecmp name (lit ''..'') = 0 then unlink_bad dp s
         else
           seq (dirlookup dp name s) (\<lambda>(r, s).
           case r of
             None \<Rightarrow> unlink_bad dp s
           | Some (ip, off) \<Rightarrow>
               seq (ilock (Some ip) s) (\<lambda>s.
               if sint (i_nlink (ino s ip)) < 1 then Inl (Panic ''unlink: nlink < 1'')
               else
                 seq (if i_type (ino s ip) = T_DIR then isdirempty ip s else Inr (True, s)) (\<lambda>(e, s).
                 if \<not> e then seq (iunlockput ip s) (\<lambda>s. unlink_bad dp s)
                 else
                   seq (writei dp (replicate 16 0) off s) (\<lambda>(r, s).
                   if r \<noteq> 16 then Inl (Panic ''unlink: writei'')
                   else
                     seq (if i_type (ino s ip) = T_DIR then add_nlink (-1) dp s else Inr s) (\<lambda>s.
                     seq (iunlockput dp s) (\<lambda>s.
                     seq (add_nlink (-1) ip s) (\<lambda>s.
                     seq (iunlockput ip s) (\<lambda>s.
                     seq (end_op s) (\<lambda>s. Inr (0, s))))))))))))))"

section \<open>Creating and opening\<close>

definition create :: "uchar list \<Rightarrow> ushort \<Rightarrow> ushort \<Rightarrow> ushort \<Rightarrow> 'a fs_state_scheme \<Rightarrow> ('a, nat option \<times> 'a fs_state_scheme) fres" where
  "create path type major minor s =
     seq (nameiparent path s) (\<lambda>(r, s).
     case r of
       None \<Rightarrow> Inr (None, s)
     | Some (dp, name) \<Rightarrow>
         seq (ilock (Some dp) s) (\<lambda>s.
         seq (dirlookup dp name s) (\<lambda>(r, s).
         case r of
           Some (ip, _) \<Rightarrow>
             seq (iunlockput dp s) (\<lambda>s.
             seq (ilock (Some ip) s) (\<lambda>s.
             if type = T_FILE \<and> i_type (ino s ip) = T_FILE then Inr (Some ip, s)
             else seq (iunlockput ip s) (\<lambda>s. Inr (None, s))))
         | None \<Rightarrow>
             seq (ialloc (i_dev (ino s dp)) type s) (\<lambda>(ip, s).
             seq (ilock (Some ip) s) (\<lambda>s.
             seq (iupdate ip (upd_inode ip (\<lambda>x. x\<lparr>i_major := major, i_minor := minor, i_nlink := 1\<rparr>) s)) (\<lambda>s.
             seq (if type = T_DIR then
                    seq (add_nlink 1 dp s) (\<lambda>s.
                    seq (dirlink ip (lit ''.'') (i_inum (ino s ip)) s) (\<lambda>(r, s).
                    if r < 0 then Inl (Panic ''create dots'')
                    else
                      seq (dirlink ip (lit ''..'') (i_inum (ino s dp)) s) (\<lambda>(r, s).
                      if r < 0 then Inl (Panic ''create dots'') else Inr s)))
                  else Inr s) (\<lambda>s.
             seq (dirlink dp name (i_inum (ino s ip)) s) (\<lambda>(r, s).
             if r < 0 then Inl (Panic ''create: dirlink'')
             else seq (iunlockput dp s) (\<lambda>s. Inr (Some ip, s))))))))))"

abbreviation (input) O_WRONLY :: uint where "O_WRONLY \<equiv> 1"
abbreviation (input) O_RDWR :: uint where "O_RDWR \<equiv> 2"
abbreviation (input) O_CREATE :: uint where "O_CREATE \<equiv> 0x200"

text \<open>The inode to open, locked; \<open>None\<close> when the call ends with -1.\<close>

definition open_inode :: "uchar list \<Rightarrow> uint \<Rightarrow> 'a fs_state_scheme \<Rightarrow> ('a, nat option \<times> 'a fs_state_scheme) fres" where
  "open_inode path omode s =
     (if omode AND O_CREATE \<noteq> 0 then
        seq (create path T_FILE 0 0 s) (\<lambda>(r, s).
        case r of None \<Rightarrow> seq (end_op s) (\<lambda>s. Inr (None, s)) | Some ip \<Rightarrow> Inr (Some ip, s))
      else
        seq (namei path s) (\<lambda>(r, s).
        case r of
          None \<Rightarrow> seq (end_op s) (\<lambda>s. Inr (None, s))
        | Some ip \<Rightarrow>
            seq (ilock (Some ip) s) (\<lambda>s.
            if i_type (ino s ip) = T_DIR \<and> omode \<noteq> 0 then
              seq (iunlockput ip s) (\<lambda>s. seq (end_op s) (\<lambda>s. Inr (None, s)))
            else Inr (Some ip, s))))"

definition open_fail :: "nat option \<Rightarrow> nat \<Rightarrow> 'a life_state_scheme \<Rightarrow> ('a, int \<times> 'a life_state_scheme) scres" where
  "open_fail f ip s =
     seq (close_opt f s) (\<lambda>s.
     seq (iunlockput ip s) (\<lambda>s.
     seq (end_op s) (\<lambda>s. Inr (-1, s))))"

definition sys_open :: "'a life_state_scheme \<Rightarrow> ('a, int \<times> 'a life_state_scheme) scres" where
  "sys_open s =
     with_arg (argstr 0 s) (-1) s (\<lambda>path.
     with_arg (argint 1 s) (-1) s (\<lambda>omode.
     seq (begin_op s) (\<lambda>s.
     seq (open_inode path omode s) (\<lambda>(r, s).
     case r of
       None \<Rightarrow> Inr (-1, s)
     | Some ip \<Rightarrow>
         seq (filealloc s) (\<lambda>(r, s).
         case r of
           None \<Rightarrow> open_fail None ip s
         | Some f \<Rightarrow>
             seq (fdalloc f s) (\<lambda>(r, s).
             case r of
               None \<Rightarrow> open_fail (Some f) ip s
             | Some fd \<Rightarrow>
                 seq (iunlock (Some ip) s) (\<lambda>s.
                 seq (end_op s) (\<lambda>s.
                 Inr (int fd,
                      upd_file f (\<lambda>x. x\<lparr>f_type := FD_INODE, f_ip := Some ip, f_off := 0, f_readable := (omode AND O_WRONLY = 0),
                        f_writable := (omode AND O_WRONLY \<noteq> 0 \<or> omode AND O_RDWR \<noteq> 0)\<rparr>) s)))))))))"

definition sys_mkdir :: "'a life_state_scheme \<Rightarrow> ('a, int \<times> 'a life_state_scheme) scres" where
  "sys_mkdir s =
     seq (begin_op s) (\<lambda>s.
     seq (argstr 0 s) (\<lambda>a.
     seq (case a of None \<Rightarrow> Inr (None, s) | Some path \<Rightarrow> create path T_DIR 0 0 s) (\<lambda>(r, s).
     case r of
       None \<Rightarrow> seq (end_op s) (\<lambda>s. Inr (-1, s))
     | Some ip \<Rightarrow> seq (iunlockput ip s) (\<lambda>s. seq (end_op s) (\<lambda>s. Inr (0, s))))))"

definition sys_mknod :: "'a life_state_scheme \<Rightarrow> ('a, int \<times> 'a life_state_scheme) scres" where
  "sys_mknod s =
     seq (begin_op s) (\<lambda>s.
     seq (argstr 0 s) (\<lambda>a.
     seq (case a of None \<Rightarrow> Inr None | Some _ \<Rightarrow> argint 1 s) (\<lambda>b.
     seq (case b of None \<Rightarrow> Inr None | Some _ \<Rightarrow> argint 2 s) (\<lambda>c.
     seq (case (a, b, c) of
            (Some path, Some major, Some minor) \<Rightarrow> create path T_DEV (ucast major) (ucast minor) s
          | _ \<Rightarrow> Inr (None, s)) (\<lambda>(r, s).
     case r of
       None \<Rightarrow> seq (end_op s) (\<lambda>s. Inr (-1, s))
     | Some ip \<Rightarrow> seq (iunlockput ip s) (\<lambda>s. seq (end_op s) (\<lambda>s. Inr (0, s))))))))"

definition sys_chdir :: "'a life_state_scheme \<Rightarrow> ('a, int \<times> 'a life_state_scheme) scres" where
  "sys_chdir s =
     seq (myp s) (\<lambda>cp.
     seq (begin_op s) (\<lambda>s.
     seq (argstr 0 s) (\<lambda>a.
     seq (case a of None \<Rightarrow> Inr (None, s) | Some path \<Rightarrow> namei path s) (\<lambda>(r, s).
     case r of
       None \<Rightarrow> seq (end_op s) (\<lambda>s. Inr (-1, s))
     | Some ip \<Rightarrow>
         seq (ilock (Some ip) s) (\<lambda>s.
         if i_type (ino s ip) \<noteq> T_DIR then
           seq (iunlockput ip s) (\<lambda>s. seq (end_op s) (\<lambda>s. Inr (-1, s)))
         else
           seq (iunlock (Some ip) s) (\<lambda>s.
           seq (iput_ptr (cwd (pr s cp)) s) (\<lambda>s.
           seq (end_op s) (\<lambda>s.
           Inr (0, upd_proc cp (\<lambda>p. p\<lparr>cwd := Some ip\<rparr>) s)))))))))"

section \<open>exec and pipe\<close>

text \<open>The argument vector: \<open>None\<close> when a fetch fails or there is no null among the first \<open>MAXARG\<close>.\<close>

fun fetch_argv :: "nat \<Rightarrow> uint \<Rightarrow> 'a proc_state_scheme \<Rightarrow> ('a, uchar list list option) pres" where
  "fetch_argv 0 uargv s = Inr None"
| "fetch_argv (Suc n) uargv s =
     seq (fetchint uargv s) (\<lambda>r.
     case r of
       None \<Rightarrow> Inr None
     | Some uarg \<Rightarrow>
         if uarg = 0 then Inr (Some [])
         else
           seq (fetchstr uarg s) (\<lambda>r.
           case r of
             None \<Rightarrow> Inr None
           | Some a \<Rightarrow> seq (fetch_argv n (uargv + 4) s) (\<lambda>r. Inr (map_option (Cons a) r))))"

definition sys_exec :: "'a life_state_scheme \<Rightarrow> ('a, int \<times> 'a life_state_scheme) scres" where
  "sys_exec s =
     with_arg (argstr 0 s) (-1) s (\<lambda>path.
     with_arg (argint 1 s) (-1) s (\<lambda>uargv.
     with_arg (fetch_argv MAXARG uargv s) (-1) s (\<lambda>argv. exec path argv s)))"

definition sys_pipe :: "'a life_state_scheme \<Rightarrow> ('a, int \<times> 'a life_state_scheme) scres" where
  "sys_pipe s =
     with_arg (argptr 0 8 s) (-1) s (\<lambda>p.
     seq (pipealloc s) (\<lambda>(r, s).
     case r of
       None \<Rightarrow> Inr (-1, s)
     | Some (r0, w0) \<Rightarrow>
         seq (fdalloc r0 s) (\<lambda>(fd0, s).
         seq (case fd0 of None \<Rightarrow> Inr (None, s) | Some _ \<Rightarrow> fdalloc w0 s) (\<lambda>(fd1, s).
         case (fd0, fd1) of
           (Some a, Some b) \<Rightarrow>
             seq (store_user p (enc32 (of_nat a)) s) (\<lambda>s.
             seq (store_user (p + 4) (enc32 (of_nat b)) s) (\<lambda>s. Inr (0, s)))
         | _ \<Rightarrow>
             seq (case fd0 of None \<Rightarrow> Inr s | Some a \<Rightarrow> set_ofile a None s) (\<lambda>s.
             seq (fileclose r0 s) (\<lambda>s.
             seq (fileclose w0 s) (\<lambda>s. Inr (-1, s))))))))"

end
