(* ===== verification/Kbd.thy ===== *)
theory Kbd
  imports Prelude
begin

text \<open>
  The keyboard driver (\<open>kbd.c\<close>, \<open>kbd.h\<close>): scan codes to characters. A table is a list of the codes
  from 0 on and an association list for the designated entries; what is in neither is \<open>NO\<close>. The
  static variable \<open>shift\<close> is threaded through; the data register delivers a list of scan codes, and
  an empty list is the controller with no data in its buffer.
\<close>

definition table :: "uchar list \<Rightarrow> (uchar \<times> uchar) list \<Rightarrow> uchar \<Rightarrow> uchar" where
  "table xs des d =
     (case map_of des d of Some c \<Rightarrow> c | None \<Rightarrow> if unat d < length xs then xs ! unat d else 0)"

definition shiftcode :: "uchar \<Rightarrow> uchar" where
  "shiftcode = table [] [(0x1D, 2), (0x2A, 1), (0x36, 1), (0x38, 4), (0x9D, 2), (0xB8, 4)]"

definition togglecode :: "uchar \<Rightarrow> uchar" where
  "togglecode = table [] [(0x3A, 8), (0x45, 16), (0x46, 32)]"

text \<open>The keys of the keypad and the arrows, the same in the first two maps.\<close>

definition special_keys :: "(uchar \<times> uchar) list" where
  "special_keys =
     [(0xC8, 0xE2), (0xD0, 0xE3), (0xC9, 0xE6), (0xD1, 0xE7), (0xCB, 0xE4), (0xCD, 0xE5), (0x97, 0xE0), (0xCF, 0xE1),
      (0xD2, 0xE8), (0xD3, 0xE9)]"

definition normalmap :: "uchar \<Rightarrow> uchar" where
  "normalmap = table
     ([0, 0x1B] @ map of_char ''1234567890-='' @ [8, 9] @ map of_char ''qwertyuiop[]'' @ [10, 0] @ map of_char ''asdfghjkl;'' @
      [39, 96, 0, 92] @ map of_char ''zxcvbnm,./'' @ [0] @ map of_char ''*'' @ [0, 32] @ replicate 13 0 @ map of_char ''789-456+1230.'' @
      replicate 4 0)
     ([(0x9C, 10), (0xB5, 47)] @ special_keys)"

definition shiftmap :: "uchar \<Rightarrow> uchar" where
  "shiftmap = table
     ([0, 27] @ map of_char ''!@#$%^&*()_+'' @ [8, 9] @ map of_char ''QWERTYUIOP{}'' @ [10, 0] @ map of_char ''ASDFGHJKL:'' @
      [34, 126, 0, 124] @ map of_char ''ZXCVBNM<>?'' @ [0] @ map of_char ''*'' @ [0, 32] @ replicate 13 0 @ map of_char ''789-456+1230.'' @
      replicate 4 0)
     ([(0x9C, 10), (0xB5, 47)] @ special_keys)"

text \<open>Control characters: \<open>C(x)\<close> is \<open>x - '@'\<close> in a byte.\<close>

definition ctl :: "string \<Rightarrow> uchar list" where
  "ctl x = map (\<lambda>c. of_char c - 64) x"

definition ctlmap :: "uchar \<Rightarrow> uchar" where
  "ctlmap = table
     (replicate 16 0 @ ctl ''QWERTYUIOP'' @ [0, 0, 13, 0] @ ctl ''ASDFGHJKL'' @ [0, 0, 0, 0, 92 - 64] @ ctl ''ZXCVBNM'' @ [0, 0] @ ctl ''/'' @ [0, 0])
     ([(0x9C, 13), (0xB5, 47 - 64)] @ special_keys)"

definition charcode :: "uint \<Rightarrow> uchar \<Rightarrow> uchar" where
  "charcode k = (if k = 0 then normalmap else if k = 1 then shiftmap else ctlmap)"

text \<open>One call of \<open>kbdgetc\<close> with data: the value returned and the new \<open>shift\<close>.\<close>

definition kbdgetc :: "uint \<Rightarrow> uchar \<Rightarrow> int \<times> uint" where
  "kbdgetc shift data =
     (if data = 0xE0 then (0, shift OR 64)
      else if data AND 0x80 \<noteq> 0 then
        let data = (if shift AND 64 \<noteq> 0 then data else data AND 0x7F)
        in (0, shift AND NOT (ucast (shiftcode data) OR 64))
      else
        let (data, shift) = (if shift AND 64 \<noteq> 0 then (data OR 0x80, shift AND NOT 64) else (data, shift));
            shift = shift OR ucast (shiftcode data);
            shift = shift XOR ucast (togglecode data);
            c = int (unat (charcode (shift AND 3) data))
        in (if shift AND 8 \<noteq> 0 \<and> 97 \<le> c \<and> c \<le> 122 then c - 32
            else if shift AND 8 \<noteq> 0 \<and> 65 \<le> c \<and> c \<le> 90 then c + 32
            else c, shift))"

text \<open>The values that \<open>kbdgetc\<close> returns until the controller has no more data.\<close>

fun kbd_chars :: "uint \<Rightarrow> uchar list \<Rightarrow> int list \<times> uint" where
  "kbd_chars shift [] = ([], shift)"
| "kbd_chars shift (d # ds) =
     (let (c, shift) = kbdgetc shift d; (cs, shift) = kbd_chars shift ds in (c # cs, shift))"

end
