(* ===== verification/Trap.thy ===== *)
theory Trap
  imports Sysfile Kbd
begin

text \<open>
  System call dispatch (\<open>syscall\<close> of \<open>syscall.c\<close>) and the trap handler (\<open>trap.c\<close>), with the interrupt
  routines of the keyboard and the serial port. What the hardware holds is an argument: the number
  of the CPU, \<open>cr2\<close>, the scan codes and the serial characters that have arrived. Acknowledging an
  interrupt changes no state of the model. \<open>trap_resume\<close> is what runs when a process that \<open>trap\<close>
  made yield is scheduled again.
\<close>

section \<open>State\<close>

record trap_state = life_state +
  kbd_shift :: uint

type_synonym ('a, 'b) tres = "('a trap_state_scheme, 'b) kres"

section \<open>System calls\<close>

definition syscalls :: "int \<Rightarrow> ('a life_state_scheme \<Rightarrow> ('a, int \<times> 'a life_state_scheme) scres) option" where
  "syscalls num = map_of
     [(1, sys_fork), (2, sys_exit), (3, sys_wait), (4, sys_pipe), (5, sys_read), (6, sys_kill), (7, sys_exec), (8, sys_fstat),
      (9, sys_chdir), (10, sys_dup), (11, sys_getpid), (12, sys_sbrk), (13, sys_sleep), (14, sys_uptime), (15, sys_open),
      (16, sys_write), (17, sys_mknod), (18, sys_unlink), (19, sys_link), (20, sys_mkdir), (21, sys_close), (22, sys_getnice),
      (23, sys_setnice), (24, sys_ps), (25, sys_mmap), (26, sys_munmap), (27, sys_freemem)] num"

definition syscall :: "'a life_state_scheme \<Rightarrow> ('a, 'a life_state_scheme) scres" where
  "syscall s =
     seq (myp s) (\<lambda>i.
     seq (tf_get TF_EAX s) (\<lambda>eax.
     let num = sint eax
     in case syscalls num of
          Some f \<Rightarrow> seq (f s) (\<lambda>(r, s). tf_set TF_EAX (word_of_int r) s)
        | None \<Rightarrow>
            seq (cprintf ''%d %s: unknown sys call %d\<newline>'' [CW (word_of_int (pid (pr s i))), CS (Some (p_name (pr s i))), CW eax] s) (\<lambda>s.
            tf_set TF_EAX (-1) s)))"

section \<open>Interrupts\<close>

definition kbdintr :: "uchar list \<Rightarrow> 'a trap_state_scheme \<Rightarrow> ('a, 'a trap_state_scheme) tres" where
  "kbdintr ds s =
     (let (cs, shift) = kbd_chars (kbd_shift s) ds
      in consoleintr cs (s\<lparr>kbd_shift := shift\<rparr>))"

definition uartintr :: "uchar list \<Rightarrow> 'a trap_state_scheme \<Rightarrow> ('a, 'a trap_state_scheme) tres" where
  "uartintr ds s = consoleintr (if uart s then map (\<lambda>d. int (unat d)) ds else []) s"

definition timer_tick :: "'a trap_state_scheme \<Rightarrow> ('a, 'a trap_state_scheme) tres" where
  "timer_tick s =
     seq (lock L_tickslock s) (\<lambda>s.
     seq (wakeup ChTicks (s\<lparr>ticks := ticks s + 1\<rparr>)) (\<lambda>s.
     unlock L_tickslock s))"

definition user_mode :: "uint \<Rightarrow> 'a trap_state_scheme \<Rightarrow> bool" where
  "user_mode t s \<longleftrightarrow> ld32 (mem s) (t + 60) AND 3 = 3"

text \<open>The \<open>default\<close> case: a panic in the kernel, and in user mode the process is marked killed.\<close>

definition trap_default :: "uint \<Rightarrow> uint \<Rightarrow> uint \<Rightarrow> 'a trap_state_scheme \<Rightarrow> ('a, 'a trap_state_scheme) tres" where
  "trap_default cpu cr2 t s =
     (let no = ld32 (mem s) (t + 48); er = ld32 (mem s) (t + 52); eip = ld32 (mem s) (t + 56)
      in if curproc s = None \<or> ld32 (mem s) (t + 60) AND 3 = 0 then
           seq (cprintf ''unexpected trap %d from cpu %d eip %x (cr2=0x%x)\<newline>'' [CW no, CW cpu, CW eip, CW cr2] s) (\<lambda>_.
           Inl (Panic ''trap''))
         else
           seq (myp s) (\<lambda>i.
           seq (cprintf ''pid %d %s: trap %d err %d on cpu %d eip 0x%x addr 0x%x--kill proc\<newline>''
                  [CW (word_of_int (pid (pr s i))), CS (Some (p_name (pr s i))), CW no, CW er, CW cpu, CW eip, CW cr2] s) (\<lambda>s.
           Inr (upd_proc i (\<lambda>p. p\<lparr>killed := True\<rparr>) s))))"

definition trap_switch :: "uint \<Rightarrow> uint \<Rightarrow> uchar list \<Rightarrow> uchar list \<Rightarrow> uint \<Rightarrow> 'a trap_state_scheme \<Rightarrow> ('a, 'a trap_state_scheme) tres" where
  "trap_switch cpu cr2 keys chars t s =
     (let no = ld32 (mem s) (t + 48)
      in if no = 32 then (if cpu = 0 then timer_tick s else Inr s)
         else if no = 46 then Inr s
         else if no = 47 then Inr s
         else if no = 33 then kbdintr keys s
         else if no = 36 then uartintr chars s
         else if no = 39 \<or> no = 63 then
           cprintf ''cpu%d: spurious interrupt at %x:%x\<newline>'' [CW cpu, CW (ld32 (mem s) (t + 60) AND 0xffff), CW (ld32 (mem s) (t + 56))] s
         else if no = 14 then
           seq (page_fault_handler cr2 (ld32 (mem s) (t + 52) AND 2) s) (\<lambda>(r, s).
           if r \<noteq> -1 then Inr s else kexit s)
         else trap_default cpu cr2 t s)"

text \<open>The test that follows the switch and that is repeated after the yield.\<close>

definition exit_if_killed :: "uint \<Rightarrow> 'a trap_state_scheme \<Rightarrow> ('a, 'a trap_state_scheme) tres" where
  "exit_if_killed t s =
     (case curproc s of
        None \<Rightarrow> Inr s
      | Some i \<Rightarrow> if killed (pr s i) \<and> user_mode t s then kexit s else Inr s)"

definition trap_yield :: "uint \<Rightarrow> 'a trap_state_scheme \<Rightarrow> ('a, 'a trap_state_scheme) tres" where
  "trap_yield t s =
     (case curproc s of
        None \<Rightarrow> Inr s
      | Some i \<Rightarrow>
          if state (pr s i) = RUNNING \<and> ld32 (mem s) (t + 48) = 32 then
            let s = upd_proc i (\<lambda>p. p\<lparr>actual_runtime := actual_runtime p + 1000\<rparr>) s
            in if actual_runtime (pr s i) - scheduled_time (pr s i) \<ge> time_slice (pr s i) then yield s else Inr s
          else Inr s)"

definition trap_resume :: "uint \<Rightarrow> 'a trap_state_scheme \<Rightarrow> ('a, 'a trap_state_scheme) tres" where
  "trap_resume t s = seq (yield_resume s) (\<lambda>s. exit_if_killed t s)"

definition trap :: "uint \<Rightarrow> uint \<Rightarrow> uchar list \<Rightarrow> uchar list \<Rightarrow> uint \<Rightarrow> 'a trap_state_scheme \<Rightarrow> ('a, 'a trap_state_scheme) tres" where
  "trap cpu cr2 keys chars t s =
     (if ld32 (mem s) (t + 48) = 64 then
        seq (myp s) (\<lambda>i.
        if killed (pr s i) then kexit s
        else
          seq (syscall (upd_proc i (\<lambda>p. p\<lparr>tf := t\<rparr>) s)) (\<lambda>s.
          seq (myp s) (\<lambda>i. if killed (pr s i) then kexit s else Inr s)))
      else
        seq (trap_switch cpu cr2 keys chars t s) (\<lambda>s.
        seq (exit_if_killed t s) (\<lambda>s.
        seq (trap_yield t s) (\<lambda>s.
        exit_if_killed t s))))"

end
