(* ===== verification/Frame.thy ===== *)
theory Frame
  imports Trap
begin

text \<open>
  What the kernel leaves alone. The locale \<open>file_frame\<close> takes a property of the state that depends
  only on the reference counts, types and inodes of the file table, the descriptors of all
  processes, the running process and the files of the mapped areas, and proves once for each kernel
  routine below the file layer that it keeps the property and does not reach a panic of the file
  layer. The theory \<open>Descriptors\<close> interprets it on the invariant of the file descriptors.
\<close>

named_theorems keep

section \<open>Runs without a panic of the file layer\<close>

definition file_panics :: "string set" where
  "file_panics = {''filedup'', ''fileclose'', ''fileread'', ''filewrite''}"

definition fsafe :: "('a \<Rightarrow> bool) \<Rightarrow> 's stop + 'a \<Rightarrow> bool" where
  "fsafe Q r = (case r of Inr x \<Rightarrow> Q x | Inl e \<Rightarrow> \<forall>m. e = Panic m \<longrightarrow> m \<notin> file_panics)"

lemma fsafe_simps [simp]:
  "fsafe Q (Inr x) = Q x"
  "fsafe Q (Inl (Fault m))"
  "fsafe Q (Inl Diverge)"
  "fsafe Q (Inl (Swtch s))"
  "fsafe Q (Inl (Panic m)) \<longleftrightarrow> m \<notin> file_panics"
  by (simp_all add: fsafe_def)

lemma fsafe_seq: "fsafe P m \<Longrightarrow> (\<And>x. P x \<Longrightarrow> fsafe Q (f x)) \<Longrightarrow> fsafe Q (seq m f)"
  by (cases m) (auto simp: fsafe_def)

lemma fsafe_mono: "fsafe P m \<Longrightarrow> (\<And>x. P x \<Longrightarrow> Q x) \<Longrightarrow> fsafe Q m"
  by (auto simp: fsafe_def split: sum.splits)

lemma fsafe_if: "(c \<Longrightarrow> fsafe Q a) \<Longrightarrow> (\<not> c \<Longrightarrow> fsafe Q b) \<Longrightarrow> fsafe Q (if c then a else b)"
  by simp

lemma fsafe_option: "(x = None \<Longrightarrow> fsafe Q a) \<Longrightarrow> (\<And>y. x = Some y \<Longrightarrow> fsafe Q (b y)) \<Longrightarrow> fsafe Q (case x of None \<Rightarrow> a | Some y \<Rightarrow> b y)"
  by (cases x) simp_all

lemma fsafe_prod:
  "(\<And>a b. x = (a, b) \<Longrightarrow> fsafe Q (g a b)) \<Longrightarrow> fsafe Q (case x of (a, b) \<Rightarrow> g a b)"
  "(\<And>a b. x = (a, b) \<Longrightarrow> fsafe Q (h a b y)) \<Longrightarrow> fsafe Q ((case x of (a, b) \<Rightarrow> h a b) y)"
  by (cases x; simp)+

lemma fsafe_list: "(x = [] \<Longrightarrow> fsafe Q a) \<Longrightarrow> (\<And>y ys. x = y # ys \<Longrightarrow> fsafe Q (b y ys)) \<Longrightarrow> fsafe Q (case x of [] \<Rightarrow> a | y # ys \<Rightarrow> b y ys)"
  by (cases x) simp_all

lemma fsafe_carg: "(\<And>w. x = CW w \<Longrightarrow> fsafe Q (a w)) \<Longrightarrow> (\<And>z. x = CS z \<Longrightarrow> fsafe Q (b z)) \<Longrightarrow> fsafe Q (case x of CW w \<Rightarrow> a w | CS z \<Rightarrow> b z)"
  by (cases x) simp_all

lemma fsafe_ftype:
  "(x = FD_NONE \<Longrightarrow> fsafe Q a) \<Longrightarrow> (x = FD_PIPE \<Longrightarrow> fsafe Q b) \<Longrightarrow> (x = FD_INODE \<Longrightarrow> fsafe Q c) \<Longrightarrow>
    fsafe Q (case x of FD_NONE \<Rightarrow> a | FD_PIPE \<Rightarrow> b | FD_INODE \<Rightarrow> c)"
  by (cases x) simp_all

lemma fsafe_with_arg:
  "fsafe (\<lambda>_. True) m \<Longrightarrow> Q (e, s) \<Longrightarrow> (\<And>x. m = Inr (Some x) \<Longrightarrow> fsafe Q (f x)) \<Longrightarrow> fsafe Q (with_arg m e s f)"
  unfolding with_arg_def by (cases m) (auto simp: fsafe_def split: option.split)

lemma fsafe_pure:
  "(\<And>i. curproc s = Some i \<Longrightarrow> fsafe Q (f i)) \<Longrightarrow> fsafe Q (seq (myp s) f)"
  "(\<And>q. fsafe Q (g q)) \<Longrightarrow> fsafe Q (seq (pipe_at p s') g)"
  "(\<And>r. fsafe Q (h r)) \<Longrightarrow> fsafe Q (seq (bscan n st P b) h)"
  "(\<And>bs. fsafe Q (k bs)) \<Longrightarrow> fsafe Q (seq (load_user w va m) k)"
proof -
  have "fsafe (\<lambda>_. True) (bscan n st P b)" by (induction n arbitrary: b) auto
  then show "(\<And>r. fsafe Q (h r)) \<Longrightarrow> fsafe Q (seq (bscan n st P b) h)" by (rule fsafe_seq)
  have "fsafe (\<lambda>_. True) (load_user w va m)" by (induction w va m rule: load_user.induct) (auto split: option.split intro: fsafe_seq)
  then show "(\<And>bs. fsafe Q (k bs)) \<Longrightarrow> fsafe Q (seq (load_user w va m) k)" by (rule fsafe_seq)
qed (auto simp: myp_def pipe_at_def split: option.split)

section \<open>The frame\<close>

text \<open>The part of the state that only the file layer changes.\<close>

definition fview :: "'a mmap_state_scheme \<Rightarrow> (nat \<Rightarrow> int \<times> ftype \<times> nat option) \<times> nat option list list \<times> nat option \<times> (nat \<Rightarrow> nat option)" where
  "fview s = (\<lambda>f. (f_ref (ftable s f), f_type (ftable s f), f_ip (ftable s f)), map ofile (ptable s), curproc s, \<lambda>k. ma_f (mmap_areas s k))"

lemma fsafe_args [intro!]:
  "fsafe (\<lambda>_. True) (tf_get off s)" "fsafe (\<lambda>_. True) (fetchint a s)" "fsafe (\<lambda>_. True) (fetchstr a s)" "fsafe (\<lambda>_. True) (argint n s)"
  "fsafe (\<lambda>_. True) (argptr n len s)" "fsafe (\<lambda>_. True) (argstr n s)" "fsafe (\<lambda>_. True) (argfd n s)" "fsafe (\<lambda>_. True) (fetch_argv k a s)"
proof -
  note pure = fsafe_seq [where P = "\<lambda>_. True"]
  show tf: "fsafe (\<lambda>_. True) (tf_get off s)" for off unfolding tf_get_def by (intro fsafe_pure) simp
  show int: "fsafe (\<lambda>_. True) (fetchint a s)" for a unfolding fetchint_def by (intro fsafe_pure fsafe_if) simp_all
  have "fsafe (\<lambda>_. True) (fetchstr_from m a s)" for m a
  proof (induction m arbitrary: a)
    case (Suc m) show ?case unfolding fetchstr_from.simps by (intro fsafe_pure fsafe_if pure [OF Suc.IH]) simp_all
  qed simp
  then show str: "fsafe (\<lambda>_. True) (fetchstr a s)" for a unfolding fetchstr_def by (intro fsafe_pure fsafe_if) simp_all
  show argint: "fsafe (\<lambda>_. True) (argint n s)" for n unfolding argint_def by (intro pure tf int)
  show "fsafe (\<lambda>_. True) (argptr n len s)" unfolding argptr_def by (intro pure [OF argint] fsafe_option fsafe_pure fsafe_if) simp_all
  show "fsafe (\<lambda>_. True) (argstr n s)" unfolding argstr_def by (intro pure [OF argint] fsafe_option str) simp_all
  show "fsafe (\<lambda>_. True) (argfd n s)" unfolding argfd_def by (intro pure [OF argint] fsafe_option fsafe_pure fsafe_if) simp_all
  show "fsafe (\<lambda>_. True) (fetch_argv k a s)"
    by (induction k arbitrary: a) (auto intro!: pure [OF int] pure [OF str] pure fsafe_option fsafe_if)
qed

lemma fsafe_seq_args:
  "(\<And>x. fsafe Q (f x)) \<Longrightarrow> fsafe Q (seq (argstr n s) f)"
  "(\<And>x. fsafe Q (g x)) \<Longrightarrow> fsafe Q (seq (case a of None \<Rightarrow> Inr None | Some y \<Rightarrow> argint n s) g)"
  by (rule fsafe_seq [where P = "\<lambda>_. True"]; auto split: option.split)+

text \<open>\<open>sched\<close>, \<open>sleep\<close> and \<open>yield\<close> give up the CPU and do not return.\<close>

lemma fsafe_stops [simp, intro]:
  fixes s :: "'b proc_state_scheme" and Q :: "'c \<Rightarrow> bool"
  shows "fsafe Q (sched s)" "fsafe Q (sleep c lk s)" "fsafe Q (yield s)"
proof -
  show sched: "fsafe Q (sched s)" for s :: "'b proc_state_scheme" by (auto simp: sched_def file_panics_def myp_def split: option.split)
  show "fsafe Q (sleep c lk s)" "fsafe Q (yield s)"
    by (auto simp: sleep_def yield_def lock_def unlock_def file_panics_def update_runtime_def vruntimeupdate_def Let_def myp_def sched split: option.split)
qed

lemma wakeup1_ofile: "wakeup1 c s = Inr s' \<Longrightarrow> \<exists>t. s' = s\<lparr>ptable := t\<rparr> \<and> map ofile t = map ofile (ptable s)"
proof -
  have w: "ofile q = ofile p" if "woken p q" for p q using that unfolding woken_def by (metis proc.select_convs(11) proc.surjective proc.update_convs(4,16,18))
  assume "wakeup1 c s = Inr s'"
  from wakeup1_effect [OF this] obtain t where t: "s' = s\<lparr>ptable := t\<rparr>" "length t = length (ptable s)"
      "\<forall>k < length t. if sleeps_on c (pr s k) then woken (pr s k) (t ! k) else t ! k = pr s k" by blast
  have "ofile (t ! k) = ofile (pr s k)" if "k < length t" for k using t(3) that w [of "pr s k" "t ! k"] by (cases "sleeps_on c (pr s k)") simp_all
  then have "map ofile t = map ofile (ptable s)" by (intro nth_equalityI) (simp_all add: t(2))
  with t(1) show ?thesis by blast
qed

lemma fsafe_of_post: "(\<And>x. m = Inr x \<Longrightarrow> Q x) \<Longrightarrow> fsafe (\<lambda>_. True) m \<Longrightarrow> fsafe Q m"
  by (auto simp: fsafe_def split: sum.splits)

lemma map_same_at: "f y = f (xs ! i) \<Longrightarrow> map f (xs[i := y]) = map f xs"
  using list_update_id [of "map f xs" i] by (cases "i < length xs") (simp_all add: map_update list_update_beyond)

lemma lock_eq: "fsafe (\<lambda>t. \<exists>h. t = s\<lparr>held := h\<rparr>) (lock l s)" "fsafe (\<lambda>t. \<exists>h. t = s\<lparr>held := h\<rparr>) (unlock l s)"
  by (auto simp: lock_def unlock_def file_panics_def)

locale file_frame =
  fixes J :: "'a trap_state_scheme \<Rightarrow> bool"
  assumes J_view: "J s \<Longrightarrow> fview s' = fview s \<Longrightarrow> J s'"
begin

lemma J_upd [intro!]:
  "J s \<Longrightarrow> J (s\<lparr>held := x_held\<rparr>)"
  "J s \<Longrightarrow> J (s\<lparr>mem := x_mem\<rparr>)"
  "J s \<Longrightarrow> J (s\<lparr>freelist := x_freelist\<rparr>)"
  "J s \<Longrightarrow> J (s\<lparr>use_lock := x_use_lock\<rparr>)"
  "J s \<Longrightarrow> J (s\<lparr>kend := x_kend\<rparr>)"
  "J s \<Longrightarrow> J (s\<lparr>kpgdir := x_kpgdir\<rparr>)"
  "J s \<Longrightarrow> J (s\<lparr>cr3 := x_cr3\<rparr>)"
  "J s \<Longrightarrow> J (s\<lparr>kdata := x_kdata\<rparr>)"
  "J s \<Longrightarrow> J (s\<lparr>nextpid := x_nextpid\<rparr>)"
  "J s \<Longrightarrow> J (s\<lparr>initproc := x_initproc\<rparr>)"
  "J s \<Longrightarrow> J (s\<lparr>ticks := x_ticks\<rparr>)"
  "J s \<Longrightarrow> J (s\<lparr>ktrapret := x_ktrapret\<rparr>)"
  "J s \<Longrightarrow> J (s\<lparr>kforkret := x_kforkret\<rparr>)"
  "J s \<Longrightarrow> J (s\<lparr>slocks := x_slocks\<rparr>)"
  "J s \<Longrightarrow> J (s\<lparr>pipes := x_pipes\<rparr>)"
  "J s \<Longrightarrow> J (s\<lparr>bufs := x_bufs\<rparr>)"
  "J s \<Longrightarrow> J (s\<lparr>disk := x_disk\<rparr>)"
  "J s \<Longrightarrow> J (s\<lparr>disksize := x_disksize\<rparr>)"
  "J s \<Longrightarrow> J (s\<lparr>dwrites := x_dwrites\<rparr>)"
  "J s \<Longrightarrow> J (s\<lparr>log_start := x_log_start\<rparr>)"
  "J s \<Longrightarrow> J (s\<lparr>log_size := x_log_size\<rparr>)"
  "J s \<Longrightarrow> J (s\<lparr>log_outstanding := x_log_outstanding\<rparr>)"
  "J s \<Longrightarrow> J (s\<lparr>log_committing := x_log_committing\<rparr>)"
  "J s \<Longrightarrow> J (s\<lparr>log_dev := x_log_dev\<rparr>)"
  "J s \<Longrightarrow> J (s\<lparr>lh_n := x_lh_n\<rparr>)"
  "J s \<Longrightarrow> J (s\<lparr>lh_block := x_lh_block\<rparr>)"
  "J s \<Longrightarrow> J (s\<lparr>cons_locking := x_cons_locking\<rparr>)"
  "J s \<Longrightarrow> J (s\<lparr>panicked := x_panicked\<rparr>)"
  "J s \<Longrightarrow> J (s\<lparr>uart := x_uart\<rparr>)"
  "J s \<Longrightarrow> J (s\<lparr>serial := x_serial\<rparr>)"
  "J s \<Longrightarrow> J (s\<lparr>crt := x_crt\<rparr>)"
  "J s \<Longrightarrow> J (s\<lparr>crt_pos := x_crt_pos\<rparr>)"
  "J s \<Longrightarrow> J (s\<lparr>in_buf := x_in_buf\<rparr>)"
  "J s \<Longrightarrow> J (s\<lparr>in_r := x_in_r\<rparr>)"
  "J s \<Longrightarrow> J (s\<lparr>in_w := x_in_w\<rparr>)"
  "J s \<Longrightarrow> J (s\<lparr>in_e := x_in_e\<rparr>)"
  "J s \<Longrightarrow> J (s\<lparr>devsw_read := x_devsw_read\<rparr>)"
  "J s \<Longrightarrow> J (s\<lparr>devsw_write := x_devsw_write\<rparr>)"
  "J s \<Longrightarrow> J (s\<lparr>sb := x_sb\<rparr>)"
  "J s \<Longrightarrow> J (s\<lparr>icache := x_icache\<rparr>)"
  "J s \<Longrightarrow> J (s\<lparr>mmap_status_flag := x_mmap_status_flag\<rparr>)"
  "J s \<Longrightarrow> J (s\<lparr>forkret_first := x_forkret_first\<rparr>)"
  "J s \<Longrightarrow> J (s\<lparr>kbd_shift := x_kbd_shift\<rparr>)"
  by (erule J_view, simp add: fview_def)+

lemma J_ptable: "J s \<Longrightarrow> map ofile t = map ofile (ptable s) \<Longrightarrow> J (s\<lparr>ptable := t\<rparr>)"
  by (erule J_view) (simp add: fview_def)

lemma J_upd_proc [intro!]: "J s \<Longrightarrow> ofile (g (pr s i)) = ofile (pr s i) \<Longrightarrow> J (upd_proc i g s)"
  unfolding upd_proc_def
  by (rule J_ptable) (simp_all add: map_same_at)

lemma J_helpers [intro!]:
  "J s \<Longrightarrow> J (upd_slock l h s)" "J s \<Longrightarrow> J (initsleeplock l n s)" "J s \<Longrightarrow> J (set_pipe p q s)" "J s \<Longrightarrow> J (upd_buf b k s)"
  "J s \<Longrightarrow> J (upd_inode ip u s)" "J s \<Longrightarrow> J (set_status m st s)" "J s \<Longrightarrow> J (switchkvm s)"
  by (auto simp: upd_slock_def initsleeplock_def set_pipe_def upd_buf_def upd_inode_def set_status_def switchkvm_def)

lemma fsafe_Let: "(\<And>x. x = v \<Longrightarrow> fsafe Q (f x)) \<Longrightarrow> fsafe Q (Let v f)"
  by simp

lemma J_seq:
  "fsafe J m \<Longrightarrow> (\<And>s. J s \<Longrightarrow> fsafe Q (f s)) \<Longrightarrow> fsafe Q (seq m f)"
  "fsafe (\<lambda>(r, s). J s) m' \<Longrightarrow> (\<And>r s. J s \<Longrightarrow> fsafe Q (g r s)) \<Longrightarrow> fsafe Q (seq m' (\<lambda>(r, s). g r s))"
  "fsafe (\<lambda>(r, b, s). J s) m'' \<Longrightarrow> (\<And>r b s. J s \<Longrightarrow> fsafe Q (h r b s)) \<Longrightarrow> fsafe Q (seq m'' (\<lambda>(r, b, s). h r b s))"
  by (erule fsafe_seq, auto)+

lemma J_Let: "J v \<Longrightarrow> (\<And>s. J s \<Longrightarrow> fsafe Q (f s)) \<Longrightarrow> fsafe Q (Let v f)"
  by simp

text \<open>The rules that follow the code; \<open>vce\<close> also keeps what the calls returned, for loops on words.\<close>

lemmas vc = J_seq fsafe_pure fsafe_if fsafe_option J_Let fsafe_Let fsafe_prod fsafe_ftype fsafe_with_arg fsafe_seq_args

lemma J_seq_eq:
  "fsafe J m \<Longrightarrow> (\<And>s. m = Inr s \<Longrightarrow> J s \<Longrightarrow> fsafe Q (f s)) \<Longrightarrow> fsafe Q (seq m f)"
  "fsafe (\<lambda>(r, s). J s) m' \<Longrightarrow> (\<And>r s. m' = Inr (r, s) \<Longrightarrow> J s \<Longrightarrow> fsafe Q (g r s)) \<Longrightarrow> fsafe Q (seq m' (\<lambda>(r, s). g r s))"
  "fsafe (\<lambda>(r, b, s). J s) m'' \<Longrightarrow> (\<And>r b s. m'' = Inr (r, b, s) \<Longrightarrow> J s \<Longrightarrow> fsafe Q (h r b s)) \<Longrightarrow> fsafe Q (seq m'' (\<lambda>(r, b, s). h r b s))"
  by (auto simp: fsafe_def split: sum.splits)

lemmas vce = J_seq_eq fsafe_pure fsafe_if fsafe_option fsafe_Let fsafe_prod fsafe_ftype fsafe_with_arg fsafe_seq_args

subsection \<open>Locks and memory\<close>

lemma lock_keep [keep]: "J s \<Longrightarrow> fsafe J (lock l s)"
  unfolding lock_def by (intro vc keep; auto simp: file_panics_def)

lemma unlock_keep [keep]: "J s \<Longrightarrow> fsafe J (unlock l s)"
  unfolding unlock_def by (intro vc keep; auto simp: file_panics_def)

lemma kmem_lock_keep [keep]: "J s \<Longrightarrow> fsafe J (kmem_lock s)"
  unfolding kmem_lock_def by (intro vc keep; auto simp: file_panics_def)

lemma kmem_unlock_keep [keep]: "J s \<Longrightarrow> fsafe J (kmem_unlock s)"
  unfolding kmem_unlock_def by (intro vc keep; auto simp: file_panics_def)

lemma kfree_keep [keep]: "J s \<Longrightarrow> fsafe J (kfree v s)"
  unfolding kfree_def by (intro vc keep; auto simp: file_panics_def)

lemma kalloc_keep [keep]: "J s \<Longrightarrow> fsafe (\<lambda>(r, s). J s) (kalloc s)"
  unfolding kalloc_def by (intro vc keep; auto simp: file_panics_def)

lemma walkpgdir_keep [keep]: "J s \<Longrightarrow> fsafe (\<lambda>(r, s). J s) (walkpgdir dir va al s)"
  unfolding walkpgdir_def by (intro vc keep; auto simp: file_panics_def)

lemma mappages_from_keep [keep]: "J s \<Longrightarrow> fsafe (\<lambda>(r, s). J s) (mappages_from dir a b pa perm s)"
proof (induction dir a b pa perm s rule: mappages_from.induct)
  case (1 dir a b pa perm s) then show ?case by (subst mappages_from.simps) (intro vce keep 1(1); auto simp: file_panics_def)
qed

lemma mappages_keep [keep]: "J s \<Longrightarrow> fsafe (\<lambda>(r, s). J s) (mappages dir va n pa perm s)"
  unfolding mappages_def by (intro vc keep; auto simp: file_panics_def)

lemma deallocuvm_from_keep [keep]: "J s \<Longrightarrow> fsafe J (deallocuvm_from dir a old s)"
proof (induction dir a old s rule: deallocuvm_from.induct)
  case (1 dir a old s) then show ?case by (subst deallocuvm_from.simps) (intro vce keep 1(1); auto simp: file_panics_def)
qed

lemma deallocuvm_keep [keep]: "J s \<Longrightarrow> fsafe (\<lambda>(r, s). J s) (deallocuvm dir old new s)"
  unfolding deallocuvm_def by (intro vc keep; auto simp: file_panics_def)

lemma freevm_tables_keep [keep]: "J s \<Longrightarrow> fsafe J (freevm_tables dir ks s)"
proof (induction ks arbitrary: s)
  case (Cons k ks) then show ?case unfolding freevm_tables.simps by (intro vc keep Cons.IH; auto simp: file_panics_def)
qed (simp_all add: file_panics_def)

lemma freevm_keep [keep]: "J s \<Longrightarrow> fsafe J (freevm dir s)"
  unfolding freevm_def by (intro vc keep; auto simp: file_panics_def)

lemma setupkvm_from_keep [keep]: "J s \<Longrightarrow> fsafe (\<lambda>(r, s). J s) (setupkvm_from dir ks s)"
proof (induction ks arbitrary: s)
  case (Cons k ks)
  obtain virt ps pe perm where "k = (virt, ps, pe, perm)" by (cases k)
  with Cons.prems show ?case by (simp only: setupkvm_from.simps) (intro vc keep Cons.IH; auto)
qed simp

lemma setupkvm_keep [keep]: "J s \<Longrightarrow> fsafe (\<lambda>(r, s). J s) (setupkvm s)"
  unfolding setupkvm_def by (intro vc keep; auto simp: file_panics_def)

lemma inituvm_keep [keep]: "J s \<Longrightarrow> fsafe J (inituvm dir code s)"
  unfolding inituvm_def by (intro vc keep; auto simp: file_panics_def)

lemma allocuvm_from_keep [keep]: "J s \<Longrightarrow> fsafe (\<lambda>(r, s). J s) (allocuvm_from dir a old new s)"
proof (induction dir a old new s rule: allocuvm_from.induct)
  case (1 dir a old new s) then show ?case by (subst allocuvm_from.simps) (intro vce keep 1(1); auto simp: file_panics_def)
qed

lemma allocuvm_keep [keep]: "J s \<Longrightarrow> fsafe (\<lambda>(r, s). J s) (allocuvm dir old new s)"
  unfolding allocuvm_def by (intro vc keep; auto simp: file_panics_def)

lemma clearpteu_keep [keep]: "J s \<Longrightarrow> fsafe J (clearpteu dir uva s)"
  unfolding clearpteu_def by (intro vc keep; auto simp: file_panics_def)

lemma copyuvm_from_keep [keep]: "J s \<Longrightarrow> fsafe (\<lambda>(r, s). J s) (copyuvm_from dir d i n s)"
proof (induction dir d i n s rule: copyuvm_from.induct)
  case (1 dir d i n s) then show ?case by (subst copyuvm_from.simps) (intro vce keep 1(1); auto simp: file_panics_def)
qed

lemma copyuvm_keep [keep]: "J s \<Longrightarrow> fsafe (\<lambda>(r, s). J s) (copyuvm dir n s)"
  unfolding copyuvm_def by (intro vc keep; auto simp: file_panics_def)

lemma uva2ka_keep [keep]: "J s \<Longrightarrow> fsafe (\<lambda>(r, s). J s) (uva2ka dir uva s)"
  unfolding uva2ka_def by (intro vc keep; auto simp: file_panics_def)

lemma copyout_keep [keep]: "J s \<Longrightarrow> fsafe (\<lambda>(r, s). J s) (copyout dir va buf s)"
proof (induction buf arbitrary: va s rule: measure_induct_rule [of length])
  case (less buf)
  show ?case using less.prems page_rest_pos [of va] by (subst copyout.simps) (intro vc keep less.IH; auto simp: file_panics_def)
qed

subsection \<open>Processes and sleeping locks\<close>

lemma update_runtime_keep [keep]: "J s \<Longrightarrow> fsafe J (update_runtime i s)"
  by (auto simp: update_runtime_def vruntimeupdate_def Let_def)

lemma wakeup1_keep [keep]: "J s \<Longrightarrow> fsafe J (wakeup1 c s)"
proof -
  have "fsafe (\<lambda>_. True) (wake_from c sh is' t)" for sh is' t
    by (induction is' arbitrary: t) (auto simp: wake_one_def Let_def split: option.split intro!: fsafe_seq [of "\<lambda>_. True"])
  then have "fsafe (\<lambda>_. True) (wakeup1 c s)"
    unfolding wakeup1_def wakeup_shortest_def by (auto intro!: fsafe_seq [of "\<lambda>_. True"] split: option.split)
  then show "J s \<Longrightarrow> fsafe J (wakeup1 c s)" by (rule fsafe_of_post [rotated]) (auto dest!: wakeup1_ofile intro: J_ptable)
qed

lemma wakeup_keep [keep]: "J s \<Longrightarrow> fsafe J (wakeup c s)"
  unfolding wakeup_def by (intro vc keep; auto simp: file_panics_def)

lemma kill_keep [keep]: "J s \<Longrightarrow> fsafe (\<lambda>(r, s). J s) (kill n s)"
  unfolding kill_def by (intro vc keep; auto simp: file_panics_def)

lemma getnice_keep [keep]: "J s \<Longrightarrow> fsafe (\<lambda>(r, s). J s) (getnice n s)"
  unfolding getnice_def by (intro vc keep; auto simp: file_panics_def)

lemma setnice_keep [keep]: "J s \<Longrightarrow> fsafe (\<lambda>(r, s). J s) (setnice n v s)"
  unfolding setnice_def by (intro vc keep; auto simp: file_panics_def split: option.split)

lemma alloc_kstack_keep [keep]: "J s \<Longrightarrow> fsafe (\<lambda>(r, s). J s) (alloc_kstack i s)"
  unfolding alloc_kstack_def by (intro vc keep; auto simp: file_panics_def)

lemma allocproc_keep [keep]: "J s \<Longrightarrow> fsafe (\<lambda>(r, s). J s) (allocproc s)"
  unfolding allocproc_def by (intro vc keep; auto simp: file_panics_def simp: proc_found_def)

lemma switchuvm_keep [keep]: "J s \<Longrightarrow> fsafe J (switchuvm p s)"
  unfolding switchuvm_def by (intro vc keep; auto simp: file_panics_def)

lemma yield_resume_keep [keep]: "J s \<Longrightarrow> fsafe J (yield_resume s)"
  unfolding yield_resume_def by (intro vc keep; auto simp: file_panics_def)

lemma sleep_resume_keep [keep]: "J s \<Longrightarrow> fsafe J (sleep_resume l s)"
  unfolding sleep_resume_def by (intro vc keep; auto simp: file_panics_def)

lemma acquiresleep_loop_keep [keep]: "J s \<Longrightarrow> fsafe J (acquiresleep_loop l s)"
  unfolding acquiresleep_loop_def by (intro vc keep; auto simp: file_panics_def)

lemma acquiresleep_keep [keep]: "J s \<Longrightarrow> fsafe J (acquiresleep l s)"
  unfolding acquiresleep_def by (intro vc keep; auto simp: file_panics_def)

lemma releasesleep_keep [keep]: "J s \<Longrightarrow> fsafe J (releasesleep l s)"
  unfolding releasesleep_def by (intro vc keep; auto simp: file_panics_def)

lemma holdingsleep_keep [keep]: "J s \<Longrightarrow> fsafe (\<lambda>(r, s). J s) (holdingsleep l s)"
  unfolding holdingsleep_def by (intro vc keep fsafe_seq [of "\<lambda>_. True"]; auto)

subsection \<open>Pipes\<close>

lemma pipeclose_keep [keep]: "J s \<Longrightarrow> fsafe J (pipeclose p w s)"
  unfolding pipeclose_def by (intro vc keep; auto simp: file_panics_def)

lemma pipewrite_loop_keep [keep]: "J s \<Longrightarrow> fsafe (\<lambda>(r, s). J s) (pipewrite_loop p bs n s)"
proof (induction bs arbitrary: s)
  case Nil then show ?case unfolding pipewrite_loop.simps by (intro vc keep; auto)
next
  case (Cons b bs)
  then show ?case unfolding pipewrite_loop.simps by (intro vc keep Cons.IH fsafe_seq [of "\<lambda>_. True"]; auto)
qed

lemma pipewrite_keep [keep]: "J s \<Longrightarrow> fsafe (\<lambda>(r, s). J s) (pipewrite p bs n s)"
  unfolding pipewrite_def by (intro vc keep; auto simp: file_panics_def)

lemma piperead_loop_keep [keep]: "J s \<Longrightarrow> fsafe (\<lambda>(r, b, s). J s) (piperead_loop p n s)"
  unfolding piperead_loop_def by (intro vc keep; auto simp: file_panics_def)

lemma piperead_keep [keep]: "J s \<Longrightarrow> fsafe (\<lambda>(r, b, s). J s) (piperead p n s)"
  unfolding piperead_def by (intro vc keep; auto simp: file_panics_def)

subsection \<open>The buffer cache and the log\<close>

lemma iderw_keep [keep]: "J s \<Longrightarrow> fsafe J (iderw b s)"
  unfolding iderw_def by (intro vc keep; auto simp: file_panics_def)

lemma link_first_J [intro!]: "J s \<Longrightarrow> J (link_first b s)"
  by (auto simp: link_first_def Let_def)

lemma unlink_buf_J [intro!]: "J s \<Longrightarrow> J (unlink_buf b s)"
  by (auto simp: unlink_buf_def Let_def)

lemma set_data_J [intro!]: "J s \<Longrightarrow> J (set_data b d s)"
  by (auto simp: set_data_def Let_def)

lemma bget_keep [keep]: "J s \<Longrightarrow> fsafe (\<lambda>(r, s). J s) (bget dev n s)"
  unfolding bget_def by (intro vc keep; auto simp: file_panics_def)

lemma bread_keep [keep]: "J s \<Longrightarrow> fsafe (\<lambda>(r, s). J s) (bread dev n s)"
  unfolding bread_def by (intro vc keep; auto simp: file_panics_def)

lemma bwrite_keep [keep]: "J s \<Longrightarrow> fsafe J (bwrite b s)"
  unfolding bwrite_def by (intro vc keep; auto simp: file_panics_def)

lemma brelse_keep [keep]: "J s \<Longrightarrow> fsafe J (brelse b s)"
  unfolding brelse_def by (intro vc keep; auto simp: file_panics_def)

lemma readsb_keep [keep]: "J s \<Longrightarrow> fsafe (\<lambda>(r, s). J s) (readsb dev s)"
  unfolding readsb_def by (intro vc keep; auto simp: file_panics_def)

lemma install_from_keep [keep]: "J s \<Longrightarrow> fsafe J (install_from ts s)"
proof (induction ts arbitrary: s)
  case (Cons t ts) then show ?case unfolding install_from.simps by (intro vc keep Cons.IH; auto simp: file_panics_def)
qed (simp_all add: file_panics_def)

lemma install_trans_keep [keep]: "J s \<Longrightarrow> fsafe J (install_trans s)"
  unfolding install_trans_def by (intro vc keep; auto simp: file_panics_def)

lemma read_head_keep [keep]: "J s \<Longrightarrow> fsafe J (read_head s)"
  unfolding read_head_def by (intro vc keep; auto simp: file_panics_def)

lemma write_head_keep [keep]: "J s \<Longrightarrow> fsafe J (write_head s)"
  unfolding write_head_def by (intro vc keep; auto simp: file_panics_def)

lemma recover_from_log_keep [keep]: "J s \<Longrightarrow> fsafe J (recover_from_log s)"
  unfolding recover_from_log_def by (intro vc keep; auto simp: file_panics_def)

lemma initlog_keep [keep]: "J s \<Longrightarrow> fsafe J (initlog dev s)"
  unfolding initlog_def by (intro vc keep; auto simp: file_panics_def)

lemma begin_op_loop_keep [keep]: "J s \<Longrightarrow> fsafe J (begin_op_loop s)"
  unfolding begin_op_loop_def by (intro vc keep; auto simp: file_panics_def)

lemma begin_op_keep [keep]: "J s \<Longrightarrow> fsafe J (begin_op s)"
  unfolding begin_op_def by (intro vc keep; auto simp: file_panics_def)

lemma write_log_from_keep [keep]: "J s \<Longrightarrow> fsafe J (write_log_from ts s)"
proof (induction ts arbitrary: s)
  case (Cons t ts) then show ?case unfolding write_log_from.simps by (intro vc keep Cons.IH; auto simp: file_panics_def)
qed (simp_all add: file_panics_def)

lemma write_log_keep [keep]: "J s \<Longrightarrow> fsafe J (write_log s)"
  unfolding write_log_def by (intro vc keep; auto simp: file_panics_def)

lemma commit_keep [keep]: "J s \<Longrightarrow> fsafe J (commit s)"
  unfolding commit_def by (intro vc keep; auto simp: file_panics_def)

lemma end_op_keep [keep]: "J s \<Longrightarrow> fsafe J (end_op s)"
  unfolding end_op_def by (intro vc keep; auto simp: file_panics_def)

lemma log_write_keep [keep]: "J s \<Longrightarrow> fsafe J (log_write b s)"
  unfolding log_write_def by (intro vc keep; auto simp: file_panics_def)

lemma uartputc_J [intro!]: "J s \<Longrightarrow> J (uartputc c s)"
  by (auto simp: uartputc_def Let_def)

lemma cgaputc_keep [keep]: "J s \<Longrightarrow> fsafe J (cgaputc c s)"
  unfolding cgaputc_def by (intro vc keep; auto simp: file_panics_def split: prod.splits if_splits)

lemma consputc_keep [keep]: "J s \<Longrightarrow> fsafe J (consputc c s)"
  unfolding consputc_def by (intro vc keep; auto simp: file_panics_def)

lemma putchars_keep [keep]: "J s \<Longrightarrow> fsafe J (putchars cs s)"
proof (induction cs arbitrary: s)
  case (Cons c cs) then show ?case unfolding putchars.simps by (intro vc keep Cons.IH; auto simp: file_panics_def)
qed (simp_all add: file_panics_def)

lemma printint_keep [keep]: "J s \<Longrightarrow> fsafe J (printint x b sg s)"
  unfolding printint_def by (intro vc keep; auto simp: file_panics_def)

subsection \<open>The console\<close>

lemma cprintf_from_keep [keep]: "J s \<Longrightarrow> fsafe J (cprintf_from fmt args s)"
proof (induction fmt arbitrary: args s rule: measure_induct_rule [of length])
  case (less fmt)
  show ?case
  proof (cases fmt)
    case (Cons c f)
    show ?thesis using less.prems unfolding Cons cprintf_from.simps by (intro vc keep less.IH fsafe_list fsafe_carg; auto simp: Cons)
  qed (use less.prems in simp)
qed

lemma cprintf_keep [keep]: "J s \<Longrightarrow> fsafe J (cprintf fmt args s)"
  unfolding cprintf_def by (intro vc keep; auto simp: file_panics_def)

lemma print_pcs_keep [keep]: "J s \<Longrightarrow> fsafe J (print_pcs fmt xs s)"
proof (induction xs arbitrary: s)
  case (Cons x xs) then show ?case unfolding print_pcs.simps by (intro vc keep Cons.IH; auto simp: file_panics_def)
qed (simp_all add: file_panics_def)

lemma procdump_from_keep [keep]: "J s \<Longrightarrow> fsafe J (procdump_from t s)"
proof (induction t arbitrary: s)
  case (Cons p t) then show ?case unfolding procdump_from.simps by (intro vc keep Cons.IH; auto simp: file_panics_def)
qed (simp_all add: file_panics_def)

lemma procdump_keep [keep]: "J s \<Longrightarrow> fsafe J (procdump s)"
  unfolding procdump_def by (intro vc keep; auto simp: file_panics_def)

lemma ps_line_keep [keep]: "J s \<Longrightarrow> fsafe J (ps_line al p s)"
  unfolding ps_line_def by (intro vc keep; auto simp: file_panics_def)

lemma ps_all_keep [keep]: "J s \<Longrightarrow> fsafe J (ps_all t s)"
proof (induction t arbitrary: s)
  case (Cons p t) then show ?case unfolding ps_all.simps by (intro vc keep Cons.IH; auto simp: file_panics_def)
qed (simp_all add: file_panics_def)

lemma ps_keep [keep]: "J s \<Longrightarrow> fsafe J (ps n s)"
  unfolding ps_def by (intro vc keep; auto simp: file_panics_def)

lemma kill_line_keep [keep]: "J s \<Longrightarrow> fsafe J (kill_line s)"
proof (induction s rule: kill_line.induct)
  case (1 s) then show ?case by (subst kill_line.simps) (intro vce keep 1(1); auto simp: file_panics_def)
qed

lemma consoleintr_from_keep [keep]: "J s \<Longrightarrow> fsafe (\<lambda>(r, s). J s) (consoleintr_from cs d s)"
proof (induction cs arbitrary: d s)
  case (Cons c cs) then show ?case unfolding consoleintr_from.simps by (intro vc keep Cons.IH; auto simp: file_panics_def)
qed (simp_all add: file_panics_def)

lemma consoleintr_keep [keep]: "J s \<Longrightarrow> fsafe J (consoleintr cs s)"
  unfolding consoleintr_def by (intro vc keep; auto simp: file_panics_def)

subsection \<open>Blocks and inodes\<close>

lemma bzero_keep [keep]: "J s \<Longrightarrow> fsafe J (bzero dev n s)"
  unfolding bzero_def by (intro vc keep; auto simp: file_panics_def)

lemma balloc_from_keep [keep]: "J s \<Longrightarrow> fsafe (\<lambda>(r, s). J s) (balloc_from dev bs s)"
proof (induction bs arbitrary: s)
  case (Cons b bs) then show ?case unfolding balloc_from.simps by (intro vc keep Cons.IH; auto simp: file_panics_def)
qed (simp_all add: file_panics_def)

lemma balloc_keep [keep]: "J s \<Longrightarrow> fsafe (\<lambda>(r, s). J s) (balloc dev s)"
  unfolding balloc_def by (intro vc keep; auto simp: file_panics_def)

lemma bfree_keep [keep]: "J s \<Longrightarrow> fsafe J (bfree dev n s)"
  unfolding bfree_def by (intro vc keep; auto simp: file_panics_def)

lemma iget_keep [keep]: "J s \<Longrightarrow> fsafe (\<lambda>(r, s). J s) (iget dev n s)"
  unfolding iget_def by (intro vc keep; auto simp: file_panics_def)

lemma ialloc_from_keep [keep]: "J s \<Longrightarrow> fsafe (\<lambda>(r, s). J s) (ialloc_from dev ty ns s)"
proof (induction ns arbitrary: s)
  case (Cons n ns) then show ?case unfolding ialloc_from.simps by (intro vc keep Cons.IH; auto simp: file_panics_def)
qed (simp_all add: file_panics_def)

lemma ialloc_keep [keep]: "J s \<Longrightarrow> fsafe (\<lambda>(r, s). J s) (ialloc dev ty s)"
  unfolding ialloc_def by (intro vc keep; auto simp: file_panics_def)

lemma iupdate_keep [keep]: "J s \<Longrightarrow> fsafe J (iupdate ip s)"
  unfolding iupdate_def by (intro vc keep; auto simp: file_panics_def)

lemma idup_keep [keep]: "J s \<Longrightarrow> fsafe (\<lambda>(r, s). J s) (idup ip s)"
  unfolding idup_def by (intro vc keep; auto simp: file_panics_def)

lemma ilock_keep [keep]: "J s \<Longrightarrow> fsafe J (ilock p s)"
  unfolding ilock_def by (intro vc keep; auto simp: file_panics_def)

lemma iunlock_keep [keep]: "J s \<Longrightarrow> fsafe J (iunlock p s)"
  unfolding iunlock_def by (intro vc keep; auto simp: file_panics_def)

lemma bmap_keep [keep]: "J s \<Longrightarrow> fsafe (\<lambda>(r, s). J s) (bmap ip bn s)"
  unfolding bmap_def by (intro vc keep; auto simp: file_panics_def)

lemma itrunc_direct_keep [keep]: "J s \<Longrightarrow> fsafe J (itrunc_direct ip ks s)"
proof (induction ks arbitrary: s)
  case (Cons k ks) then show ?case unfolding itrunc_direct.simps by (intro vc keep Cons.IH; auto simp: file_panics_def)
qed (simp_all add: file_panics_def)

lemma bfree_all_keep [keep]: "J s \<Longrightarrow> fsafe J (bfree_all dev as s)"
proof (induction as arbitrary: s)
  case (Cons a as) then show ?case unfolding bfree_all.simps by (intro vc keep Cons.IH; auto simp: file_panics_def)
qed (simp_all add: file_panics_def)

lemma itrunc_keep [keep]: "J s \<Longrightarrow> fsafe J (itrunc ip s)"
  unfolding itrunc_def by (intro vc keep; auto simp: file_panics_def)

lemma iput_keep [keep]: "J s \<Longrightarrow> fsafe J (iput ip s)"
  unfolding iput_def by (intro vc keep; auto simp: file_panics_def)

lemma iunlockput_keep [keep]: "J s \<Longrightarrow> fsafe J (iunlockput ip s)"
  unfolding iunlockput_def by (intro vc keep; auto simp: file_panics_def)

subsection \<open>Files, directories and paths\<close>

lemma consoleread_end_keep [keep]: "J s \<Longrightarrow> fsafe (\<lambda>(r, b, s). J s) (consoleread_end ip r acc s)"
  unfolding consoleread_end_def by (intro vc keep; auto simp: file_panics_def)

lemma consoleread_loop_keep [keep]: "J s \<Longrightarrow> fsafe (\<lambda>(r, b, s). J s) (consoleread_loop ip target n acc s)"
proof (induction n arbitrary: acc s)
  case 0 then show ?case unfolding consoleread_loop.simps by (intro vc keep)
next
  case (Suc n)
  then show ?case unfolding consoleread_loop.simps by (intro vc keep Suc.IH; auto)
qed

lemma consoleread_keep [keep]: "J s \<Longrightarrow> fsafe (\<lambda>(r, b, s). J s) (consoleread ip n s)"
  unfolding consoleread_def by (intro vc keep; auto simp: file_panics_def)

lemma consolewrite_keep [keep]: "J s \<Longrightarrow> fsafe (\<lambda>(r, s). J s) (consolewrite ip bf s)"
  unfolding consolewrite_def by (intro vc keep; auto simp: file_panics_def)

lemma readi_loop_keep [keep]: "J s \<Longrightarrow> fsafe (\<lambda>(r, s). J s) (readi_loop ip off n s)"
proof (induction ip off n s rule: readi_loop.induct)
  case (1 ip off n s) then show ?case by (subst readi_loop.simps) (intro vce keep 1(1); auto simp: file_panics_def)
qed

lemma readi_keep [keep]: "J s \<Longrightarrow> fsafe (\<lambda>(r, b, s). J s) (readi ip off n s)"
  unfolding readi_def by (intro vc keep; auto simp: file_panics_def)

lemma writei_loop_keep [keep]: "J s \<Longrightarrow> fsafe (\<lambda>(r, s). J s) (writei_loop ip src off s)"
proof (induction ip src off s rule: writei_loop.induct)
  case (1 ip src off s) then show ?case by (subst writei_loop.simps) (intro vce keep 1(1); auto simp: file_panics_def)
qed

lemma writei_keep [keep]: "J s \<Longrightarrow> fsafe (\<lambda>(r, s). J s) (writei ip src off s)"
  unfolding writei_def by (intro vc keep; auto simp: file_panics_def)

lemma read_dirent_keep [keep]: "J s \<Longrightarrow> msg \<notin> file_panics \<Longrightarrow> fsafe (\<lambda>(r, s). J s) (read_dirent msg dp off s)"
  unfolding read_dirent_def by (intro vc keep; auto simp: file_panics_def)

lemma dirlookup_from_keep [keep]: "J s \<Longrightarrow> fsafe (\<lambda>(r, s). J s) (dirlookup_from dp name offs s)"
proof (induction offs arbitrary: s)
  case (Cons x offs) then show ?case unfolding dirlookup_from.simps by (intro vc keep Cons.IH; auto simp: file_panics_def)
qed (simp_all add: file_panics_def)

lemma dirlookup_keep [keep]: "J s \<Longrightarrow> fsafe (\<lambda>(r, s). J s) (dirlookup dp name s)"
  unfolding dirlookup_def by (intro vc keep; auto simp: file_panics_def)

lemma dirlink_free_keep [keep]: "J s \<Longrightarrow> fsafe (\<lambda>(r, s). J s) (dirlink_free dp offs e s)"
proof (induction offs arbitrary: e s)
  case (Cons x offs) then show ?case unfolding dirlink_free.simps by (intro vc keep Cons.IH; auto simp: file_panics_def)
qed (simp_all add: file_panics_def)

lemma dirlink_keep [keep]: "J s \<Longrightarrow> fsafe (\<lambda>(r, s). J s) (dirlink dp name n s)"
  unfolding dirlink_def by (intro vc keep; auto simp: file_panics_def)

lemma namex_loop_keep [keep]: "J s \<Longrightarrow> fsafe (\<lambda>(r, s). J s) (namex_loop ip path par name s)"
proof (induction ip path par name s rule: namex_loop.induct)
  case (1 ip path par name s) then show ?case by (subst namex_loop.simps) (intro vce keep 1(1); auto simp: file_panics_def)
qed

lemma namex_keep [keep]: "J s \<Longrightarrow> fsafe (\<lambda>(r, s). J s) (namex path par s)"
  unfolding namex_def by (intro vc keep; auto simp: file_panics_def)

lemma namei_keep [keep]: "J s \<Longrightarrow> fsafe (\<lambda>(r, s). J s) (namei path s)"
  unfolding namei_def by (intro vc keep; auto simp: file_panics_def)

lemma nameiparent_keep [keep]: "J s \<Longrightarrow> fsafe (\<lambda>(r, s). J s) (nameiparent path s)"
  unfolding nameiparent_def by (intro vc keep; auto simp: file_panics_def)

lemma J_upd_file [intro!]:
  "J s \<Longrightarrow> f_ref (g (ftable s f)) = f_ref (ftable s f) \<Longrightarrow> f_type (g (ftable s f)) = f_type (ftable s f) \<Longrightarrow>
    f_ip (g (ftable s f)) = f_ip (ftable s f) \<Longrightarrow> J (upd_file f g s)"
  by (erule J_view) (auto simp: fview_def upd_file_def)

subsection \<open>Open files\<close>

lemma iput_ptr_keep [keep]: "J s \<Longrightarrow> fsafe J (iput_ptr p s)"
  unfolding iput_ptr_def by (intro vc keep; auto simp: file_panics_def)

text \<open>\<open>fileclose\<close> changes the count and, for the last reference, the type; what it calls then keeps the property.\<close>

lemma fileclose_J:
  assumes "1 \<le> f_ref (ftable s f)" and "1 < f_ref (ftable s f) \<Longrightarrow> J (upd_file f (\<lambda>x. x\<lparr>f_ref := f_ref x - 1\<rparr>) s)"
    and "f_ref (ftable s f) = 1 \<Longrightarrow> J (upd_file f (\<lambda>x. x\<lparr>f_ref := 0, f_type := FD_NONE\<rparr>) s)"
  shows "fsafe J (fileclose f s)"
  unfolding fileclose_def
proof (rule fsafe_seq [OF lock_eq(1)], elim exE)
  fix t h assume t: "t = s\<lparr>held := h\<rparr>"
  let ?u = "upd_file f (\<lambda>x. x\<lparr>f_ref := f_ref x - 1\<rparr>) t"
  have r: "f_ref (ftable ?u f) = f_ref (ftable s f) - 1" "1 \<le> f_ref (ftable t f)" using assms(1) by (simp_all add: t upd_file_def)
  have u: "J ?u" if "0 < f_ref (ftable ?u f)"
    using that unfolding r by (intro J_view [OF assms(2)]) (auto simp: t fview_def upd_file_def)
  have v: "J (upd_file f (\<lambda>x. x\<lparr>f_ref := 0, f_type := FD_NONE\<rparr>) ?u)" if "\<not> 0 < f_ref (ftable ?u f)"
    using that assms(1) unfolding r by (intro J_view [OF assms(3)]) (auto simp: t fview_def upd_file_def)
  show "fsafe J
      (if f_ref (ftable t f) < 1 then Inl (Panic ''fileclose'')
       else
         let s = ?u
         in if f_ref (ftable s f) > 0 then unlock L_ftable s
            else
              let ff = ftable s f; s = upd_file f (\<lambda>x. x\<lparr>f_ref := 0, f_type := FD_NONE\<rparr>) s
              in seq (unlock L_ftable s) (\<lambda>s.
                 case f_type ff of
                   FD_PIPE \<Rightarrow> pipeclose (f_pipe ff) (f_writable ff) s
                 | FD_INODE \<Rightarrow> seq (begin_op s) (\<lambda>s. seq (iput_ptr (f_ip ff) s) (\<lambda>s. end_op s))
                 | FD_NONE \<Rightarrow> Inr s))"
    unfolding Let_def [of ?u] using r(2) u v by (intro vc keep; simp)
qed

lemma filestat_keep [keep]: "J s \<Longrightarrow> fsafe (\<lambda>(r, s). J s) (filestat f s)"
  unfolding filestat_def by (intro vc keep; auto simp: file_panics_def)

lemma fileread_keep [keep]: "J s \<Longrightarrow> f_type (ftable s f) \<noteq> FD_NONE \<Longrightarrow> fsafe (\<lambda>(r, b, s). J s) (fileread f n s)"
  unfolding fileread_def by (intro vc keep; auto simp: file_panics_def)

lemma filewrite_loop_keep [keep]: "J s \<Longrightarrow> fsafe (\<lambda>(r, s). J s) (filewrite_loop f bs s)"
proof (induction bs arbitrary: s rule: measure_induct_rule [of length])
  case (less bs)
  show ?case using less.prems by (subst filewrite_loop.simps) (intro vc keep less.IH; auto simp: file_panics_def)
qed

lemma filewrite_keep [keep]: "J s \<Longrightarrow> f_type (ftable s f) \<noteq> FD_NONE \<Longrightarrow> fsafe (\<lambda>(r, s). J s) (filewrite f bs n s)"
  unfolding filewrite_def by (intro vc keep; auto simp: file_panics_def)

subsection \<open>Memory of a process, its life and programs\<close>

lemma store_user_keep [keep]: "J s \<Longrightarrow> fsafe J (store_user va bs s)"
proof (induction bs arbitrary: va s)
  case (Cons b bs) then show ?case unfolding store_user.simps by (intro vc keep Cons.IH; auto simp: file_panics_def)
qed (simp_all add: file_panics_def)

lemma munmap_pages_keep [keep]: "J s \<Longrightarrow> fsafe (\<lambda>(r, s). J s) (munmap_pages dir addr is' s)"
proof (induction is' arbitrary: s)
  case (Cons x is') then show ?case unfolding munmap_pages.simps by (intro vc keep Cons.IH; auto simp: file_panics_def)
qed (simp_all add: file_panics_def)

lemma munmap_keep [keep]: "J s \<Longrightarrow> fsafe (\<lambda>(r, s). J s) (munmap addr s)"
  unfolding munmap_def by (intro vc keep; auto simp: file_panics_def)

lemma growproc_keep [keep]: "J s \<Longrightarrow> fsafe (\<lambda>(r, s). J s) (growproc n s)"
  unfolding growproc_def by (intro vc keep; auto simp: file_panics_def)

lemma fork_pages_keep [keep]: "J s \<Longrightarrow> fsafe (\<lambda>(r, s). J s) (fork_pages np a is' s)"
proof (induction is' arbitrary: s)
  case (Cons x is') then show ?case unfolding fork_pages.simps by (intro vc keep Cons.IH; auto simp: file_panics_def)
qed (simp_all add: file_panics_def)

lemma exit_children_keep [keep]: "J s \<Longrightarrow> fsafe J (exit_children cp ks s)"
proof (induction ks arbitrary: s)
  case (Cons k ks) then show ?case unfolding exit_children.simps by (intro vc keep Cons.IH; auto simp: file_panics_def)
qed (simp_all add: file_panics_def)

lemma reap_keep [keep]: "J s \<Longrightarrow> fsafe (\<lambda>(r, s). J s) (reap k s)"
  unfolding reap_def by (intro vc keep; auto simp: file_panics_def)

lemma wait_loop_keep [keep]: "J s \<Longrightarrow> fsafe (\<lambda>(r, s). J s) (wait_loop s)"
  unfolding wait_loop_def by (intro vc keep; auto simp: file_panics_def)

lemma wait_keep [keep]: "J s \<Longrightarrow> fsafe (\<lambda>(r, s). J s) (wait s)"
  unfolding wait_def by (intro vc keep; auto simp: file_panics_def)

lemma loaduvm_from_keep [keep]: "J s \<Longrightarrow> fsafe (\<lambda>(r, s). J s) (loaduvm_from dir addr ip off n is' s)"
proof (induction is' arbitrary: s)
  case (Cons x is') then show ?case unfolding loaduvm_from.simps by (intro vc keep Cons.IH; auto simp: file_panics_def)
qed (simp_all add: file_panics_def)

lemma loaduvm_keep [keep]: "J s \<Longrightarrow> fsafe (\<lambda>(r, s). J s) (loaduvm dir addr ip off n s)"
  unfolding loaduvm_def by (intro vc keep; auto simp: file_panics_def)

lemma exec_load_keep [keep]: "J s \<Longrightarrow> fsafe (\<lambda>(r, s). J s) (exec_load dir ip offs z s)"
proof (induction offs arbitrary: z s)
  case (Cons x offs) then show ?case unfolding exec_load.simps by (intro vc keep Cons.IH; auto simp: file_panics_def)
qed (simp_all add: file_panics_def)

lemma exec_args_keep [keep]: "J s \<Longrightarrow> fsafe (\<lambda>(r, s). J s) (exec_args dir argc as sp us s)"
proof (induction as arbitrary: argc sp us s)
  case (Cons a as) then show ?case unfolding exec_args.simps by (intro vc keep Cons.IH; auto simp: file_panics_def)
qed (simp_all add: file_panics_def)

lemma exec_bad_keep [keep]: "J s \<Longrightarrow> fsafe (\<lambda>(r, s). J s) (exec_bad dir ip s)"
  unfolding exec_bad_def by (intro vc keep; auto simp: file_panics_def)

lemma exec_commit_keep [keep]: "J s \<Longrightarrow> fsafe (\<lambda>(r, s). J s) (exec_commit path dir z en sp s)"
  unfolding exec_commit_def by (intro vc keep; auto simp: file_panics_def)

lemma exec_stack_keep [keep]: "J s \<Longrightarrow> fsafe (\<lambda>(r, s). J s) (exec_stack path argv dir z en s)"
  unfolding exec_stack_def by (intro vc keep; auto simp: file_panics_def)

lemma exec_keep [keep]: "J s \<Longrightarrow> fsafe (\<lambda>(r, s). J s) (exec path argv s)"
  unfolding exec_def by (intro vc keep; auto simp: file_panics_def)

subsection \<open>System calls and interrupts\<close>

lemma tf_set_keep [keep]: "J s \<Longrightarrow> fsafe J (tf_set off v s)"
  unfolding tf_set_def by (intro vc keep; auto simp: file_panics_def)

lemma sys_wait_keep [keep]: "J s \<Longrightarrow> fsafe (\<lambda>(r, s). J s) (sys_wait s)"
  unfolding sys_wait_def by (intro vc keep; auto simp: file_panics_def)

lemma sys_kill_keep [keep]: "J s \<Longrightarrow> fsafe (\<lambda>(r, s). J s) (sys_kill s)"
  unfolding sys_kill_def by (intro vc keep; auto simp: file_panics_def)

lemma sys_getpid_keep [keep]: "J s \<Longrightarrow> fsafe (\<lambda>(r, s). J s) (sys_getpid s)"
  unfolding sys_getpid_def by (intro vc keep; auto simp: file_panics_def)

lemma sys_sbrk_keep [keep]: "J s \<Longrightarrow> fsafe (\<lambda>(r, s). J s) (sys_sbrk s)"
  unfolding sys_sbrk_def by (intro vc keep; auto simp: file_panics_def)

lemma sleep_loop_keep [keep]: "J s \<Longrightarrow> fsafe (\<lambda>(r, s). J s) (sleep_loop t0 n s)"
  unfolding sleep_loop_def by (intro vc keep; auto simp: file_panics_def)

lemma sys_sleep_keep [keep]: "J s \<Longrightarrow> fsafe (\<lambda>(r, s). J s) (sys_sleep s)"
  unfolding sys_sleep_def by (intro vc keep; auto simp: file_panics_def)

lemma sys_uptime_keep [keep]: "J s \<Longrightarrow> fsafe (\<lambda>(r, s). J s) (sys_uptime s)"
  unfolding sys_uptime_def by (intro vc keep; auto simp: file_panics_def)

lemma sys_getnice_keep [keep]: "J s \<Longrightarrow> fsafe (\<lambda>(r, s). J s) (sys_getnice s)"
  unfolding sys_getnice_def by (intro vc keep; auto simp: file_panics_def)

lemma sys_setnice_keep [keep]: "J s \<Longrightarrow> fsafe (\<lambda>(r, s). J s) (sys_setnice s)"
  unfolding sys_setnice_def by (intro vc keep; auto simp: file_panics_def)

lemma sys_ps_keep [keep]: "J s \<Longrightarrow> fsafe (\<lambda>(r, s). J s) (sys_ps s)"
  unfolding sys_ps_def by (intro vc keep; auto simp: file_panics_def)

lemma sys_munmap_keep [keep]: "J s \<Longrightarrow> fsafe (\<lambda>(r, s). J s) (sys_munmap s)"
  unfolding sys_munmap_def by (intro vc keep; auto simp: file_panics_def)

lemma sys_freemem_keep [keep]: "J s \<Longrightarrow> fsafe (\<lambda>(r, s). J s) (sys_freemem s)"
  unfolding sys_freemem_def by (intro vc keep; auto simp: file_panics_def)

lemma store_stat_keep [keep]: "J s \<Longrightarrow> fsafe J (store_stat p st s)"
  unfolding store_stat_def by (intro vc keep; auto simp: file_panics_def)

lemma sys_fstat_keep [keep]: "J s \<Longrightarrow> fsafe (\<lambda>(r, s). J s) (sys_fstat s)"
  unfolding sys_fstat_def by (intro vc keep; auto simp: file_panics_def)

lemma add_nlink_keep [keep]: "J s \<Longrightarrow> fsafe J (add_nlink d ip s)"
  unfolding add_nlink_def by (intro vc keep; auto simp: file_panics_def)

lemma link_bad_keep [keep]: "J s \<Longrightarrow> fsafe (\<lambda>(r, s). J s) (link_bad ip s)"
  unfolding link_bad_def by (intro vc keep; auto simp: file_panics_def)

lemma sys_link_keep [keep]: "J s \<Longrightarrow> fsafe (\<lambda>(r, s). J s) (sys_link s)"
  unfolding sys_link_def by (intro vc keep; auto simp: file_panics_def)

lemma isdirempty_from_keep [keep]: "J s \<Longrightarrow> fsafe (\<lambda>(r, s). J s) (isdirempty_from dp offs s)"
proof (induction offs arbitrary: s)
  case (Cons x offs) then show ?case unfolding isdirempty_from.simps by (intro vc keep Cons.IH; auto simp: file_panics_def)
qed (simp_all add: file_panics_def)

lemma isdirempty_keep [keep]: "J s \<Longrightarrow> fsafe (\<lambda>(r, s). J s) (isdirempty dp s)"
  unfolding isdirempty_def by (intro vc keep; auto simp: file_panics_def)

lemma unlink_bad_keep [keep]: "J s \<Longrightarrow> fsafe (\<lambda>(r, s). J s) (unlink_bad dp s)"
  unfolding unlink_bad_def by (intro vc keep; auto simp: file_panics_def)

lemma sys_unlink_keep [keep]: "J s \<Longrightarrow> fsafe (\<lambda>(r, s). J s) (sys_unlink s)"
  unfolding sys_unlink_def by (intro vc keep; auto simp: file_panics_def)

lemma create_keep [keep]: "J s \<Longrightarrow> fsafe (\<lambda>(r, s). J s) (create path ty major minor s)"
  unfolding create_def by (intro vc keep; auto simp: file_panics_def)

lemma open_inode_keep [keep]: "J s \<Longrightarrow> fsafe (\<lambda>(r, s). J s) (open_inode path omode s)"
  unfolding open_inode_def by (intro vc keep; auto simp: file_panics_def)

lemma sys_mkdir_keep [keep]: "J s \<Longrightarrow> fsafe (\<lambda>(r, s). J s) (sys_mkdir s)"
  unfolding sys_mkdir_def by (intro vc keep; auto simp: file_panics_def)

lemma sys_mknod_keep [keep]: "J s \<Longrightarrow> fsafe (\<lambda>(r, s). J s) (sys_mknod s)"
  unfolding sys_mknod_def by (intro vc keep; auto simp: file_panics_def)

lemma sys_chdir_keep [keep]: "J s \<Longrightarrow> fsafe (\<lambda>(r, s). J s) (sys_chdir s)"
  unfolding sys_chdir_def by (intro vc keep; auto simp: file_panics_def)

lemma sys_exec_keep [keep]: "J s \<Longrightarrow> fsafe (\<lambda>(r, s). J s) (sys_exec s)"
  unfolding sys_exec_def by (intro vc keep; auto simp: file_panics_def)

lemma kbdintr_keep [keep]: "J s \<Longrightarrow> fsafe J (kbdintr ds s)"
  unfolding kbdintr_def by (intro vc keep; auto simp: file_panics_def)

lemma uartintr_keep [keep]: "J s \<Longrightarrow> fsafe J (uartintr ds s)"
  unfolding uartintr_def by (intro vc keep; auto simp: file_panics_def)

lemma timer_tick_keep [keep]: "J s \<Longrightarrow> fsafe J (timer_tick s)"
  unfolding timer_tick_def by (intro vc keep; auto simp: file_panics_def)

lemma trap_default_keep [keep]: "J s \<Longrightarrow> fsafe J (trap_default cpu cr2 t s)"
  unfolding trap_default_def by (intro vc keep; auto simp: file_panics_def)

lemma trap_yield_keep [keep]: "J s \<Longrightarrow> fsafe J (trap_yield t s)"
  unfolding trap_yield_def by (intro vc keep; auto simp: file_panics_def)

subsection \<open>Populating a mapped area\<close>

lemma populate_keep [keep]: "J s \<Longrightarrow> (\<And>s f. J s \<Longrightarrow> pf = Some f \<Longrightarrow> f_type (ftable s f) \<noteq> FD_NONE) \<Longrightarrow> fsafe (\<lambda>(r, s). J s) (populate dir addr perm pf is' s)"
proof (induction is' arbitrary: s)
  case (Cons x is')
  then show ?case unfolding populate.simps by (intro vc keep Cons.IH; auto)
qed simp

end

end
