(* ===== verification/Descriptors.thy ===== *)
theory Descriptors
  imports Frame
begin

text \<open>
  The references to open files. \<open>nfds\<close> counts the descriptors of all processes that name a file, \<open>mapped\<close>
  tells whether a mapped area does, and \<open>fds d X s\<close> is the invariant: the reference count of every file covers its
  references and \<open>d\<close> more (the references that a routine holds in a local variable), and a file that is referred to has a type,
  those of \<open>X\<close> excepted. \<open>fds_ok\<close> is the invariant between system calls. Each operation on files, each
  system call and each trap is shown to keep it, the routines below by the frame rules of \<open>Frame\<close>.
\<close>

section \<open>References to open files\<close>

definition nfds :: "'a mmap_state_scheme \<Rightarrow> nat \<Rightarrow> nat" where
  "nfds s f = sum_list (map (\<lambda>fs. count_list fs (Some f)) (map ofile (ptable s)))"

definition mapped :: "'a mmap_state_scheme \<Rightarrow> nat \<Rightarrow> bool" where
  "mapped s f \<longleftrightarrow> list_ex (\<lambda>k. ma_f (mmap_areas s k) = Some f) [0..<NMMAP]"

definition typed :: "'a mmap_state_scheme \<Rightarrow> nat \<Rightarrow> bool" where
  "typed s f \<longleftrightarrow> f_type (ftable s f) \<noteq> FD_NONE \<and> (f_type (ftable s f) = FD_INODE \<longrightarrow> f_ip (ftable s f) \<noteq> None)"

definition nrefs :: "'a mmap_state_scheme \<Rightarrow> nat \<Rightarrow> int" where
  "nrefs s f = int (nfds s f) + (if mapped s f then 1 else 0)"

definition fds :: "(nat \<Rightarrow> int) \<Rightarrow> nat set \<Rightarrow> 'a mmap_state_scheme \<Rightarrow> bool" where
  "fds d X s \<longleftrightarrow> length (map ofile (ptable s)) = NPROC \<and> (\<forall>fs \<in> set (map ofile (ptable s)). length fs = NOFILE) \<and>
     (\<forall>i. curproc s = Some i \<longrightarrow> i < NPROC) \<and>
     (\<forall>f. nrefs s f + d f \<le> f_ref (ftable s f) \<and>
       (0 < nrefs s f \<longrightarrow> f < NFILE \<and> (0 < f_ref (ftable s f) \<longrightarrow> f \<in> X \<or> typed s f)))"

abbreviation fds_ok :: "'a mmap_state_scheme \<Rightarrow> bool" where
  "fds_ok \<equiv> fds (\<lambda>_. 0) {}"

lemma fview_D:
  assumes "fview s' = fview s"
  shows "nrefs s' = nrefs s" "typed s' = typed s" "mapped s' = mapped s" "curproc s' = curproc s" "map ofile (ptable s') = map ofile (ptable s)"
    "f_ref (ftable s' f) = f_ref (ftable s f)"
proof -
  have v: "\<And>f. f_ref (ftable s' f) = f_ref (ftable s f)" "\<And>f. f_type (ftable s' f) = f_type (ftable s f)" "\<And>f. f_ip (ftable s' f) = f_ip (ftable s f)"
      "map ofile (ptable s') = map ofile (ptable s)" "curproc s' = curproc s" "\<And>k. ma_f (mmap_areas s' k) = ma_f (mmap_areas s k)"
    using assms by (simp_all add: fview_def fun_eq_iff)
  show m: "mapped s' = mapped s" by (simp add: fun_eq_iff mapped_def v(6))
  show "nrefs s' = nrefs s" "typed s' = typed s" by (simp_all only: fun_eq_iff nrefs_def typed_def nfds_def m v simp_thms)
  show "curproc s' = curproc s" "map ofile (ptable s') = map ofile (ptable s)" "f_ref (ftable s' f) = f_ref (ftable s f)" using v by simp_all
qed

lemma fds_view: "fds d X s \<Longrightarrow> fview s' = fview s \<Longrightarrow> fds d X s'"
  using fview_D [of s' s] unfolding fds_def by simp

interpretation fds: file_frame "fds d X" for d X
  by unfold_locales (rule fds_view)

text \<open>The same with a file that some mapped area refers to.\<close>

definition area_fds :: "nat option \<Rightarrow> 'a mmap_state_scheme \<Rightarrow> bool" where
  "area_fds pf s \<longleftrightarrow> fds_ok s \<and> (\<forall>f. pf = Some f \<longrightarrow> mapped s f)"

lemma area_fds_view: "area_fds pf s \<Longrightarrow> fview s' = fview s \<Longrightarrow> area_fds pf s'"
  using fview_D(3) [of s' s] fds_view [of _ _ s s'] by (simp add: area_fds_def)

interpretation area: file_frame "area_fds pf" for pf
  by unfold_locales (rule area_fds_view)

lemma fdsD:
  assumes "fds d X s"
  shows "length (ptable s) = NPROC" "i < NPROC \<Longrightarrow> length (ofile (pr s i)) = NOFILE" "curproc s = Some i \<Longrightarrow> i < NPROC"
    "nrefs s f + d f \<le> f_ref (ftable s f)" "0 < nrefs s f \<Longrightarrow> f < NFILE"
    "0 < nrefs s f \<Longrightarrow> 0 \<le> d f \<Longrightarrow> f \<notin> X \<Longrightarrow> typed s f"
proof -
  show r: "nrefs s f + d f \<le> f_ref (ftable s f)" using assms by (simp add: fds_def)
  show "0 < nrefs s f \<Longrightarrow> 0 \<le> d f \<Longrightarrow> f \<notin> X \<Longrightarrow> typed s f" using assms r unfolding fds_def by fastforce
qed (use assms in \<open>simp_all add: fds_def\<close>)

lemma count_list_update:
  "i < length xs \<Longrightarrow> count_list (xs[i := v]) x + (if xs ! i = x then 1 else 0) = count_list xs x + (if v = x then 1 else 0)"
proof (induction xs arbitrary: i)
  case (Cons a xs)
  show ?case using Cons.prems Cons.IH [of "i - 1"] by (cases i) (simp_all split: if_splits)
qed simp

lemma sum_list_map_update: "i < length xs \<Longrightarrow> sum_list (map g (xs[i := y])) + g (xs ! i) = sum_list (map g xs) + g y" for g :: "'a \<Rightarrow> nat"
proof (induction xs arbitrary: i)
  case (Cons a xs)
  show ?case using Cons.prems Cons.IH [of "i - 1"] by (cases i) (simp_all split: if_splits)
qed simp


text \<open>Storing into a descriptor.\<close>

definition put_fd :: "nat \<Rightarrow> nat \<Rightarrow> nat option \<Rightarrow> 'a proc_state_scheme \<Rightarrow> 'a proc_state_scheme" where
  "put_fd i fd v s = upd_proc i (\<lambda>p. p\<lparr>ofile := (ofile p)[fd := v]\<rparr>) s"

lemma nfds_put_fd:
  assumes "i < length (ptable s)" and "fd < length (ofile (pr s i))"
  shows "nfds (put_fd i fd v s) f + (if ofile (pr s i) ! fd = Some f then 1 else 0) = nfds s f + (if v = Some f then 1 else 0)"
proof -
  let ?g = "\<lambda>fs. count_list fs (Some f)" and ?x = "map ofile (ptable s)"
  have m: "map ofile (ptable (put_fd i fd v s)) = ?x[i := (ofile (pr s i))[fd := v]]" by (simp add: put_fd_def upd_proc_def map_update)
  have "nfds (put_fd i fd v s) f + ?g (ofile (pr s i)) = nfds s f + ?g ((ofile (pr s i))[fd := v])"
    using sum_list_map_update [of i ?x ?g "(ofile (pr s i))[fd := v]"] assms(1) unfolding nfds_def m by simp
  with count_list_update [OF assms(2), of v "Some f"] show ?thesis by linarith
qed

lemma fds_put_fd:
  assumes "fds d X s" and "i < NPROC" and "fd < NOFILE" and "v = Some f \<Longrightarrow> f < NFILE \<and> (typed s f \<or> f \<in> Y)" and "v = Some f \<or> v = None" and "X \<subseteq> Y"
    and "e = (\<lambda>g. d g + (if ofile (pr s i) ! fd = Some g then 1 else 0) - (if v = Some g then 1 else 0))"
  shows "fds e Y (put_fd i fd v s)"
proof -
  note a = fdsD [OF assms(1)]
  let ?t = "put_fd i fd v s"
  have r: "nrefs ?t g = nrefs s g - (if ofile (pr s i) ! fd = Some g then 1 else 0) + (if v = Some g then 1 else 0)" for g
    using nfds_put_fd [of i s fd v g] a(1,2) assms(2,3) by (simp add: nrefs_def mapped_def put_fd_def upd_proc_def split: if_splits)
  have f: "ftable ?t = ftable s" "curproc ?t = curproc s" "typed ?t = typed s" by (simp_all add: put_fd_def upd_proc_def typed_def fun_eq_iff)
  have l: "length (ptable ?t) = NPROC" "\<forall>fs \<in> set (map ofile (ptable ?t)). length fs = NOFILE"
    using a(1) assms(1,2) by (auto simp: put_fd_def upd_proc_def fds_def dest!: set_update_subset_insert [THEN subsetD])
  have "f' < NFILE \<and> (0 < f_ref (ftable s f') \<longrightarrow> f' \<in> Y \<or> typed s f')" if "0 < nrefs ?t f'" for f'
  proof (cases "v = Some f'")
    case True then show ?thesis using assms(4,5) by auto
  next
    case False
    then have "0 < nrefs s f'" using that r [of f'] by (simp split: if_splits)
    then show ?thesis using assms(1,6) unfolding fds_def by blast
  qed
  moreover have "nrefs ?t g + e g \<le> f_ref (ftable s g)" for g using a(4) [of g] unfolding r assms(7) by simp
  ultimately show ?thesis using l assms(1) unfolding fds_def f by simp
qed

text \<open>Changing an entry of the file table.\<close>

lemma fds_upd_file:
  assumes "fds d X s" and "0 < nrefs s f \<Longrightarrow> 0 < f_ref (g (ftable s f)) \<Longrightarrow> f \<in> Y \<or> typed (upd_file f g s) f" and "X \<subseteq> insert f Y"
    and "e = d(f := d f + (f_ref (g (ftable s f)) - f_ref (ftable s f)))"
  shows "fds e Y (upd_file f g s)"
proof -
  let ?t = "upd_file f g s"
  have r: "nrefs ?t = nrefs s" "map ofile (ptable ?t) = map ofile (ptable s)" "curproc ?t = curproc s"
    by (simp_all add: nrefs_def nfds_def mapped_def upd_file_def fun_eq_iff)
  have o: "ftable ?t h = ftable s h" "typed ?t h = typed s h" if "h \<noteq> f" for h using that by (simp_all add: upd_file_def typed_def)
  have x: "\<And>h. h \<in> X \<Longrightarrow> h \<noteq> f \<Longrightarrow> h \<in> Y" using assms(3) by blast
  have "nrefs s h + e h \<le> f_ref (ftable ?t h) \<and> (0 < nrefs s h \<longrightarrow> h < NFILE \<and> (0 < f_ref (ftable ?t h) \<longrightarrow> h \<in> Y \<or> typed ?t h))" for h
  proof (cases "h = f")
    case True
    then show ?thesis using fdsD(4,5) [OF assms(1), of f] assms(2) unfolding assms(4) by (simp add: upd_file_def)
  next
    case False
    then have "nrefs s h + e h \<le> f_ref (ftable s h)" using fdsD(4) [OF assms(1), of h] by (simp add: assms(4))
    then show ?thesis using assms(1) x [OF _ False] unfolding fds_def o [OF False] by blast
  qed
  then show ?thesis using assms(1) unfolding fds_def r by blast
qed

lemma fds_weaken: "fds d X s \<Longrightarrow> (\<And>f. e f \<le> d f) \<Longrightarrow> X \<subseteq> Y \<Longrightarrow> fds e Y s"
  unfolding fds_def by (meson add_left_mono order_trans subsetD)

lemma fds_ref_pos: "fds d X s \<Longrightarrow> 0 < nrefs s f + d f \<Longrightarrow> 1 \<le> f_ref (ftable s f)"
  using fdsD(4) [of d X s f] by simp

lemma nrefs_ge_0: "0 \<le> nrefs s f" "mapped s f \<Longrightarrow> 0 < nrefs s f" "0 < nfds s f \<Longrightarrow> 0 < nrefs s f"
  by (simp_all add: nrefs_def)

lemma nfds_pos:
  assumes "i < length (ptable s)" and "Some f \<in> set (ofile (pr s i))"
  shows "0 < nfds s f"
proof -
  have "count_list (ofile (pr s i)) (Some f) \<noteq> 0" using assms(2) by (simp add: count_list_0_iff)
  moreover have "count_list (ofile (pr s i)) (Some f) \<le> nfds s f"
    unfolding nfds_def using assms(1) by (intro member_le_sum_list) auto
  ultimately show ?thesis by simp
qed

section \<open>The file table\<close>

lemma filealloc_fds:
  fixes s :: "'a trap_state_scheme"
  assumes "fds d X s" and "\<And>f. 0 \<le> d f"
  shows "fsafe (\<lambda>(r, s'). case r of None \<Rightarrow> fds d X s' | Some f \<Rightarrow> f < NFILE \<and> fds (d(f := d f + 1)) X s') (filealloc s)"
  unfolding filealloc_def
proof (intro fds.vc keep)
  fix t f assume t: "fds d X t" and f: "find (\<lambda>f. f_ref (ftable t f) = 0) [0..<NFILE] = Some f"
  have z: "f_ref (ftable t f) = 0" "f < NFILE" using f by (auto simp: find_Some_iff)
  have "\<not> 0 < nrefs t f" using fdsD(4) [OF t, of f] z(1) assms(2) [of f] by linarith
  then show "fds (d(f := d f + 1)) X (upd_file f (\<lambda>x. x\<lparr>f_ref := 1\<rparr>) t)" by (intro fds_upd_file [OF t]) (auto simp: z(1))
qed (use assms(1) in \<open>auto simp: find_Some_iff\<close>)

lemma fds_ref:
  assumes "fds d X s" and "1 \<le> f_ref (ftable s f)" and "f_type (g (ftable s f)) = f_type (ftable s f)" and "f_ip (g (ftable s f)) = f_ip (ftable s f)"
    and "e = d(f := d f + (f_ref (g (ftable s f)) - f_ref (ftable s f)))"
  shows "fds e X (upd_file f g s)"
proof (rule fds_upd_file [OF assms(1)])
  assume "0 < nrefs s f"
  then have "f \<in> X \<or> typed s f" using assms(1,2) by (auto simp: fds_def)
  then show "f \<in> X \<or> typed (upd_file f g s) f" using assms(3,4) by (simp add: typed_def upd_file_def)
qed (use assms(5) in auto)

lemma filedup_fds:
  fixes s :: "'a trap_state_scheme"
  assumes "fds d X s" and "1 \<le> f_ref (ftable s f)" and "e = d(f := d f + 1)"
  shows "fsafe (\<lambda>(r, s'). r = f \<and> fds e X s') (filedup f s)"
  unfolding filedup_def
proof (rule fsafe_seq [OF lock_eq(1)], elim exE)
  fix t h assume t: "t = s\<lparr>held := h\<rparr>"
  have "fds d X t" "1 \<le> f_ref (ftable t f)" using assms by (auto simp: t)
  then have "fds e X (upd_file f (\<lambda>x. x\<lparr>f_ref := f_ref x + 1\<rparr>) t)" by (intro fds_ref) (auto simp: assms(3))
  then show "fsafe (\<lambda>(r, s'). r = f \<and> fds e X s')
      (if f_ref (ftable t f) < 1 then Inl (Panic ''filedup'')
       else seq (unlock L_ftable (upd_file f (\<lambda>x. x\<lparr>f_ref := f_ref x + 1\<rparr>) t)) (\<lambda>s. Inr (f, s)))"
    using assms(2) t by (intro fds.vc keep; simp)
qed

lemma fds_close:
  assumes "fds d X s" and "e = d(f := d f - 1)"
  shows "1 < f_ref (ftable s f) \<Longrightarrow> fds e X (upd_file f (\<lambda>x. x\<lparr>f_ref := f_ref x - 1\<rparr>) s)"
    "f_ref (ftable s f) = 1 \<Longrightarrow> fds e X (upd_file f (\<lambda>x. x\<lparr>f_ref := 0, f_type := FD_NONE\<rparr>) s)"
proof -
  show "1 < f_ref (ftable s f) \<Longrightarrow> fds e X (upd_file f (\<lambda>x. x\<lparr>f_ref := f_ref x - 1\<rparr>) s)"
    by (rule fds_ref [OF assms(1)]) (simp_all add: assms(2))
  show "f_ref (ftable s f) = 1 \<Longrightarrow> fds e X (upd_file f (\<lambda>x. x\<lparr>f_ref := 0, f_type := FD_NONE\<rparr>) s)"
    by (rule fds_upd_file [OF assms(1)]) (auto simp: assms(2))
qed

lemma fileclose_fds:
  fixes s :: "'a trap_state_scheme"
  assumes "fds d X s" and "1 \<le> f_ref (ftable s f)" and "e = d(f := d f - 1)"
  shows "fsafe (fds e X) (fileclose f s)"
  by (rule fds.fileclose_J [OF assms(2) fds_close [OF assms(1,3)]])

text \<open>A process that has \<open>f\<close> as its descriptor \<open>fd\<close>.\<close>

definition has_fd :: "nat \<Rightarrow> nat \<Rightarrow> nat \<Rightarrow> (nat \<Rightarrow> int) \<Rightarrow> 'a mmap_state_scheme \<Rightarrow> bool" where
  "has_fd i fd f d s \<longleftrightarrow> fds d {} s \<and> i < NPROC \<and> map ofile (ptable s) ! i ! fd = Some f"

lemma has_fd_view: "has_fd i fd f d s \<Longrightarrow> fview s' = fview s \<Longrightarrow> has_fd i fd f d s'"
  using fview_D(5) [of s' s] fds_view [of d "{}" s s'] unfolding has_fd_def by simp

interpretation has_fd: file_frame "has_fd i fd f d" for i fd f d
  by unfold_locales (rule has_fd_view)

section \<open>Descriptors\<close>

lemma fdalloc_fds:
  fixes s :: "'a trap_state_scheme"
  assumes "fds d X s" and "f < NFILE" and "typed s f \<or> f \<in> Y" and "X \<subseteq> Y" and "e = d(f := d f - 1)"
  shows "fsafe (\<lambda>(r, s'). case r of None \<Rightarrow> s' = s | Some fd \<Rightarrow> fds e Y s' \<and> ftable s' = ftable s \<and> fd < NOFILE \<and> (\<exists>i. curproc s' = Some i \<and> ofile (pr s' i) ! fd = Some f)) (fdalloc f s)"
  unfolding fdalloc_def
proof (intro fsafe_pure fsafe_option)
  fix i fd assume i: "curproc s = Some i" and "find (\<lambda>fd. ofile (pr s i) ! fd = None) [0..<NOFILE] = Some fd"
  then have fd: "fd < NOFILE" "ofile (pr s i) ! fd = None" by (auto simp: find_Some_iff)
  have "fds e Y (put_fd i fd (Some f) s)"
    using assms(2-4) by (intro fds_put_fd [OF assms(1) fdsD(3) [OF assms(1) i] fd(1), where f = f]) (auto simp: fd(2) assms(5))
  then show "fsafe (\<lambda>(r, s'). case r of None \<Rightarrow> s' = s | Some fd \<Rightarrow> fds e Y s' \<and> ftable s' = ftable s \<and> fd < NOFILE \<and> (\<exists>i. curproc s' = Some i \<and> ofile (pr s' i) ! fd = Some f))
      (Inr (Some fd, upd_proc i (\<lambda>p. p\<lparr>ofile := (ofile p)[fd := Some f]\<rparr>) s))"
    using fd(1) i fdsD(1,2) [OF assms(1)] fdsD(3) [OF assms(1) i] by (simp add: put_fd_def upd_proc_def)
qed simp

lemma argfd_fds:
  assumes "argfd n s = Inr (Some (fd, f))" and "fds d X s"
  obtains i where "curproc s = Some i" "i < NPROC" "fd < NOFILE" "ofile (pr s i) ! fd = Some f" "0 < nrefs s f"
proof -
  obtain i where i: "curproc s = Some i" "fd < NOFILE" "ofile (pr s i) ! fd = Some f"
    using assms(1) by (auto simp: argfd_def seq_eq_Inr_iff myp_def split: option.splits if_splits)
  note a = fdsD(1-3) [OF assms(2)]
  have "Some f \<in> set (ofile (pr s i))" using i a(2,3) by (metis nth_mem)
  then have "0 < nrefs s f" using nfds_pos a(1,3) i(1) nrefs_ge_0(3) by metis
  with that i a(3) show ?thesis by blast
qed

lemma set_ofile_fds:
  fixes s :: "'a trap_state_scheme"
  assumes "fds d X s" and "curproc s = Some i" and "fd < NOFILE" and "ofile (pr s i) ! fd = Some f" and "e = d(f := d f + 1)"
  shows "fsafe (\<lambda>s'. fds e X s' \<and> ftable s' = ftable s) (set_ofile fd None s)"
proof -
  have "fds e X (put_fd i fd None s)"
    by (rule fds_put_fd [OF assms(1) fdsD(3) [OF assms(1,2)] assms(3)]) (auto simp: assms(4,5))
  then show ?thesis using assms(2) by (simp add: set_ofile_def myp_def put_fd_def upd_proc_def)
qed

text \<open>What a descriptor refers to is an open file with a type.\<close>

lemma argfd_open:
  assumes "argfd n s = Inr (Some (fd, f))" and "fds_ok s"
  shows "1 \<le> f_ref (ftable s f)" "f < NFILE" "typed s f" "f_type (ftable s f) \<noteq> FD_NONE"
proof -
  obtain i where "0 < nrefs s f" by (rule argfd_fds [OF assms])
  then show "1 \<le> f_ref (ftable s f)" "f < NFILE" and t: "typed s f" using fds_ref_pos [OF assms(2)] fdsD(5,6) [OF assms(2)] by simp_all
  show "f_type (ftable s f) \<noteq> FD_NONE" using t by (simp add: typed_def)
qed

section \<open>System calls on descriptors\<close>

lemma sys_dup_fds:
  fixes s :: "'a trap_state_scheme"
  assumes "fds_ok s"
  shows "fsafe (\<lambda>(r, s'). fds_ok s') (sys_dup s)"
  unfolding sys_dup_def
proof (intro fsafe_with_arg fsafe_prod)
  fix x fd f assume x: "argfd 0 s = Inr (Some x)" "x = (fd, f)"
  note o = argfd_open [OF x(1) [unfolded x(2)] assms]
  have d: "fsafe (\<lambda>(r, s'). fds_ok s') (seq (filedup f t) (\<lambda>(_, s). Inr (int k, s)))" if "fds (\<lambda>g. if g = f then -1 else 0) {} t" "ftable t = ftable s" for t :: "'a trap_state_scheme" and k
    by (rule fsafe_seq [OF filedup_fds [OF that(1), of f "\<lambda>_. 0"]]) (use o(1) that(2) in auto)
  show "fsafe (\<lambda>(r, s'). fds_ok s')
      (seq (fdalloc f s) (\<lambda>(r, s). case r of None \<Rightarrow> Inr (-1, s) | Some fd \<Rightarrow> seq (filedup f s) (\<lambda>(_, s). Inr (int fd, s))))"
    by (rule fsafe_seq [OF fdalloc_fds [OF assms o(2), of "{}" "\<lambda>g. if g = f then -1 else 0"]]) (use o(3) d assms in \<open>auto split: option.splits\<close>)
qed (use assms in auto)

lemma sys_close_fds:
  fixes s :: "'a trap_state_scheme"
  assumes "fds_ok s"
  shows "fsafe (\<lambda>(r, s'). fds_ok s') (sys_close s)"
  unfolding sys_close_def
proof (intro fsafe_with_arg fsafe_prod)
  fix x fd f assume x: "argfd 0 s = Inr (Some x)" "x = (fd, f)"
  obtain i where i: "curproc s = Some i" "fd < NOFILE" "ofile (pr s i) ! fd = Some f" by (rule argfd_fds [OF x(1) [unfolded x(2)] assms])
  have d: "fsafe (\<lambda>(r, s'). fds_ok s') (seq (fileclose f t) (\<lambda>s. Inr (0, s)))"
    if "fds (\<lambda>g. if g = f then 1 else 0) {} t" "ftable t = ftable s" for t :: "'a trap_state_scheme"
    by (rule fsafe_seq [OF fileclose_fds [OF that(1), of f "\<lambda>_. 0"]]) (use argfd_open(1) [OF x(1) [unfolded x(2)] assms] that(2) in auto)
  show "fsafe (\<lambda>(r, s'). fds_ok s') (seq (set_ofile fd None s) (\<lambda>s. seq (fileclose f s) (\<lambda>s. Inr (0, s))))"
    by (rule fsafe_seq [OF set_ofile_fds [OF assms i, of "\<lambda>g. if g = f then 1 else 0"]]) (use d in auto)
qed (use assms in auto)

lemma sys_read_fds:
  fixes s :: "'a trap_state_scheme"
  assumes "fds_ok s"
  shows "fsafe (\<lambda>(r, s'). fds_ok s') (sys_read s)" "fsafe (\<lambda>(r, s'). fds_ok s') (sys_write s)"
  unfolding sys_read_def sys_write_def
  by (intro fds.vc keep; use assms argfd_open(4) in auto)+

section \<open>Opening files and pipes\<close>

text \<open>The references that are held by up to two results of \<open>filealloc\<close>.\<close>

definition slack :: "nat option \<Rightarrow> nat option \<Rightarrow> nat \<Rightarrow> int" where
  "slack a b g = (if a = Some g then 1 else 0) + (if b = Some g then 1 else 0)"

lemma slack_simps [simp]: "slack None None = (\<lambda>_. 0)" "0 \<le> slack a b g"
  by (simp_all add: slack_def fun_eq_iff)

lemma slack_sym: "slack a b = slack b a"
  by (simp add: slack_def fun_eq_iff)

lemma slack_upd:
  "slack None b = (slack (Some f) b)(f := slack (Some f) b f - 1)" "slack None (Some f) = (slack None None)(f := slack None None f + 1)"
  "slack None None = (slack None (Some f))(f := slack None (Some f) f - 1)" "slack (Some f) None = (slack None None)(f := slack None None f + 1)"
  "slack a (Some f) = (slack a None)(f := slack a None f + 1)" "slack (Some f) b = (slack None b)(f := slack None b f + 1)"
  by (auto simp: slack_def fun_eq_iff)

lemma slack_pos: "fds (slack (Some f) b) X s \<Longrightarrow> 1 \<le> f_ref (ftable s f)" "fds (slack None (Some f)) X s \<Longrightarrow> 1 \<le> f_ref (ftable s f)"
  using fds_ref_pos [of "slack (Some f) b" X s f] fds_ref_pos [of "slack None (Some f)" X s f] nrefs_ge_0(1) [of s f] by (auto simp: slack_def)

lemma close_opt_fds:
  fixes s :: "'a trap_state_scheme"
  shows "fds (slack a b) X s \<Longrightarrow> fsafe (fds (slack None b) X) (close_opt a s)"
    "fds (slack None b) X s \<Longrightarrow> fsafe (fds (\<lambda>_. 0) X) (close_opt b s)"
proof -
  show "fds (slack a b) X s \<Longrightarrow> fsafe (fds (slack None b) X) (close_opt a s)"
    unfolding close_opt_def by (cases a) (auto intro: fileclose_fds [OF _ _ slack_upd(1)] slack_pos(1))
  have e: "(\<lambda>_. 0) = (slack None (Some f))(f := slack None (Some f) f - 1)" for f using slack_upd(3) [of f] by simp
  show "fds (slack None b) X s \<Longrightarrow> fsafe (fds (\<lambda>_. 0) X) (close_opt b s)"
    unfolding close_opt_def by (cases b) (auto intro: fileclose_fds [OF _ _ e] slack_pos(2))
qed

lemma fds_retype:
  assumes "fds d X s" and "f_ref (g (ftable s f)) = f_ref (ftable s f)" and "typed (upd_file f g s) f" and "X \<subseteq> {f}"
  shows "fds d {} (upd_file f g s)"
  by (rule fds_upd_file [OF assms(1)]) (use assms(2-4) in auto)

definition pipe_ends :: "(nat \<times> nat) option \<Rightarrow> 'a mmap_state_scheme \<Rightarrow> bool" where
  "pipe_ends r s \<longleftrightarrow> (case r of None \<Rightarrow> fds_ok s | Some (a, b) \<Rightarrow> a < NFILE \<and> b < NFILE \<and> typed s a \<and> typed s b \<and> fds (slack (Some a) (Some b)) {} s)"

lemma filealloc_slack:
  fixes t :: "'a trap_state_scheme"
  assumes "fds (slack x None) {} t"
  shows "fsafe (\<lambda>(r, s'). (\<forall>f. r = Some f \<longrightarrow> f < NFILE) \<and> fds (slack x r) {} s') (filealloc t)"
proof (rule fsafe_mono [OF filealloc_fds [OF assms]], simp, clarify)
  fix r and t' :: "'a trap_state_scheme"
  assume "case r of None \<Rightarrow> fds (slack x None) {} t' | Some f \<Rightarrow> f < NFILE \<and> fds ((slack x None)(f := slack x None f + 1)) {} t'"
  then show "(\<forall>f. r = Some f \<longrightarrow> f < NFILE) \<and> fds (slack x r) {} t'" by (cases r) (simp_all add: slack_upd(5))
qed

lemma pipe_ends_set:
  fixes v :: "'a trap_state_scheme"
  assumes "fds (slack (Some i) (Some j)) {} v" and "i < NFILE" and "j < NFILE"
  shows "pipe_ends (Some (i, j)) (upd_file j (\<lambda>x. x\<lparr>f_type := FD_PIPE, f_readable := False, f_writable := True, f_pipe := p\<rparr>)
    (upd_file i (\<lambda>x. x\<lparr>f_type := FD_PIPE, f_readable := True, f_writable := False, f_pipe := p\<rparr>) (v\<lparr>pipes := q\<rparr>)))" (is "pipe_ends _ ?w")
proof -
  have "fds (slack (Some i) (Some j)) {} (v\<lparr>pipes := q\<rparr>)" using assms(1) by (rule fds.J_upd)
  then have "fds (slack (Some i) (Some j)) {} ?w"
    by (rule fds_retype [OF fds_retype, where X1 = "{}"]) (simp_all add: typed_def upd_file_def)
  moreover have "typed ?w i" "typed ?w j" by (simp_all add: typed_def upd_file_def)
  ultimately show ?thesis using assms(2,3) by (simp add: pipe_ends_def)
qed

lemma pipealloc_fds:
  fixes s :: "'a trap_state_scheme"
  assumes "fds_ok s"
  shows "fsafe (\<lambda>(r, s'). pipe_ends r s') (pipealloc s)"
proof -
  let ?small = "\<lambda>x. \<forall>f. x = Some f \<longrightarrow> f < NFILE"
  have a: "fsafe (\<lambda>(r, s'). ?small r \<and> fds (slack r None) {} s') (filealloc s)"
  proof -
    have "fds (slack r None) {} t \<longleftrightarrow> fds (slack None r) {} t" for r and t :: "'a trap_state_scheme" using slack_sym [of r None] by simp
    then show ?thesis using filealloc_slack [of None s] assms by simp
  qed
  have b: "fsafe (\<lambda>(r, s'). ?small r \<and> fds (slack x r) {} s') (case x of None \<Rightarrow> Inr (None, t) | Some _ \<Rightarrow> filealloc t)"
    if "fds (slack x None) {} t" for t :: "'a trap_state_scheme" and x
    using filealloc_slack [OF that] that by (cases x) simp_all
  have c: "fsafe (\<lambda>(p, s'). fds (slack x y) {} s') (case y of None \<Rightarrow> Inr (0, t) | Some _ \<Rightarrow> kalloc t)"
    if "fds (slack x y) {} t" for t :: "'a trap_state_scheme" and x y
    using that by (intro fsafe_option keep; simp)
  have close: "fsafe (\<lambda>(r, s'). pipe_ends r s') (seq (close_opt x t) (\<lambda>s. seq (close_opt y s) (\<lambda>s. Inr (None, s))))"
    if "fds (slack x y) {} t" for t :: "'a trap_state_scheme" and x y
    by (rule fsafe_seq [OF close_opt_fds(1) [OF that]], rule fsafe_seq [OF close_opt_fds(2)]) (simp_all add: pipe_ends_def)
  show ?thesis
    unfolding pipealloc_def
    apply (rule fsafe_seq [OF a])
    apply (clarsimp split del: if_split)
    apply (rule fsafe_seq [OF b], assumption)
    apply (clarsimp split del: if_split)
    apply (rule fsafe_seq [OF c], assumption)
    apply (clarsimp split del: if_split)
    subgoal for x t y u p v
      by (cases x; cases y) (auto simp: Let_def intro: close pipe_ends_set)
    done
qed

lemma fdalloc_Some:
  fixes s :: "'a trap_state_scheme"
  assumes "fdalloc f s = Inr (Some fd, t)" and "fds d X s" and "f < NFILE" and "typed s f \<or> f \<in> Y" and "X \<subseteq> Y" and "e = d(f := d f - 1)"
  shows "fds e Y t" "ftable t = ftable s" "fd < NOFILE" "\<exists>i. curproc t = Some i \<and> ofile (pr t i) ! fd = Some f"
  using fdalloc_fds [OF assms(2-6)] unfolding assms(1) by simp_all

lemma fdalloc_None: "fdalloc f s = Inr (None, t) \<Longrightarrow> t = s"
  by (auto simp: fdalloc_def seq_eq_Inr_iff split: option.splits)

lemma fdalloc_safe: "fsafe (\<lambda>_. True) (fdalloc f s)"
  unfolding fdalloc_def by (intro fsafe_pure fsafe_option) simp_all

lemma fsafe_fdalloc:
  assumes "fdalloc f s = Inr (None, s) \<Longrightarrow> fsafe Q (k None s)" and "\<And>fd t. fdalloc f s = Inr (Some fd, t) \<Longrightarrow> fsafe Q (k (Some fd) t)"
  shows "fsafe Q (seq (fdalloc f s) (\<lambda>(r, s). k r s))"
proof (cases "fdalloc f s")
  case (Inl e) then show ?thesis using fdalloc_safe [of f s] by (simp add: fsafe_def)
next
  case (Inr p)
  obtain r t where p: "p = (r, t)" by (cases p)
  show ?thesis
  proof (cases r)
    case None
    then have "t = s" using Inr p fdalloc_None by simp
    then show ?thesis using assms(1) Inr p None by simp
  next
    case (Some fd) then show ?thesis using assms(2) Inr p by simp
  qed
qed

lemma close_both_fds:
  fixes t :: "'a trap_state_scheme"
  assumes "fds (slack (Some a) (Some b)) {} t"
  shows "fsafe (\<lambda>(r, s'). fds_ok s') (seq (fileclose a t) (\<lambda>s. seq (fileclose b s) (\<lambda>s. Inr (x, s))))"
  by (rule fsafe_seq [OF close_opt_fds(1) [OF assms, unfolded close_opt_def, simplified]],
      rule fsafe_seq [OF close_opt_fds(2) [of "Some b", unfolded close_opt_def, simplified]]) auto

lemma pipe_fds_stored:
  fixes t :: "'a trap_state_scheme"
  assumes "fds_ok t"
  shows "fsafe (\<lambda>(r, s'). fds_ok s') (seq (store_user p x t) (\<lambda>s. seq (store_user q y s) (\<lambda>s. Inr (r, s))))"
  using assms by (intro fds.vc keep; simp)

text \<open>The second descriptor of a pipe; without it the first one is given back.\<close>

lemma pipe_second_fds:
  fixes u :: "'a trap_state_scheme"
  assumes "fds (slack None (Some b)) {} u" and "typed u b" and "b < NFILE" and "curproc u = Some i" and "fd < NOFILE" and "ofile (pr u i) ! fd = Some a"
  shows "fsafe (\<lambda>(r, s'). fds_ok s')
    (seq (fdalloc b u) (\<lambda>(fd1, s).
     case fd1 of
       None \<Rightarrow> seq (set_ofile fd None s) (\<lambda>s. seq (fileclose a s) (\<lambda>s. seq (fileclose b s) (\<lambda>s. Inr (-1, s))))
     | Some fd1 \<Rightarrow> seq (store_user p (enc32 (of_nat fd)) s) (\<lambda>s. seq (store_user q (enc32 (of_nat fd1)) s) (\<lambda>s. Inr (0, s)))))"
proof (rule fsafe_fdalloc)
  have "fsafe (\<lambda>s'. fds (slack (Some a) (Some b)) {} s') (set_ofile fd None u)"
    by (rule fsafe_mono [OF set_ofile_fds [OF assms(1,4-6) slack_upd(6)]]) simp
  then have "fsafe (\<lambda>(r, s'). fds_ok s') (seq (set_ofile fd None u) (\<lambda>s. seq (fileclose a s) (\<lambda>s. seq (fileclose b s) (\<lambda>s. Inr (-1, s)))))"
    by (rule fsafe_seq) (rule close_both_fds)
  then show "fsafe (\<lambda>(r, s'). fds_ok s')
      (case None of
         None \<Rightarrow> seq (set_ofile fd None u) (\<lambda>s. seq (fileclose a s) (\<lambda>s. seq (fileclose b s) (\<lambda>s. Inr (-1, s))))
       | Some fd1 \<Rightarrow> seq (store_user p (enc32 (of_nat fd)) u) (\<lambda>s. seq (store_user q (enc32 (of_nat fd1)) s) (\<lambda>s. Inr (0, s))))" by simp
  fix fd1 t assume t: "fdalloc b u = Inr (Some fd1, t)"
  have "fds_ok t" by (rule fdalloc_Some(1) [OF t assms(1,3)]) (use assms(2) slack_upd(3) [of b] in simp_all)
  then show "fsafe (\<lambda>(r, s'). fds_ok s')
      (case Some fd1 of
         None \<Rightarrow> seq (set_ofile fd None t) (\<lambda>s. seq (fileclose a s) (\<lambda>s. seq (fileclose b s) (\<lambda>s. Inr (-1, s))))
       | Some fd1 \<Rightarrow> seq (store_user p (enc32 (of_nat fd)) t) (\<lambda>s. seq (store_user q (enc32 (of_nat fd1)) s) (\<lambda>s. Inr (0, s))))"
    unfolding option.case by (rule pipe_fds_stored)
qed

lemma sys_pipe_fds:
  fixes s :: "'a trap_state_scheme"
  assumes "fds_ok s"
  shows "fsafe (\<lambda>(r, s'). fds_ok s') (sys_pipe s)"
  unfolding sys_pipe_def
proof (intro fsafe_with_arg fsafe_seq [OF pipealloc_fds [OF assms]] fsafe_prod fsafe_option)
  fix x r y a b p and t :: "'a trap_state_scheme" assume "case x of (r, t) \<Rightarrow> pipe_ends r t" "x = (r, t)" "r = Some y" "y = (a, b)"
  then have t: "a < NFILE" "b < NFILE" "typed t a" "typed t b" "fds (slack (Some a) (Some b)) {} t" by (simp_all add: pipe_ends_def)
  show "fsafe (\<lambda>(r, s'). fds_ok s')
      (seq (fdalloc a t) (\<lambda>(fd0, s).
       seq (case fd0 of None \<Rightarrow> Inr (None, s) | Some _ \<Rightarrow> fdalloc b s) (\<lambda>(fd1, s).
       case (fd0, fd1) of
         (Some a, Some b) \<Rightarrow>
           seq (store_user p (enc32 (of_nat a)) s) (\<lambda>s.
           seq (store_user (p + 4) (enc32 (of_nat b)) s) (\<lambda>s. Inr (0, s)))
       | _ \<Rightarrow>
           seq (case fd0 of None \<Rightarrow> Inr s | Some a \<Rightarrow> set_ofile a None s) (\<lambda>s.
           seq (fileclose a s) (\<lambda>s.
           seq (fileclose b s) (\<lambda>s. Inr (-1, s)))))))"
  proof (rule fsafe_fdalloc, goal_cases)
    case 1 show ?case using close_both_fds [OF t(5)] by simp
  next
    case (2 fd u)
    have u: "fds (slack None (Some b)) {} u" "ftable u = ftable t" "fd < NOFILE" "\<exists>i. curproc u = Some i \<and> ofile (pr u i) ! fd = Some a"
      using fdalloc_Some [where Y = "{}", OF 2 t(5,1) _ _ slack_upd(1)] t(3) by blast+
    then obtain i where "curproc u = Some i" "ofile (pr u i) ! fd = Some a" "typed u b" using t(4) by (auto simp: typed_def)
    then show ?case unfolding option.case prod.case using u(1,3) t(2) by (intro pipe_second_fds)
  qed
qed (use assms in \<open>auto simp: pipe_ends_def\<close>)

lemma open_fail_fds:
  fixes s :: "'a trap_state_scheme"
  assumes "fds (slack None f) {} s"
  shows "fsafe (\<lambda>(r, s'). fds_ok s') (open_fail f ip s)"
  unfolding open_fail_def by (rule fsafe_seq [OF close_opt_fds(2) [OF assms]]) (intro fds.vc keep; simp)

lemma fsafe_ret: "P s \<Longrightarrow> fsafe (\<lambda>(r, s). P s) (Inr (r, s))"
  by simp

lemma fds_opened:
  fixes s :: "'a trap_state_scheme"
  assumes "fds (\<lambda>_. 0) {f} s"
  shows "fds_ok (upd_file f (\<lambda>x. x\<lparr>f_type := FD_INODE, f_ip := Some ip, f_off := 0, f_readable := rd, f_writable := wr\<rparr>) s)"
  by (rule fds_retype [OF assms]) (simp_all add: typed_def upd_file_def)

text \<open>The second half of \<open>sys_open\<close>, with the inode locked.\<close>

lemma open_new_fds:
  fixes t :: "'a trap_state_scheme"
  assumes "fds_ok t"
  shows "fsafe (\<lambda>(r, s'). fds_ok s')
    (seq (filealloc t) (\<lambda>(r, s).
     case r of
       None \<Rightarrow> open_fail None ip s
     | Some f \<Rightarrow>
         seq (fdalloc f s) (\<lambda>(r, s).
         case r of
           None \<Rightarrow> open_fail (Some f) ip s
         | Some fd \<Rightarrow>
             seq (iunlock (Some ip) s) (\<lambda>s.
             seq (end_op s) (\<lambda>s.
             Inr (int fd,
                  upd_file f (\<lambda>x. x\<lparr>f_type := FD_INODE, f_ip := Some ip, f_off := 0, f_readable := (om AND O_WRONLY = 0),
                    f_writable := (om AND O_WRONLY \<noteq> 0 \<or> om AND O_RDWR \<noteq> 0)\<rparr>) s))))))"
proof (rule fsafe_seq [OF filealloc_slack [of None]], goal_cases)
  case 1 show ?case using assms by simp
next
  case (2 x)
  then show ?case
  proof (intro fsafe_prod fsafe_option; clarify)
    fix f and u :: "'a trap_state_scheme" assume f: "\<forall>g. Some f = Some g \<longrightarrow> g < NFILE" "fds (slack None (Some f)) {} u"
    show "fsafe (\<lambda>(r, s'). fds_ok s')
        (seq (fdalloc f u) (\<lambda>(r, s).
         case r of
           None \<Rightarrow> open_fail (Some f) ip s
         | Some fd \<Rightarrow>
             seq (iunlock (Some ip) s) (\<lambda>s.
             seq (end_op s) (\<lambda>s.
             Inr (int fd,
                  upd_file f (\<lambda>x. x\<lparr>f_type := FD_INODE, f_ip := Some ip, f_off := 0, f_readable := (om AND O_WRONLY = 0),
                    f_writable := (om AND O_WRONLY \<noteq> 0 \<or> om AND O_RDWR \<noteq> 0)\<rparr>) s)))))"
    proof (rule fsafe_fdalloc, goal_cases)
      case 1 show ?case using open_fail_fds [OF f(2)] by simp
    next
      case (2 fd v)
      have "fds (\<lambda>_. 0) {f} v" by (rule fdalloc_Some(1) [OF 2 f(2)]) (use f(1) slack_upd(3) [of f] in auto)
      then show ?case unfolding option.case by (intro fds.J_seq keep fsafe_ret fds_opened)
    qed
  qed (simp add: open_fail_fds)
qed

lemma sys_open_fds:
  fixes s :: "'a trap_state_scheme"
  assumes "fds_ok s"
  shows "fsafe (\<lambda>(r, s'). fds_ok s') (sys_open s)"
  unfolding sys_open_def by (intro fsafe_with_arg open_new_fds fds.J_seq keep fsafe_option fsafe_ret; use assms in auto)

section \<open>Mapped areas\<close>

lemma fds_record:
  assumes "fds d X s" and "\<And>f. ma_f a = Some f \<Longrightarrow> mapped s f \<or> typed s f \<and> f < NFILE" and "\<And>g. e g + (if ma_f a = Some g \<and> \<not> mapped s g then 1 else 0) \<le> d g"
  shows "fds e X (mmap_record k a st s)"
proof -
  let ?t = "mmap_record k a st s"
  have v: "ftable ?t = ftable s" "curproc ?t = curproc s" "map ofile (ptable ?t) = map ofile (ptable s)" "typed ?t = typed s"
    by (simp_all add: mmap_record_def typed_def fun_eq_iff)
  have m: "mapped s g \<or> ma_f a = Some g" if "mapped ?t g" for g
    using that by (auto simp: mapped_def mmap_record_def list_ex_iff split: if_splits)
  have r: "nrefs ?t g \<le> nrefs s g + (if ma_f a = Some g \<and> \<not> mapped s g then 1 else 0)" for g
    using m [of g] by (auto simp: nrefs_def nfds_def v)
  have "nrefs ?t g + e g \<le> f_ref (ftable s g) \<and> (0 < nrefs ?t g \<longrightarrow> g < NFILE \<and> (0 < f_ref (ftable s g) \<longrightarrow> g \<in> X \<or> typed s g))" for g
  proof -
    have "nrefs ?t g + e g \<le> f_ref (ftable s g)" using r [of g] assms(3) [of g] fdsD(4) [OF assms(1), of g] by linarith
    moreover have "0 < nrefs s g \<or> typed s g \<and> g < NFILE" if "0 < nrefs ?t g"
      using that r [of g] assms(2) [of g] nrefs_ge_0(1) [of s g] by (cases "ma_f a = Some g \<and> \<not> mapped s g") auto
    ultimately show ?thesis using assms(1) unfolding fds_def by blast
  qed
  then show ?thesis using assms(1) unfolding fds_def v by blast
qed

lemma area_typed: "area_fds pf s \<Longrightarrow> pf = Some f \<Longrightarrow> f_type (ftable s f) \<noteq> FD_NONE"
  using fdsD(6) [of "\<lambda>_. 0" "{}" s f] nrefs_ge_0(2) [of s f] by (simp add: area_fds_def typed_def)

lemma area_fds_None [simp]: "area_fds None s = fds_ok s"
  by (simp add: area_fds_def)

lemma area_fdsD: "area_fds pf s \<Longrightarrow> fds_ok s"
  by (simp add: area_fds_def)

text \<open>A new reference to a file that something refers to.\<close>

lemma filedup_open:
  fixes s :: "'a trap_state_scheme"
  assumes "fds_ok s" and "0 < nrefs s f"
  shows "fsafe (\<lambda>(r, t). r = f \<and> fds (\<lambda>g. if g = f then 1 else 0) {} t \<and> typed t f) (filedup f s)"
proof -
  have r: "1 \<le> f_ref (ftable s f)" using fds_ref_pos [OF assms(1), of f] assms(2) by simp
  have "fsafe (\<lambda>(r, t). typed t f) (filedup f s)"
    using fdsD(6) [OF assms] r by (simp add: filedup_def lock_def unlock_def file_panics_def upd_file_def typed_def)
  moreover have "fsafe (\<lambda>(r, t). r = f \<and> fds (\<lambda>g. if g = f then 1 else 0) {} t) (filedup f s)"
    by (rule filedup_fds [OF assms(1) r]) auto
  ultimately show ?thesis by (auto simp: fsafe_def split: sum.splits)
qed

lemma mmap_dup_fds:
  fixes s :: "'a trap_state_scheme"
  assumes "fds_ok s" and "\<And>f. pf = Some f \<Longrightarrow> 0 < nrefs s f"
  shows "fsafe (\<lambda>t. fds (\<lambda>g. if pf = Some g then 1 else 0) {} t \<and> (\<forall>f. pf = Some f \<longrightarrow> typed t f \<and> f < NFILE))
    (case pf of None \<Rightarrow> Inr s | Some f \<Rightarrow> seq (filedup f s) (\<lambda>(_, s). Inr s))"
proof (cases pf)
  case (Some f)
  have n: "0 < nrefs s f" using assms(2) Some by simp
  show ?thesis unfolding Some option.case
    by (rule fsafe_seq [OF filedup_open [OF assms(1) n]]) (use fdsD(5) [OF assms(1) n] in \<open>auto simp: eq_commute\<close>)
qed (use assms(1) in simp)

lemma mmap_area_fds:
  fixes s :: "'a trap_state_scheme"
  assumes "fds_ok s" and "\<And>f. pf = Some f \<Longrightarrow> 0 < nrefs s f" and "k < NMMAP" and "ma_f a = pf"
  shows "fsafe (\<lambda>(r, s'). area_fds pf s')
    (seq (case pf of None \<Rightarrow> Inr s | Some f \<Rightarrow> seq (filedup f s) (\<lambda>(_, s). Inr s)) (\<lambda>s.
     let s = mmap_record k a (-1) s
     in if flags = 0 \<or> flags = 1 then Inr (addr, s)
        else
          seq (if flags = 2 then
                 (case pf of
                    None \<Rightarrow> Inl (Fault ''mmap'')
                  | Some f \<Rightarrow> populate (pgdir (pr s cp)) addr perm pf offs (upd_file f (\<lambda>x. x\<lparr>f_off := off\<rparr>) s))
               else populate (pgdir (pr s cp)) addr perm None offs s) (\<lambda>(ok, s).
          if ok then Inr (addr, set_status k 1 s) else Inr (0, s))))"
proof (rule fsafe_seq [OF mmap_dup_fds [OF assms(1,2)]], goal_cases)
  case (2 t)
  have "fds_ok (mmap_record k a (-1) t)" using 2 assms(4) by (intro fds_record) auto
  moreover have "mapped (mmap_record k a (-1) t) f" if "pf = Some f" for f
    using that assms(3,4) by (auto simp: mapped_def mmap_record_def list_ex_iff)
  ultimately have "area_fds pf (mmap_record k a (-1) t)" by (simp add: area_fds_def)
  then show ?case by (intro area.vc keep; auto dest: area_typed)
qed simp

lemma mmap_fds:
  fixes s :: "'a trap_state_scheme"
  assumes "fds_ok s"
  shows "fsafe (\<lambda>(r, s'). fds_ok s') (mmap addr len prot flags fd offset s)"
  unfolding mmap_def
proof (intro fsafe_if fsafe_pure fds.fsafe_Let, goal_cases)
  case 1 then show ?case using assms by simp
next
  case (2 cp base)
  have cp: "cp < NPROC" using fdsD(3) [OF assms] 2(2) by simp
  have look: "fsafe (\<lambda>pf. \<forall>f. pf = Some f \<longrightarrow> 0 < nrefs s f) (mmap_file fd (pr s cp))"
  proof -
    have "0 < nrefs s f" if "nat fd < NOFILE" "ofile (pr s cp) ! nat fd = Some f" for f
      using that fdsD(1,2) [OF assms] cp nfds_pos [of cp s f] nrefs_ge_0(3) [of s f] by (metis nth_mem)
    then show ?thesis using 2(1) by (auto simp: mmap_file_def mmap_args_ok_def)
  qed
  have test: "fsafe (\<lambda>_. True) (mmap_file_ok prot flags pf s)" for pf by (simp add: mmap_file_ok_def split: option.split)
  show ?case
  proof (rule fsafe_seq [OF look], rule fsafe_seq [OF test], intro fsafe_if fsafe_option, goal_cases)
    case (3 pf ok k)
    then have k: "k < NMMAP" by (auto simp: find_Some_iff)
    show ?case unfolding Let_def [of "\<lparr>ma_f = pf, ma_addr = base, ma_length = len, ma_offset = offset, ma_prot = prot, ma_flags = flags, ma_p = Some cp\<rparr>"]
      by (rule fsafe_mono [OF mmap_area_fds [OF assms]]) (use 3 k in \<open>auto dest: area_fdsD\<close>)
  qed (use assms in simp_all)
qed

lemma type_upd_off [simp]: "f_type (ftable (upd_file f (f_off_update g) s) h) = f_type (ftable s h)"
  by (simp add: upd_file_def)

lemma page_fault_fds:
  fixes s :: "'a trap_state_scheme"
  assumes "fds_ok s"
  shows "fsafe (\<lambda>(r, s'). fds_ok s') (page_fault_handler va er s)"
  unfolding page_fault_handler_def
proof (intro fsafe_pure fsafe_option, goal_cases)
  case (1 cp) show ?case using assms by (intro fds.vc keep; simp)
next
  case (2 cp k)
  then have "k < NMMAP" by (auto simp: find_Some_iff)
  then have m: "mapped s f" if "ma_f (mmap_areas s k) = Some f" for f using that by (auto simp: mapped_def list_ex_iff)
  then have a: "area_fds (ma_f (mmap_areas s k)) s" using assms by (simp add: area_fds_def)
  show ?case
    by (rule fsafe_mono [where P = "\<lambda>(r, s'). area_fds (ma_f (mmap_areas s k)) s'"], intro area.vc keep)
      (use a in \<open>auto dest: area_fdsD area_typed\<close>)
qed

section \<open>fork and exit\<close>

lemma has_fdI: "fds d {} s \<Longrightarrow> i < NPROC \<Longrightarrow> ofile (pr s i) ! fd = Some f \<Longrightarrow> has_fd i fd f d s"
  using fdsD(1) [of d "{}" s] by (simp add: has_fd_def)

lemma has_fd_refs:
  assumes "has_fd i fd f d s" and "fd < NOFILE"
  shows "0 < nrefs s f" "ofile (pr s i) ! fd = Some f"
proof -
  have s: "fds d {} s" "i < NPROC" using assms(1) by (simp_all add: has_fd_def)
  show o: "ofile (pr s i) ! fd = Some f" using assms(1) fdsD(1) [OF s(1)] s(2) by (auto simp: has_fd_def)
  then show "0 < nrefs s f" using fdsD(1,2) [OF s(1)] s(2) assms(2) nfds_pos [of i s f] nrefs_ge_0(3) [of s f] by (metis nth_mem)
qed

lemma fork_files_fds:
  fixes s :: "'a trap_state_scheme"
  assumes "fds_ok s" and "cp < NPROC" and "np < NPROC" and "set ks \<subseteq> {..<NOFILE}"
  shows "fsafe fds_ok (fork_files cp np ks s)"
  using assms(1,4)
proof (induction ks arbitrary: s)
  case (Cons k ks)
  have k: "k < NOFILE" using Cons.prems(2) by simp
  show ?case
  proof (cases "ofile (pr s cp) ! k")
    case None then show ?thesis using Cons by simp
  next
    case (Some f)
    note h = has_fd_refs [OF has_fdI [OF Cons.prems(1) assms(2) Some] k]
    have d: "fsafe (\<lambda>(r, t). fds_ok (put_fd np k (Some r) t)) (filedup f s)"
    proof (rule fsafe_mono [OF filedup_open [OF Cons.prems(1) h(1)]], clarsimp)
      fix t :: "'a trap_state_scheme" assume "fds (\<lambda>g. if g = f then 1 else 0) {} t" "typed t f"
      then show "fds_ok (put_fd np k (Some f) t)"
        using fdsD(5) [OF Cons.prems(1) h(1)] assms(3) k by (intro fds_weaken [OF fds_put_fd]) auto
    qed
    show ?thesis unfolding fork_files.simps Some option.case put_fd_def [symmetric]
      by (rule fsafe_seq [OF d]) (use Cons in auto)
  qed
qed simp

lemma fork_areas_fds:
  fixes s :: "'a trap_state_scheme"
  assumes "fds_ok s" and "set is' \<subseteq> {..<NMMAP}"
  shows "fsafe (\<lambda>(r, s'). fds_ok s') (fork_areas cp np is' s)"
  using assms
proof (induction is' arbitrary: s)
  case (Cons i is')
  have rec: "fds_ok (mmap_record k ((mmap_areas s i)\<lparr>ma_p := p\<rparr>) st s)" for k p st
    using Cons.prems by (intro fds_record) (auto simp: mapped_def list_ex_iff)
  show ?case unfolding fork_areas.simps Let_def [of "mmap_areas s i"] Let_def [of "mmap_status_flag s i"]
    by (intro fds.vc keep Cons.IH) (use Cons.prems in \<open>auto simp: rec\<close>)
qed simp

lemma allocproc_index: "allocproc s = Inr (Some i, s') \<Longrightarrow> i < length (ptable s)"
  by (auto simp: allocproc_def alloc_kstack_def seq_eq_Inr_iff lock_Inr_iff Let_def split: option.splits if_splits dest!: scan_SomeD(1))

lemma fork_fds:
  fixes s :: "'a trap_state_scheme"
  assumes "fds_ok s"
  shows "fsafe (\<lambda>(r, s'). fds_ok s') (fork s)"
  unfolding fork_def
proof (rule fsafe_pure(1), rule fds.J_seq_eq(2) [OF fds.allocproc_keep [OF assms]], rule fsafe_option, goal_cases)
  case 1 then show ?case by simp
next
  case (2 cp r t np)
  have np: "np < NPROC" "cp < NPROC" using allocproc_index [of s np t] 2 fdsD(1,3) [OF assms] by simp_all
  note vc = fds.J_seq [where d = "\<lambda>_. 0" and X = "{}"] fds.J_Let [where d = "\<lambda>_. 0" and X = "{}"] fsafe_if fsafe_option fds.fsafe_Let fsafe_prod
  show ?case using 2(3)
    by (intro vc keep fork_files_fds fork_areas_fds; auto simp: np file_panics_def)
qed

lemma exit_files_fds:
  fixes s :: "'a trap_state_scheme"
  assumes "fds_ok s" and "cp < NPROC" and "set ks \<subseteq> {..<NOFILE}"
  shows "fsafe fds_ok (exit_files cp ks s)"
  using assms(1,3)
proof (induction ks arbitrary: s)
  case (Cons k ks)
  have k: "k < NOFILE" using Cons.prems(2) by simp
  show ?case
  proof (cases "ofile (pr s cp) ! k")
    case None then show ?thesis using Cons by simp
  next
    case (Some f)
    define d where "d = (\<lambda>g. if g = f then -1 else 0 :: int)"
    note h = has_fd_refs(1) [OF has_fdI [OF Cons.prems(1) assms(2) Some] k]
    have r: "1 \<le> f_ref (ftable s f)" using fds_ref_pos [OF Cons.prems(1), of f] h by simp
    have e: "d = (\<lambda>_. 0)(f := 0 - 1)" by (auto simp: d_def)
    have has: "has_fd cp k f d (upd_file f g s)" if "fds d {} (upd_file f g s)" for g
      using has_fdI [OF that assms(2)] Some by (simp add: upd_file_def)
    have c: "fsafe (has_fd cp k f d) (fileclose f s)"
      by (rule has_fd.fileclose_J [OF r]) (intro has fds_close [OF Cons.prems(1) e]; simp)+
    have put: "fds_ok (put_fd cp k None t)" if "has_fd cp k f d t" for t
    proof (rule fds_put_fd [OF _ assms(2) k, where f = f])
      show "fds d {} t" using that by (simp add: has_fd_def)
    qed (use has_fd_refs(2) [OF that k] in \<open>auto simp: d_def\<close>)
    show ?thesis unfolding exit_files.simps Some option.case put_fd_def [symmetric]
      by (rule fsafe_seq [OF c]) (use Cons put in auto)
  qed
qed simp

lemma kexit_fds:
  fixes s :: "'a trap_state_scheme"
  assumes "fds_ok s"
  shows "fsafe Q (kexit s)"
  unfolding kexit_def
proof (rule fsafe_pure(1), rule fsafe_if, goal_cases)
  case (2 cp)
  note vc = fds.J_seq(1) [where d = "\<lambda>_. 0" and X = "{}"]
  show ?case using fdsD(3) [OF assms 2(1)] assms by (intro vc keep exit_files_fds; auto)
qed (simp add: file_panics_def)

lemma sys_life_fds:
  fixes s :: "'a trap_state_scheme"
  assumes "fds_ok s"
  shows "fsafe (\<lambda>(r, s'). fds_ok s') (sys_fork s)" "fsafe (\<lambda>(r, s'). fds_ok s') (sys_exit s)"
    "fsafe (\<lambda>(r, s'). fds_ok s') (sys_mmap s)"
  using assms fork_fds [OF assms] kexit_fds [OF assms]
  by (auto simp: sys_fork_def sys_exit_def sys_mmap_def file_panics_def intro!: fds.vc mmap_fds)

lemma syscalls_fds:
  fixes s :: "'a trap_state_scheme"
  assumes "fds_ok s" and "syscalls n = Some f"
  shows "fsafe (\<lambda>(r, s'). fds_ok s') (f s)"
proof -
  note ops = sys_life_fds sys_dup_fds sys_close_fds sys_read_fds sys_pipe_fds sys_open_fds keep
  have "(n, f) \<in> set [(1, sys_fork), (2, sys_exit), (3, sys_wait), (4, sys_pipe), (5, sys_read), (6, sys_kill), (7, sys_exec), (8, sys_fstat),
      (9, sys_chdir), (10, sys_dup), (11, sys_getpid), (12, sys_sbrk), (13, sys_sleep), (14, sys_uptime), (15, sys_open),
      (16, sys_write), (17, sys_mknod), (18, sys_unlink), (19, sys_link), (20, sys_mkdir), (21, sys_close), (22, sys_getnice),
      (23, sys_setnice), (24, sys_ps), (25, sys_mmap), (26, sys_munmap), (27, sys_freemem)]"
    using assms(2) unfolding syscalls_def by (rule map_of_SomeD)
  then show ?thesis unfolding list.set insert_iff empty_iff prod.inject
    by (elim disjE conjE FalseE; hypsubst) (rule ops, rule assms(1))+
qed

lemma syscall_fds:
  fixes s :: "'a trap_state_scheme"
  assumes "fds_ok s"
  shows "fsafe fds_ok (syscall s)"
proof -
  have get: "fsafe Q (seq (tf_get off s) f)" if "\<And>x. fsafe Q (f x)" for Q f off
    by (rule fsafe_seq [OF fsafe_args(1)]) (rule that)
  show ?thesis unfolding syscall_def
    by (intro get fds.vc keep) (use assms in \<open>auto intro: syscalls_fds\<close>)
qed

lemma trap_switch_fds:
  fixes s :: "'a trap_state_scheme"
  assumes "fds_ok s"
  shows "fsafe fds_ok (trap_switch cpu cr2 keys chars t s)"
  unfolding trap_switch_def
  by (intro fds.vc keep kexit_fds) (use assms in \<open>auto intro: page_fault_fds\<close>)

lemma exit_if_killed_fds:
  fixes s :: "'a trap_state_scheme"
  shows "fds_ok s \<Longrightarrow> fsafe fds_ok (exit_if_killed t s)"
  unfolding exit_if_killed_def by (intro fds.vc kexit_fds) auto

lemma trap_fds:
  fixes s :: "'a trap_state_scheme"
  assumes "fds_ok s"
  shows "fsafe fds_ok (trap cpu cr2 keys chars t s)"
  unfolding trap_def
  by (intro fds.vc keep kexit_fds) (use assms in \<open>auto intro: syscall_fds trap_switch_fds exit_if_killed_fds\<close>)

section \<open>Descriptors of running processes\<close>


text \<open>A process with file 3 at descriptors 0 and 1 and in a mapped area, in \<open>getpid\<close>.\<close>

definition fd_world :: trap_state where
  "fd_world = (fs_world (\<lambda>_. empty_inode 5 2) zeros
     (file_state_ext (\<lambda>f. \<lparr>f_type = if f = 3 then FD_INODE else FD_NONE, f_ref = if f = 3 then 3 else 0,
          f_readable = True, f_writable = True, f_pipe = 0, f_ip = if f = 3 then Some 7 else None, f_off = 0\<rparr>)
       (mmap_state_ext (\<lambda>k. \<lparr>ma_f = if k = 2 then Some 3 else None, ma_addr = 0, ma_length = 4096, ma_offset = 0, ma_prot = 1, ma_flags = 0, ma_p = Some 0\<rparr>)
          (\<lambda>k. if k = 2 then 1 else 0) (life_state_ext False (trap_state_ext 0 ())))))
     \<lparr>ptable := (some_proc 1 RUNNING 40)\<lparr>ofile := [Some 3, Some 3] @ replicate 14 None\<rparr> # replicate 63 no_proc, curproc := Some 0,
      mem := st32 0x8030 64 (st32 0x801C 11 (\<lambda>_. 0))\<rparr>"

lemma fd_world_fields:
  "ftable fd_world f = \<lparr>f_type = if f = 3 then FD_INODE else FD_NONE, f_ref = if f = 3 then 3 else 0,
          f_readable = True, f_writable = True, f_pipe = 0, f_ip = if f = 3 then Some 7 else None, f_off = 0\<rparr>"
  "ma_f (mmap_areas fd_world k) = (if k = 2 then Some 3 else None)"
  "ptable fd_world = (some_proc 1 RUNNING 40)\<lparr>ofile := [Some 3, Some 3] @ replicate 14 None\<rparr> # replicate 63 no_proc"
  "curproc fd_world = Some 0" "mem fd_world = st32 0x8030 64 (st32 0x801C 11 (\<lambda>_. 0))"
proof -
  have more: "ftable s = ft \<and> mmap_areas s = ma" if "fs_state.more s = file_state_ext ft (mmap_state_ext ma fl x)" for s :: "'a mmap_state_scheme" and ft ma fl x
    using that by (cases s) simp
  show "ftable fd_world f = \<lparr>f_type = if f = 3 then FD_INODE else FD_NONE, f_ref = if f = 3 then 3 else 0,
          f_readable = True, f_writable = True, f_pipe = 0, f_ip = if f = 3 then Some 7 else None, f_off = 0\<rparr>"
    "ma_f (mmap_areas fd_world k) = (if k = 2 then Some 3 else None)"
    unfolding fd_world_def by (simp_all add: more [OF fs_world_fields(3)])
qed (simp_all add: fd_world_def)

lemma fd_world_ok: "fds_ok fd_world"
proof -
  have c: "count_list (replicate n None) (Some f) = 0" for n and f :: nat by (simp add: count_list_0_iff)
  have m: "mapped fd_world f \<longleftrightarrow> f = 3" for f
    by (auto simp: mapped_def list_ex_iff fd_world_fields intro!: bexI [of _ 2])
  have n: "nrefs fd_world f = (if f = 3 then 3 else 0)" for f
    by (simp add: nrefs_def nfds_def m fd_world_fields some_proc_def no_proc_def sum_list_replicate c)
  show ?thesis by (auto simp: fds_def n typed_def fd_world_fields no_proc_def)
qed


end
