(* ===== verification/Filedata.thy ===== *)
theory Filedata
  imports Fs
begin

text \<open>
  What \<open>readi\<close> and \<open>writei\<close> of \<open>fs.c\<close> do to the contents of files. \<open>fdata\<close> is the contents of an inode
  as a list of bytes, \<open>put_at\<close> the update of such a list; the loops over the blocks of a transfer are
  proved against them, with the log and bitmap budget each block takes. The locale \<open>byte_array\<close> is
  the contract that the callers of \<open>readi\<close> and \<open>writei\<close> rely on, and is interpreted on the two
  functions.
\<close>

section \<open>A file is an array of bytes\<close>

definition fdata :: "'a fs_state_scheme \<Rightarrow> nat \<Rightarrow> uchar list" where
  "fdata s ip = map (fbyte (blk s) (ino s ip)) [0..<unat (i_size (ino s ip))]"

text \<open>A file without holes: every block below its size is there.\<close>

definition file_ok :: "'a fs_state_scheme \<Rightarrow> nat \<Rightarrow> bool" where
  "file_ok s ip \<longleftrightarrow> inode_ok s ip \<and> i_type (ino s ip) \<noteq> T_DEV \<and> unat (i_size (ino s ip)) \<le> MAXFILE * BSIZE \<and>
     (\<forall>j. j * BSIZE < unat (i_size (ino s ip)) \<longrightarrow> faddr (blk s) (ino s ip) j \<noteq> 0)"

lemma length_fdata [simp]: "length (fdata s ip) = unat (i_size (ino s ip))"
  by (simp add: fdata_def)

lemma unat_block: "unat (off div of_nat BSIZE :: uint) = unat off div BSIZE"
  by (simp add: unat_div)

lemma chunk_props:
  assumes "n \<noteq> 0"
  shows "chunk off n \<noteq> 0" "chunk off n \<le> n" "unat off mod BSIZE + chunk off n \<le> BSIZE"
    "t < chunk off n \<Longrightarrow> (unat off + t) div BSIZE = unat off div BSIZE" "t < chunk off n \<Longrightarrow> (unat off + t) mod BSIZE = unat off mod BSIZE + t"
proof -
  let ?o = "unat off"
  show "chunk off n \<noteq> 0" using assms by (rule chunk_pos)
  show "chunk off n \<le> n" by (simp add: chunk_def)
  have o: "?o mod 512 < 512" by simp
  then show c: "?o mod BSIZE + chunk off n \<le> BSIZE" unfolding chunk_def by linarith
  assume "t < chunk off n"
  with c have t: "?o mod 512 + t < 512" by simp
  have "?o + t = (?o mod 512 + t) + 512 * (?o div 512)" by simp
  then have "(?o + t) div 512 = (?o mod 512 + t) div 512 + ?o div 512" "(?o + t) mod 512 = (?o mod 512 + t) mod 512"
    by (metis div_mult_self2 zero_neq_numeral add.commute, metis mod_mult_self2)
  then show "(?o + t) div BSIZE = ?o div BSIZE" "(?o + t) mod BSIZE = ?o mod BSIZE + t" using t by simp_all
qed

lemma unat_off_add: "unat off + m \<le> MAXFILE * BSIZE \<Longrightarrow> unat (off + of_nat m :: uint) = unat off + m"
  by (simp add: unat_word_ariths(1) unat_of_nat_small)

lemma fs_ok_frame:
  assumes "fs_ok s" and "inode_ok s ip" and "tx_frame {} s s'" and "blk s' = blk s"
  shows "fs_ok s'" "inode_ok s' ip" "icache s' = icache s"
  using fgrownD(2,3) [OF fgrown_read(1) [OF assms(3,4,1,2)]] fgrown_read(2) [OF assms(3,4,1,2)] by blast+

lemma readi_loop_runs:
  assumes "in_fs i {} k s" and "fs_ok s" and "inode_ok s ip" and "unat off + n \<le> MAXFILE * BSIZE"
    and "\<forall>j. unat off div BSIZE \<le> j \<and> j * BSIZE < unat off + n \<longrightarrow> faddr (blk s) (ino s ip) j \<noteq> 0"
  shows "\<exists>s'. readi_loop ip off n s = Inr (map (fbyte (blk s) (ino s ip)) [unat off..<unat off + n], s') \<and> in_fs i {} k s' \<and> tx_frame {} s s' \<and> blk s' = blk s"
  using assms
proof (induction n arbitrary: off s rule: less_induct)
  case (less n)
  show ?case
  proof (cases "n = 0")
    case True
    then show ?thesis using less.prems(1) by (subst readi_loop.simps) simp
  next
    case False
    let ?m = "chunk off n" and ?o = "unat off"
    note c = chunk_props [OF False, where off = off]
    have j: "unat (off div of_nat BSIZE) < MAXFILE" using less.prems(4) False unfolding unat_block by (simp add: div_less_iff_less_mult)
    have "?o div BSIZE * BSIZE < ?o + n" using False div_times_less_eq_dividend [of ?o 512] by linarith
    then have a: "faddr (blk s) (ino s ip) (unat (off div of_nat BSIZE)) \<noteq> 0" using less.prems(5) unfolding unat_block by blast
    let ?a = "faddr (blk s) (ino s ip) (unat (off div of_nat BSIZE))"
    obtain s1 where s1: "bmap ip (off div of_nat BSIZE) s = Inr (?a, s1)" "in_fs i {} k s1" "tx_frame {} s s1" "blk s1 = blk s"
      using bmap_mapped [OF less.prems(1-3) j a] by blast
    note f1 = fs_ok_frame [OF less.prems(2,3) s1(3,4)]
    have "?a < disksize s1" using fown_on_disk [OF less.prems(2,3) faddr_own [OF j a]] tx_frame_fs(3) [OF s1(3)] by simp
    from fs_read [OF s1(2) this] obtain b s2 s3 where r: "bread 1 ?a s1 = Inr (b, s2)" "b_data (bufs s2 b) = blk s ?a" "brelse b s2 = Inr s3" "in_fs i {} k s3"
        "tx_frame {} s1 s3" "blk s3 = blk s" using s1(4) by auto
    have fr: "tx_frame {} s s3" using s1(3) r(5) by (rule tx_frame_trans)
    note f3 = fs_ok_frame [OF less.prems(2,3) fr r(6)]
    have u: "unat (off + of_nat ?m) = ?o + ?m" using less.prems(4) c(2) by (intro unat_off_add) simp
    have m: "\<forall>j. unat (off + of_nat ?m) div BSIZE \<le> j \<and> j * BSIZE < unat (off + of_nat ?m) + (n - ?m) \<longrightarrow> faddr (blk s3) (ino s3 ip) j \<noteq> 0"
      using less.prems(5) c(2) div_le_mono [of ?o "?o + ?m" 512] unfolding u r(6) f3(3) by fastforce
    have "n - ?m < n" "unat (off + of_nat ?m) + (n - ?m) \<le> MAXFILE * BSIZE" using c(1,2) False less.prems(4) u by simp_all
    from less.IH [OF this(1) r(4) f3(1,2) this(2) m] obtain s' where
      s': "readi_loop ip (off + of_nat ?m) (n - ?m) s3 = Inr (map (fbyte (blk s) (ino s ip)) [?o + ?m..<?o + n], s')"
        "in_fs i {} k s'" "tx_frame {} s3 s'" "blk s' = blk s" using c(2) unfolding u r(6) f3(3) by auto
    have "take ?m (drop (?o mod BSIZE) (blk s ?a)) = map (fbyte (blk s) (ino s ip)) [?o..<?o + ?m]"
      using c(3-5) a in_fs_blk_length [OF less.prems(1)] by (intro nth_equalityI) (auto simp: fbyte_def unat_div)
    moreover have "[?o..<?o + n] = [?o..<?o + ?m] @ [?o + ?m..<?o + n]" using upt_add_eq_append [of ?o "?o + ?m" "n - ?m"] c(2) by simp
    ultimately have "readi_loop ip off n s = Inr (map (fbyte (blk s) (ino s ip)) [?o..<?o + n], s')"
      using False s1(1) f1(3) less.prems(3) r(1-3) s'(1) by (subst readi_loop.simps) (simp add: Let_def inode_ok_def)
    then show ?thesis using s'(2,4) tx_frame_trans [OF fr s'(3)] by blast
  qed
qed

lemma sint_small:
  fixes w :: uint
  assumes "unat w < 2 ^ 31"
  shows "sint w = int (unat w)"
  using sint_of_nat_small [OF assms] by simp

text \<open>\<open>readi\<close> returns a part of the file, as much as there is, and changes nothing.\<close>

lemma readi_runs:
  assumes "in_fs i {} k s" and "fs_ok s" and "file_ok s ip" and "unat off \<le> unat (i_size (ino s ip))" and "unat off + unat n < 2 ^ 32"
  shows "\<exists>s'. readi ip off n s = Inr (int (min (unat n) (unat (i_size (ino s ip)) - unat off)), take (unat n) (drop (unat off) (fdata s ip)), s') \<and>
    in_fs i {} k s' \<and> tx_frame {} s s' \<and> blk s' = blk s"
proof -
  let ?S = "i_size (ino s ip)" and ?x = "ino s ip"
  have ok: "inode_ok s ip" "i_type ?x \<noteq> T_DEV" "unat ?S \<le> MAXFILE * BSIZE" "\<And>j. j * BSIZE < unat ?S \<Longrightarrow> faddr (blk s) ?x j \<noteq> 0"
    using assms(3) by (auto simp: file_ok_def)
  have un: "unat (off + n) = unat off + unat n" using assms(5) by (simp add: unat_word_ariths(1))
  define m where "m = (if off + n > ?S then ?S - off else n)"
  have m: "unat m = min (unat n) (unat ?S - unat off)"
    using assms(4) un by (auto simp: m_def word_less_nat_alt unat_diff_word)
  have le: "unat off + unat m \<le> unat ?S" using assms(4) by (simp add: m)
  have "\<forall>j. unat off div BSIZE \<le> j \<and> j * BSIZE < unat off + unat m \<longrightarrow> faddr (blk s) ?x j \<noteq> 0" using ok(4) le by (meson less_le_trans)
  from readi_loop_runs [OF assms(1,2) ok(1) _ this] le ok(3) obtain s' where
    s': "readi_loop ip off (unat m) s = Inr (map (fbyte (blk s) ?x) [unat off..<unat off + unat m], s')" "in_fs i {} k s'" "tx_frame {} s s'" "blk s' = blk s" by auto
  have "map (fbyte (blk s) ?x) [unat off..<unat off + unat m] = take (unat n) (drop (unat off) (fdata s ip))"
    using assms(4) by (intro nth_equalityI) (auto simp: fdata_def m)
  moreover have "sint m = int (unat m)" using le ok(3) by (intro sint_small) simp
  moreover have "\<not> off > ?S" "\<not> off + n < off" using assms(4) un by (auto simp: word_less_nat_alt)
  ultimately have "readi ip off n s = Inr (int (unat m), take (unat n) (drop (unat off) (fdata s ip)), s')"
    using ok(2) s'(1) by (simp add: readi_def m_def Let_def)
  then show ?thesis using s'(2-4) by (simp add: m)
qed

lemma readi_rejects:
  assumes "i_type (ino s ip) \<noteq> T_DEV" and "off > i_size (ino s ip) \<or> off + n < off"
  shows "readi ip off n s = Inr (-1, [], s)"
  using assms by (simp add: readi_def)

section \<open>Writing\<close>

definition nchunks :: "nat \<Rightarrow> nat \<Rightarrow> nat" where
  "nchunks off n = (if n = 0 then 0 else (off mod BSIZE + n + (BSIZE - 1)) div BSIZE)"

lemma nchunks_step:
  assumes "n \<noteq> 0"
  shows "nchunks (unat off) n = Suc (nchunks (unat off + chunk off n) (n - chunk off n))"
proof (cases "n \<le> BSIZE - unat off mod BSIZE")
  case True
  then have c: "chunk off n = n" by (simp add: chunk_def)
  have "unat off mod 512 < 512" by simp
  then have "512 \<le> unat off mod 512 + n + 511" "unat off mod 512 + n + 511 < 1024" using assms True by linarith+
  then have "(unat off mod 512 + n + 511) div 512 = 1" by (intro div_nat_eqI) simp_all
  then show ?thesis using assms by (simp add: nchunks_def c)
next
  case False
  then have c: "chunk off n = BSIZE - unat off mod BSIZE" by (simp add: chunk_def)
  have "unat off mod 512 < 512" by simp
  then have al: "(unat off + chunk off n) mod 512 = 0" unfolding c
    by (metis mod_add_left_eq le_add_diff_inverse less_imp_le mod_self)
  have e: "unat off mod 512 + n + 511 = (n - chunk off n) + 511 + 512 * 1" using False c \<open>unat off mod 512 < 512\<close> by simp
  have "(unat off mod 512 + n + 511) div 512 = Suc ((n - chunk off n + 511) div 512)" unfolding e by (subst div_mult_self2) simp_all
  moreover have "n - chunk off n \<noteq> 0" using False c by simp
  ultimately show ?thesis using assms al unfolding nchunks_def by simp
qed

lemma store_block:
  assumes "layout_ok U bk x" and "j < MAXFILE" and "faddr bk x j \<noteq> 0" and "bk' = bk(faddr bk x j := d)"
  shows "faddr bk' x n = faddr bk x n" "own bk' x = own bk x" "layout_ok U bk' x"
    "k < MAXFILE * BSIZE \<Longrightarrow> fbyte bk' x k = (if k div BSIZE = j then d ! (k mod BSIZE) else fbyte bk x k)"
proof -
  have "i_addrs x ! NDIRECT \<noteq> 0 \<Longrightarrow> bk' (i_addrs x ! NDIRECT) = bk (i_addrs x ! NDIRECT)"
    using layout_okD(4) [OF assms(1-3)] by (simp add: assms(4))
  then have f: "faddr bk' x = faddr bk x" by (simp add: faddr_def fun_eq_iff)
  then show "faddr bk' x n = faddr bk x n" by simp
  show o: "own bk' x = own bk x" by (simp add: own_def f)
  show "layout_ok U bk' x" using assms(1) unfolding layout_ok_def f o .
  assume "k < MAXFILE * BSIZE"
  then have "k div BSIZE < MAXFILE" by (simp add: div_less_iff_less_mult)
  then show "fbyte bk' x k = (if k div BSIZE = j then d ! (k mod BSIZE) else fbyte bk x k)"
    using layout_okD(3) [OF assms(1) _ assms(2)] assms(3) unfolding fbyte_def f by (auto simp: assms(4))
qed

lemma store_chunk:
  assumes "layout_ok U bk x" and "off div BSIZE < MAXFILE" and "faddr bk x (off div BSIZE) \<noteq> 0" and "length (bk (faddr bk x (off div BSIZE))) = BSIZE"
    and "off mod BSIZE + length src \<le> BSIZE" and "n < MAXFILE * BSIZE"
    and "bk' = bk(faddr bk x (off div BSIZE) := put_bytes (off mod BSIZE) src (bk (faddr bk x (off div BSIZE))))"
  shows "fbyte bk' x n = (if off \<le> n \<and> n < off + length src then src ! (n - off) else fbyte bk x n)"
proof -
  let ?j = "off div BSIZE" and ?o = "off mod BSIZE"
  let ?a = "faddr bk x ?j"
  note st = store_block(4) [OF assms(1-3,7,6)]
  have eo: "off = 512 * ?j + ?o" by simp
  show ?thesis
  proof (cases "n div BSIZE = ?j")
    case True
    have e: "n = 512 * ?j + n mod 512" using True by (metis mult_div_mod_eq)
    have r: "?o \<le> n mod 512 \<and> n mod 512 < ?o + length src \<longleftrightarrow> off \<le> n \<and> n < off + length src" "n mod 512 - ?o = n - off"
      using e eo by linarith+
    have "bk ?a ! (n mod 512) = fbyte bk x n" using assms(3) True by (simp add: fbyte_def)
    then show ?thesis using st True nth_put_bytes [of ?o src "bk ?a" "n mod 512"] assms(4,5) r by simp
  next
    case False
    have "\<not> (off \<le> n \<and> n < off + length src)"
    proof
      assume "off \<le> n \<and> n < off + length src"
      then have "n = 512 * ?j + (n - 512 * ?j)" "n - 512 * ?j < 512" using eo assms(5) by linarith+
      then have "n div 512 = ?j" by (metis div_mult_self4 div_less add.commute add_0 zero_neq_numeral)
      with False show False by simp
    qed
    with st False show ?thesis by auto
  qed
qed

text \<open>\<open>fwrote ip off src c s s'\<close>: the bytes \<open>src\<close> went into the file at \<open>off\<close>, with at most \<open>c\<close> new blocks.\<close>

definition fwrote :: "nat \<Rightarrow> nat \<Rightarrow> uchar list \<Rightarrow> nat \<Rightarrow> 'a fs_state_scheme \<Rightarrow> 'a fs_state_scheme \<Rightarrow> bool" where
  "fwrote ip off src c s s' \<longleftrightarrow> fs_frame {} s s' \<and> fs_ok s' \<and> inode_ok s' ip \<and> nfree s \<le> nfree s' + c \<and>
     icache s' = (icache s)(ip := (ino s ip)\<lparr>i_addrs := i_addrs (ino s' ip)\<rparr>) \<and>
     (\<forall>k < MAXFILE * BSIZE. fbyte (blk s') (ino s' ip) k = (if off \<le> k \<and> k < off + length src then src ! (k - off) else fbyte (blk s) (ino s ip) k)) \<and>
     (\<forall>j < MAXFILE. faddr (blk s) (ino s ip) j \<noteq> 0 \<longrightarrow> faddr (blk s') (ino s' ip) j \<noteq> 0) \<and>
     (\<forall>k. off \<le> k \<and> k < off + length src \<longrightarrow> faddr (blk s') (ino s' ip) (k div BSIZE) \<noteq> 0) \<and>
     kept (fown s ip) s s' \<and> fown s' ip \<subseteq> fown s ip \<union> {m. \<not> used s m}"

lemma fwroteD:
  assumes "fwrote ip off src c s s'"
  shows "fs_frame {} s s'" "fs_ok s'" "inode_ok s' ip" "nfree s \<le> nfree s' + c"
    "icache s' = (icache s)(ip := (ino s ip)\<lparr>i_addrs := i_addrs (ino s' ip)\<rparr>)"
    "\<And>k. k < MAXFILE * BSIZE \<Longrightarrow> fbyte (blk s') (ino s' ip) k = (if off \<le> k \<and> k < off + length src then src ! (k - off) else fbyte (blk s) (ino s ip) k)"
    "\<And>j. j < MAXFILE \<Longrightarrow> faddr (blk s) (ino s ip) j \<noteq> 0 \<Longrightarrow> faddr (blk s') (ino s' ip) j \<noteq> 0"
    "\<And>k. off \<le> k \<Longrightarrow> k < off + length src \<Longrightarrow> faddr (blk s') (ino s' ip) (k div BSIZE) \<noteq> 0"
    "kept (fown s ip) s s'" "fown s' ip \<subseteq> fown s ip \<union> {m. \<not> used s m}" "sb s' = sb s"
  using assms fs_frame_fields(1) [of "{}" s s'] unfolding fwrote_def by blast+

lemma fwrote_Nil: "fs_ok s \<Longrightarrow> inode_ok s ip \<Longrightarrow> fwrote ip off [] 0 s s"
  using fgrown_refl [of s ip] by (auto simp: fwrote_def fgrown_def same_file_def)

lemma fown_sub_trans:
  assumes "fown s' ip \<subseteq> fown s ip \<union> {m. \<not> used s m}" and "fown s'' ip \<subseteq> fown s' ip \<union> {m. \<not> used s' m}"
    and "kept (fown s ip) s s'" and "inode_ok s'' ip" and "sb s'' = sb s"
  shows "fown s'' ip \<subseteq> fown s ip \<union> {m. \<not> used s m}"
proof
  fix m assume m: "m \<in> fown s'' ip"
  have "m < sb_size (sb s)" using fown_used [OF assms(4)] m assms(5) by (auto simp: data_blocks_def)
  then have "\<not> used s' m \<Longrightarrow> \<not> used s m" using assms(3) unfolding kept_def by blast
  then show "m \<in> fown s ip \<union> {m. \<not> used s m}" using m assms(1,2) by blast
qed

lemma fwrote_append:
  assumes "fwrote ip off a c s s'" and "fwrote ip (off + length a) b d s' s''" and "off + length a + length b \<le> MAXFILE * BSIZE"
  shows "fwrote ip off (a @ b) (c + d) s s''"
proof -
  note x = fwroteD [OF assms(1)] and y = fwroteD [OF assms(2)]
  have "fbyte (blk s'') (ino s'' ip) k = (if off \<le> k \<and> k < off + length (a @ b) then (a @ b) ! (k - off) else fbyte (blk s) (ino s ip) k)"
    if "k < MAXFILE * BSIZE" for k
    using x(6) [OF that] y(6) [OF that] by (auto simp: nth_append)
  moreover have "faddr (blk s'') (ino s'' ip) (k div BSIZE) \<noteq> 0" if k: "off \<le> k" "k < off + length (a @ b)" for k
  proof (cases "k < off + length a")
    case True
    have "k div BSIZE < MAXFILE" using k assms(3) by (simp add: div_less_iff_less_mult)
    then show ?thesis using y(7) x(8) [OF k(1) True] by blast
  next
    case False
    then show ?thesis using y(8) [of k] k by simp
  qed
  moreover have "fown s'' ip \<subseteq> fown s ip \<union> {m. \<not> used s m}" using fown_sub_trans [OF x(10) y(10) x(9) y(3)] x(11) y(11) by simp
  ultimately show ?thesis
    unfolding fwrote_def
    using x(4,7) y(2-4,7) fs_frame_trans [OF x(1) y(1)] inode_addrs_trans [OF x(5) y(5)] kept_trans [OF x(9) y(9) x(11,10)] by auto
qed

text \<open>One block of a transfer.\<close>

lemma writei_chunk:
  assumes "in_fs i {} (k + 6) s" and "fs_ok s" and "inode_ok s ip" and "unat off + length src \<le> MAXFILE * BSIZE" and "src \<noteq> []" and "2 \<le> nfree s"
    and "m = chunk off (length src)"
  shows "\<exists>a s1 b s2 s3 s'. bmap ip (off div of_nat BSIZE) s = Inr (a, s1) \<and> i_dev (ino s1 ip) = 1 \<and> bread 1 a s1 = Inr (b, s2) \<and>
    log_write b (set_data b (put_bytes (unat off mod BSIZE) (take m src) (b_data (bufs s2 b))) s2) = Inr s3 \<and> brelse b s3 = Inr s' \<and>
    in_fs i {} k s' \<and> fwrote ip (unat off) (take m src) 2 s s'"
proof -
  let ?j = "unat off div BSIZE" and ?o = "unat off mod BSIZE"
  have ne: "length src \<noteq> 0" using assms(5) by simp
  note c = chunk_props [OF ne, where off = off, folded assms(7)]
  have "unat off < MAXFILE * BSIZE" using assms(4) ne by linarith
  then have j: "unat (off div of_nat BSIZE) < MAXFILE" unfolding unat_block by (simp add: div_less_iff_less_mult)
  have "in_fs i {} ((k + 1) + 5) s" using assms(1) by (simp add: eval_nat_numeral)
  from bmap_runs [OF this assms(2,3) j assms(6)] obtain a s1 where
    s1: "bmap ip (off div of_nat BSIZE) s = Inr (a, s1)" "fgrown ip 2 s s1" "in_fs i {} (Suc k) s1" "a = faddr (blk s1) (ino s1 ip) ?j" "a \<noteq> 0"
    unfolding unat_block by auto
  note g = fgrownD [OF s1(2)]
  have l: "layout_ok (data_blocks s1) (blk s1) (ino s1 ip)" "i_dev (ino s1 ip) = 1" using g(3) by (simp_all add: inode_ok_def)
  have j': "?j < MAXFILE" using j unfolding unat_block .
  have own: "a \<in> fown s1 ip" using faddr_own [OF j', of "blk s1" "ino s1 ip"] s1(4,5) by simp
  have a: "a < disksize s1" "a \<notin> log_region s1" using fown_on_disk [OF g(2,3) own] by (simp_all add: reserved_def)
  let ?d = "put_bytes ?o (take m src) (blk s1 a)"
  have m: "length (take m src) = m" using c(2) by simp
  have fit: "?o + length (take m src) \<le> length (blk s1 a)" using c(3) in_fs_blk_length [OF s1(3)] unfolding m by simp
  then have ld: "length ?d = BSIZE" using in_fs_blk_length [OF s1(3)] by simp
  from fs_update [OF s1(3) a(1) _ _ a(2) ld] obtain b s2 s3 s' where
    u: "bread 1 a s1 = Inr (b, s2)" "b_data (bufs s2 b) = blk s1 a" "log_write b (set_data b ?d s2) = Inr s3" "brelse b s3 = Inr s'"
      "in_fs i {} k s'" "tx_frame {} s1 s'" "blk s' = (blk s1)(a := ?d)" by auto
  have ic: "icache s' = icache s1" using tx_frame_fs(2) [OF u(6)] .
  have aj: "faddr (blk s1) (ino s1 ip) ?j \<noteq> 0" and bk: "blk s' = (blk s1)(faddr (blk s1) (ino s1 ip) ?j := ?d)" using s1(4,5) u(7) by simp_all
  note st = store_block [OF l(1) j' aj bk]
  have same: "\<forall>n. n \<notin> fown s1 ip \<longrightarrow> blk s' n = blk s1 n" using own u(7) by auto
  note d = fs_ok_data [OF g(2) fs_frame_tx [OF u(6)] same fown_used [OF g(3)]]
  have ok: "inode_ok s' ip" using g(3) st(3) d(2) tx_frame_fs(1) [OF u(6)] by (simp add: inode_ok_def ic)
  have byte: "fbyte (blk s') (ino s' ip) n = (if unat off \<le> n \<and> n < unat off + m then take m src ! (n - unat off) else fbyte (blk s) (ino s ip) n)"
    if n: "n < MAXFILE * BSIZE" for n
    using store_chunk [OF l(1) j' aj _ _ n, of "take m src" "blk s'"] bk s1(4) in_fs_blk_length [OF s1(3)] c(3) g(6) n m by (simp add: ic same_file_def)
  have "kept (fown s1 ip) s1 s'" unfolding kept_def using same used_same [OF g(2) tx_frame_fs(1) [OF u(6)] same fown_used [OF g(3)]] by blast
  then have kp: "kept (fown s ip) s s'" by (rule kept_trans [OF g(7) _ g(9,8)])
  have mapped: "faddr (blk s') (ino s' ip) (n div BSIZE) \<noteq> 0" if "unat off \<le> n" "n < unat off + m" for n
    using that c(4) [of "n - unat off"] st(1) aj by (simp add: ic less_diff_conv2)
  have "fwrote ip (unat off) (take m src) 2 s s'"
    unfolding fwrote_def m using fs_frame_trans [OF g(1) fs_frame_tx [OF u(6)]] d(1,3) ok g(4-6,8) byte kp mapped st(1,2) by (simp add: ic same_file_def)
  then show ?thesis using s1(1) l(2) u(1,3-5) unfolding u(2) [symmetric] by blast
qed

lemma writei_loop_runs:
  assumes "in_fs i {} (k + 6 * nchunks (unat off) (length src)) s" and "fs_ok s" and "inode_ok s ip" and "unat off + length src \<le> MAXFILE * BSIZE"
    and "2 * nchunks (unat off) (length src) \<le> nfree s"
  shows "\<exists>s'. writei_loop ip src off s = Inr (off + of_nat (length src), s') \<and> in_fs i {} k s' \<and>
    fwrote ip (unat off) src (2 * nchunks (unat off) (length src)) s s'"
  using assms
proof (induction "length src" arbitrary: src off s rule: less_induct)
  case less
  show ?case
  proof (cases "src = []")
    case True
    then show ?thesis using less.prems fwrote_Nil by (subst writei_loop.simps) (simp add: nchunks_def)
  next
    case False
    define m where "m = chunk off (length src)"
    have ne: "length src \<noteq> 0" using False by simp
    note c = chunk_props [OF ne, where off = off, folded m_def]
    define d where "d = nchunks (unat off + m) (length src - m)"
    have n: "nchunks (unat off) (length src) = Suc d" using nchunks_step [OF ne, of off] by (simp add: m_def d_def)
    have "in_fs i {} ((k + 6 * d) + 6) s" using less.prems(1) unfolding n by (simp add: algebra_simps)
    from writei_chunk [OF this less.prems(2-4) False _ m_def] less.prems(5) obtain a s1 b s2 s3 t where
      t: "bmap ip (off div of_nat BSIZE) s = Inr (a, s1)" "i_dev (ino s1 ip) = 1" "bread 1 a s1 = Inr (b, s2)"
        "log_write b (set_data b (put_bytes (unat off mod BSIZE) (take m src) (b_data (bufs s2 b))) s2) = Inr s3" "brelse b s3 = Inr t"
        "in_fs i {} (k + 6 * d) t" "fwrote ip (unat off) (take m src) 2 s t" unfolding n by auto
    note w = fwroteD [OF t(7)]
    have u: "unat (off + of_nat m) = unat off + m" using less.prems(4) c(2) by (intro unat_off_add) simp
    have d: "nchunks (unat (off + of_nat m)) (length (drop m src)) = d" by (simp add: u d_def)
    have p: "length (drop m src) < length src" "in_fs i {} (k + 6 * nchunks (unat (off + of_nat m)) (length (drop m src))) t"
      "unat (off + of_nat m) + length (drop m src) \<le> MAXFILE * BSIZE" "2 * nchunks (unat (off + of_nat m)) (length (drop m src)) \<le> nfree t"
      using c(1,2) ne t(6) less.prems(4,5) w(4) unfolding n d by (simp_all add: u)
    from less.hyps [OF p(1,2) w(2,3) p(3,4)] obtain s' where
      s': "writei_loop ip (drop m src) (off + of_nat m) t = Inr (off + of_nat m + of_nat (length (drop m src)), s')" "in_fs i {} k s'"
        "fwrote ip (unat off + m) (drop m src) (2 * d) t s'" unfolding d unfolding u by blast
    have "off + of_nat m + of_nat (length (drop m src)) = off + of_nat (length src)" using c(2) by (simp add: of_nat_diff)
    moreover have "writei_loop ip src off s = writei_loop ip (drop m src) (off + of_nat m) t"
      using False t(1-5) by (subst writei_loop.simps) (simp add: Let_def flip: m_def)
    moreover have "fwrote ip (unat off) (take m src @ drop m src) (2 + 2 * d) s s'"
      using s'(3) less.prems(4) c(2) by (intro fwrote_append [OF t(7)]) simp_all
    ultimately show ?thesis using s'(1,2) unfolding n by auto
  qed
qed

text \<open>\<open>writei\<close> within the size of a file or right behind it.\<close>

definition put_at :: "nat \<Rightarrow> uchar list \<Rightarrow> uchar list \<Rightarrow> uchar list" where
  "put_at off src d = take off d @ src @ drop (off + length src) d"

lemma put_at_nth:
  assumes "off \<le> length d"
  shows "length (put_at off src d) = max (length d) (off + length src)"
    "k < max (length d) (off + length src) \<Longrightarrow> put_at off src d ! k = (if off \<le> k \<and> k < off + length src then src ! (k - off) else d ! k)"
  using assms by (auto simp: put_at_def nth_append max_def split: if_splits)

text \<open>Writing blocks that are not bitmap blocks.\<close>

lemma fs_ok_blocks:
  assumes "fs_ok s" and "fs_frame B s s'" and "\<forall>a. a \<notin> X \<longrightarrow> blk s' a = blk s a" and "\<forall>n \<in> X. \<not> bitmap_block (sb s) n"
  shows "fs_ok s'" "data_blocks s' = data_blocks s" "nfree s' = nfree s" "m < sb_size (sb s) \<Longrightarrow> used s' m = used s m"
proof -
  note f = fs_frame_fields [OF assms(2)]
  show us: "used s' m = used s m" if "m < sb_size (sb s)" for m
  proof -
    have "BBLOCK m (sb s) \<notin> X" using assms(4) that unfolding bitmap_block_def by blast
    then show ?thesis using assms(3) f(1) by (simp add: used_def)
  qed
  have r: "reserved s' = reserved s" by (simp add: reserved_def f fun_eq_iff)
  show "fs_ok s'" unfolding fs_ok_def r f(1-3) using assms(1) us unfolding fs_ok_def by blast
  show "data_blocks s' = data_blocks s" unfolding data_blocks_def r f(1) using us by blast
  have "{n. n < sb_size (sb s) \<and> \<not> used s' n} = {n. n < sb_size (sb s) \<and> \<not> used s n}" using us by blast
  then show "nfree s' = nfree s" by (simp add: nfree_def f(1))
qed

text \<open>Setting the size and writing the inode back.\<close>

lemma set_size_runs:
  assumes "in_fs i {} (Suc k) s" and "fs_ok s" and "inode_ok s ip" and "t = upd_inode ip (\<lambda>x. x\<lparr>i_size := z\<rparr>) s" and "n = IBLOCK (i_inum (ino s ip)) (sb s)"
  shows "\<exists>s'. iupdate ip t = Inr s' \<and> in_fs i {} k s' \<and> fs_frame {} s s' \<and> fs_ok s' \<and> inode_ok s' ip \<and> nfree s' = nfree s \<and>
    icache s' = (icache s)(ip := (ino s ip)\<lparr>i_size := z\<rparr>) \<and> fown s' ip = fown s ip \<and> kept {n} s s' \<and>
    (\<forall>j. faddr (blk s') (ino s' ip) j = faddr (blk s) (ino s ip) j) \<and>
    (\<forall>k < MAXFILE * BSIZE. fbyte (blk s') (ino s' ip) k = fbyte (blk s) (ino s ip) k)"
proof -
  let ?x = "ino s ip"
  have ok: "layout_ok (data_blocks s) (blk s) ?x" "i_dev ?x = 1" "i_inum ?x < sb_ninodes (sb s)" using assms(3) by (simp_all add: inode_ok_def)
  have t: "ino t ip = ?x\<lparr>i_size := z\<rparr>" "icache t = (icache s)(ip := ?x\<lparr>i_size := z\<rparr>)" "sb t = sb s" "blk t = blk s" "in_fs i {} (Suc k) t" "fs_ok t"
    "fs_frame {} s t"
    using assms(1,2) by (simp_all add: assms(4) upd_inode_def)
  obtain s' where s': "iupdate ip t = Inr s'" "in_fs i {} k s'" "tx_frame {} t s'" "\<forall>a. a \<notin> {n} \<longrightarrow> blk s' a = blk s a"
    using iupdate_runs [OF t(5,6), of ip] ok layout_okD(1) [OF ok(1)] t(1,3,4) by (auto simp: assms(5))
  have fr: "fs_frame {} s s'" using fs_frame_trans [OF t(7) fs_frame_tx [OF s'(3)]] .
  have nb: "\<forall>a \<in> {n}. \<not> bitmap_block (sb s) a" using fs_okD(5) [OF assms(2) ok(3)] by (simp add: assms(5))
  note d = fs_ok_blocks [OF assms(2) fr s'(4) nb]
  have "reserved s n" using ok(3) by (auto simp: assms(5) reserved_def inode_block_def)
  then have "n \<notin> fown s ip" using fown_used [OF assms(3)] by (auto simp: data_blocks_def)
  then have bk: "\<forall>a \<in> own (blk s) ?x. blk s' a = blk s a" using s'(4) by auto
  have ic: "icache s' = (icache s)(ip := ?x\<lparr>i_size := z\<rparr>)" using tx_frame_fs(2) [OF s'(3)] t(2) by simp
  have e: "faddr bk (?x\<lparr>i_size := z\<rparr>) = faddr bk ?x" "own bk (?x\<lparr>i_size := z\<rparr>) = own bk ?x" "layout_ok U bk (?x\<lparr>i_size := z\<rparr>) = layout_ok U bk ?x"
    "fbyte bk (?x\<lparr>i_size := z\<rparr>) = fbyte bk ?x" for bk U
  proof -
    show f: "faddr bk (?x\<lparr>i_size := z\<rparr>) = faddr bk ?x" by (simp add: faddr_def fun_eq_iff)
    show o: "own bk (?x\<lparr>i_size := z\<rparr>) = own bk ?x" by (simp add: own_def f)
    show "layout_ok U bk (?x\<lparr>i_size := z\<rparr>) = layout_ok U bk ?x" by (simp add: layout_ok_def f o)
    show "fbyte bk (?x\<lparr>i_size := z\<rparr>) = fbyte bk ?x" by (simp add: fbyte_def f fun_eq_iff)
  qed
  note l = layout_cong [OF bk]
  have io: "inode_ok s' ip" using ok l(3) d(2) fs_frame_fields(1) [OF fr] by (simp add: inode_ok_def ic e)
  have kp: "kept {n} s s'" unfolding kept_def using s'(4) d(4) by blast
  show ?thesis
    using s'(1,2) fr d(1,3) io ic kp l(1,2,4) by (intro exI [of _ s']) (simp add: e)
qed

text \<open>The contents after a write, once the size is right.\<close>

lemma fdata_put_at:
  assumes "unat off \<le> unat (i_size (ino s ip))" and "unat (i_size (ino s' ip)) = max (unat (i_size (ino s ip))) (unat off + length src)"
    and "unat off + length src \<le> MAXFILE * BSIZE" and "unat (i_size (ino s ip)) \<le> MAXFILE * BSIZE"
    and "\<forall>k < MAXFILE * BSIZE. fbyte (blk s') (ino s' ip) k = (if unat off \<le> k \<and> k < unat off + length src then src ! (k - unat off) else fbyte (blk s) (ino s ip) k)"
  shows "fdata s' ip = put_at (unat off) src (fdata s ip)"
proof (rule nth_equalityI)
  have o: "unat off \<le> length (fdata s ip)" using assms(1) by simp
  show "length (fdata s' ip) = length (put_at (unat off) src (fdata s ip))" using assms(2) put_at_nth(1) [OF o] by simp
  fix k
  assume "k < length (fdata s' ip)"
  then have k: "k < max (unat (i_size (ino s ip))) (unat off + length src)" using assms(2) by simp
  with assms(3,4) have "k < MAXFILE * BSIZE" by simp
  with assms(5) have "fdata s' ip ! k = (if unat off \<le> k \<and> k < unat off + length src then src ! (k - unat off) else fbyte (blk s) (ino s ip) k)"
    using k assms(2) by (simp add: fdata_def)
  also have "\<dots> = put_at (unat off) src (fdata s ip) ! k"
    using put_at_nth(2) [OF o, of k src] k assms(1) by (auto simp: fdata_def)
  finally show "fdata s' ip ! k = put_at (unat off) src (fdata s ip) ! k" .
qed

lemma block_index: "j * BSIZE < off + n \<Longrightarrow> \<not> j * BSIZE < off \<Longrightarrow> off \<le> j * BSIZE \<and> j * BSIZE < off + n \<and> j * BSIZE div BSIZE = j"
  by simp

definition wrote_file :: "nat \<Rightarrow> uint \<Rightarrow> uchar list \<Rightarrow> 'a fs_state_scheme \<Rightarrow> 'a fs_state_scheme \<Rightarrow> bool" where
  "wrote_file ip off src s s' \<longleftrightarrow> fs_frame {} s s' \<and> fs_ok s' \<and> file_ok s' ip \<and> fdata s' ip = put_at (unat off) src (fdata s ip) \<and>
     nfree s \<le> nfree s' + 2 * nchunks (unat off) (length src) \<and>
     icache s' = (icache s)(ip := (ino s ip)\<lparr>i_size := i_size (ino s' ip), i_addrs := i_addrs (ino s' ip)\<rparr>) \<and>
     kept (insert (IBLOCK (i_inum (ino s ip)) (sb s)) (fown s ip)) s s' \<and> fown s' ip \<subseteq> fown s ip \<union> {m. \<not> used s m}"

lemma kept_mono: "kept X s s' \<Longrightarrow> X \<subseteq> Y \<Longrightarrow> kept Y s s'"
  unfolding kept_def by blast

lemma inode_size_addrs:
  fixes c c1 c2 :: "nat \<Rightarrow> inode"
  assumes "c1 = c(ip := (c ip)\<lparr>i_addrs := i_addrs (c1 ip)\<rparr>)" and "c2 = c1(ip := (c1 ip)\<lparr>i_size := z\<rparr>)"
  shows "c2 = c(ip := (c ip)\<lparr>i_size := i_size (c2 ip), i_addrs := i_addrs (c2 ip)\<rparr>)"
proof
  have t: "v = x\<lparr>i_size := i_size v, i_addrs := i_addrs v\<rparr>" if "y = x\<lparr>i_addrs := i_addrs y\<rparr>" "v = y\<lparr>i_size := z\<rparr>" for x y v :: inode
    using that by (cases x; cases y; cases v) simp
  fix j
  show "c2 j = (c(ip := (c ip)\<lparr>i_size := i_size (c2 ip), i_addrs := i_addrs (c2 ip)\<rparr>)) j"
  proof (cases "j = ip")
    case True
    then show ?thesis using t [of "c1 ip" "c ip" "c2 ip"] fun_cong [OF assms(1), of ip] fun_cong [OF assms(2), of ip] by (metis fun_upd_same)
  next
    case False
    then show ?thesis using fun_cong [OF assms(1), of j] fun_cong [OF assms(2), of j] by (metis fun_upd_other)
  qed
qed

lemma writei_runs:
  assumes "in_fs i {} (Suc k + 6 * nchunks (unat off) (length src)) s" and "fs_ok s" and "file_ok s ip"
    and "unat off \<le> unat (i_size (ino s ip))" and "unat off + length src \<le> MAXFILE * BSIZE" and "2 * nchunks (unat off) (length src) \<le> nfree s"
  shows "\<exists>s'. writei ip src off s = Inr (int (length src), s') \<and> in_fs i {} k s' \<and> wrote_file ip off src s s'"
proof -
  let ?x = "ino s ip" and ?len = "length src"
  let ?S = "i_size ?x" and ?e = "unat off + ?len" and ?n = "IBLOCK (i_inum ?x) (sb s)"
  have ok: "inode_ok s ip" "i_type ?x \<noteq> T_DEV" "unat ?S \<le> MAXFILE * BSIZE" "\<And>j. j * BSIZE < unat ?S \<Longrightarrow> faddr (blk s) ?x j \<noteq> 0"
    using assms(3) by (auto simp: file_ok_def)
  obtain s1 where s1: "writei_loop ip src off s = Inr (off + of_nat ?len, s1)" "in_fs i {} (Suc k) s1"
      "fwrote ip (unat off) src (2 * nchunks (unat off) ?len) s s1"
    using writei_loop_runs [OF assms(1,2) ok(1) assms(5,6)] by blast
  note w = fwroteD [OF s1(3)]
  have x1: "i_size (ino s1 ip) = ?S" "i_type (ino s1 ip) = i_type ?x" "i_inum (ino s1 ip) = i_inum ?x" by (subst w(5), simp)+
  have e: "unat (off + of_nat ?len) = ?e" using assms(5) by (rule unat_off_add)
  have len: "unat (of_nat ?len :: uint) = ?len" "sint (of_nat ?len :: uint) = int ?len"
    using assms(5) by (simp_all add: unat_of_nat_small sint_of_nat_small)
  have go: "\<not> off > ?S" "\<not> off + of_nat ?len < off" "\<not> off + of_nat ?len > of_nat (MAXFILE * BSIZE)"
    using assms(4,5) e by (simp_all add: word_less_nat_alt)
  have ext: "faddr (blk s1) (ino s1 ip) j \<noteq> 0" if j: "j * BSIZE < max (unat ?S) ?e" for j
  proof (cases "j * BSIZE < unat ?S")
    case True
    with ok(3) have "j < MAXFILE" by linarith
    then show ?thesis using w(7) ok(4) [OF True] by blast
  next
    case False
    with j assms(4) show ?thesis using w(8) [of "j * BSIZE"] by simp
  qed
  have own: "fown s1 ip \<subseteq> fown s ip \<union> {m. \<not> used s m}" by (fact w(10))
  show ?thesis
  proof (cases "0 < ?len \<and> unat ?S < ?e")
    case True
    let ?t = "upd_inode ip (\<lambda>x. x\<lparr>i_size := off + of_nat ?len\<rparr>) s1"
    obtain s2 where s2: "iupdate ip ?t = Inr s2" "in_fs i {} k s2" "fs_frame {} s1 s2" "fs_ok s2" "inode_ok s2 ip" "nfree s2 = nfree s1"
        "icache s2 = (icache s1)(ip := (ino s1 ip)\<lparr>i_size := off + of_nat ?len\<rparr>)" "fown s2 ip = fown s1 ip" "kept {IBLOCK (i_inum (ino s1 ip)) (sb s1)} s1 s2"
        "\<forall>j. faddr (blk s2) (ino s2 ip) j = faddr (blk s1) (ino s1 ip) j"
        "\<forall>k < MAXFILE * BSIZE. fbyte (blk s2) (ino s2 ip) k = fbyte (blk s1) (ino s1 ip) k"
      using set_size_runs [OF s1(2) w(2,3) refl refl] by blast
    have sz: "unat (i_size (ino s2 ip)) = ?e" "i_type (ino s2 ip) = i_type ?x" by (subst s2(7), simp add: e x1)+
    have "file_ok s2 ip" using s2(5,10) ok(2) sz assms(5) ext True by (simp add: file_ok_def)
    moreover have "fdata s2 ip = put_at (unat off) src (fdata s ip)"
      using s2(11) w(6) sz(1) True by (intro fdata_put_at [OF assms(4) _ assms(5) ok(3)]) simp_all
    moreover have "kept (insert ?n (fown s ip)) s s2"
      using s2(9) by (intro kept_trans [OF kept_mono [OF w(9)] _ w(11)]) (auto simp: x1 w(11))
    moreover have "icache s2 = (icache s)(ip := ?x\<lparr>i_size := i_size (ino s2 ip), i_addrs := i_addrs (ino s2 ip)\<rparr>)"
      by (rule inode_size_addrs [OF w(5) s2(7)])
    ultimately have "wrote_file ip off src s s2"
      using fs_frame_trans [OF w(1) s2(3)] s2(4,6,8) w(4) own by (simp add: wrote_file_def)
    moreover have "writei ip src off s = Inr (int ?len, s2)"
      using ok(2) go s1(1) s2(1) True len e x1(1) by (simp add: writei_def Let_def word_less_nat_alt)
    ultimately show ?thesis using s2(2) by blast
  next
    case False
    then have le: "?e \<le> unat ?S" using assms(4) by auto
    have "file_ok s1 ip" using w(3) ok(2,3) x1 ext by (simp add: file_ok_def)
    moreover have "fdata s1 ip = put_at (unat off) src (fdata s ip)"
      using w(6) x1(1) le by (intro fdata_put_at [OF assms(4) _ assms(5) ok(3)]) simp_all
    moreover have "icache s1 = (icache s)(ip := ?x\<lparr>i_size := i_size (ino s1 ip), i_addrs := i_addrs (ino s1 ip)\<rparr>)"
      by (rule inode_size_addrs [OF w(5), of _ "i_size (ino s1 ip)"]) simp
    ultimately have "wrote_file ip off src s s1"
      using w(1,2,4) own kept_mono [OF w(9), of "insert ?n (fown s ip)"] by (auto simp: wrote_file_def)
    moreover have "writei ip src off s = Inr (int ?len, s1)"
      using ok(2) go s1(1) False len e x1(1) by (auto simp: writei_def Let_def word_less_nat_alt)
    ultimately show ?thesis using in_fs_le [OF s1(2), of k] by simp
  qed
qed

section \<open>Files as byte arrays\<close>

text \<open>
  What the layers above use of a file: reading a part of it and overwriting or extending it, within
  a budget (\<open>ok k\<close>) that writes use up.
\<close>

locale byte_array =
  fixes ok :: "nat \<Rightarrow> 's \<Rightarrow> bool"
    and bytes :: "'s \<Rightarrow> uchar list"
    and rd :: "nat \<Rightarrow> nat \<Rightarrow> 's \<Rightarrow> ('s, uchar list \<times> 's) kres"
    and wr :: "nat \<Rightarrow> uchar list \<Rightarrow> 's \<Rightarrow> ('s, 's) kres"
    and cost :: "nat \<Rightarrow> nat \<Rightarrow> nat"
    and cap :: nat
  assumes rd_bytes: "ok k s \<Longrightarrow> off \<le> length (bytes s) \<Longrightarrow> n \<le> cap \<Longrightarrow>
      \<exists>s'. rd off n s = Inr (take n (drop off (bytes s)), s') \<and> ok k s' \<and> bytes s' = bytes s"
    and wr_bytes: "ok (k + cost off (length bs)) s \<Longrightarrow> off \<le> length (bytes s) \<Longrightarrow> off + length bs \<le> cap \<Longrightarrow>
      \<exists>s'. wr off bs s = Inr s' \<and> ok k s' \<and> bytes s' = put_at off bs (bytes s)"
begin

lemma read_after_write:
  assumes "ok (k + cost off (length bs)) s" and "off \<le> length (bytes s)" and "off + length bs \<le> cap"
  shows "\<exists>s1 s2. wr off bs s = Inr s1 \<and> rd off (length bs) s1 = Inr (bs, s2) \<and> ok k s2 \<and> bytes s2 = put_at off bs (bytes s)"
proof -
  obtain s1 where s1: "wr off bs s = Inr s1" "ok k s1" "bytes s1 = put_at off bs (bytes s)" using wr_bytes [OF assms] by blast
  have "off \<le> length (bytes s1)" "length bs \<le> cap" using assms(2,3) put_at_nth(1) [OF assms(2), of bs] s1(3) by simp_all
  from rd_bytes [OF s1(2) this] obtain s2 where
    s2: "rd off (length bs) s1 = Inr (take (length bs) (drop off (bytes s1)), s2)" "ok k s2" "bytes s2 = bytes s1" by blast
  have "take (length bs) (drop off (bytes s1)) = bs" using assms(2) s1(3) by (simp add: put_at_def)
  with s1 s2 show ?thesis by auto
qed

lemma read_elsewhere:
  assumes "ok (k + cost off (length bs)) s" and "off \<le> length (bytes s)" and "off + length bs \<le> cap" and "a + n \<le> off \<or> off + length bs \<le> a" and "a + n \<le> length (bytes s)" and "n \<le> cap"
  shows "\<exists>s1 s2 s3. wr off bs s = Inr s1 \<and> rd a n s1 = Inr (take n (drop a (bytes s)), s2) \<and> rd a n s = Inr (take n (drop a (bytes s)), s3)"
proof -
  obtain s1 where s1: "wr off bs s = Inr s1" "ok k s1" "bytes s1 = put_at off bs (bytes s)" using wr_bytes [OF assms(1-3)] by blast
  note p = put_at_nth [OF assms(2), where src = bs]
  have "a \<le> length (bytes s1)" using assms(5) p(1) s1(3) by simp
  from rd_bytes [OF s1(2) this assms(6)] obtain s2 where s2: "rd a n s1 = Inr (take n (drop a (bytes s1)), s2)" by blast
  have "take n (drop a (bytes s1)) = take n (drop a (bytes s))"
    using assms(4,5) p by (intro nth_equalityI) (auto simp: s1(3))
  moreover obtain s3 where "rd a n s = Inr (take n (drop a (bytes s)), s3)" using rd_bytes [OF assms(1) _ assms(6), of a] assms(5) by auto
  ultimately show ?thesis using s1(1) s2 by auto
qed

end

definition file_budget :: "nat \<Rightarrow> nat \<Rightarrow> nat \<Rightarrow> 'a fs_state_scheme \<Rightarrow> bool" where
  "file_budget i ip k s \<longleftrightarrow> in_fs i {} k s \<and> fs_ok s \<and> file_ok s ip \<and> k \<le> nfree s"

definition file_read :: "nat \<Rightarrow> nat \<Rightarrow> nat \<Rightarrow> 'a fs_state_scheme \<Rightarrow> ('a, uchar list \<times> 'a fs_state_scheme) fres" where
  "file_read ip off n s = seq (readi ip (of_nat off) (of_nat n) s) (\<lambda>(r, bs, s). Inr (bs, s))"

definition file_write :: "nat \<Rightarrow> nat \<Rightarrow> uchar list \<Rightarrow> 'a fs_state_scheme \<Rightarrow> ('a, 'a fs_state_scheme) fres" where
  "file_write ip off bs s = seq (writei ip bs (of_nat off) s) (\<lambda>(r, s). Inr s)"

lemma file_read_same:
  assumes "tx_frame {} s s'" and "blk s' = blk s" and "fs_ok s"
  shows "nfree s' = nfree s" "fdata s' ip = fdata s ip" "file_ok s' ip = file_ok s ip" "fs_ok s'"
proof -
  note f = tx_frame_fs [OF assms(1)]
  note d = fs_ok_blocks [OF assms(3) fs_frame_tx [OF assms(1)], of "{}"]
  show "nfree s' = nfree s" "fs_ok s'" using d assms(2) by simp_all
  show "fdata s' ip = fdata s ip" by (simp add: fdata_def f assms(2))
  show "file_ok s' ip = file_ok s ip" using d(2) assms(2) by (simp add: file_ok_def inode_ok_def f)
qed

interpretation contents: byte_array "file_budget i ip" "\<lambda>s. fdata s ip" "file_read ip" "file_write ip" "\<lambda>off n. Suc (6 * nchunks off n)" "MAXFILE * BSIZE"
  for i ip
proof
  fix k s off n
  assume a: "file_budget i ip k s" "off \<le> length (fdata s ip)" "n \<le> MAXFILE * BSIZE"
  show "\<exists>s'. file_read ip off n s = Inr (take n (drop off (fdata s ip)), s') \<and> file_budget i ip k s' \<and> fdata s' ip = fdata s ip"
  proof -
    have b: "in_fs i {} k s" "fs_ok s" "file_ok s ip" "k \<le> nfree s" using a(1) by (simp_all add: file_budget_def)
    have "off \<le> MAXFILE * BSIZE" using a(2) b(3) by (simp add: file_ok_def)
    then have u: "unat (of_nat off :: uint) = off" "unat (of_nat n :: uint) = n" using a(3) by (simp_all add: unat_of_nat_small)
    obtain r s' where s': "readi ip (of_nat off) (of_nat n) s = Inr (r, take n (drop off (fdata s ip)), s')" "in_fs i {} k s'" "tx_frame {} s s'" "blk s' = blk s"
      using readi_runs [OF b(1-3), of "of_nat off" "of_nat n"] a(2,3) \<open>off \<le> MAXFILE * BSIZE\<close> unfolding u by auto
    then show ?thesis using b file_read_same [OF s'(3,4) b(2)] by (intro exI [of _ s']) (simp add: file_read_def file_budget_def)
  qed
next
  fix k off s and bs :: "uchar list"
  assume a: "file_budget i ip (k + Suc (6 * nchunks off (length bs))) s" "off \<le> length (fdata s ip)" "off + length bs \<le> MAXFILE * BSIZE"
  show "\<exists>s'. file_write ip off bs s = Inr s' \<and> file_budget i ip k s' \<and> fdata s' ip = put_at off bs (fdata s ip)"
  proof -
    have b: "in_fs i {} (Suc k + 6 * nchunks off (length bs)) s" "fs_ok s" "file_ok s ip" "k + Suc (6 * nchunks off (length bs)) \<le> nfree s"
      using a(1) by (simp_all add: file_budget_def)
    have u: "unat (of_nat off :: uint) = off" using a(3) by (simp add: unat_of_nat_small)
    have f: "2 * nchunks off (length bs) \<le> nfree s" using b(4) by linarith
    obtain s' where s': "writei ip bs (of_nat off) s = Inr (int (length bs), s')" "in_fs i {} k s'" "wrote_file ip (of_nat off) bs s s'"
      using writei_runs [of i k "of_nat off" bs s ip] b a(2,3) f unfolding u by auto
    then show ?thesis using b(4) by (intro exI [of _ s']) (simp add: file_write_def file_budget_def wrote_file_def u)
  qed
qed

text \<open>A write leaves every other file alone.\<close>

lemma wrote_other:
  assumes "wrote_file ip off src s s'" and "fs_ok s" and "file_ok s ip" and "file_ok s jp" and "jp \<noteq> ip" and "fown s jp \<inter> fown s ip = {}"
  shows "fdata s' jp = fdata s jp" "file_ok s' jp" "fown s' jp \<inter> fown s' ip = {}" "fown s' jp = fown s jp"
proof -
  let ?n = "IBLOCK (i_inum (ino s ip)) (sb s)"
  have w: "fs_frame {} s s'" "icache s' = (icache s)(ip := (ino s ip)\<lparr>i_size := i_size (ino s' ip), i_addrs := i_addrs (ino s' ip)\<rparr>)"
      "kept (insert ?n (fown s ip)) s s'" "fown s' ip \<subseteq> fown s ip \<union> {m. \<not> used s m}"
    using assms(1) unfolding wrote_file_def by blast+
  have ok: "inode_ok s ip" "inode_ok s jp" using assms(3,4) by (simp_all add: file_ok_def)
  have "inode_block (sb s) ?n" using ok(1) by (auto simp: inode_ok_def inode_block_def)
  then have n: "?n \<notin> fown s jp" using fown_used [OF ok(2)] by (auto simp: data_blocks_def reserved_def)
  have j: "icache s' jp = icache s jp" using fun_cong [OF w(2), of jp] assms(5) by simp
  have own: "a < sb_size (sb s) \<and> used s a \<and> \<not> bitmap_block (sb s) a \<and> a \<notin> insert ?n (fown s ip) \<and> \<not> reserved s a" if "a \<in> fown s jp" for a
    using that fown_used [OF ok(2)] n assms(6) by (auto simp: data_blocks_def reserved_def)
  have bk: "\<forall>a \<in> own (blk s) (ino s jp). blk s' a = blk s a" using own w(3) unfolding kept_def by blast
  note l = layout_cong [OF bk]
  have res: "reserved s' = reserved s" using fs_frame_fields [OF w(1)] by (simp add: reserved_def fun_eq_iff)
  show f: "fown s' jp = fown s jp" using l(2) by (simp add: j)
  show "fown s' jp \<inter> fown s' ip = {}" unfolding f using own w(4) by blast
  have sz: "unat (i_size (ino s jp)) \<le> MAXFILE * BSIZE" using assms(4) by (simp add: file_ok_def)
  show "fdata s' jp = fdata s jp" unfolding fdata_def j using l(4) sz by (intro map_cong) auto
  have "used s' a" if "a \<in> fown s jp" for a using own [OF that] w(3) unfolding kept_def by blast
  then have "fown s jp \<subseteq> data_blocks s'" using own unfolding data_blocks_def res fs_frame_fields(1) [OF w(1)] by blast
  then have "layout_ok (data_blocks s') (blk s') (ino s jp)" using ok(2) l(1,2) unfolding inode_ok_def layout_ok_def by simp
  then show "file_ok s' jp" using assms(4) l(1) fs_frame_fields(1) [OF w(1)] unfolding file_ok_def inode_ok_def j by simp
qed



lemma fs_world_budget:
  assumes "\<And>n. length (d n) = BSIZE" and "ic ip = empty_inode n t" and "n < 200" and "t \<noteq> T_DEV"
  shows "file_budget 0 ip 20 (fs_world ic d x)" "i_size (ino (fs_world ic d x) ip) = 0" "fdata (fs_world ic d x) ip = []"
proof -
  let ?s = "fs_world ic d x"
  have i: "ino ?s ip = empty_inode n t" using assms(2) by (simp add: fs_world_fields)
  have "inode_ok ?s ip" using assms(3) i by (intro empty_inode_ok [of n _ _ t]) (simp_all add: fs_world_fields small_sb_def)
  then have f: "file_ok ?s ip" using assms(4) i by (simp add: file_ok_def empty_inode_fields)
  let ?F = "{m. m < sb_size (sb ?s) \<and> \<not> used ?s m}"
  have "of_nat m \<in> ?F" if "m \<in> {100..<120}" for m
  proof -
    have u: "unat (of_nat m :: uint) = m" using that by (intro unat_of_nat_small) simp
    then have l: "(of_nat m :: uint) < 1000" using that by (simp add: word_less_nat_alt)
    then show ?thesis using fs_world_used [of d "of_nat m" ic x, OF assms(1)] u that by (simp add: fs_world_fields small_sb_def)
  qed
  then have "of_nat ` {100..<120} \<subseteq> ?F" by blast
  moreover have "card ((of_nat :: nat \<Rightarrow> uint) ` {100..<120}) = 20"
    by (subst card_image) (auto intro!: inj_onI simp: word_of_nat_eq_iff take_bit_eq_mod)
  ultimately have "20 \<le> card ?F" using card_mono [of ?F "of_nat ` {100..<120}"] by simp
  then have "20 \<le> nfree ?s" by (simp add: nfree_def)
  then show "file_budget 0 ip 20 ?s" using f by (simp add: file_budget_def fs_world_tx(1) [of d, OF assms(1)] fs_world_ok [of d, OF assms(1)])
  show "i_size (ino ?s ip) = 0" "fdata ?s ip = []" using i by (simp_all add: empty_inode_fields fdata_def)
qed



end
