(* ===== verification/Ulib.thy ===== *)
theory Ulib
  imports Prelude
begin

text \<open>
  The user library \<open>ulib.c\<close>. A pointer into a character array is the list of the bytes from there to the end of the
  array, or, where the array is written, the array and an index; the string at a pointer are its bytes before the first 0
  (\<open>cstr\<close>). Running off the end of an array is the value \<open>None\<close>. The loops are those of the
  source, one byte per round.
\<close>

section \<open>Strings\<close>

definition cstr :: "uchar list \<Rightarrow> uchar list" where
  "cstr = takeWhile (\<lambda>c. c \<noteq> 0)"

fun ustrcpy :: "uchar list \<Rightarrow> nat \<Rightarrow> uchar list \<Rightarrow> uchar list option" where
  "ustrcpy s i [] = None"
| "ustrcpy s i (c # t) =
     (if i < length s then
        let s = s[i := c]
        in if c \<noteq> 0 then ustrcpy s (Suc i) t else Some s
      else None)"

fun ustrcmp :: "uchar list \<Rightarrow> uchar list \<Rightarrow> int option" where
  "ustrcmp (p # ps) (q # qs) = (if p \<noteq> 0 \<and> p = q then ustrcmp ps qs else Some (int (unat p) - int (unat q)))"
| "ustrcmp _ _ = None"

fun ustrlen :: "uchar list \<Rightarrow> nat option" where
  "ustrlen [] = None"
| "ustrlen (c # s) = (if c \<noteq> 0 then map_option Suc (ustrlen s) else Some 0)"

definition umemset :: "uchar list \<Rightarrow> nat \<Rightarrow> uint \<Rightarrow> nat \<Rightarrow> uchar list option" where
  "umemset s i c n = (if i + n \<le> length s then Some (take i s @ replicate n (ucast c) @ drop (i + n) s) else None)"

text \<open>The offset of the character found.\<close>

fun strchr :: "uchar list \<Rightarrow> uchar \<Rightarrow> nat option" where
  "strchr [] c = None"
| "strchr (x # s) c = (if x = 0 then None else if x = c then Some 0 else map_option Suc (strchr s c))"

text \<open>\<open>gets\<close>: the characters that \<open>read\<close> delivers come as a list; the loop ends when it is exhausted.\<close>

fun gets_loop :: "uchar list \<Rightarrow> nat \<Rightarrow> int \<Rightarrow> uchar list \<Rightarrow> uchar list \<times> nat \<times> uchar list" where
  "gets_loop b i m [] = (b, i, [])"
| "gets_loop b i m (c # cs) =
     (if int i + 1 < m then
        let b = b[i := c]
        in if c = 10 \<or> c = 13 then (b, Suc i, cs) else gets_loop b (Suc i) m cs
      else (b, i, c # cs))"

definition gets :: "uchar list \<Rightarrow> int \<Rightarrow> uchar list \<Rightarrow> uchar list \<times> uchar list" where
  "gets b m cs = (let (b, i, cs) = gets_loop b 0 m cs in (b[i := 0], cs))"

fun atoi_from :: "uint \<Rightarrow> uchar list \<Rightarrow> uint" where
  "atoi_from n [] = n"
| "atoi_from n (c # s) = (if 48 \<le> c \<and> c \<le> 57 then atoi_from (n * 10 + ucast c - 48) s else n)"

definition atoi :: "uchar list \<Rightarrow> int" where
  "atoi s = sint (atoi_from 0 s)"

text \<open>\<open>memmove\<close> inside one array; it copies upwards also where the regions overlap.\<close>

fun umemmove :: "uchar list \<Rightarrow> nat \<Rightarrow> nat \<Rightarrow> nat \<Rightarrow> uchar list" where
  "umemmove b dst src 0 = b"
| "umemmove b dst src (Suc n) = umemmove (b[dst := b ! src]) (Suc dst) (Suc src) n"

section \<open>What they compute\<close>

lemma strchr_SomeD:
  "strchr s c = Some k \<Longrightarrow> k < length s \<and> s ! k = c \<and> c \<noteq> 0 \<and> (\<forall>j < k. s ! j \<noteq> c \<and> s ! j \<noteq> 0)"
proof (induction s arbitrary: k)
  case (Cons x s)
  show ?case
  proof (cases k)
    case 0 then show ?thesis using Cons.prems by (auto split: if_splits)
  next
    case (Suc l)
    then have "strchr s c = Some l" "x \<noteq> 0" "x \<noteq> c" using Cons.prems by (auto split: if_splits)
    then show ?thesis using Cons.IH [of l] Suc by (simp add: All_less_Suc2)
  qed
qed simp

lemma strchr_append:
  "0 \<notin> set s \<Longrightarrow> c \<noteq> 0 \<Longrightarrow> strchr (s @ 0 # r) c = (if c \<in> set s then Some (length (takeWhile (\<lambda>x. x \<noteq> c) s)) else None)"
  by (induction s) auto

lemma length_umemmove [simp]: "length (umemmove b d s n) = length b"
  by (induction b d s n rule: umemmove.induct) simp_all

lemma umemmove_down:
  "d \<le> s \<Longrightarrow> s + n \<le> length b \<Longrightarrow> umemmove b d s n = take d b @ take n (drop s b) @ drop (d + n) b"
proof (induction n arbitrary: b d s)
  case (Suc n)
  have e: "drop (Suc s) (b[d := b ! s]) = drop (Suc s) b" using Suc.prems by simp
  have t: "take (Suc d) (b[d := b ! s]) = take d b @ [b ! s]" using Suc.prems by (simp add: take_Suc_conv_app_nth)
  have u: "take (Suc n) (drop s b) = b ! s # take n (drop (Suc s) b)" using Suc.prems by (simp add: Cons_nth_drop_Suc [symmetric])
  show ?case using Suc.IH [of "Suc d" "Suc s" "b[d := b ! s]"] Suc.prems by (simp add: e t u)
qed simp

lemma ustrlen_cstr: "0 \<in> set s \<Longrightarrow> ustrlen s = Some (length (cstr s))"
  by (induction s) (auto simp: cstr_def)

lemma ustrcmp_eq_0:
  "0 \<in> set p \<Longrightarrow> 0 \<in> set q \<Longrightarrow> \<exists>r. ustrcmp p q = Some r \<and> (r = 0 \<longleftrightarrow> cstr p = cstr q)"
proof (induction p q rule: ustrcmp.induct)
  case (1 p ps q qs)
  have "int (unat p) - int (unat q) = 0 \<longleftrightarrow> p = q" using unsigned_word_eqI [of p q] by auto
  then show ?case using 1 by (auto simp: cstr_def)
qed auto

lemma ustrcpy_cstr:
  assumes "0 \<in> set t" and "i + length (cstr t) < length s"
  shows "ustrcpy s i t = Some (take i s @ cstr t @ [0] @ drop (i + length (cstr t) + 1) s)"
  using assms
proof (induction s i t rule: ustrcpy.induct)
  case (2 s i c t)
  show ?case
  proof (cases "c = 0")
    case True then show ?thesis using 2(3) by (simp add: cstr_def upd_conv_take_nth_drop)
  next
    case False
    have t: "take (Suc i) (s[i := c]) = take i s @ [c]" using 2(3) by (simp add: take_Suc_conv_app_nth)
    show ?thesis using 2 False by (simp add: cstr_def t)
  qed
qed simp

end
