(* ===== verification/Grep.thy ===== *)
theory Grep
  imports Ulib
begin

text \<open>
  \<open>grep.c\<close>: the pattern matcher and the loop that reads a file through a buffer of 1024 bytes. Strings without
  their final 0 are lists of bytes. What \<open>read\<close> delivers is given by the bytes still to come and the number of bytes that
  each call returns at most; the bytes that \<open>write\<close> puts out are collected in a list.
\<close>

section \<open>The matcher\<close>

function (sequential) matchhere :: "uchar list \<Rightarrow> uchar list \<Rightarrow> bool"
  and matchstar :: "uchar \<Rightarrow> uchar list \<Rightarrow> uchar list \<Rightarrow> bool" where
  "matchhere [] tx = True"
| "matchhere (c # re) tx =
     (if re \<noteq> [] \<and> hd re = 42 then matchstar c (tl re) tx
      else if c = 36 \<and> re = [] then tx = []
      else if tx \<noteq> [] \<and> (c = 46 \<or> c = hd tx) then matchhere re (tl tx)
      else False)"
| "matchstar c re tx =
     (if matchhere re tx then True
      else if tx \<noteq> [] \<and> (hd tx = c \<or> c = 46) then matchstar c re (tl tx)
      else False)"
  by pat_completeness auto

termination
  by (relation "measures [\<lambda>x. case x of Inl (re, tx) \<Rightarrow> length re + length tx | Inr (c, re, tx) \<Rightarrow> length re + length tx,
      \<lambda>x. case x of Inl _ \<Rightarrow> 0 | Inr _ \<Rightarrow> 1]") (auto simp: neq_Nil_conv)

declare matchstar.simps [simp del]

fun match_from :: "uchar list \<Rightarrow> uchar list \<Rightarrow> bool" where
  "match_from re [] = matchhere re []"
| "match_from re (c # tx) = (if matchhere re (c # tx) then True else match_from re tx)"

definition match :: "uchar list \<Rightarrow> uchar list \<Rightarrow> bool" where
  "match re tx = (if re \<noteq> [] \<and> hd re = 94 then matchhere (tl re) tx else match_from re tx)"

section \<open>The loop over the file\<close>

function grep_lines :: "uchar list \<Rightarrow> uchar list \<Rightarrow> nat \<Rightarrow> uchar list \<Rightarrow> uchar list \<times> nat \<times> uchar list" where
  "grep_lines re b p out =
     (case strchr (drop p b) 10 of
        None \<Rightarrow> (b, p, out)
      | Some k \<Rightarrow>
          let q = p + k; b = b[q := 0]
          in if match re (cstr (drop p b)) then
               let b = b[q := 10]
               in grep_lines re b (q + 1) (out @ take (q + 1 - p) (drop p b))
             else grep_lines re b (q + 1) out)"
  by auto

termination
  by (relation "measure (\<lambda>(re, b, p, out). length b - p)") (auto dest: strchr_SomeD)

declare grep_lines.simps [simp del]

primrec grep_loop :: "uchar list \<Rightarrow> nat list \<Rightarrow> uchar list \<Rightarrow> nat \<Rightarrow> uchar list \<Rightarrow> uchar list \<Rightarrow> uchar list" where
  "grep_loop re [] inp m b out = out"
| "grep_loop re (n # ns) inp m b out =
     (let c = take (min n (1024 - m - 1)) inp; inp = drop (length c) inp
      in if c = [] then out
         else
           let b = take m b @ c @ drop (m + length c) b; m = m + length c; b = b[m := 0];
               (b, p, out) = grep_lines re b 0 out;
               m = if p = 0 then 0 else m
           in if 0 < m then
                let m = m - p; b = umemmove b 0 p m
                in grep_loop re ns inp m b out
              else grep_loop re ns inp m b out)"

text \<open>The buffer is static and starts as zeros; for each file it holds what the last one left.\<close>

definition grep :: "uchar list \<Rightarrow> nat list \<Rightarrow> uchar list \<Rightarrow> uchar list \<Rightarrow> uchar list" where
  "grep re ns inp b = grep_loop re ns inp 0 b []"

section \<open>Patterns and their languages\<close>

text \<open>What a pattern means: a sequence of items, each a character class or its repetition, and whether the text must end there.\<close>

datatype atom = Chr uchar | Dot

datatype item = One atom | Many atom

definition atom_of :: "uchar \<Rightarrow> atom" where
  "atom_of c = (if c = 46 then Dot else Chr c)"

fun parse :: "uchar list \<Rightarrow> item list \<times> bool" where
  "parse [] = ([], False)"
| "parse [c] = (if c = 36 then ([], True) else ([One (atom_of c)], False))"
| "parse (c # d # re) =
     (if d = 42 then apfst ((#) (Many (atom_of c))) (parse re) else apfst ((#) (One (atom_of c))) (parse (d # re)))"

fun allows :: "atom \<Rightarrow> uchar \<Rightarrow> bool" where
  "allows (Chr c) x = (x = c)"
| "allows Dot x = True"

fun item_lang :: "item \<Rightarrow> uchar list set" where
  "item_lang (One a) = {[x] | x. allows a x}"
| "item_lang (Many a) = {w. \<forall>x \<in> set w. allows a x}"

fun lang :: "item list \<Rightarrow> uchar list set" where
  "lang [] = {[]}"
| "lang (i # is') = {u @ v | u v. u \<in> item_lang i \<and> v \<in> lang is'}"

definition prefix_in :: "item list \<times> bool \<Rightarrow> uchar list \<Rightarrow> bool" where
  "prefix_in P tx \<longleftrightarrow> (\<exists>v w. tx = v @ w \<and> v \<in> lang (fst P) \<and> (snd P \<longrightarrow> w = []))"

lemma allows_atom_of [simp]: "allows (atom_of c) x \<longleftrightarrow> c = 46 \<or> c = x"
  by (auto simp: atom_of_def)

lemma prefix_in_Cons:
  "prefix_in (i # is', e) tx \<longleftrightarrow> (\<exists>u v. tx = u @ v \<and> u \<in> item_lang i \<and> prefix_in (is', e) v)"
proof
  assume "\<exists>u v. tx = u @ v \<and> u \<in> item_lang i \<and> prefix_in (is', e) v"
  then obtain u v w where "tx = (u @ v) @ w" "u \<in> item_lang i" "v \<in> lang is'" "e \<longrightarrow> w = []" by (auto simp: prefix_in_def)
  then show "prefix_in (i # is', e) tx" unfolding prefix_in_def by (intro exI [of _ "u @ v"] exI [of _ w]) auto
next
  assume "prefix_in (i # is', e) tx"
  then obtain u v w where "tx = (u @ v) @ w" "u \<in> item_lang i" "v \<in> lang is'" "e \<longrightarrow> w = []"
    unfolding prefix_in_def fst_conv snd_conv lang.simps by blast
  then show "\<exists>u v. tx = u @ v \<and> u \<in> item_lang i \<and> prefix_in (is', e) v"
    by (intro exI [of _ u] exI [of _ "v @ w"]) (auto simp: prefix_in_def)
qed

lemma prefix_in_simps:
  "prefix_in ([], e) tx \<longleftrightarrow> \<not> e \<or> tx = []"
  "prefix_in (One a # is', e) tx \<longleftrightarrow> (\<exists>x xs. tx = x # xs \<and> allows a x \<and> prefix_in (is', e) xs)"
  by (auto simp: prefix_in_def [of "([], e)"] prefix_in_Cons intro: exI [of _ "[x]" for x])

lemma ex_split_Cons: "(\<exists>u v. x # xs = u @ v \<and> Q u v) \<longleftrightarrow> Q [] (x # xs) \<or> (\<exists>u v. xs = u @ v \<and> Q (x # u) v)"
  by (metis append_Cons append_Nil Cons_eq_append_conv)

lemma prefix_in_Many:
  "prefix_in (Many a # is', e) tx \<longleftrightarrow> prefix_in (is', e) tx \<or> (\<exists>x xs. tx = x # xs \<and> allows a x \<and> prefix_in (Many a # is', e) xs)"
proof -
  have "(\<exists>u v. tx = u @ v \<and> (\<forall>x \<in> set u. allows a x) \<and> P v) \<longleftrightarrow>
      P tx \<or> (\<exists>x xs. tx = x # xs \<and> allows a x \<and> (\<exists>u v. xs = u @ v \<and> (\<forall>x \<in> set u. allows a x) \<and> P v))" for P
  proof (cases tx)
    case (Cons y ys)
    then show ?thesis by (auto simp: ex_split_Cons)
  qed simp
  then show ?thesis by (simp add: prefix_in_Cons)
qed

lemma matchhere_lang:
  "matchhere re tx \<longleftrightarrow> prefix_in (parse re) tx"
  "matchstar c re tx \<longleftrightarrow> prefix_in (apfst ((#) (Many (atom_of c))) (parse re)) tx"
proof (induction re tx and c re tx rule: matchhere_matchstar.induct)
  case (1 tx) show ?case by (simp add: prefix_in_simps)
next
  case (2 c re tx)
  show ?case
  proof (cases re)
    case Nil then show ?thesis using 2 by (auto simp: prefix_in_simps neq_Nil_conv)
  next
    case (Cons d r)
    then show ?thesis using 2 by (cases "parse re"; cases tx) (auto simp: prefix_in_simps apfst_def)
  qed
next
  case (3 c re tx)
  obtain is' e where p: "parse re = (is', e)" by fastforce
  show ?case using 3 unfolding p by (auto simp: matchstar.simps [of c re tx] p prefix_in_Many [of "atom_of c" is' e tx] neq_Nil_conv)
qed

lemma match_from_suffix: "match_from re tx \<longleftrightarrow> (\<exists>u v. tx = u @ v \<and> matchhere re v)"
  by (induction tx) (simp_all add: ex_split_Cons)

section \<open>Lines\<close>

text \<open>The lines of a text that a newline ends, and what follows the last newline.\<close>

fun clines :: "uchar list \<Rightarrow> uchar list list" where
  "clines [] = []"
| "clines (x # xs) =
     (if x = 10 then [] # clines xs
      else case clines xs of [] \<Rightarrow> [] | l # ls \<Rightarrow> (x # l) # ls)"

fun rest :: "uchar list \<Rightarrow> uchar list" where
  "rest [] = []"
| "rest (x # xs) = (if 10 \<in> set (x # xs) then rest xs else x # xs)"

lemma clines_Nil: "clines xs = [] \<longleftrightarrow> 10 \<notin> set xs"
  by (induction xs) (auto split: list.split)

lemma rest_id: "10 \<notin> set xs \<Longrightarrow> rest xs = xs"
  by (cases xs) auto

lemma no_newline_rest: "10 \<notin> set (rest xs)"
  by (induction xs) auto

lemma clines_append_line: "10 \<notin> set l \<Longrightarrow> clines (l @ 10 # xs) = l # clines xs"
  by (induction l) auto

lemma rest_append_line: "rest (l @ 10 # xs) = rest xs"
  by (induction l) auto

lemma clines_rest: "clines (xs @ ys) = clines xs @ clines (rest xs @ ys)"
proof (induction xs)
  case (Cons x xs)
  show ?case
  proof (cases "x \<noteq> 10 \<and> 10 \<notin> set xs")
    case True then have "clines (x # xs) = []" "rest (x # xs) = x # xs" by (auto simp: clines_Nil simp del: clines.simps)
    then show ?thesis by simp
  next
    case False
    then have "rest (x # xs) = rest xs" by auto
    then show ?thesis using Cons False clines_Nil [of xs] by (cases "clines xs") auto
  qed
qed simp

lemma length_rest: "length (rest xs) \<le> length xs" "10 \<in> set xs \<Longrightarrow> length (rest xs) < length xs"
proof -
  show le: "length (rest xs) \<le> length xs" for xs by (induction xs) auto
  show "10 \<in> set xs \<Longrightarrow> length (rest xs) < length xs" using le [of "tl xs"] by (cases xs) auto
qed

lemma set_rest: "set (rest xs) \<subseteq> set xs"
  by (induction xs) auto

definition printed :: "uchar list \<Rightarrow> uchar list \<Rightarrow> uchar list" where
  "printed re xs = concat (map (\<lambda>l. l @ [10]) (filter (match re) (clines xs)))"

lemma printed_append_line: "10 \<notin> set l \<Longrightarrow> printed re (l @ 10 # xs) = (if match re l then l @ [10] else []) @ printed re xs"
  by (simp add: printed_def clines_append_line)

lemma printed_rest: "printed re (xs @ ys) = printed re xs @ printed re (rest xs @ ys)"
  by (simp add: printed_def clines_rest [of xs ys])

text \<open>The inner loop prints the matching lines of the string in the buffer and stops behind the last newline.\<close>

lemma grep_lines_prints:
  assumes "b = pre @ ys @ 0 # r" and "0 \<notin> set ys"
  shows "\<exists>pre' b'. grep_lines re b (length pre) out = (b', length pre', out @ printed re ys) \<and> b' = pre' @ rest ys @ 0 # r \<and>
      length pre' + length (rest ys) = length pre + length ys"
  using assms
proof (induction "length ys" arbitrary: ys pre b out rule: less_induct)
  case less
  show ?case
  proof (cases "10 \<in> set ys")
    case False
    have "grep_lines re b (length pre) out = (b, length pre, out)"
      using less.prems False by (subst grep_lines.simps) (simp add: strchr_append)
    then show ?thesis using less.prems False by (auto simp: rest_id printed_def clines_Nil [THEN iffD2])
  next
    case True
    obtain l zs where ys: "ys = l @ 10 # zs" "10 \<notin> set l" using split_list_first [OF True] by blast
    have l: "takeWhile (\<lambda>x. x \<noteq> 10) ys = l" unfolding ys(1) using ys(2) by (subst takeWhile_append2) auto
    have s: "strchr (l @ 10 # zs @ 0 # r) 10 = Some (length l)"
      using strchr_append [of ys 10 r] less.prems True unfolding l by (simp add: ys(1))
    have c: "cstr (l @ 0 # zs @ 0 # r) = l" unfolding cstr_def using less.prems(2) ys(1) by (subst takeWhile_append2) auto
    let ?b0 = "(pre @ l @ [0]) @ zs @ 0 # r" and ?b1 = "(pre @ l @ [10]) @ zs @ 0 # r"
    have "grep_lines re b (length pre) out =
        (if match re l then grep_lines re ?b1 (length (pre @ l @ [10])) (out @ l @ [10])
         else grep_lines re ?b0 (length (pre @ l @ [0])) out)"
      by (subst grep_lines.simps) (simp add: s c less.prems(1) ys(1) list_update_append Let_def)
    moreover note less.hyps [of zs ?b0 "pre @ l @ [0]" out] less.hyps [of zs ?b1 "pre @ l @ [10]" "out @ l @ [10]"]
    ultimately show ?thesis using less.prems(2) ys by (auto simp: rest_append_line printed_append_line)
  qed
qed

lemma clines_open: "10 \<notin> set xs \<Longrightarrow> clines ys = l # ls \<Longrightarrow> clines (xs @ ys) = (xs @ l) # ls"
  by (induction xs) auto

lemma printed_no_line: "10 \<notin> set xs \<Longrightarrow> printed re xs = []"
  by (simp add: printed_def clines_Nil [THEN iffD2])

definition short_lines :: "uchar list \<Rightarrow> bool" where
  "short_lines xs \<longleftrightarrow> (\<forall>l \<in> set (clines xs). length l \<le> 1022)"

lemma long_line_open:
  assumes "short_lines (xs @ ys)" and "10 \<notin> set xs" and "length xs = 1023"
  shows "10 \<notin> set ys"
proof
  assume "10 \<in> set ys"
  then obtain l ls where "clines ys = l # ls" using clines_Nil [of ys] by (cases "clines ys") auto
  then show False using assms clines_open [of xs ys l ls] by (auto simp: short_lines_def)
qed

text \<open>One round of the loop: what has been read behind the text \<open>pend\<close> kept in the buffer is printed up to its last newline.\<close>

lemma grep_round:
  assumes "length b = 1024" and "take m b = pend" and "m \<le> 1022" and "0 \<notin> set (pend @ inp)" and "1023 \<le> n" and "inp \<noteq> []"
  obtains c inp' b' where "inp = c @ inp'" "c \<noteq> []" "m + length c \<le> 1023" "inp' \<noteq> [] \<longrightarrow> m + length c = 1023"
    "length b' = 1024" "take (length (rest (pend @ c))) b' = rest (pend @ c)"
    "grep_loop re (n # ns) inp m b out =
       grep_loop re ns inp' (if 10 \<in> set (pend @ c) then length (rest (pend @ c)) else 0) b' (out @ printed re (pend @ c))"
proof -
  define c inp' where "c = take (1023 - m) inp" and "inp' = drop (1023 - m) inp"
  let ?d = "rest (pend @ c)"
  have m: "length pend = m" using assms(1-3) by auto
  have inp: "inp = c @ inp'" "min n (1024 - m - 1) = 1023 - m" "drop (length c) inp = inp'" "c \<noteq> []"
    using assms(3,5,6) by (auto simp: c_def inp'_def min_def)
  have le: "m + length c \<le> 1023" "inp' \<noteq> [] \<longrightarrow> m + length c = 1023" using assms(3) by (auto simp: c_def inp'_def)
  define r where "r = drop (Suc (m + length c)) b"
  have b: "(take m b @ c @ drop (m + length c) b)[m + length c := 0] = (pend @ c) @ 0 # r"
    using le assms(1,2) m by (simp add: list_update_append r_def Cons_nth_drop_Suc [symmetric])
  obtain pre where g: "grep_lines re ((pend @ c) @ 0 # r) 0 out = (pre @ ?d @ 0 # r, length pre, out @ printed re (pend @ c))"
      "length pre + length ?d = m + length c"
    using grep_lines_prints [of "(pend @ c) @ 0 # r" "[]" "pend @ c" r re out] assms(4) m inp(1) by auto
  define b' where "b' = (if pre = [] then pre @ ?d @ 0 # r else umemmove (pre @ ?d @ 0 # r) 0 (length pre) (length ?d))"
  have b': "length b' = 1024" "take (length ?d) b' = ?d" using g(2) le assms(1) by (auto simp: b'_def r_def umemmove_down)
  have p: "pre = [] \<longleftrightarrow> 10 \<notin> set (pend @ c)" using length_rest(2) [of "pend @ c"] rest_id [of "pend @ c"] g(2) m by fastforce
  have "m + length c - length pre = length ?d" using g(2) by simp
  then have "grep_loop re (n # ns) inp m b out =
      grep_loop re ns inp' (if 10 \<in> set (pend @ c) then length ?d else 0) b' (out @ printed re (pend @ c))"
    unfolding grep_loop.simps Let_def inp(2) c_def [symmetric] inp(3) b g(1) prod.case using p inp(4) by (simp add: b'_def)
  then show thesis using that [of c inp' b'] inp le b' by blast
qed

lemma grep_loop_prints:
  assumes "length b = 1024" and "take m b = pend" and "m \<le> 1022" and "10 \<notin> set pend" and "0 \<notin> set (pend @ inp)"
    and "short_lines (pend @ inp)" and "\<forall>n \<in> set ns. 1023 \<le> n" and "length inp < length ns"
  shows "grep_loop re ns inp m b out = out @ printed re (pend @ inp)"
  using assms
proof (induction ns arbitrary: inp m b out pend)
  case (Cons n ns)
  show ?case
  proof (cases "inp = []")
    case True then show ?thesis using Cons.prems(4) by (simp add: printed_no_line)
  next
    case False
    have m: "length pend = m" and n: "1023 \<le> n" using Cons.prems by auto
    obtain c inp' b' where s: "inp = c @ inp'" "c \<noteq> []" "m + length c \<le> 1023" "inp' \<noteq> [] \<longrightarrow> m + length c = 1023"
      "length b' = 1024" "take (length (rest (pend @ c))) b' = rest (pend @ c)"
      "grep_loop re (n # ns) inp m b out =
         grep_loop re ns inp' (if 10 \<in> set (pend @ c) then length (rest (pend @ c)) else 0) b' (out @ printed re (pend @ c))"
      by (rule grep_round [OF Cons.prems(1,2,3,5) n False])
    have ns: "length inp' < length ns" "\<forall>n \<in> set ns. 1023 \<le> n" using Cons.prems(7,8) s(1,2) by (cases c; simp)+
    show ?thesis
    proof (cases "10 \<in> set (pend @ c)")
      case True
      have "grep_loop re ns inp' (length (rest (pend @ c))) b' (out @ printed re (pend @ c)) =
          (out @ printed re (pend @ c)) @ printed re (rest (pend @ c) @ inp')"
      proof (rule Cons.IH)
        show "0 \<notin> set (rest (pend @ c) @ inp')" using Cons.prems(5) set_rest [of "pend @ c"] s(1) by auto
        show "short_lines (rest (pend @ c) @ inp')"
          using Cons.prems(6) clines_rest [of "pend @ c" inp'] by (auto simp: short_lines_def s(1))
      qed (use s(1-6) ns no_newline_rest length_rest(2) [OF True] m in auto)
      then show ?thesis using True printed_rest [of re "pend @ c" inp'] unfolding s(7) by (simp add: s(1))
    next
      case no: False
      have n10: "10 \<notin> set inp'"
      proof (cases "inp' = []")
        case False
        with s(4) have l: "length (pend @ c) = 1023" unfolding length_append m by (rule mp)
        have "short_lines ((pend @ c) @ inp')" using Cons.prems(6) unfolding s(1) append_assoc .
        from this no l show ?thesis by (rule long_line_open)
      qed simp
      have "grep_loop re ns inp' 0 b' out = out @ printed re ([] @ inp')"
        by (rule Cons.IH) (use s(1,5) ns n10 Cons.prems(5) in \<open>simp_all add: short_lines_def clines_Nil [THEN iffD2]\<close>)
      then show ?thesis using no n10 unfolding s(7) by (simp add: s(1) printed_no_line)
    qed
  qed
qed simp

section \<open>Correctness\<close>

text \<open>C16: \<open>match\<close> decides the language of its pattern: it accepts a text exactly when some part of it, at
  its beginning when the pattern starts with a caret and up to its end when the pattern ends with a dollar, belongs to
  the language of the items of the pattern, the recursion of \<open>matchhere\<close> and \<open>matchstar\<close> giving
  the same as trying all ways to cut the text.\<close>

theorem match_equals_language:
  "match re tx \<longleftrightarrow>
     (let anchored = re \<noteq> [] \<and> hd re = 94; P = parse (if anchored then tl re else re)
      in \<exists>u v w. tx = u @ v @ w \<and> v \<in> lang (fst P) \<and> (anchored \<longrightarrow> u = []) \<and> (snd P \<longrightarrow> w = []))"
  unfolding match_def Let_def match_from_suffix matchhere_lang(1) prefix_in_def by auto

text \<open>The pattern \<open>^ab*$\<close> and the text \<open>abb\<close>.\<close>

theorem match_equals_language_witness: "match [94, 97, 98, 42, 36] [97, 98, 98]"
proof -
  have "[97, 98, 98] \<in> lang [One (Chr 97), Many (Chr 98)]"
    by (simp add: exI [of _ "[98, 98]"] exI [of _ "[97]"])
  then show ?thesis unfolding match_equals_language
    by (simp add: Let_def atom_of_def exI [of _ "[]"] exI [of _ "[97, 98, 98]"] del: lang.simps)
qed

text \<open>C24: run on a file whose lines have at most 1022 characters and that has no 0 byte, with every \<open>read\<close>
  filling the room left in the buffer, \<open>grep\<close> writes exactly the lines that match, each with its newline, in their
  order, wherever the ends of the buffer cut them; what follows the last newline is not printed.\<close>

theorem grep_prints_matching_lines:
  assumes "length b = 1024" and "0 \<notin> set inp" and "\<forall>l \<in> set (clines inp). length l \<le> 1022"
    and "\<forall>n \<in> set ns. 1023 \<le> n" and "length inp < length ns"
  shows "grep re ns inp b = concat (map (\<lambda>l. l @ [10]) (filter (match re) (clines inp)))"
  unfolding grep_def printed_def [symmetric]
  using grep_loop_prints [of b 0 "[]" inp ns re "[]"] assms by (simp add: short_lines_def)

text \<open>Pattern \<open>a.*b$\<close> on the lines \<open>xayb\<close>, \<open>ab c\<close> and \<open>aab\<close>, the last one not ended.\<close>

theorem grep_prints_matching_lines_witness:
  "grep [97, 46, 42, 98, 36] (replicate 20 1023) [120, 97, 121, 98, 10, 97, 98, 32, 99, 10, 97, 97, 98] (replicate 1024 0) = [120, 97, 121, 98, 10]"
proof -
  let ?re = "[97, 46, 42, 98, 36] :: uchar list"
  have m: "match ?re [120, 97, 121, 98]" "\<not> match ?re [97, 98, 32, 99]"
    by (simp_all add: match_def matchstar.simps)
  show ?thesis by (subst grep_prints_matching_lines) (simp_all add: m)
qed

text \<open>A read that ends inside a line, as from a pipe, makes \<open>grep\<close> forget what it has read of the line.\<close>

lemma grep_short_read_loses:
  "grep [97] [1, 1, 1, 1] [97, 98, 10] (replicate 1024 0) = []"
  "match [97] [97, 98]"
proof -
  have l: "grep_lines re (x # 0 # r) 0 out = (x # 0 # r, 0, out)" if "x \<noteq> 10" "x \<noteq> 0" for re out r and x :: uchar
    using that by (subst grep_lines.simps) simp
  have nl: "grep_lines [97] (10 # 0 # r) 0 out = (0 # 0 # r, 1, out)" for out r
    by (subst grep_lines.simps) (simp add: cstr_def match_def, subst grep_lines.simps, simp)
  have r: "replicate 1024 (0 :: uchar) = 0 # 0 # replicate 1022 0"
    using replicate_add [of "Suc (Suc 0)" 1022 "0 :: uchar"] by simp
  show "grep [97] [1, 1, 1, 1] [97, 98, 10] (replicate 1024 0) = []"
    unfolding r by (simp add: grep_def l nl)
qed (simp add: match_def)

end
