(* ===== verification/Umalloc.thy ===== *)
theory Umalloc
  imports Prelude
begin

text \<open>
  \<open>umalloc.c\<close>: the allocator of the user library. Memory is a store of headers, one at each address where the
  code has one; a header takes 8 bytes, so \<open>p + n\<close> on header pointers is \<open>p + 8 * n\<close> here.
  \<open>base\<close> is the address of the static header. \<open>sbrk\<close> moves the end \<open>brk\<close> of the heap;
  \<open>grants brk n\<close> tells whether the kernel lets it grow by \<open>n\<close> bytes. The loops may in principle run for ever
  on a broken list, so they are partial functions, and that they end is proved.
\<close>

section \<open>State\<close>

record header =
  h_ptr :: uint
  h_size :: uint

record umem =
  hdr :: "uint \<Rightarrow> header"
  freep :: uint
  brk :: uint

definition upd_hdr :: "uint \<Rightarrow> (header \<Rightarrow> header) \<Rightarrow> umem \<Rightarrow> umem" where
  "upd_hdr a f s = s\<lparr>hdr := (hdr s)(a := f (hdr s a))\<rparr>"

section \<open>free\<close>

partial_function (option) free_find :: "uint \<Rightarrow> umem \<Rightarrow> uint \<Rightarrow> uint option" where
  "free_find bp s p =
     (let q = h_ptr (hdr s p)
      in if bp > p \<and> bp < q then Some p
         else if p \<ge> q \<and> (bp > p \<or> bp < q) then Some p
         else free_find bp s q)"

definition free_link :: "uint \<Rightarrow> uint \<Rightarrow> umem \<Rightarrow> umem" where
  "free_link bp p s =
     (let q = h_ptr (hdr s p);
          s = (if bp + 8 * h_size (hdr s bp) = q
               then upd_hdr bp (\<lambda>h. h\<lparr>h_size := h_size h + h_size (hdr s q), h_ptr := h_ptr (hdr s q)\<rparr>) s
               else upd_hdr bp (\<lambda>h. h\<lparr>h_ptr := q\<rparr>) s);
          s = (if p + 8 * h_size (hdr s p) = bp
               then upd_hdr p (\<lambda>h. h\<lparr>h_size := h_size h + h_size (hdr s bp), h_ptr := h_ptr (hdr s bp)\<rparr>) s
               else upd_hdr p (\<lambda>h. h\<lparr>h_ptr := bp\<rparr>) s)
      in s\<lparr>freep := p\<rparr>)"

definition ufree :: "uint \<Rightarrow> umem \<Rightarrow> umem option" where
  "ufree ap s =
     (let bp = ap - 8
      in case free_find bp s (freep s) of None \<Rightarrow> None | Some p \<Rightarrow> Some (free_link bp p s))"

section \<open>malloc\<close>

definition sbrk :: "(uint \<Rightarrow> uint \<Rightarrow> bool) \<Rightarrow> uint \<Rightarrow> umem \<Rightarrow> (uint \<times> umem) option" where
  "sbrk grants n s = (if grants (brk s) n then Some (brk s, s\<lparr>brk := brk s + n\<rparr>) else None)"

definition morecore :: "(uint \<Rightarrow> uint \<Rightarrow> bool) \<Rightarrow> uint \<Rightarrow> umem \<Rightarrow> (uint \<times> umem) option" where
  "morecore grants nu s =
     (let nu = (if nu < 4096 then 4096 else nu)
      in case sbrk grants (nu * 8) s of
           None \<Rightarrow> Some (0, s)
         | Some (p, s) \<Rightarrow>
             (case ufree (p + 8) (upd_hdr p (\<lambda>h. h\<lparr>h_size := nu\<rparr>) s) of
                None \<Rightarrow> None
              | Some s \<Rightarrow> Some (freep s, s)))"

definition malloc_take :: "uint \<Rightarrow> uint \<Rightarrow> uint \<Rightarrow> umem \<Rightarrow> uint \<times> umem" where
  "malloc_take nunits prevp p s =
     (let (p, s) =
        (if h_size (hdr s p) = nunits then (p, upd_hdr prevp (\<lambda>h. h\<lparr>h_ptr := h_ptr (hdr s p)\<rparr>) s)
         else
           let s = upd_hdr p (\<lambda>h. h\<lparr>h_size := h_size h - nunits\<rparr>) s;
               p = p + 8 * h_size (hdr s p)
           in (p, upd_hdr p (\<lambda>h. h\<lparr>h_size := nunits\<rparr>) s))
      in (p + 8, s\<lparr>freep := prevp\<rparr>))"

partial_function (option) malloc_loop :: "(uint \<Rightarrow> uint \<Rightarrow> bool) \<Rightarrow> uint \<Rightarrow> uint \<Rightarrow> uint \<Rightarrow> umem \<Rightarrow> (uint \<times> umem) option" where
  "malloc_loop grants nunits prevp p s =
     (if h_size (hdr s p) \<ge> nunits then Some (malloc_take nunits prevp p s)
      else if p = freep s then
        (case morecore grants nunits s of
           None \<Rightarrow> None
         | Some (p, s) \<Rightarrow> if p = 0 then Some (0, s) else malloc_loop grants nunits p (h_ptr (hdr s p)) s)
      else malloc_loop grants nunits p (h_ptr (hdr s p)) s)"

definition malloc :: "(uint \<Rightarrow> uint \<Rightarrow> bool) \<Rightarrow> uint \<Rightarrow> uint \<Rightarrow> umem \<Rightarrow> (uint \<times> umem) option" where
  "malloc grants base nbytes s =
     (let nunits = (nbytes + 8 - 1) div 8 + 1;
          s = (if freep s = 0 then (upd_hdr base (\<lambda>h. h\<lparr>h_ptr := base, h_size := 0\<rparr>) s)\<lparr>freep := base\<rparr> else s);
          prevp = freep s
      in malloc_loop grants nunits prevp (h_ptr (hdr s prevp)) s)"

section \<open>The circular list\<close>

text \<open>\<open>chain s a bs z\<close>: the pointers lead from \<open>a\<close> through \<open>bs\<close> to \<open>z\<close>.\<close>

fun chain :: "umem \<Rightarrow> uint \<Rightarrow> uint list \<Rightarrow> uint \<Rightarrow> bool" where
  "chain s a [] z \<longleftrightarrow> h_ptr (hdr s a) = z"
| "chain s a (b # bs) z \<longleftrightarrow> h_ptr (hdr s a) = b \<and> chain s b bs z"

definition bend :: "umem \<Rightarrow> uint \<Rightarrow> nat" where
  "bend s b = unat b + 8 * unat (h_size (hdr s b))"

definition region :: "umem \<Rightarrow> uint \<Rightarrow> nat set" where
  "region s b = {unat b ..< bend s b}"

text \<open>The blocks \<open>bs\<close> lie in this order, apart from each other, between \<open>lo\<close> and \<open>hi\<close>.\<close>

fun spaced :: "umem \<Rightarrow> nat \<Rightarrow> uint list \<Rightarrow> nat \<Rightarrow> bool" where
  "spaced s lo [] hi \<longleftrightarrow> lo \<le> hi"
| "spaced s lo (b # bs) hi \<longleftrightarrow> lo \<le> unat b \<and> 0 < h_size (hdr s b) \<and> spaced s (bend s b) bs hi"

definition ring :: "uint \<Rightarrow> umem \<Rightarrow> uint list \<Rightarrow> bool" where
  "ring base s bs \<longleftrightarrow> chain s base bs base \<and> h_size (hdr s base) = 0 \<and> 0 < base \<and> spaced s (unat base + 8) bs (unat (brk s)) \<and>
     freep s \<in> set (base # bs)"

lemma chain_append: "chain s a (bs @ c # cs) z \<longleftrightarrow> chain s a bs c \<and> chain s c cs z"
  by (induction bs arbitrary: a) auto

lemma chain_cong: "(\<And>x. x \<in> set (a # bs) \<Longrightarrow> h_ptr (hdr s' x) = h_ptr (hdr s x)) \<Longrightarrow> chain s' a bs z = chain s a bs z"
  by (induction bs arbitrary: a) auto

lemma spaced_cong: "(\<And>x. x \<in> set bs \<Longrightarrow> h_size (hdr s' x) = h_size (hdr s x)) \<Longrightarrow> spaced s' lo bs hi = spaced s lo bs hi"
  by (induction bs arbitrary: lo) (auto simp: bend_def)

lemma bend_gt: "0 < h_size (hdr s b) \<Longrightarrow> unat b + 8 \<le> bend s b"
  by (simp add: bend_def word_less_nat_alt)

lemma spaced_append: "spaced s lo (bs @ cs) hi \<longleftrightarrow> (\<exists>m. spaced s lo bs m \<and> spaced s m cs hi)"
proof (induction bs arbitrary: lo)
  case Nil
  have mono: "spaced s m cs hi \<Longrightarrow> lo \<le> m \<Longrightarrow> spaced s lo cs hi" for m by (cases cs) auto
  show ?case using mono by auto
qed auto

lemma spaced_mono: "spaced s m cs hi \<Longrightarrow> lo \<le> m \<Longrightarrow> spaced s lo cs hi"
  by (cases cs) auto

lemma spaced_le: "spaced s lo bs hi \<Longrightarrow> lo \<le> hi"
proof (induction bs arbitrary: lo)
  case (Cons b bs) then show ?case using bend_gt [of s b] by fastforce
qed simp

lemma spaced_mem: "spaced s lo bs hi \<Longrightarrow> b \<in> set bs \<Longrightarrow> lo \<le> unat b \<and> unat b + 8 \<le> bend s b \<and> bend s b \<le> hi"
proof (induction bs arbitrary: lo)
  case (Cons c bs)
  then show ?case using bend_gt [of s c] spaced_le [of s "bend s c" bs hi] by fastforce
qed simp

lemma spaced_sorted: "spaced s lo bs hi \<Longrightarrow> sorted_wrt (<) bs"
proof (induction bs arbitrary: lo)
  case (Cons b bs)
  have s: "spaced s (bend s b) bs hi" "unat b + 8 \<le> bend s b" using Cons.prems bend_gt [of s b] by auto
  have "b < x" if "x \<in> set bs" for x using spaced_mem [OF s(1) that] s(2) by (simp add: word_less_nat_alt)
  then show ?case using Cons.IH [OF s(1)] by simp
qed simp

definition blocks :: "umem \<Rightarrow> uint list \<Rightarrow> nat set" where
  "blocks s bs = (\<Union>b \<in> set bs. region s b)"

lemma blocks_simps [simp]: "blocks s [] = {}" "blocks s (b # bs) = region s b \<union> blocks s bs" "blocks s (bs @ cs) = blocks s bs \<union> blocks s cs"
  by (auto simp: blocks_def)

lemma blocks_cong: "(\<And>x. x \<in> set bs \<Longrightarrow> h_size (hdr s' x) = h_size (hdr s x)) \<Longrightarrow> blocks s' bs = blocks s bs"
  by (simp add: blocks_def region_def bend_def)

lemma blocks_bounds: "spaced s lo bs hi \<Longrightarrow> x \<in> blocks s bs \<Longrightarrow> lo \<le> x \<and> x < hi"
  using spaced_mem by (fastforce simp: blocks_def region_def)

text \<open>A block apart from the free ones has its place between them.\<close>

lemma insert_split:
  assumes "spaced s lo bs hi" and "lo \<le> unat b" and "0 < h_size (hdr s b)" and "bend s b \<le> hi" and "blocks s bs \<inter> region s b = {}"
  obtains xs ys where "bs = xs @ ys" "spaced s lo xs (unat b)" "spaced s (bend s b) ys hi"
proof -
  have "\<exists>xs ys. bs = xs @ ys \<and> spaced s lo xs (unat b) \<and> spaced s (bend s b) ys hi"
    using assms(1,2,5)
  proof (induction bs arbitrary: lo)
    case Nil then show ?case using assms(4) by auto
  next
    case (Cons c bs)
    have b: "unat b < bend s b" "unat c < bend s c" using Cons.prems(1) assms(3) bend_gt [of s b] bend_gt [of s c] by auto
    then have "bend s c \<le> unat b \<or> bend s b \<le> unat c" using Cons.prems(3) by (auto simp: region_def Int_Un_distrib2)
    then show ?case
    proof
      assume "bend s b \<le> unat c"
      then show ?thesis using Cons.prems by (intro exI [of _ "[]"] exI [of _ "c # bs"]) auto
    next
      assume le: "bend s c \<le> unat b"
      obtain xs ys where "bs = xs @ ys" "spaced s (bend s c) xs (unat b)" "spaced s (bend s b) ys hi"
        using Cons.IH [of "bend s c"] Cons.prems le by (auto simp: Int_Un_distrib2)
      then show ?thesis using Cons.prems by (intro exI [of _ "c # xs"] exI [of _ ys]) auto
    qed
  qed
  then show thesis using that by blast
qed

section \<open>Finding the place\<close>

lemma find_from_below:
  assumes "chain s a (vs @ ys) base" and "sorted_wrt (<) (a # vs)" and "\<And>x. x \<in> set (a # vs) \<Longrightarrow> x < bp"
    and "\<And>y. y \<in> set ys \<Longrightarrow> bp < y" and "base \<le> a"
  shows "free_find bp s a = Some (last (a # vs))"
  using assms
proof (induction vs arbitrary: a)
  case Nil
  then show ?case by (subst free_find.simps) (cases ys; auto simp: Let_def)
next
  case (Cons b vs)
  have q: "h_ptr (hdr s a) = b" "a < b" "b < bp" using Cons.prems by auto
  have "free_find bp s b = Some (last (b # vs))" using Cons.prems q by (intro Cons.IH) auto
  then show ?case using q by (subst free_find.simps) (auto simp: Let_def)
qed

lemma find_from_above:
  assumes "chain s a vs base" and "sorted_wrt (<) (a # vs)" and "bp < a" and "base < bp"
  shows "free_find bp s a = free_find bp s base"
  using assms
proof (induction vs arbitrary: a)
  case Nil
  then show ?case by (subst free_find.simps) (auto simp: Let_def)
next
  case (Cons b vs)
  have q: "h_ptr (hdr s a) = b" "a < b" using Cons.prems by auto
  have "free_find bp s b = free_find bp s base" using Cons.prems q by (intro Cons.IH) auto
  then show ?case using q Cons.prems(3) by (subst free_find.simps) (auto simp: Let_def)
qed

lemma free_find_place:
  assumes "ring base s (xs @ ys)" and "spaced s (unat base + 8) xs (unat bp)" and "spaced s (bend s bp) ys hi" and "0 < h_size (hdr s bp)"
  shows "free_find bp s (freep s) = Some (last (base # xs))"
proof -
  have ch: "chain s base (xs @ ys) base" and f: "freep s \<in> set (base # xs @ ys)" using assms(1) by (auto simp: ring_def)
  have lt: "x < bp" "base < x" if "x \<in> set xs" for x using spaced_mem [OF assms(2) that] by (auto simp: word_less_nat_alt)
  have gt: "bp < y" if "y \<in> set ys" for y using spaced_mem [OF assms(3) that] bend_gt [OF assms(4)] by (auto simp: word_less_nat_alt)
  have b: "base < bp" using spaced_le [OF assms(2)] by (simp add: word_less_nat_alt)
  have base: "free_find bp s base = Some (last (base # xs))"
    by (rule find_from_below [OF ch]) (use lt gt b spaced_sorted [OF assms(2)] in auto)
  consider "freep s = base" | "freep s \<in> set xs" | "freep s \<in> set ys" using f by auto
  then show ?thesis
  proof cases
    case 2
    then obtain us vs where xs: "xs = us @ freep s # vs" by (auto simp: in_set_conv_decomp)
    have "chain s (freep s) (vs @ ys) base" using ch by (simp add: xs chain_append)
    then have "free_find bp s (freep s) = Some (last (freep s # vs))"
      by (rule find_from_below) (use lt gt spaced_sorted [OF assms(2)] in \<open>auto simp: xs sorted_wrt_append less_imp_le\<close>)
    then show ?thesis by (simp add: xs)
  next
    case 3
    then obtain us vs where ys: "ys = us @ freep s # vs" by (auto simp: in_set_conv_decomp)
    have "chain s base ((xs @ us) @ freep s # vs) base" using ch by (simp add: ys)
    then have "chain s (freep s) vs base" by (simp only: chain_append)
    then have "free_find bp s (freep s) = free_find bp s base"
      by (rule find_from_above) (use gt b spaced_sorted [OF assms(3)] in \<open>auto simp: ys sorted_wrt_append\<close>)
    then show ?thesis using base by simp
  qed (use base in simp)
qed

section \<open>Linking and merging\<close>

lemma hdr_upd_hdr [simp]:
  "hdr (upd_hdr a f s) x = (if x = a then f (hdr s a) else hdr s x)" "freep (upd_hdr a f s) = freep s" "brk (upd_hdr a f s) = brk s"
  by (simp_all add: upd_hdr_def)

lemma unat_bend: "bend s b < 2 ^ 32 \<Longrightarrow> unat (b + 8 * h_size (hdr s b)) = bend s b"
  by (simp add: bend_def unat_word_ariths)

lemma chain_start:
  "h_ptr (hdr s' a') = h_ptr (hdr s a) \<Longrightarrow> (\<And>x. x \<in> set bs \<Longrightarrow> h_ptr (hdr s' x) = h_ptr (hdr s x)) \<Longrightarrow> chain s' a' bs z = chain s a bs z"
  using chain_cong [of "hd bs" "tl bs" s' s z] by (cases bs) auto

lemma merged:
  assumes "h_size (hdr s' a) = h_size (hdr s a) + h_size (hdr s b)" and "bend s a = unat b" and "bend s b < 2 ^ 32"
  shows "bend s' a = bend s b" and "region s' a = region s a \<union> region s b"
proof -
  have "unat (h_size (hdr s a) + h_size (hdr s b)) = unat (h_size (hdr s a)) + unat (h_size (hdr s b))"
    using assms(2,3) by (simp add: bend_def unat_word_ariths)
  then show e: "bend s' a = bend s b" using assms(1,2) by (simp add: bend_def)
  have "unat a \<le> bend s a" "unat b \<le> bend s b" by (simp_all add: bend_def)
  then show "region s' a = region s a \<union> region s b" using assms(2) e by (auto simp: region_def)
qed

lemma link_right:
  assumes "chain s t ys base" and "spaced s (bend s bp) ys hi" and "0 < h_size (hdr s bp)" and "hi < 2 ^ 32" and "base < bp" and "bp \<notin> set ys"
  defines "q \<equiv> h_ptr (hdr s t)"
  defines "s1 \<equiv> (if bp + 8 * h_size (hdr s bp) = q
               then upd_hdr bp (\<lambda>h. h\<lparr>h_size := h_size h + h_size (hdr s q), h_ptr := h_ptr (hdr s q)\<rparr>) s
               else upd_hdr bp (\<lambda>h. h\<lparr>h_ptr := q\<rparr>) s)"
  shows "\<exists>ys1. chain s1 bp ys1 base \<and> spaced s1 (bend s1 bp) ys1 hi \<and> 0 < h_size (hdr s1 bp) \<and> set ys1 \<subseteq> set ys \<and>
    region s bp \<subseteq> region s1 bp \<and> blocks s1 (bp # ys1) = blocks s (bp # ys)"
proof -
  have e: "unat (bp + 8 * h_size (hdr s bp)) = bend s bp" using spaced_le [OF assms(2)] assms(4) by (intro unat_bend) simp
  show ?thesis
  proof (cases "bp + 8 * h_size (hdr s bp) = q")
    case False
    then have h: "h_ptr (hdr s1 bp) = q" "\<And>x. h_size (hdr s1 x) = h_size (hdr s x)" "\<And>x. x \<noteq> bp \<Longrightarrow> hdr s1 x = hdr s x" by (simp_all add: s1_def)
    have "chain s1 bp ys base = chain s t ys base" by (rule chain_start) (use h assms(6) in \<open>metis q_def\<close>)+
    then show ?thesis using assms(1-3) h(2) spaced_cong [of ys s1 s] blocks_cong [of "bp # ys" s1 s]
      by (intro exI [of _ ys]) (auto simp: bend_def region_def)
  next
    case True
    show ?thesis
    proof (cases ys)
      case Nil
      then have "q = base" using assms(1) by (simp add: q_def)
      then show ?thesis using True e assms(5) bend_gt [OF assms(3)] by (simp add: word_less_nat_alt)
    next
      case (Cons y zs)
      have y: "q = y" "bend s bp = unat y" "chain s y zs base" using True e assms(1) by (auto simp: Cons q_def)
      have z: "spaced s (bend s y) zs hi" "bend s y < 2 ^ 32" using assms(2,4) spaced_le [of s "bend s y" zs hi] by (auto simp: Cons)
      have h: "h_ptr (hdr s1 bp) = h_ptr (hdr s y)" "h_size (hdr s1 bp) = h_size (hdr s bp) + h_size (hdr s y)" "\<And>x. x \<noteq> bp \<Longrightarrow> hdr s1 x = hdr s x"
        using True by (simp_all add: s1_def y(1))
      note m = merged [OF h(2) y(2) z(2)]
      have n: "hdr s1 x = hdr s x" if "x \<in> set zs" for x using assms(6) that by (intro h(3)) (auto simp: Cons)
      have "0 < h_size (hdr s1 bp)" using bend_gt [OF assms(3)] m(1) y(2) bend_gt [of s y] assms(2)
        by (auto simp: Cons bend_def word_less_nat_alt)
      moreover have "spaced s1 (bend s1 bp) zs hi" using z(1) spaced_cong [of zs s1 s] n by (simp add: m(1))
      moreover have "chain s1 bp zs base" using y(3) chain_start [of s1 bp s y zs base] h(1) n by simp
      moreover have "blocks s1 zs = blocks s zs" using n by (intro blocks_cong) simp
      ultimately show ?thesis by (intro exI [of _ zs]) (auto simp: m(2) Cons)
    qed
  qed
qed

lemma link_left:
  assumes "chain s base xs z" and "spaced s (unat base + 8) xs (unat bp)" and "chain s bp ys base" and "spaced s (bend s bp) ys hi"
    and "0 < h_size (hdr s bp)" and "hi < 2 ^ 32" and "h_size (hdr s base) = 0" and "base < bp"
  defines "t \<equiv> last (base # xs)"
  defines "s2 \<equiv> (if t + 8 * h_size (hdr s t) = bp
               then upd_hdr t (\<lambda>h. h\<lparr>h_size := h_size h + h_size (hdr s bp), h_ptr := h_ptr (hdr s bp)\<rparr>) s
               else upd_hdr t (\<lambda>h. h\<lparr>h_ptr := bp\<rparr>) s)"
  shows "\<exists>bs. chain s2 base bs base \<and> spaced s2 (unat base + 8) bs hi \<and> h_size (hdr s2 base) = 0 \<and> t \<in> set (base # bs) \<and>
    set bs \<subseteq> set (xs @ bp # ys) \<and> (\<exists>b \<in> set bs. region s bp \<subseteq> region s2 b) \<and> blocks s2 bs = blocks s (xs @ bp # ys)"
proof -
  have gt: "bp < y" if "y \<in> set ys" for y using spaced_mem [OF assms(4) that] bend_gt [OF assms(5)] by (auto simp: word_less_nat_alt)
  have lt: "x < bp" "base < x" if "x \<in> set xs" for x using spaced_mem [OF assms(2) that] by (auto simp: word_less_nat_alt)
  have t: "t < bp" using lt(1) [of t] assms(8) by (auto simp: t_def split: if_splits)
  then have t: "t < bp" "t \<notin> set (bp # ys)" using gt [of t] by auto
  show ?thesis
  proof (cases xs rule: rev_cases)
    case Nil
    have s2: "s2 = upd_hdr base (\<lambda>h. h\<lparr>h_ptr := bp\<rparr>) s" using assms(7,8) by (auto simp: s2_def t_def Nil)
    have "chain s2 bp ys base = chain s bp ys base" by (rule chain_cong) (use t Nil in \<open>auto simp: s2 t_def\<close>)
    moreover have "spaced s2 lo ys hi = spaced s lo ys hi" "blocks s2 ys = blocks s ys" for lo
      by (rule spaced_cong blocks_cong, simp add: s2)+
    ultimately show ?thesis using assms(3-5,7) spaced_le [OF assms(2)]
      by (intro exI [of _ "bp # ys"]) (auto simp: s2 Nil t_def bend_def region_def)
  next
    case (snoc us u)
    obtain m where u: "t = u" "chain s base us t" "spaced s (unat base + 8) us m" "m \<le> unat t" "0 < h_size (hdr s t)" "bend s t \<le> unat bp"
      using assms(1,2) by (auto simp: snoc t_def chain_append spaced_append)
    have nt: "hdr s2 x = hdr s x" if "x \<in> set (base # us) \<or> x \<in> set (bp # ys)" for x
      using that t(2) lt(2) [of t] spaced_sorted [OF assms(2)] by (auto simp: s2_def snoc u(1) sorted_wrt_append)
    have us: "chain s2 base us t" using u(2) chain_cong [of base us s2 s t] nt by simp
    have ys: "chain s2 bp ys base" using assms(3) chain_cong [of bp ys s2 s base] nt by simp
    have sp: "spaced s2 lo us k = spaced s lo us k" "spaced s2 lo ys hi = spaced s lo ys hi" for lo k using nt by (intro spaced_cong; simp)+
    have bl: "blocks s2 us = blocks s us" "blocks s2 ys = blocks s ys" using nt by (intro blocks_cong; simp)+
    have bs: "h_size (hdr s2 base) = 0" using nt assms(7) by simp
    have e: "unat (t + 8 * h_size (hdr s t)) = bend s t" using u(6) unat_lt_2_32 [of bp] by (intro unat_bend) simp
    show ?thesis
    proof (cases "t + 8 * h_size (hdr s t) = bp")
      case True
      have h: "h_size (hdr s2 t) = h_size (hdr s t) + h_size (hdr s bp)" "h_ptr (hdr s2 t) = h_ptr (hdr s bp)"
        using True by (simp_all add: s2_def)
      have "bend s bp < 2 ^ 32" using spaced_le [OF assms(4)] assms(6) by simp
      note mg = merged [OF h(1) _ this]
      have mg: "bend s2 t = bend s bp" "region s2 t = region s t \<union> region s bp" using mg e True by simp_all
      have "0 < h_size (hdr s2 t)" using mg(1) bend_gt [OF assms(5)] t(1) by (auto simp: bend_def word_less_nat_alt)
      moreover have "chain s2 t ys base" using ys chain_start [of s2 t s2 bp ys base] h(2) nt by simp
      ultimately show ?thesis using us u(3,4) assms(4) bs
        by (intro exI [of _ "us @ t # ys"]) (auto simp: chain_append spaced_append sp bl mg snoc u(1) simp flip: u(1))
    next
      case False
      then have h: "h_size (hdr s2 x) = h_size (hdr s x)" "h_ptr (hdr s2 t) = bp" for x by (simp_all add: s2_def)
      have r: "bend s2 x = bend s x" "region s2 x = region s x" for x by (simp_all add: bend_def region_def h)
      show ?thesis using us ys u(3-6) assms(4,5) bs h
        by (intro exI [of _ "us @ t # bp # ys"]) (auto simp: chain_append spaced_append sp bl r snoc u(1) simp flip: u(1))
    qed
  qed
qed

lemma chain_prefix: "chain s a (xs @ ys) z \<Longrightarrow> chain s a xs (h_ptr (hdr s (last (a # xs))))"
  by (induction xs arbitrary: a) auto

lemma set_freep [simp]:
  "chain (s\<lparr>freep := p\<rparr>) a bs z = chain s a bs z" "spaced (s\<lparr>freep := p\<rparr>) lo bs hi = spaced s lo bs hi"
  "blocks (s\<lparr>freep := p\<rparr>) bs = blocks s bs" "region (s\<lparr>freep := p\<rparr>) b = region s b" "bend (s\<lparr>freep := p\<rparr>) b = bend s b"
  by (auto intro!: chain_cong spaced_cong blocks_cong simp: region_def bend_def)

lemma free_link_ok:
  assumes "chain s base (xs @ ys) base" and "h_size (hdr s base) = 0" and "spaced s (unat base + 8) xs (unat bp)"
    and "spaced s (bend s bp) ys (unat (brk s))" and "0 < h_size (hdr s bp)" and "0 < base"
  defines "t \<equiv> last (base # xs)"
  defines "s' \<equiv> free_link bp t s"
  obtains bs' where "ring base s' bs'" "blocks s' bs' = blocks s (xs @ ys) \<union> region s bp" "brk s' = brk s"
    "set bs' \<subseteq> insert bp (set (xs @ ys))" "\<exists>b \<in> set bs'. region s bp \<subseteq> region s' b"
    "\<And>x. x \<notin> set (base # bp # xs) \<Longrightarrow> hdr s' x = hdr s x" "freep s' = t"
proof -
  have hi: "unat (brk s) < 2 ^ 32" using unat_lt_2_32 [of "brk s"] by simp
  have bb: "base < bp" using spaced_le [OF assms(3)] by (simp add: word_less_nat_alt)
  have gt: "bp < y" if "y \<in> set ys" for y using spaced_mem [OF assms(4) that] bend_gt [OF assms(5)] by (auto simp: word_less_nat_alt)
  have lt: "x < bp" if "x \<in> set xs" for x using spaced_mem [OF assms(3) that] by (auto simp: word_less_nat_alt)
  have ct: "chain s t ys base" using assms(1) by (cases xs rule: rev_cases) (auto simp: t_def chain_append)
  define q s1 where "q = h_ptr (hdr s t)" and "s1 = (if bp + 8 * h_size (hdr s bp) = q
               then upd_hdr bp (\<lambda>h. h\<lparr>h_size := h_size h + h_size (hdr s q), h_ptr := h_ptr (hdr s q)\<rparr>) s
               else upd_hdr bp (\<lambda>h. h\<lparr>h_ptr := q\<rparr>) s)"
  obtain ys1 where s1: "chain s1 bp ys1 base" "spaced s1 (bend s1 bp) ys1 (unat (brk s))" "0 < h_size (hdr s1 bp)" "set ys1 \<subseteq> set ys"
      "region s bp \<subseteq> region s1 bp" "blocks s1 (bp # ys1) = blocks s (bp # ys)"
    using link_right [OF ct assms(4,5) hi bb] gt unfolding q_def [symmetric] s1_def [symmetric] by blast
  have keep: "hdr s1 x = hdr s x" if "x \<noteq> bp" for x using that by (simp add: s1_def)
  have cx: "chain s1 base xs q" using chain_prefix [OF assms(1)] chain_cong [of base xs s1 s q] keep lt bb by (force simp: q_def t_def)
  have sx: "spaced s1 (unat base + 8) xs (unat bp)" "blocks s1 xs = blocks s xs"
    using assms(3) spaced_cong [of xs s1 s] blocks_cong [of xs s1 s] keep lt by force+
  have b1: "h_size (hdr s1 base) = 0" using assms(2) keep bb by auto
  define s2 where "s2 = (if t + 8 * h_size (hdr s1 t) = bp
               then upd_hdr t (\<lambda>h. h\<lparr>h_size := h_size h + h_size (hdr s1 bp), h_ptr := h_ptr (hdr s1 bp)\<rparr>) s1
               else upd_hdr t (\<lambda>h. h\<lparr>h_ptr := bp\<rparr>) s1)"
  obtain bs' where s2: "chain s2 base bs' base" "spaced s2 (unat base + 8) bs' (unat (brk s))" "h_size (hdr s2 base) = 0" "t \<in> set (base # bs')"
      "set bs' \<subseteq> set (xs @ bp # ys1)" "\<exists>b \<in> set bs'. region s1 bp \<subseteq> region s2 b" "blocks s2 bs' = blocks s1 (xs @ bp # ys1)"
    using link_left [OF cx sx(1) s1(1,2,3) hi b1 bb] unfolding t_def [symmetric] s2_def [symmetric] by blast
  have s': "s' = s2\<lparr>freep := t\<rparr>" unfolding s'_def free_link_def Let_def q_def [symmetric] s1_def [symmetric] s2_def [symmetric] ..
  have m: "brk s2 = brk s" "t \<in> set (base # xs)" by (simp_all add: s2_def s1_def t_def)
  show thesis
  proof (rule that [of bs'])
    show "hdr s' x = hdr s x" if "x \<notin> set (base # bp # xs)" for x using that m(2) keep [of x] by (auto simp: s' s2_def)
    show "\<exists>b \<in> set bs'. region s bp \<subseteq> region s' b" using s2(6) s1(5) by (auto simp: s' intro: subset_trans)
  qed (use s2(1-5,7) s1(4,6) sx(2) m(1) assms(6) in \<open>auto simp: s' ring_def\<close>)
qed

lemma ufree_ok:
  assumes "ring base s bs" and "unat base + 8 \<le> unat bp" and "0 < h_size (hdr s bp)" and "bend s bp \<le> unat (brk s)" and "blocks s bs \<inter> region s bp = {}"
  obtains s' bs' where "ufree (bp + 8) s = Some s'" "ring base s' bs'" "blocks s' bs' = blocks s bs \<union> region s bp" "brk s' = brk s"
    "set bs' \<subseteq> insert bp (set bs)" "\<exists>b \<in> set bs'. region s bp \<subseteq> region s' b"
    "\<And>x. x \<notin> set (base # bp # bs) \<Longrightarrow> hdr s' x = hdr s x"
proof -
  have r: "chain s base bs base" "h_size (hdr s base) = 0" "0 < base" "spaced s (unat base + 8) bs (unat (brk s))" using assms(1) by (auto simp: ring_def)
  obtain xs ys where bs: "bs = xs @ ys" "spaced s (unat base + 8) xs (unat bp)" "spaced s (bend s bp) ys (unat (brk s))"
    by (rule insert_split [OF r(4) assms(2-5)])
  have "free_find bp s (freep s) = Some (last (base # xs))" by (rule free_find_place [OF _ bs(2,3) assms(3)]) (use assms(1) bs(1) in simp)
  then have u: "ufree (bp + 8) s = Some (free_link bp (last (base # xs)) s)" by (simp add: ufree_def)
  show thesis by (rule free_link_ok [OF r(1,2) [unfolded bs(1)] bs(2,3) assms(3) r(3)], rule that [OF u]) (auto simp: bs(1))
qed

section \<open>Taking a block\<close>

lemma chain_map: "chain s a bs z \<longleftrightarrow> map (\<lambda>x. h_ptr (hdr s x)) (a # bs) = bs @ [z]"
  by (induction bs arbitrary: a) auto

lemma ring_distinct: "ring base s bs \<Longrightarrow> distinct (base # bs)" "ring base s bs \<Longrightarrow> b \<in> set bs \<Longrightarrow> base < b \<and> b < brk s"
proof -
  assume "ring base s bs"
  then have sp: "spaced s (unat base + 8) bs (unat (brk s))" by (simp add: ring_def)
  show lt: "base < b \<and> b < brk s" if "b \<in> set bs" for b using spaced_mem [OF sp that] by (simp add: word_less_nat_alt)
  show "distinct (base # bs)" using lt [of base] spaced_sorted [OF sp] by (auto simp: strict_sorted_iff)
qed

lemma ring_pred:
  assumes "ring base s (xs @ b # ys)" and "x \<in> set (base # xs @ b # ys)" and "h_ptr (hdr s x) = b"
  shows "x = last (base # xs)"
proof -
  have ch: "chain s base (xs @ b # ys) base" using assms(1) by (simp add: ring_def)
  have "distinct (map (\<lambda>x. h_ptr (hdr s x)) (base # xs @ b # ys))"
    using ring_distinct(1) [OF assms(1)] ch [unfolded chain_map] by auto
  then have inj: "inj_on (\<lambda>x. h_ptr (hdr s x)) (set (base # xs @ b # ys))" by (simp only: distinct_map)
  have l: "h_ptr (hdr s (last (base # xs))) = b" using chain_prefix [OF ch] ch by (cases xs rule: rev_cases) (auto simp: chain_append)
  have "last (base # xs) \<in> set (base # xs @ b # ys)" using last_in_set [of "base # xs"] by auto
  with inj _ assms(2) show ?thesis by (rule inj_onD) (simp only: l assms(3))
qed

lemma chain_unlink:
  assumes "chain s a xs p" and "chain s p ys z" and "distinct (a # xs)" and "last (a # xs) \<notin> set ys"
    and "h_ptr (hdr s' (last (a # xs))) = h_ptr (hdr s p)" and "\<And>x. x \<noteq> last (a # xs) \<Longrightarrow> hdr s' x = hdr s x"
  shows "chain s' a (xs @ ys) z"
  using assms
proof (induction xs arbitrary: a)
  case Nil
  have "h_ptr (hdr s' x) = h_ptr (hdr s x)" if "x \<in> set ys" for x using Nil.prems(4,6) that by (metis last.simps)
  then show ?case using Nil.prems(2,5) chain_start [of s' a s p ys z] by simp
next
  case (Cons b xs)
  have "a \<noteq> last (a # b # xs)" using Cons.prems(3) by (metis distinct.simps(2) last_ConsR last_in_set list.distinct(1))
  then have "h_ptr (hdr s' a) = b" using Cons.prems(1,6) by simp
  moreover have "chain s' b (xs @ ys) z" using Cons.prems by (intro Cons.IH) auto
  ultimately show ?case by simp
qed

text \<open>\<open>takes base s F n r s'\<close>: a block of \<open>n\<close> units, with its first usable byte at \<open>r\<close>, has been
  taken out of the free bytes \<open>F\<close>, and no header outside them has changed.\<close>

definition takes :: "uint \<Rightarrow> umem \<Rightarrow> nat set \<Rightarrow> uint \<Rightarrow> uint \<Rightarrow> umem \<Rightarrow> bool" where
  "takes base s F n r s' \<longleftrightarrow> 8 \<le> r \<and> (\<exists>bs'. ring base s' bs' \<and> h_size (hdr s' (r - 8)) = n \<and> region s' (r - 8) \<subseteq> F \<and>
     blocks s' bs' = F - region s' (r - 8) \<and> (\<forall>x. x \<noteq> base \<longrightarrow> unat x \<notin> F \<longrightarrow> hdr s' x = hdr s x))"

lemma node_in_blocks: "0 < h_size (hdr s b) \<Longrightarrow> b \<in> set bs \<Longrightarrow> unat b \<in> blocks s bs"
  using bend_gt [of s b] by (auto simp: blocks_def region_def)

lemma unat_le_8: "unat (b :: uint) + 8 \<le> unat (z :: uint) \<Longrightarrow> 8 \<le> b + 8 \<and> b + 8 - 8 = b"
  using unat_lt_2_32 [of z] by (simp add: word_le_nat_alt unat_word_ariths)

lemma take_whole:
  assumes "ring base s (xs @ b # ys)"
  defines "t \<equiv> last (base # xs)"
  defines "s' \<equiv> (upd_hdr t (\<lambda>h. h\<lparr>h_ptr := h_ptr (hdr s b)\<rparr>) s)\<lparr>freep := t\<rparr>"
  shows "takes base s (blocks s (xs @ b # ys)) (h_size (hdr s b)) (b + 8) s'"
proof -
  have sp: "spaced s (unat base + 8) (xs @ b # ys) (unat (brk s))" and ch: "chain s base (xs @ b # ys) base"
    and b0: "h_size (hdr s base) = 0" "0 < base" using assms(1) by (auto simp: ring_def)
  obtain m where m: "spaced s (unat base + 8) xs m" "m \<le> unat b" "0 < h_size (hdr s b)" "spaced s (bend s b) ys (unat (brk s))"
    using sp by (auto simp: spaced_append)
  have d: "distinct (base # xs @ b # ys)" by (rule ring_distinct(1) [OF assms(1)])
  have t: "t \<in> set (base # xs)" by (simp add: t_def)
  have hs: "h_size (hdr s' x) = h_size (hdr s x)" for x by (simp add: s'_def)
  then have r: "region s' x = region s x" "bend s' x = bend s x" "blocks s' zs = blocks s zs" for x zs by (simp_all add: region_def bend_def blocks_def)
  have "chain s' base (xs @ ys) base"
    by (rule chain_unlink [of s base xs b, folded t_def]) (use ch d t in \<open>auto simp: chain_append s'_def\<close>)
  moreover have "spaced s' (unat base + 8) (xs @ ys) (unat (brk s))"
    using m spaced_cong [of "xs @ ys" s' s] hs bend_gt [OF m(3)] by (fastforce simp: spaced_append intro: spaced_mono)
  ultimately have ring: "ring base s' (xs @ ys)" using b0 t by (auto simp: ring_def s'_def)
  have dj: "(blocks s xs \<union> blocks s ys) \<inter> region s b = {}"
    using blocks_bounds [OF m(1)] blocks_bounds [OF m(4)] m(2) by (fastforce simp: region_def)
  have "hdr s' x = hdr s x" if "x \<noteq> base" "unat x \<notin> blocks s (xs @ b # ys)" for x
  proof -
    have "x \<notin> set xs" using that(2) node_in_blocks [of s x "xs @ b # ys"] spaced_mem [OF m(1), of x] by (auto simp: bend_def word_less_nat_alt)
    then show ?thesis using t that(1) by (auto simp: s'_def)
  qed
  moreover have "unat b + 8 \<le> unat (brk s)" using bend_gt [OF m(3)] spaced_le [OF m(4)] by simp
  ultimately show ?thesis unfolding takes_def using ring dj unat_le_8 [of b "brk s"]
    by (auto simp: r hs intro!: exI [of _ "xs @ ys"])
qed

lemma take_tail:
  assumes "ring base s (xs @ b # ys)" and "t \<in> set (base # xs @ b # ys)" and "0 < n" and "n < h_size (hdr s b)"
  defines "p \<equiv> b + 8 * (h_size (hdr s b) - n)"
  defines "s' \<equiv> (upd_hdr p (\<lambda>h. h\<lparr>h_size := n\<rparr>) (upd_hdr b (\<lambda>h. h\<lparr>h_size := h_size h - n\<rparr>) s))\<lparr>freep := t\<rparr>"
  shows "takes base s (blocks s (xs @ b # ys)) n (p + 8) s'"
proof -
  have sp: "spaced s (unat base + 8) (xs @ b # ys) (unat (brk s))" and ch: "chain s base (xs @ b # ys) base"
    and b0: "h_size (hdr s base) = 0" "0 < base" using assms(1) by (auto simp: ring_def)
  obtain m where m: "spaced s (unat base + 8) xs m" "m \<le> unat b" "0 < h_size (hdr s b)" "spaced s (bend s b) ys (unat (brk s))"
    using sp by (auto simp: spaced_append)
  define k where "k = unat (h_size (hdr s b)) - unat n"
  have le: "unat n \<le> unat (h_size (hdr s b))" "0 < unat n" "0 < k" using assms(3,4) by (simp_all add: word_less_nat_alt k_def)
  have k: "unat (h_size (hdr s b) - n) = k" using le(1) by (simp add: k_def unat_sub word_le_nat_alt)
  have e: "unat b + 8 * k + 8 * unat n = bend s b" "bend s b \<le> unat (brk s)" using le(1) spaced_le [OF m(4)] by (auto simp: k_def bend_def)
  have "unat (b + 8 * w) = unat b + 8 * k" if "unat w = k" for w :: uint using that e unat_lt_2_32 [of "brk s"] by (simp add: unat_word_ariths)
  then have p: "unat p = unat b + 8 * k" unfolding p_def using k .
  have pb: "p \<noteq> b" "p \<noteq> base" using p le(3) m(2) spaced_le [OF m(1)] by auto
  have px: "x < p" if "x \<in> set xs" for x using spaced_mem [OF m(1) that] m(2) p by (simp add: word_less_nat_alt)
  have py: "p < y" if "y \<in> set ys" for y using spaced_mem [OF m(4) that] e p le(2) by (simp add: word_less_nat_alt)
  have db: "b \<noteq> base" "b \<notin> set xs" "b \<notin> set ys" using ring_distinct(1) [OF assms(1)] by auto
  have hp: "h_ptr (hdr s' x) = h_ptr (hdr s x)" for x by (simp add: s'_def)
  have hs: "h_size (hdr s' p) = n" "h_size (hdr s' b) = h_size (hdr s b) - n" "\<And>x. x \<noteq> p \<Longrightarrow> x \<noteq> b \<Longrightarrow> hdr s' x = hdr s x" using pb by (simp_all add: s'_def)
  have xy: "hdr s' x = hdr s x" if "x \<in> set xs \<union> set ys \<or> x = base" for x using that px [of x] py [of x] pb db by (intro hs(3)) auto
  have be: "bend s' b = unat p" "bend s' p = bend s b" using e by (simp_all add: bend_def hs k p)
  have bl: "blocks s' xs = blocks s xs" "blocks s' ys = blocks s ys" using xy by (intro blocks_cong; simp)+
  have dj: "(blocks s xs \<union> blocks s ys) \<inter> region s b = {}"
    using blocks_bounds [OF m(1)] blocks_bounds [OF m(4)] m(2) by (fastforce simp: region_def)
  have rg: "region s' p \<subseteq> region s b" "region s' b = region s b - region s' p" using be p e le(2) by (auto simp: region_def)
  have sz: "0 < h_size (hdr s' b)" using le(3) by (simp add: hs(2) word_less_nat_alt k)
  have "spaced s' (unat base + 8) xs m = spaced s (unat base + 8) xs m" "spaced s' (unat p) ys (unat (brk s)) = spaced s (unat p) ys (unat (brk s))"
    using xy by (intro spaced_cong; simp)+
  then have "spaced s' (unat base + 8) (xs @ b # ys) (unat (brk s))"
    using m(1,2) sz be(1) e p spaced_mono [OF m(4), of "unat p"] by (auto simp: spaced_append)
  moreover have "chain s' base (xs @ b # ys) base" using ch chain_cong [of base "xs @ b # ys" s' s base] hp by simp
  ultimately have ring: "ring base s' (xs @ b # ys)" using b0 assms(2) xy [of base] by (simp add: ring_def s'_def)
  have "hdr s' x = hdr s x" if "unat x \<notin> blocks s (xs @ b # ys)" for x
  proof (rule hs(3))
    show "x \<noteq> b" using that node_in_blocks [OF m(3), of "xs @ b # ys"] by auto
    have "unat p \<in> region s' p" using be(2) p e le(2) by (simp add: region_def)
    then show "x \<noteq> p" using that rg(1) by auto
  qed
  then show ?thesis unfolding takes_def using ring rg dj hs(1) unat_le_8 [of p "brk s"] p e le(2)
    by (auto simp: bl intro!: exI [of _ "xs @ b # ys"])
qed

lemma malloc_take_ok:
  assumes "ring base s bs" and "b \<in> set (base # bs)" and "t \<in> set (base # bs)" and "h_ptr (hdr s t) = b" and "0 < n" and "n \<le> h_size (hdr s b)"
  shows "takes base s (blocks s bs) n (fst (malloc_take n t b s)) (snd (malloc_take n t b s)) \<and> brk (snd (malloc_take n t b s)) = brk s"
proof -
  have "b \<noteq> base" using assms(1,5,6) by (auto simp: ring_def)
  then obtain xs ys where bs: "bs = xs @ b # ys" using assms(2) by (auto simp: in_set_conv_decomp)
  show ?thesis
  proof (cases "h_size (hdr s b) = n")
    case True
    have t: "t = last (base # xs)" using assms(1,3,4) unfolding bs by (rule ring_pred)
    show ?thesis using True take_whole [of base s xs b ys, folded t] assms(1) by (simp add: malloc_take_def bs)
  next
    case False
    then have "n < h_size (hdr s b)" using assms(6) by simp
    then show ?thesis using False take_tail [of base s xs b ys t n] assms(1,3,5) by (simp add: malloc_take_def Let_def bs)
  qed
qed

section \<open>The search\<close>

lemma ring_rotate:
  assumes "ring base s bs"
  obtains rs where "chain s (freep s) rs (freep s)" "set (freep s # rs) = set (base # bs)" "freep s \<notin> set rs"
proof -
  note d = ring_distinct(1) [OF assms]
  have ch: "chain s base bs base" and f: "freep s \<in> set (base # bs)" using assms by (auto simp: ring_def)
  show thesis
  proof (cases "freep s = base")
    case False
    then obtain us vs where "bs = us @ freep s # vs" using f by (auto simp: in_set_conv_decomp)
    then show thesis using ch d that [of "vs @ base # us"] by (auto simp: chain_append)
  qed (use ch d that [of bs] in auto)
qed

text \<open>From \<open>t\<close> the loop goes along \<open>cs\<close> to the start \<open>freep\<close>; it takes the first block that is large enough or asks for more memory.\<close>

lemma malloc_walk:
  assumes "chain s t cs (freep s)" and "freep s \<notin> set cs"
  shows "(\<exists>u b. u \<in> set (t # cs) \<and> b \<in> set (cs @ [freep s]) \<and> h_ptr (hdr s u) = b \<and> n \<le> h_size (hdr s b) \<and>
            malloc_loop g n t (h_ptr (hdr s t)) s = Some (malloc_take n u b s)) \<or>
     (\<forall>b \<in> set (cs @ [freep s]). h_size (hdr s b) < n) \<and>
       malloc_loop g n t (h_ptr (hdr s t)) s =
         (case morecore g n s of None \<Rightarrow> None
          | Some (p, s) \<Rightarrow> if p = 0 then Some (0, s) else malloc_loop g n p (h_ptr (hdr s p)) s)"
  using assms
proof (induction cs arbitrary: t)
  case Nil
  then show ?case by (subst (1 2) malloc_loop.simps) auto
next
  case (Cons c cs)
  have c: "h_ptr (hdr s t) = c" "c \<noteq> freep s" using Cons.prems by auto
  show ?case
  proof (cases "n \<le> h_size (hdr s c)")
    case True
    then have "malloc_loop g n t (h_ptr (hdr s t)) s = Some (malloc_take n t c s)" by (subst malloc_loop.simps) (simp add: c)
    then show ?thesis using True c by (intro disjI1 exI [of _ t] exI [of _ c]) auto
  next
    case False
    then have st: "malloc_loop g n t (h_ptr (hdr s t)) s = malloc_loop g n c (h_ptr (hdr s c)) s" by (subst malloc_loop.simps) (simp add: c)
    show ?thesis using Cons.IH [of c] Cons.prems False unfolding st by (auto simp: not_le)
  qed
qed

section \<open>More memory\<close>

text \<open>What the kernel promises: a heap that it lets grow ends below the end of the address space.\<close>

definition bounded :: "(uint \<Rightarrow> uint \<Rightarrow> bool) \<Rightarrow> bool" where
  "bounded grants \<longleftrightarrow> (\<forall>b n. grants b n \<longrightarrow> unat b + unat n < 2 ^ 32)"

lemma spaced_upper: "spaced s lo bs hi \<Longrightarrow> hi \<le> hi' \<Longrightarrow> spaced s lo bs hi'"
  by (induction bs arbitrary: lo) auto

lemma ring_grow:
  fixes nu :: uint
  assumes "ring base s bs" and "brk s \<le> z"
  defines "s' \<equiv> upd_hdr (brk s) (\<lambda>h. h\<lparr>h_size := nu\<rparr>) (s\<lparr>brk := z\<rparr>)"
  shows "ring base s' bs" "blocks s' bs = blocks s bs"
proof -
  have "spaced s (unat base + 8) bs (unat (brk s))" using assms(1) by (simp add: ring_def)
  then have sp: "spaced s (unat base + 8) bs (unat z)" "unat base + 8 \<le> unat (brk s)"
    using assms(2) spaced_le spaced_upper by (auto simp: word_le_nat_alt)
  have ne: "hdr s' x = hdr s x" if "x \<in> set (base # bs)" for x
    using that ring_distinct(2) [OF assms(1), of x] sp(2) by (auto simp: s'_def)
  show "blocks s' bs = blocks s bs" using ne by (intro blocks_cong) simp
  show "ring base s' bs" using assms(1) sp ne chain_cong [of base bs s' s base] spaced_cong [of bs s' s] by (auto simp: ring_def s'_def)
qed

lemma morecore_ok:
  assumes "ring base s bs" and "bounded g" and "unat n < 2 ^ 29"
  shows "morecore g n s = Some (0, s) \<or>
    (\<exists>s' bs'. morecore g n s = Some (freep s', s') \<and> ring base s' bs' \<and> brk s \<le> brk s' \<and>
      blocks s' bs' = blocks s bs \<union> {unat (brk s) ..< unat (brk s')} \<and> (\<exists>b \<in> set bs'. n \<le> h_size (hdr s' b)) \<and>
      (\<forall>x. x \<noteq> base \<longrightarrow> unat x \<notin> blocks s' bs' \<longrightarrow> hdr s' x = hdr s x))"
proof -
  define nu where "nu = (if n < 4096 then 4096 else n)"
  have nu: "unat nu < 2 ^ 29" "n \<le> nu" "0 < nu" using assms(3) by (auto simp: nu_def word_less_nat_alt word_le_nat_alt)
  have nu8: "unat (nu * 8) = unat nu * 8" using nu(1) by (simp add: unat_word_ariths)
  show ?thesis
  proof (cases "g (brk s) (nu * 8)")
    case False then show ?thesis by (simp add: morecore_def sbrk_def nu_def [symmetric] Let_def)
  next
    case True
    define z s0 where "z = brk s + nu * 8" and "s0 = upd_hdr (brk s) (\<lambda>h. h\<lparr>h_size := nu\<rparr>) (s\<lparr>brk := z\<rparr>)"
    have "unat (brk s) + 8 * unat nu < 2 ^ 32" using True assms(2) nu8 by (fastforce simp: bounded_def)
    then have z: "unat z = unat (brk s) + 8 * unat nu" using nu8 by (simp add: z_def unat_word_ariths)
    then have le: "brk s \<le> z" by (simp add: word_le_nat_alt)
    note rg = ring_grow [OF assms(1) le, of nu, folded s0_def]
    have h: "h_size (hdr s0 (brk s)) = nu" "brk s0 = z" by (simp_all add: s0_def)
    have r: "region s0 (brk s) = {unat (brk s) ..< unat z}" "bend s0 (brk s) = unat z" using z by (simp_all add: region_def bend_def h)
    have sp: "spaced s (unat base + 8) bs (unat (brk s))" using assms(1) by (simp add: ring_def)
    obtain s' bs' where u: "ufree (brk s + 8) s0 = Some s'" "ring base s' bs'" "blocks s' bs' = blocks s0 bs \<union> region s0 (brk s)" "brk s' = brk s0"
        "\<exists>b \<in> set bs'. region s0 (brk s) \<subseteq> region s' b" "\<And>x. x \<notin> set (base # brk s # bs) \<Longrightarrow> hdr s' x = hdr s0 x"
    proof (rule ufree_ok [OF rg(1), of "brk s"])
      show "blocks s0 bs \<inter> region s0 (brk s) = {}" using blocks_bounds [OF sp] by (fastforce simp: rg(2) r)
    qed (use spaced_le [OF sp] nu(3) in \<open>auto simp: h r\<close>)
    obtain b where b: "b \<in> set bs'" "region s0 (brk s) \<subseteq> region s' b" using u(5) by blast
    have "unat (brk s) < unat z" using z nu(3) by (simp add: word_less_nat_alt)
    then have "unat b \<le> unat (brk s)" "unat z \<le> bend s' b" using b(2) unfolding r region_def by (simp_all add: ivl_subset)
    then have "n \<le> h_size (hdr s' b)" using z nu(2) by (simp add: bend_def word_le_nat_alt)
    moreover have "morecore g n s = Some (freep s', s')" using True u(1)
      by (simp add: morecore_def sbrk_def nu_def [symmetric] Let_def s0_def z_def)
    moreover have "hdr s' x = hdr s x" if "x \<noteq> base" "unat x \<notin> blocks s' bs'" for x
    proof -
      have "x \<notin> set bs" using that(2) node_in_blocks [of s x bs] spaced_mem [OF sp, of x] by (auto simp: u(3) rg(2) bend_def word_less_nat_alt)
      moreover have "x \<noteq> brk s" using that(2) \<open>unat (brk s) < unat z\<close> by (auto simp: u(3) r)
      ultimately show ?thesis using that(1) u(6) [of x] by (simp add: s0_def)
    qed
    ultimately show ?thesis using u(2,3,4) b(1) le by (intro disjI2 exI [of _ s'] exI [of _ bs']) (auto simp: rg(2) r h)
  qed
qed

section \<open>malloc and free together\<close>

lemma takes_cong:
  "takes base s F n r s' \<Longrightarrow> (\<And>x. x \<noteq> base \<Longrightarrow> unat x \<notin> F \<Longrightarrow> hdr s x = hdr s0 x) \<Longrightarrow> takes base s0 F n r s'"
  unfolding takes_def by auto

lemma malloc_search:
  assumes "ring base s bs" and "0 < n" and "\<exists>b \<in> set bs. n \<le> h_size (hdr s b)"
  shows "\<exists>r s'. malloc_loop g n (freep s) (h_ptr (hdr s (freep s))) s = Some (r, s') \<and> takes base s (blocks s bs) n r s' \<and> brk s' = brk s"
proof -
  obtain rs where rs: "chain s (freep s) rs (freep s)" "set (freep s # rs) = set (base # bs)" "freep s \<notin> set rs" by (rule ring_rotate [OF assms(1)])
  have "\<not> (\<forall>b \<in> set (rs @ [freep s]). h_size (hdr s b) < n)" using assms(3) rs(2) by fastforce
  then obtain u b where ub: "u \<in> set (freep s # rs)" "b \<in> set (rs @ [freep s])" "h_ptr (hdr s u) = b" "n \<le> h_size (hdr s b)"
      "malloc_loop g n (freep s) (h_ptr (hdr s (freep s))) s = Some (malloc_take n u b s)"
    using malloc_walk [OF rs(1,3), of n g] by blast
  have "b \<in> set (base # bs)" "u \<in> set (base # bs)" using ub(1,2) unfolding rs(2) [symmetric] by auto
  from malloc_take_ok [OF assms(1) this ub(3) assms(2) ub(4)] show ?thesis using ub(5) by (metis prod.collapse)
qed

lemma malloc_loop_ok:
  assumes "ring base s bs" and "bounded g" and "0 < n" and "unat n < 2 ^ 29"
  shows "\<exists>r s'. malloc_loop g n (freep s) (h_ptr (hdr s (freep s))) s = Some (r, s') \<and> brk s \<le> brk s' \<and>
    (r = 0 \<and> s' = s \<or> takes base s (blocks s bs \<union> {unat (brk s) ..< unat (brk s')}) n r s')"
proof (cases "\<exists>b \<in> set bs. n \<le> h_size (hdr s b)")
  case True then show ?thesis using malloc_search [OF assms(1,3) True, of g] by fastforce
next
  case False
  obtain rs where rs: "chain s (freep s) rs (freep s)" "set (freep s # rs) = set (base # bs)" "freep s \<notin> set rs" by (rule ring_rotate [OF assms(1)])
  have "h_size (hdr s b) < n" if "b \<in> set (rs @ [freep s])" for b
  proof -
    have "b \<in> set (base # bs)" using that unfolding rs(2) [symmetric] by auto
    then show ?thesis using False assms(1,3) by (auto simp: ring_def not_le)
  qed
  then have st: "malloc_loop g n (freep s) (h_ptr (hdr s (freep s))) s =
      (case morecore g n s of None \<Rightarrow> None | Some (p, s) \<Rightarrow> if p = 0 then Some (0, s) else malloc_loop g n p (h_ptr (hdr s p)) s)"
    using malloc_walk [OF rs(1,3), of n g] by (auto simp: not_le [symmetric])
  from morecore_ok [OF assms(1,2,4)] show ?thesis
  proof (elim disjE exE conjE)
    fix s1 bs1 assume m: "morecore g n s = Some (freep s1, s1)" "ring base s1 bs1" "brk s \<le> brk s1"
      "blocks s1 bs1 = blocks s bs \<union> {unat (brk s) ..< unat (brk s1)}" "\<exists>b \<in> set bs1. n \<le> h_size (hdr s1 b)"
      "\<forall>x. x \<noteq> base \<longrightarrow> unat x \<notin> blocks s1 bs1 \<longrightarrow> hdr s1 x = hdr s x"
    obtain r s' where r: "malloc_loop g n (freep s1) (h_ptr (hdr s1 (freep s1))) s1 = Some (r, s')" "takes base s1 (blocks s1 bs1) n r s'" "brk s' = brk s1"
      using malloc_search [OF m(2) assms(3) m(5)] by blast
    have "freep s1 \<noteq> 0" using m(2) ring_distinct(2) [OF m(2), of 0] by (auto simp: ring_def)
    moreover have "takes base s (blocks s1 bs1) n r s'" by (rule takes_cong [OF r(2)]) (use m(6) in simp)
    ultimately show ?thesis using st m(1,3,4) r(1,3) by auto
  qed (simp add: st)
qed

definition prep :: "uint \<Rightarrow> umem \<Rightarrow> umem" where
  "prep base s = (if freep s = 0 then (upd_hdr base (\<lambda>h. h\<lparr>h_ptr := base, h_size := 0\<rparr>) s)\<lparr>freep := base\<rparr> else s)"

definition units :: "uint \<Rightarrow> uint" where
  "units nbytes = (nbytes + 8 - 1) div 8 + 1"

lemma malloc_prep: "malloc g base nbytes s = malloc_loop g (units nbytes) (freep (prep base s)) (h_ptr (hdr (prep base s) (freep (prep base s)))) (prep base s)"
  by (simp add: malloc_def prep_def units_def Let_def)

lemma units_bounds: "nbytes < 0x80000000 \<Longrightarrow> unat nbytes + 8 \<le> 8 * unat (units nbytes) \<and> unat (units nbytes) < 2 ^ 29 \<and> 0 < units nbytes"
proof -
  assume "nbytes < 0x80000000"
  then have "unat nbytes < 0x80000000" by (simp add: word_less_nat_alt)
  then have "unat (units nbytes) = (unat nbytes + 7) div 8 + 1" by (simp add: units_def unat_word_ariths)
  moreover have "unat nbytes \<le> 8 * ((unat nbytes + 7) div 8)" by linarith
  moreover have "(unat nbytes + 7) div 8 < 536870911" using \<open>unat nbytes < 0x80000000\<close> by linarith
  ultimately show ?thesis by (simp add: word_less_nat_alt)
qed

text \<open>Runs of a program that allocates and frees: \<open>L\<close> are the live allocations, with the address that
  \<open>malloc\<close> returned and the number of bytes asked for.\<close>

inductive heap_run :: "(uint \<Rightarrow> uint \<Rightarrow> bool) \<Rightarrow> uint \<Rightarrow> umem \<Rightarrow> (uint \<times> uint) set \<Rightarrow> bool" for g base where
  heap_start: "freep s = 0 \<Longrightarrow> 0 < base \<Longrightarrow> unat base + 8 \<le> unat (brk s) \<Longrightarrow> heap_run g base s {}"
| heap_malloc: "heap_run g base s L \<Longrightarrow> n < 0x80000000 \<Longrightarrow> malloc g base n s = Some (r, s') \<Longrightarrow>
    heap_run g base s' (if r = 0 then L else insert (r, n) L)"
| heap_free: "heap_run g base s L \<Longrightarrow> (r, n) \<in> L \<Longrightarrow> ufree r s = Some s' \<Longrightarrow> heap_run g base s' (L - {(r, n)})"

definition live :: "uint \<Rightarrow> umem \<Rightarrow> uint \<times> uint \<Rightarrow> bool" where
  "live base s = (\<lambda>(r, n). 8 \<le> r \<and> unat base + 8 \<le> unat (r - 8) \<and> unat n + 8 \<le> 8 * unat (h_size (hdr s (r - 8))) \<and> bend s (r - 8) \<le> unat (brk s))"

definition heap_ok :: "uint \<Rightarrow> umem \<Rightarrow> (uint \<times> uint) set \<Rightarrow> uint list \<Rightarrow> bool" where
  "heap_ok base s L bs \<longleftrightarrow> ring base s bs \<and> (\<forall>x \<in> L. live base s x \<and> region s (fst x - 8) \<inter> blocks s bs = {}) \<and>
     (\<forall>x \<in> L. \<forall>y \<in> L. x \<noteq> y \<longrightarrow> region s (fst x - 8) \<inter> region s (fst y - 8) = {})"

lemma live_bytes: "live base s (r, n) \<Longrightarrow> {unat r ..< unat r + unat n} \<subseteq> region s (r - 8) \<and> unat (r - 8) \<in> region s (r - 8) \<and>
    unat (r - 8) + 8 = unat r \<and> 0 < h_size (hdr s (r - 8))"
proof -
  assume l: "live base s (r, n)"
  then have "unat (r - 8) + 8 = unat r" by (simp add: live_def unat_sub word_le_nat_alt)
  then show ?thesis using l by (auto simp: live_def region_def bend_def word_less_nat_alt)
qed

text \<open>Live blocks keep their headers when only headers of free bytes, or that of \<open>base\<close>, change.\<close>

lemma live_kept:
  assumes "live base s (r, n)" and "region s (r - 8) \<inter> F = {}" and "\<And>x. x \<noteq> base \<Longrightarrow> unat x \<notin> F \<Longrightarrow> hdr s' x = hdr s x" and "brk s \<le> brk s'"
  shows "live base s' (r, n) \<and> region s' (r - 8) = region s (r - 8)"
proof -
  have "r - 8 \<noteq> base" using assms(1) by (auto simp: live_def)
  moreover have "unat (r - 8) \<notin> F" using live_bytes [OF assms(1)] assms(2) by auto
  ultimately have "hdr s' (r - 8) = hdr s (r - 8)" by (rule assms(3))
  then show ?thesis using assms(1,4) by (auto simp: live_def region_def bend_def word_le_nat_alt)
qed

lemma malloc_heap:
  assumes "heap_ok base (prep base s) L bs" and "bounded g" and "n < 0x80000000"
  obtains r s' bs' where "malloc g base n s = Some (r, s')" "heap_ok base s' (if r = 0 then L else insert (r, n) L) bs'"
proof -
  let ?s = "prep base s"
  have ring: "ring base ?s bs" using assms(1) by (simp add: heap_ok_def)
  note u = units_bounds [OF assms(3)]
  obtain r s' where m: "malloc g base n s = Some (r, s')" "brk ?s \<le> brk s'"
      "r = 0 \<and> s' = ?s \<or> takes base ?s (blocks ?s bs \<union> {unat (brk ?s) ..< unat (brk s')}) (units n) r s'"
    using malloc_loop_ok [OF ring assms(2), of "units n"] u by (auto simp: malloc_prep)
  define F where "F = blocks ?s bs \<union> {unat (brk ?s) ..< unat (brk s')}"
  from m(3) show thesis
  proof
    assume "r = 0 \<and> s' = ?s" then show thesis using that m(1) assms(1) by auto
  next
    assume "takes base ?s (blocks ?s bs \<union> {unat (brk ?s) ..< unat (brk s')}) (units n) r s'"
    then obtain bs' where t: "8 \<le> r" "ring base s' bs'" "h_size (hdr s' (r - 8)) = units n" "region s' (r - 8) \<subseteq> F"
        "blocks s' bs' = F - region s' (r - 8)" "\<And>x. x \<noteq> base \<Longrightarrow> unat x \<notin> F \<Longrightarrow> hdr s' x = hdr ?s x"
      by (auto simp: takes_def F_def)
    have sp: "spaced ?s (unat base + 8) bs (unat (brk ?s))" using ring by (simp add: ring_def)
    have F: "unat base + 8 \<le> x \<and> x < unat (brk s')" if "x \<in> F" for x
      using that blocks_bounds [OF sp, of x] spaced_le [OF sp] m(2) by (auto simp: F_def word_le_nat_alt)
    have old: "live base s' x \<and> region s' (fst x - 8) = region ?s (fst x - 8) \<and> region ?s (fst x - 8) \<inter> F = {}" if "x \<in> L" for x
    proof -
      obtain q k where x: "x = (q, k)" by fastforce
      have "live base ?s (q, k)" "region ?s (q - 8) \<inter> F = {}" using assms(1) that by (force simp: heap_ok_def x F_def live_def region_def)+
      then show ?thesis using live_kept [of base ?s q k F s'] t(6) m(2) by (simp add: x)
    qed
    have ends: "unat (r - 8) \<in> region s' (r - 8)" "bend s' (r - 8) - 1 \<in> region s' (r - 8)" "0 < bend s' (r - 8)"
      using u t(3) by (auto simp: region_def bend_def word_less_nat_alt)
    have "unat base + 8 \<le> unat (r - 8)" "bend s' (r - 8) - 1 < unat (brk s')" using F t(4) ends(1,2) by blast+
    then have new: "live base s' (r, n)" using t(1,3) u ends(3) by (simp add: live_def)
    have "r \<noteq> 0" using t(1) by auto
    moreover have "heap_ok base s' (insert (r, n) L) bs'"
      using assms(1) t(2,4,5) old new unfolding heap_ok_def by (simp add: Int_commute) blast
    ultimately show thesis using that m(1) by simp
  qed
qed

lemma free_heap:
  assumes "heap_ok base s L bs" and "(r, n) \<in> L"
  obtains s' bs' where "ufree r s = Some s'" "heap_ok base s' (L - {(r, n)}) bs'"
proof -
  have ring: "ring base s bs" and l: "live base s (r, n)" and dj: "blocks s bs \<inter> region s (r - 8) = {}" using assms by (force simp: heap_ok_def)+
  have sp: "spaced s (unat base + 8) bs (unat (brk s))" using ring by (simp add: ring_def)
  note lb = live_bytes [OF l]
  obtain s' bs' where f: "ufree (r - 8 + 8) s = Some s'" "ring base s' bs'" "blocks s' bs' = blocks s bs \<union> region s (r - 8)" "brk s' = brk s"
      "\<And>x. x \<notin> set (base # (r - 8) # bs) \<Longrightarrow> hdr s' x = hdr s x"
    by (rule ufree_ok [OF ring, of "r - 8"]) (use l lb dj in \<open>auto simp: live_def\<close>)
  define F where "F = blocks s bs \<union> region s (r - 8)"
  have keep: "hdr s' x = hdr s x" if "x \<noteq> base" "unat x \<notin> F" for x
  proof (rule f(5))
    have "x \<notin> set bs" using that(2) node_in_blocks [of s x bs] spaced_mem [OF sp, of x] by (auto simp: F_def bend_def word_less_nat_alt)
    then show "x \<notin> set (base # (r - 8) # bs)" using that lb by (auto simp: F_def)
  qed
  have old: "live base s' x \<and> region s' (fst x - 8) = region s (fst x - 8) \<and> region s (fst x - 8) \<inter> F = {}" if "x \<in> L - {(r, n)}" for x
  proof -
    obtain q k where x: "x = (q, k)" by fastforce
    have "live base s (q, k)" "region s (q - 8) \<inter> F = {}" using assms that by (force simp: heap_ok_def x F_def)+
    then show ?thesis using live_kept [of base s q k F s'] keep f(4) by (simp add: x)
  qed
  have "heap_ok base s' (L - {(r, n)}) bs'"
    using assms(1) f(2) old unfolding heap_ok_def f(3) F_def [symmetric] by auto
  then show thesis using that f(1) by simp
qed

lemma heap_run_ok:
  assumes "bounded g" and "heap_run g base s L"
  shows "\<exists>bs. heap_ok base (prep base s) L bs \<and> (L = {} \<or> freep s \<noteq> 0)"
  using assms(2)
proof (induction rule: heap_run.induct)
  case (heap_start s)
  then show ?case by (intro exI [of _ "[]"]) (simp add: heap_ok_def prep_def ring_def)
next
  case (heap_malloc s L n r s')
  obtain bs where "heap_ok base (prep base s) L bs" using heap_malloc.IH by blast
  then obtain bs' where "heap_ok base s' (if r = 0 then L else insert (r, n) L) bs'"
    by (rule malloc_heap [OF _ assms(1) heap_malloc.hyps(2)]) (use heap_malloc.hyps(3) in auto)
  moreover from this have "freep s' \<noteq> 0" using ring_distinct(2) [of base s' bs' 0] by (auto simp: heap_ok_def ring_def)
  ultimately show ?case by (auto simp: prep_def)
next
  case (heap_free s L r n s')
  then obtain bs where "heap_ok base s L bs" by (auto simp: prep_def)
  then obtain bs' where "heap_ok base s' (L - {(r, n)}) bs'" by (rule free_heap [OF _ heap_free.hyps(2)]) (use heap_free.hyps(3) in auto)
  moreover from this have "freep s' \<noteq> 0" using ring_distinct(2) [of base s' bs' 0] by (auto simp: heap_ok_def ring_def)
  ultimately show ?case by (auto simp: prep_def)
qed

section \<open>The allocator is safe\<close>


text \<open>A first allocation of 100 bytes in a heap that ends at 0x2000: 4096 units come from the kernel, the last 14 of them are handed out.\<close>

definition heap0 :: umem where
  "heap0 = \<lparr>hdr = (\<lambda>_. \<lparr>h_ptr = 0, h_size = 0\<rparr>), freep = 0, brk = 0x2000\<rparr>"

definition low_half :: "uint \<Rightarrow> uint \<Rightarrow> bool" where
  "low_half b n \<longleftrightarrow> unat b + unat n < 0x80000000"

lemma malloc_heap0: "\<exists>s'. malloc low_half 0x1000 100 heap0 = Some (0x9F98, s')"
proof -
  have more: "morecore low_half 14 ((upd_hdr 0x1000 (\<lambda>h. h\<lparr>h_ptr := 0x1000, h_size := 0\<rparr>) heap0)\<lparr>freep := 0x1000\<rparr>) =
      Some (0x1000, \<lparr>hdr = (\<lambda>_. \<lparr>h_ptr = 0, h_size = 0\<rparr>)(0x1000 := \<lparr>h_ptr = 0x2000, h_size = 0\<rparr>, 0x2000 := \<lparr>h_ptr = 0x1000, h_size = 4096\<rparr>),
        freep = 0x1000, brk = 0xA000\<rparr>)"
    by (simp add: morecore_def sbrk_def low_half_def heap0_def ufree_def free_find.simps free_link_def upd_hdr_def Let_def fun_eq_iff)
  show ?thesis
    unfolding malloc_def Let_def
    by (subst malloc_loop.simps) (simp add: heap0_def [symmetric] more, simp add: heap0_def, subst malloc_loop.simps, simp add: malloc_take_def Let_def)
qed


text \<open>The size in units wraps around for requests close to \<open>2^32\<close>: a block of one header is taken for them.\<close>

lemma units_wrap: "units 0xFFFFFFFF = 1"
  by (simp add: units_def)

end
