(* ===== verification/Spec2Isabelle.thy ===== *)
theory Spec2Isabelle
  imports Descriptors Filedata Grep Umalloc
begin

text \<open>
  A model of the xv6 kernel of this repository, with the changes made to it: the fair
  scheduler, nice values, \<open>mmap\<close>/\<open>munmap\<close> with the page-fault handler, and \<open>freemem\<close>.

  Plan of the theories, in the order the components depend on each other:
  \<open>Prelude\<close>, \<open>Cstring\<close> (string.c), \<open>Spinlock\<close> (spinlock.c), \<open>Kalloc\<close> (kalloc.c), \<open>Vm\<close> (vm.c),
  \<open>Sched\<close> (the process table and scheduler of proc.c), \<open>Pipe\<close> (pipe.c), \<open>Bio\<close> (bio.c, memide.c),
  \<open>Log\<close> (log.c), \<open>Fs\<close> (fs.c), \<open>File\<close> (file.c), \<open>Mmap\<close> (mmap, munmap, the page-fault
  handler), \<open>Life\<close> (fork, exit, wait), \<open>Syscall\<close> (syscall.c, sysproc.c, sysfile.c), \<open>Exec\<close>
  (exec.c), \<open>Trap\<close> (trap.c), and the user library (umalloc.c, ulib.c, printf.c, sh.c).
\<close>

end
